(* ===== verification/Prelude.thy ===== *)
theory Prelude
  imports Main "HOL-Library.Multiset" "HOL-Library.Char_ord" "HOL-Library.List_Lexorder"
begin

text \<open>
  Shared vocabulary of the development.

  A Go function that may panic, block on a full channel or exit the process returns a
  value of \<open>'a go\<close>, that is \<open>go_error + 'a\<close>: \<open>Inl\<close> is the failure, \<open>Inr\<close> the
  result. \<open>go_bind\<close> sequences such computations; \<open>go_idx\<close>, \<open>go_upd\<close>, \<open>go_from\<close>
  and \<open>go_to\<close> are Go's bounds-checked \<open>xs[i]\<close>, \<open>xs[i] = v\<close>, \<open>xs[i:]\<close> and
  \<open>xs[:i]\<close>. \<open>go_rev_find\<close> is a downward search loop.

  The interfaces shared by several components are locales:
  \<^item> \<open>invariant_system\<close>: a predicate kept by every step holds in every reachable state;
  \<^item> \<open>vote_quorum\<close>: sets of voters any two of which intersect;
  \<^item> \<open>codec\<close>: what is encoded is decoded back (persisted state and snapshots).
\<close>

named_theorems go_simps \<open>evaluation of bounds-checked Go operations\<close>
named_theorems frame_simps \<open>fields an operation leaves alone\<close>

section \<open>Failures of Go code\<close>

datatype go_error =
    IndexOutOfRange
  | SliceOutOfRange
  | NilMapWrite
  | NilDereference
  | ChannelFull
  | NoReceiver
  | ClosedChannel
  | TypeAssertion
  | ExplicitPanic
  | ProcessExit

type_synonym 'a go = "go_error + 'a"

fun go_bind :: "'a go \<Rightarrow> ('a \<Rightarrow> 'b go) \<Rightarrow> 'b go" where
  "go_bind (Inl e) f = Inl e"
| "go_bind (Inr x) f = f x"

definition go_idx :: "'a list \<Rightarrow> int \<Rightarrow> 'a go" where
  "go_idx xs i =
     (if 0 \<le> i \<and> i < int (length xs) then Inr (xs ! nat i) else Inl IndexOutOfRange)"

definition go_upd :: "'a list \<Rightarrow> int \<Rightarrow> 'a \<Rightarrow> 'a list go" where
  "go_upd xs i v =
     (if 0 \<le> i \<and> i < int (length xs) then Inr (xs[nat i := v]) else Inl IndexOutOfRange)"

definition go_from :: "'a list \<Rightarrow> int \<Rightarrow> 'a list go" where
  "go_from xs i =
     (if 0 \<le> i \<and> i \<le> int (length xs) then Inr (drop (nat i) xs) else Inl SliceOutOfRange)"

definition go_to :: "'a list \<Rightarrow> int \<Rightarrow> 'a list go" where
  "go_to xs i =
     (if 0 \<le> i \<and> i \<le> int (length xs) then Inr (take (nat i) xs) else Inl SliceOutOfRange)"

text \<open>The loop \<open>for i := n; i > 0; i-- { if p(i) { return i } }; return -1\<close>.\<close>

fun go_rev_find :: "(nat \<Rightarrow> bool) \<Rightarrow> nat \<Rightarrow> int" where
  "go_rev_find p 0 = -1"
| "go_rev_find p (Suc n) = (if p (Suc n) then int (Suc n) else go_rev_find p n)"

text \<open>Reachable states of a transition system, and the run of a list of events.\<close>

inductive reachable :: "('s \<Rightarrow> bool) \<Rightarrow> ('s \<Rightarrow> 'e \<Rightarrow> 's option) \<Rightarrow> 's \<Rightarrow> bool"
  for ini :: "'s \<Rightarrow> bool" and exec :: "'s \<Rightarrow> 'e \<Rightarrow> 's option" where
  reachable_init: "ini s \<Longrightarrow> reachable ini exec s"
| reachable_step: "reachable ini exec s \<Longrightarrow> exec s e = Some t \<Longrightarrow> reachable ini exec t"

fun run_events :: "('s \<Rightarrow> 'e \<Rightarrow> 's option) \<Rightarrow> 's \<Rightarrow> 'e list \<Rightarrow> 's option" where
  "run_events exec s [] = Some s"
| "run_events exec s (e # es) =
     (case exec s e of None \<Rightarrow> None | Some t \<Rightarrow> run_events exec t es)"

text \<open>A majority of \<open>n\<close> peers, as a set of peer numbers.\<close>

definition majority :: "nat \<Rightarrow> nat set \<Rightarrow> bool" where
  "majority n Q \<longleftrightarrow> Q \<subseteq> {..<n} \<and> n div 2 < card Q"

section \<open>Lemmas on failures and slices\<close>

lemma go_bind_Inr_iff:
  "go_bind m f = Inr y \<longleftrightarrow> (\<exists>x. m = Inr x \<and> f x = Inr y)"
  by (cases m) auto

lemma go_bind_assoc: "go_bind (go_bind m f) g = go_bind m (\<lambda>x. go_bind (f x) g)"
  by (cases m) auto

lemma go_idx_Inr [go_simps]:
  "0 \<le> i \<Longrightarrow> i < int (length xs) \<Longrightarrow> go_idx xs i = Inr (xs ! nat i)"
  by (simp add: go_idx_def)

lemma go_idx_Inr_iff:
  "go_idx xs i = Inr x \<longleftrightarrow> 0 \<le> i \<and> i < int (length xs) \<and> x = xs ! nat i"
  by (auto simp: go_idx_def)

lemma go_upd_Inr [go_simps]:
  "0 \<le> i \<Longrightarrow> i < int (length xs) \<Longrightarrow> go_upd xs i v = Inr (xs[nat i := v])"
  by (simp add: go_upd_def)

lemma go_upd_Inr_iff:
  "go_upd xs i v = Inr ys \<longleftrightarrow> 0 \<le> i \<and> i < int (length xs) \<and> ys = xs[nat i := v]"
  by (auto simp: go_upd_def)

lemma go_from_Inr [go_simps]:
  "0 \<le> i \<Longrightarrow> i \<le> int (length xs) \<Longrightarrow> go_from xs i = Inr (drop (nat i) xs)"
  by (simp add: go_from_def)

lemma go_from_Inr_iff:
  "go_from xs i = Inr ys \<longleftrightarrow> 0 \<le> i \<and> i \<le> int (length xs) \<and> ys = drop (nat i) xs"
  by (auto simp: go_from_def)

lemma go_to_Inr [go_simps]:
  "0 \<le> i \<Longrightarrow> i \<le> int (length xs) \<Longrightarrow> go_to xs i = Inr (take (nat i) xs)"
  by (simp add: go_to_def)

lemma go_to_Inr_iff:
  "go_to xs i = Inr ys \<longleftrightarrow> 0 \<le> i \<and> i \<le> int (length xs) \<and> ys = take (nat i) xs"
  by (auto simp: go_to_def)

lemmas go_Inr_iffs = go_bind_Inr_iff go_idx_Inr_iff go_upd_Inr_iff go_from_Inr_iff go_to_Inr_iff

lemma go_rev_find_cases:
  "go_rev_find p n = -1 \<and> (\<forall>i. 0 < i \<and> i \<le> n \<longrightarrow> \<not> p i) \<or>
   (\<exists>k. go_rev_find p n = int k \<and> 0 < k \<and> k \<le> n \<and> p k \<and> (\<forall>i. k < i \<and> i \<le> n \<longrightarrow> \<not> p i))"
proof (induction n)
  case 0
  then show ?case by simp
next
  case (Suc n)
  show ?case
  proof (cases "p (Suc n)")
    case True
    then have "go_rev_find p (Suc n) = int (Suc n)" by simp
    then show ?thesis
      using True by (intro disjI2 exI [of _ "Suc n"]) auto
  next
    case False
    then show ?thesis
      using Suc by (auto simp: le_Suc_eq)
  qed
qed

lemma go_rev_find_none: "(\<And>i. 0 < i \<Longrightarrow> i \<le> n \<Longrightarrow> \<not> p i) \<Longrightarrow> go_rev_find p n = -1"
  using go_rev_find_cases [of p n] by auto

lemma go_rev_find_le: "go_rev_find p n \<le> int n"
  using go_rev_find_cases [of p n] by auto

section \<open>Reachability\<close>

lemma run_events_reachable:
  "reachable ini exec s \<Longrightarrow> run_events exec s es = Some t \<Longrightarrow> reachable ini exec t"
proof (induction es arbitrary: s)
  case Nil
  then show ?case by simp
next
  case (Cons e es)
  then show ?case
    by (auto split: option.splits intro: reachable.reachable_step)
qed

locale invariant_system =
  fixes ini :: "'s \<Rightarrow> bool"
    and exec :: "'s \<Rightarrow> 'e \<Rightarrow> 's option"
    and inv :: "'s \<Rightarrow> bool"
  assumes inv_init: "ini s \<Longrightarrow> inv s"
    and inv_step: "inv s \<Longrightarrow> exec s e = Some t \<Longrightarrow> inv t"
begin

lemma inv_reachable: "reachable ini exec s \<Longrightarrow> inv s"
  by (induction rule: reachable.induct) (auto intro: inv_init inv_step)

lemma inv_run: "inv s \<Longrightarrow> run_events exec s es = Some t \<Longrightarrow> inv t"
  by (induction es arbitrary: s) (auto split: option.splits intro: inv_step)

end

section \<open>Quorums\<close>

locale vote_quorum =
  fixes quorum :: "'q set \<Rightarrow> bool"
  assumes quorum_meet: "quorum Q \<Longrightarrow> quorum R \<Longrightarrow> \<exists>p. p \<in> Q \<and> p \<in> R"
begin

text \<open>
  A voter gives one vote per ballot: then two candidates that both hold the votes of a
  quorum are the same candidate.
\<close>

lemma quorum_winner_unique:
  assumes "quorum Q" and "quorum R"
    and "\<And>p. p \<in> Q \<Longrightarrow> vote p a"
    and "\<And>p. p \<in> R \<Longrightarrow> vote p b"
    and "\<And>p x y. vote p x \<Longrightarrow> vote p y \<Longrightarrow> x = y"
  shows "a = b"
proof -
  obtain p where "p \<in> Q" and "p \<in> R"
    using quorum_meet assms(1,2) by blast
  then show ?thesis
    using assms(3-5) by blast
qed

end

lemma majority_meet:
  assumes "majority n Q" and "majority n R"
  shows "\<exists>p. p \<in> Q \<and> p \<in> R"
proof (rule ccontr)
  assume "\<not> ?thesis"
  then have disj: "Q \<inter> R = {}" by blast
  have fin: "finite Q" "finite R"
    using assms by (auto simp: majority_def intro: finite_subset)
  have "Q \<union> R \<subseteq> {..<n}"
    using assms by (auto simp: majority_def)
  then have "card (Q \<union> R) \<le> n"
    using card_mono [of "{..<n}" "Q \<union> R"] by simp
  then have "card Q + card R \<le> n"
    using card_Un_disjoint [OF fin disj] by simp
  then show False
    using assms by (auto simp: majority_def)
qed

interpretation maj: vote_quorum "majority n" for n
  by unfold_locales (rule majority_meet)

section \<open>Encoded state\<close>

locale codec =
  fixes enc :: "'a \<Rightarrow> 'b"
    and dec :: "'b \<Rightarrow> 'a option"
  assumes dec_enc: "dec (enc x) = Some x"
begin

lemma enc_inj: "enc x = enc y \<Longrightarrow> x = y"
  by (metis dec_enc option.inject)

end

section \<open>Decimal numbers\<close>

text \<open>\<open>strconv.Itoa\<close>.\<close>

function itoa :: "nat \<Rightarrow> string" where
  "itoa n = (if n < 10 then [char_of (48 + n)] else itoa (n div 10) @ [char_of (48 + n mod 10)])"
  by pat_completeness auto

termination
  by (relation "measure id") auto

declare itoa.simps [simp del]

definition Itoa :: "int \<Rightarrow> string" where
  "Itoa z = (if z < 0 then ''-'' @ itoa (nat (- z)) else itoa (nat z))"

lemma of_char_digit: "d < 10 \<Longrightarrow> of_char (char_of (48 + d)) = (48 + d :: nat)"
  by simp

lemma itoa_digits: "c \<in> set (itoa n) \<Longrightarrow> 48 \<le> (of_char c :: nat) \<and> (of_char c :: nat) \<le> 57"
  by (induction n rule: itoa.induct) (subst (asm) (2) itoa.simps, auto simp: of_char_digit split: if_splits)

lemma itoa_value: "foldl (\<lambda>a c. 10 * a + (of_char c - 48)) 0 (itoa n) = n"
proof (induction n rule: itoa.induct)
  case (1 n)
  then show ?case by (subst itoa.simps) (auto simp: of_char_digit)
qed

lemma itoa_inj: "itoa m = itoa n \<longleftrightarrow> m = n"
  by (metis itoa_value)

lemma itoa_no_dash: "CHR ''-'' \<notin> set (itoa n)"
  using itoa_digits [of "CHR ''-''" n] by auto

end
