(* ===== verification/Raft_State.thy ===== *)
theory Raft_State
  imports Prelude
begin

text \<open>
  The state of one Raft peer (\<open>raft/raft.go\<close>, \<open>raft/state.go\<close>, \<open>raft/common.go\<close>) and its
  persister (\<open>raft/persister.go\<close>), with the helpers that all the handlers share.

  A Go \<open>int\<close> is an \<open>int\<close> here: terms and log indices start at 0 and grow by one, and no
  check of the code depends on their width. The log keeps a dummy entry in front, so the
  entry of index \<open>i\<close> is at position \<open>i - lastSnapshotIndex\<close>. An RPC endpoint is only
  called, so \<open>peers\<close> is the number of endpoints. \<open>electionTimer\<close> counts the resets of
  the timer and \<open>appendEntriesTimer\<close> records what each timer was last reset to: in the
  cluster a timer may fire at any moment. \<open>notifyApplyCh\<close> is the number of messages in
  the channel of capacity 10; a send on the full channel blocks and is the failure
  \<open>ChannelFull\<close>. A gob stream is the sequence of the values encoded; decoding a value of
  another type, or from an exhausted stream, is an error.
\<close>

section \<open>Data\<close>

datatype role = LEADER | FOLLOWER | CANDIDATE

datatype timer = BeatPeriod | FireNow

datatype 'c iface = INil | IStr string | ICmd 'c

record 'c Log =
  lg_Command :: "'c iface"
  lg_Term :: int

record 'c ApplyMsg =
  CommandValid :: bool
  am_Command :: "'c iface"
  CommandIndex :: int

datatype 'c raft_gob = RInt int | RLog "'c Log list"

record ('c, 'd) Persister =
  raftstate :: "'c raft_gob list"
  snapshot :: "'d option"

record ('c, 'd) Raft =
  peers :: nat
  persister :: "('c, 'd) Persister"
  me :: nat
  dead :: bool
  rf_state :: role
  currentTerm :: int
  voteFor :: int
  rlog :: "'c Log list"
  commitIndex :: int
  lastApplied :: int
  nextIndex :: "int list"
  matchIndex :: "int list"
  electionTimer :: nat
  appendEntriesTimer :: "timer list"
  lastSnapshotIndex :: int
  lastSnapshotTerm :: int
  notifyApplyCh :: nat

section \<open>Persister\<close>

definition MakePersister :: "('c, 'd) Persister" where
  "MakePersister = \<lparr>raftstate = [], snapshot = None\<rparr>"

definition Persister_Copy :: "('c, 'd) Persister \<Rightarrow> ('c, 'd) Persister" where
  "Persister_Copy ps =
     MakePersister\<lparr>raftstate := raftstate ps, snapshot := snapshot ps\<rparr>"

definition SaveRaftState :: "'c raft_gob list \<Rightarrow> ('c, 'd) Persister \<Rightarrow> ('c, 'd) Persister" where
  "SaveRaftState s ps = ps\<lparr>raftstate := s\<rparr>"

definition ReadRaftState :: "('c, 'd) Persister \<Rightarrow> 'c raft_gob list" where
  "ReadRaftState ps = raftstate ps"

text \<open>\<open>len(ps.raftstate)\<close>; the byte length of a gob stream is a parameter.\<close>

definition RaftStateSize :: "('c raft_gob list \<Rightarrow> int) \<Rightarrow> ('c, 'd) Persister \<Rightarrow> int" where
  "RaftStateSize bytes ps = bytes (raftstate ps)"

definition ps_SaveStateAndSnapshot ::
  "'c raft_gob list \<Rightarrow> 'd option \<Rightarrow> ('c, 'd) Persister \<Rightarrow> ('c, 'd) Persister" where
  "ps_SaveStateAndSnapshot s sn ps = ps\<lparr>raftstate := s, snapshot := sn\<rparr>"

definition ps_ReadSnapshot :: "('c, 'd) Persister \<Rightarrow> 'd option" where
  "ps_ReadSnapshot ps = snapshot ps"

section \<open>Helpers of the peer\<close>

definition go_min :: "int \<Rightarrow> int \<Rightarrow> int" where
  "go_min x y = (if x < y then x else y)"

definition lastLogTermIndex :: "('c, 'd) Raft \<Rightarrow> (int \<times> int) go" where
  "lastLogTermIndex rf =
     go_bind (go_idx (rlog rf) (int (length (rlog rf)) - 1)) (\<lambda>e.
       Inr (lg_Term e, lastSnapshotIndex rf + int (length (rlog rf)) - 1))"

definition getRealLogIndex :: "('c, 'd) Raft \<Rightarrow> int \<Rightarrow> int" where
  "getRealLogIndex rf index =
     (let idx = index - lastSnapshotIndex rf in if idx < 0 then -1 else idx)"

definition containsXTerm :: "('c, 'd) Raft \<Rightarrow> int \<Rightarrow> int" where
  "containsXTerm rf XTerm =
     go_rev_find (\<lambda>i. lg_Term (rlog rf ! i) = XTerm) (length (rlog rf) - 1)"

definition resetElectionTimer :: "('c, 'd) Raft \<Rightarrow> ('c, 'd) Raft" where
  "resetElectionTimer rf = rf\<lparr>electionTimer := Suc (electionTimer rf)\<rparr>"

definition resetAETimer :: "nat \<Rightarrow> ('c, 'd) Raft \<Rightarrow> ('c, 'd) Raft go" where
  "resetAETimer index rf =
     go_bind (go_upd (appendEntriesTimer rf) (int index) BeatPeriod) (\<lambda>ts.
       Inr (rf\<lparr>appendEntriesTimer := ts\<rparr>))"

definition AENow :: "('c, 'd) Raft \<Rightarrow> ('c, 'd) Raft" where
  "AENow rf = rf\<lparr>appendEntriesTimer := map (\<lambda>_. FireNow) (appendEntriesTimer rf)\<rparr>"

text \<open>\<open>rf.notifyApplyCh <- struct{}{}\<close> on the channel made with capacity 10.\<close>

definition notifyApply :: "('c, 'd) Raft \<Rightarrow> ('c, 'd) Raft go" where
  "notifyApply rf =
     (if notifyApplyCh rf < 10 then Inr (rf\<lparr>notifyApplyCh := Suc (notifyApplyCh rf)\<rparr>)
      else Inl ChannelFull)"

definition GetState :: "('c, 'd) Raft \<Rightarrow> int \<times> bool" where
  "GetState rf = (currentTerm rf, rf_state rf = LEADER)"

definition getPersistData :: "('c, 'd) Raft \<Rightarrow> 'c raft_gob list" where
  "getPersistData rf =
     [RInt (currentTerm rf), RInt (voteFor rf), RInt (commitIndex rf),
      RInt (lastSnapshotTerm rf), RInt (lastSnapshotIndex rf), RLog (rlog rf)]"

definition persist :: "('c, 'd) Raft \<Rightarrow> ('c, 'd) Raft" where
  "persist rf = rf\<lparr>persister := SaveRaftState (getPersistData rf) (persister rf)\<rparr>"

fun readPersist :: "('c, 'd) Raft \<Rightarrow> 'c raft_gob list \<Rightarrow> ('c, 'd) Raft go" where
  "readPersist rf [] = Inr rf"
| "readPersist rf (RInt ct # RInt vf # RInt ci # RInt sterm # RInt sidx # RLog lg # _) =
     Inr (rf\<lparr>currentTerm := ct, voteFor := vf, rlog := lg, commitIndex := ci,
             lastSnapshotIndex := sidx, lastSnapshotTerm := sterm\<rparr>)"
| "readPersist rf _ = Inl ProcessExit"

fun changeRole :: "role \<Rightarrow> ('c, 'd) Raft \<Rightarrow> ('c, 'd) Raft go" where
  "changeRole FOLLOWER rf = Inr (rf\<lparr>rf_state := FOLLOWER\<rparr>)"
| "changeRole CANDIDATE rf =
     Inr (resetElectionTimer
       (rf\<lparr>rf_state := CANDIDATE, currentTerm := currentTerm rf + 1, voteFor := int (me rf)\<rparr>))"
| "changeRole LEADER rf =
     go_bind (lastLogTermIndex rf) (\<lambda>(_, lastLogIndex).
     go_bind (go_upd (replicate (peers rf) 0) (int (me rf)) lastLogIndex) (\<lambda>mi.
       Inr (resetElectionTimer
         (rf\<lparr>rf_state := LEADER, nextIndex := replicate (peers rf) (lastLogIndex + 1),
             matchIndex := mi\<rparr>))))"

definition Kill :: "('c, 'd) Raft \<Rightarrow> ('c, 'd) Raft" where
  "Kill rf = rf\<lparr>dead := True\<rparr>"

definition killed :: "('c, 'd) Raft \<Rightarrow> bool" where
  "killed rf = dead rf"

definition Make :: "nat \<Rightarrow> nat \<Rightarrow> ('c, 'd) Persister \<Rightarrow> ('c, 'd) Raft go" where
  "Make n i ps =
     readPersist
       \<lparr>peers = n, persister = ps, me = i, dead = False, rf_state = FOLLOWER,
        currentTerm = 0, voteFor = -1, rlog = [\<lparr>lg_Command = IStr '''', lg_Term = 0\<rparr>],
        commitIndex = 0, lastApplied = 0, nextIndex = [], matchIndex = [],
        electionTimer = 0, appendEntriesTimer = replicate n BeatPeriod,
        lastSnapshotIndex = 0, lastSnapshotTerm = 0, notifyApplyCh = 0\<rparr>
       (ReadRaftState ps)"

text \<open>
  \<open>Start\<close>: the leader appends the command, updates its own \<open>nextIndex\<close> and \<open>matchIndex\<close>,
  persists and wakes the senders; every peer answers with index, term and role.
\<close>

definition Start :: "('c, 'd) Raft \<Rightarrow> 'c iface \<Rightarrow> (('c, 'd) Raft \<times> int \<times> int \<times> bool) go" where
  "Start rf command =
     go_bind (lastLogTermIndex rf) (\<lambda>(_, lastIndex).
       let term = currentTerm rf; isLeader = (rf_state rf = LEADER); index = lastIndex + 1
       in if \<not> isLeader then Inr (rf, index, term, isLeader)
          else
            go_bind (go_upd (nextIndex rf) (int (me rf)) (index + 1)) (\<lambda>ni.
            go_bind (go_upd (matchIndex rf) (int (me rf)) index) (\<lambda>mi.
              Inr (AENow (persist (rf\<lparr>rlog := rlog rf @ [\<lparr>lg_Command = command, lg_Term = term\<rparr>],
                     nextIndex := ni, matchIndex := mi\<rparr>)), index, term, isLeader))))"

section \<open>Well-formed peers\<close>

text \<open>
  The index of the last log entry and its term (what \<open>lastLogTermIndex\<close> returns on a
  non-empty log), and what the persister holds of the voting state.
\<close>

definition lastIdx :: "('c, 'd) Raft \<Rightarrow> int" where
  "lastIdx rf = lastSnapshotIndex rf + int (length (rlog rf)) - 1"

definition lastTerm :: "('c, 'd) Raft \<Rightarrow> int" where
  "lastTerm rf = lg_Term (last (rlog rf))"

fun saved_vote :: "'c raft_gob list \<Rightarrow> (int \<times> int) option" where
  "saved_vote (RInt ct # RInt vf # _) = Some (ct, vf)"
| "saved_vote _ = None"

fun saved_state :: "'c raft_gob list \<Rightarrow> (int \<times> int \<times> int \<times> int \<times> int \<times> 'c Log list) option" where
  "saved_state [RInt ct, RInt vf, RInt ci, RInt sterm, RInt sidx, RLog lg] =
     Some (ct, vf, ci, sterm, sidx, lg)"
| "saved_state _ = None"

definition save_state :: "int \<times> int \<times> int \<times> int \<times> int \<times> 'c Log list \<Rightarrow> 'c raft_gob list" where
  "save_state = (\<lambda>(ct, vf, ci, sterm, sidx, lg).
     [RInt ct, RInt vf, RInt ci, RInt sterm, RInt sidx, RLog lg])"

definition leader_arrays :: "('c, 'd) Raft \<Rightarrow> bool" where
  "leader_arrays rf \<longleftrightarrow>
     (rf_state rf = LEADER \<longrightarrow> length (nextIndex rf) = peers rf \<and> length (matchIndex rf) = peers rf)"

definition saved_ok :: "'c raft_gob list \<Rightarrow> bool" where
  "saved_ok s \<longleftrightarrow> s = [] \<or>
     (\<exists>ct vf ci sterm sidx lg.
        s = [RInt ct, RInt vf, RInt ci, RInt sterm, RInt sidx, RLog lg] \<and> lg \<noteq> [] \<and> 0 \<le> sidx)"

definition raft_wf :: "('c, 'd) Raft \<Rightarrow> bool" where
  "raft_wf rf \<longleftrightarrow> rlog rf \<noteq> [] \<and> me rf < peers rf \<and> 0 \<le> lastSnapshotIndex rf \<and>
     length (appendEntriesTimer rf) = peers rf \<and> leader_arrays rf \<and>
     saved_ok (raftstate (persister rf))"

text \<open>A small peer of a cluster of three, on which the witnesses evaluate.\<close>

definition demo_peer :: "nat \<Rightarrow> role \<Rightarrow> int \<Rightarrow> nat Log list \<Rightarrow> (nat, nat) Raft" where
  "demo_peer i r t lg =
     \<lparr>peers = 3, persister = MakePersister, me = i, dead = False, rf_state = r,
      currentTerm = t, voteFor = -1, rlog = \<lparr>lg_Command = IStr '''', lg_Term = 0\<rparr> # lg,
      commitIndex = 0, lastApplied = 0, nextIndex = replicate 3 (int (length lg) + 1),
      matchIndex = replicate 3 0, electionTimer = 0, appendEntriesTimer = replicate 3 BeatPeriod,
      lastSnapshotIndex = 0, lastSnapshotTerm = 0, notifyApplyCh = 0\<rparr>"

definition demo_entry :: "nat \<Rightarrow> int \<Rightarrow> nat Log" where
  "demo_entry c t = \<lparr>lg_Command = ICmd c, lg_Term = t\<rparr>"

section \<open>Lemmas on the helpers\<close>

lemma lastLogTermIndex_eq [simp]:
  "rlog rf \<noteq> [] \<Longrightarrow> lastLogTermIndex rf = Inr (lastTerm rf, lastIdx rf)"
proof -
  assume ne: "rlog rf \<noteq> []"
  then have "nat (int (length (rlog rf)) - 1) = length (rlog rf) - 1"
    by (cases "rlog rf") auto
  with ne show ?thesis
    by (simp add: lastLogTermIndex_def go_idx_def lastTerm_def lastIdx_def last_conv_nth Suc_leI)
qed

lemma lastLogTermIndex_Inr_iff:
  "lastLogTermIndex rf = Inr (t, i) \<longleftrightarrow> rlog rf \<noteq> [] \<and> t = lastTerm rf \<and> i = lastIdx rf"
proof (cases "rlog rf = []")
  case True
  then show ?thesis by (simp add: lastLogTermIndex_def go_idx_def)
next
  case False
  then show ?thesis by auto
qed

lemma changeRole_LEADER:
  "rlog rf \<noteq> [] \<Longrightarrow> me rf < peers rf \<Longrightarrow>
   changeRole LEADER rf =
     Inr (resetElectionTimer
       (rf\<lparr>rf_state := LEADER, nextIndex := replicate (peers rf) (lastIdx rf + 1),
           matchIndex := (replicate (peers rf) 0)[me rf := lastIdx rf]\<rparr>))"
  by (simp add: go_upd_Inr)

lemma resetElectionTimer_frame [frame_simps]:
  "peers (resetElectionTimer rf) = peers rf" "persister (resetElectionTimer rf) = persister rf"
  "me (resetElectionTimer rf) = me rf" "rf_state (resetElectionTimer rf) = rf_state rf"
  "currentTerm (resetElectionTimer rf) = currentTerm rf"
  "voteFor (resetElectionTimer rf) = voteFor rf" "rlog (resetElectionTimer rf) = rlog rf"
  "commitIndex (resetElectionTimer rf) = commitIndex rf"
  "lastApplied (resetElectionTimer rf) = lastApplied rf"
  "nextIndex (resetElectionTimer rf) = nextIndex rf"
  "matchIndex (resetElectionTimer rf) = matchIndex rf"
  "appendEntriesTimer (resetElectionTimer rf) = appendEntriesTimer rf"
  "lastSnapshotIndex (resetElectionTimer rf) = lastSnapshotIndex rf"
  "lastSnapshotTerm (resetElectionTimer rf) = lastSnapshotTerm rf"
  "notifyApplyCh (resetElectionTimer rf) = notifyApplyCh rf"
  "dead (resetElectionTimer rf) = dead rf"
  by (simp_all add: resetElectionTimer_def)

lemma persist_frame [frame_simps]:
  "peers (persist rf) = peers rf" "me (persist rf) = me rf"
  "rf_state (persist rf) = rf_state rf" "currentTerm (persist rf) = currentTerm rf"
  "voteFor (persist rf) = voteFor rf" "rlog (persist rf) = rlog rf"
  "commitIndex (persist rf) = commitIndex rf" "lastApplied (persist rf) = lastApplied rf"
  "nextIndex (persist rf) = nextIndex rf" "matchIndex (persist rf) = matchIndex rf"
  "electionTimer (persist rf) = electionTimer rf"
  "appendEntriesTimer (persist rf) = appendEntriesTimer rf"
  "lastSnapshotIndex (persist rf) = lastSnapshotIndex rf"
  "lastSnapshotTerm (persist rf) = lastSnapshotTerm rf"
  "notifyApplyCh (persist rf) = notifyApplyCh rf" "dead (persist rf) = dead rf"
  by (simp_all add: persist_def)

lemma persist_saved [simp]:
  "raftstate (persister (persist rf)) = getPersistData rf"
  "snapshot (persister (persist rf)) = snapshot (persister rf)"
  by (simp_all add: persist_def SaveRaftState_def)

lemma AENow_frame [frame_simps]:
  "peers (AENow rf) = peers rf" "me (AENow rf) = me rf" "persister (AENow rf) = persister rf"
  "rf_state (AENow rf) = rf_state rf" "currentTerm (AENow rf) = currentTerm rf"
  "voteFor (AENow rf) = voteFor rf" "rlog (AENow rf) = rlog rf"
  "commitIndex (AENow rf) = commitIndex rf" "lastApplied (AENow rf) = lastApplied rf"
  "nextIndex (AENow rf) = nextIndex rf" "matchIndex (AENow rf) = matchIndex rf"
  "lastSnapshotIndex (AENow rf) = lastSnapshotIndex rf"
  "lastSnapshotTerm (AENow rf) = lastSnapshotTerm rf"
  "notifyApplyCh (AENow rf) = notifyApplyCh rf" "dead (AENow rf) = dead rf"
  "length (appendEntriesTimer (AENow rf)) = length (appendEntriesTimer rf)"
  by (simp_all add: AENow_def)

lemma saved_vote_getPersistData [simp]:
  "saved_vote (getPersistData rf) = Some (currentTerm rf, voteFor rf)"
  by (simp add: getPersistData_def)

lemma getPersistData_persist [simp]: "getPersistData (persist rf) = getPersistData rf"
  by (simp add: getPersistData_def frame_simps)

lemma saved_ok_getPersistData [simp]:
  "saved_ok (getPersistData rf) \<longleftrightarrow> rlog rf \<noteq> [] \<and> 0 \<le> lastSnapshotIndex rf"
  by (auto simp: saved_ok_def getPersistData_def)

lemma raft_wf_persist [simp]: "raft_wf rf \<Longrightarrow> raft_wf (persist rf)"
  by (simp add: raft_wf_def leader_arrays_def frame_simps)

lemma raft_wf_resetElectionTimer [simp]:
  "raft_wf (resetElectionTimer rf) = raft_wf rf"
  by (simp add: raft_wf_def leader_arrays_def frame_simps)

lemma raft_wf_AENow [simp]: "raft_wf (AENow rf) = raft_wf rf"
  by (simp add: raft_wf_def leader_arrays_def frame_simps)

lemma demo_peer_wf [simp]: "i < 3 \<Longrightarrow> raft_wf (demo_peer i r t lg)"
  by (simp add: demo_peer_def raft_wf_def leader_arrays_def saved_ok_def MakePersister_def)

lemmas demo_simps = demo_peer_def demo_entry_def lastIdx_def lastTerm_def

lemma getRealLogIndex_ge:
  "lastSnapshotIndex rf \<le> i \<Longrightarrow> getRealLogIndex rf i = i - lastSnapshotIndex rf"
  by (simp add: getRealLogIndex_def)

lemma containsXTerm_cases:
  assumes "rlog rf \<noteq> []"
  shows "containsXTerm rf t = -1 \<and> (\<forall>i. 0 < i \<and> i < length (rlog rf) \<longrightarrow> lg_Term (rlog rf ! i) \<noteq> t) \<or>
    (\<exists>k. containsXTerm rf t = int k \<and> 0 < k \<and> k < length (rlog rf) \<and>
         lg_Term (rlog rf ! k) = t)"
proof -
  have "0 < length (rlog rf)" using assms by simp
  then have *: "i \<le> length (rlog rf) - 1 \<longleftrightarrow> i < length (rlog rf)" for i by linarith
  show ?thesis
    using go_rev_find_cases [of "\<lambda>i. lg_Term (rlog rf ! i) = t" "length (rlog rf) - 1"]
    unfolding containsXTerm_def * by blast
qed

section \<open>Persistence\<close>

interpretation raft_codec: codec save_state saved_state
  by unfold_locales (auto simp: save_state_def)

lemma getPersistData_save_state:
  "getPersistData rf =
     save_state (currentTerm rf, voteFor rf, commitIndex rf, lastSnapshotTerm rf,
                 lastSnapshotIndex rf, rlog rf)"
  by (simp add: getPersistData_def save_state_def)

lemma readPersist_saved:
  "s \<noteq> [] \<Longrightarrow> saved_state s = Some (ct, vf, ci, sterm, sidx, lg) \<Longrightarrow>
   readPersist rf s =
     Inr (rf\<lparr>currentTerm := ct, voteFor := vf, rlog := lg, commitIndex := ci,
             lastSnapshotIndex := sidx, lastSnapshotTerm := sterm\<rparr>)"
  by (induction s rule: saved_state.induct) auto

lemma Make_wf:
  assumes "i < n" and "saved_ok (raftstate ps)"
  shows "\<exists>rf. Make n i ps = Inr rf \<and> raft_wf rf \<and> me rf = i \<and> peers rf = n \<and>
           rf_state rf = FOLLOWER \<and> persister rf = ps \<and>
           (currentTerm rf, voteFor rf) = (case saved_vote (raftstate ps) of None \<Rightarrow> (0, -1) | Some v \<Rightarrow> v)"
  using assms
  by (auto simp: Make_def ReadRaftState_def saved_ok_def raft_wf_def leader_arrays_def)

section \<open>Properties of the peer\<close>

text \<open>
  C13. Crash recovery: a peer restarted by \<open>Make\<close> on the persister of a peer that has just
  run \<open>persist\<close> has the same term, vote, commit index, snapshot position and log as that
  peer, is a follower, and has applied nothing yet. The stream is read back field by field
  in the order in which it was written.
\<close>

theorem persist_Make_roundtrip:
  "Make n i (persister (persist rf)) =
     Inr \<lparr>peers = n, persister = persister (persist rf), me = i, dead = False,
          rf_state = FOLLOWER, currentTerm = currentTerm rf, voteFor = voteFor rf,
          rlog = rlog rf, commitIndex = commitIndex rf, lastApplied = 0,
          nextIndex = [], matchIndex = [], electionTimer = 0,
          appendEntriesTimer = replicate n BeatPeriod,
          lastSnapshotIndex = lastSnapshotIndex rf, lastSnapshotTerm = lastSnapshotTerm rf,
          notifyApplyCh = 0\<rparr>"
proof -
  have "saved_state (getPersistData rf) =
      Some (currentTerm rf, voteFor rf, commitIndex rf, lastSnapshotTerm rf,
            lastSnapshotIndex rf, rlog rf)"
    unfolding getPersistData_save_state by (rule raft_codec.dec_enc)
  moreover have "getPersistData rf \<noteq> []"
    by (simp add: getPersistData_def)
  ultimately show ?thesis
    by (simp add: Make_def ReadRaftState_def readPersist_saved)
qed

lemma Start_wf:
  assumes "raft_wf rf"
  shows "\<exists>rf'. Start rf c = Inr (rf', lastIdx rf + 1, currentTerm rf, rf_state rf = LEADER) \<and>
           raft_wf rf'"
  using assms
  by (cases "rf_state rf = LEADER")
    (auto simp: Start_def Let_def raft_wf_def leader_arrays_def go_upd_Inr frame_simps)

end
