(* ===== verification/Raft_Election.thy ===== *)
theory Raft_Election
  imports Raft_State
begin

text \<open>
  Leader election (\<open>raft/raft.go\<close>): the \<open>RequestVote\<close> handler, the treatment of a vote
  reply in \<open>SendRequest\<close> and the two critical sections of \<open>Election\<close>.

  \<open>Election\<close> runs without the lock while it waits for replies, so it is split where the
  lock is released: \<open>Election_begin\<close> (lock1), one \<open>SendRequest_reply\<close> per reply in the
  order of arrival, \<open>SendRequest_finish\<close>, and \<open>Election_end\<close> (lock2). \<open>Election\<close> is their
  composition when no other handler runs in between; \<open>Raft_Cluster\<close> interleaves them.

  \<open>vote_frame\<close> is what every other handler does to the voting state: it keeps term and
  vote or moves to a larger term, it never makes a leader or a candidate, and what it
  persists is the new term and vote.
\<close>

section \<open>Messages\<close>

record RequestVoteArgs =
  rva_Term :: int
  CandidateId :: int
  LastLogIndex :: int
  LastLogterm :: int

record RequestVoteReply =
  rvr_Term :: int
  VoteGranted :: bool

section \<open>Handlers\<close>

definition logUpToDate :: "('c, 'd) Raft \<Rightarrow> RequestVoteArgs \<Rightarrow> bool" where
  "logUpToDate rf args \<longleftrightarrow>
     lastTerm rf < LastLogterm args \<or>
     (lastTerm rf = LastLogterm args \<and> lastIdx rf \<le> LastLogIndex args)"

definition RequestVote ::
  "('c, 'd) Raft \<Rightarrow> RequestVoteArgs \<Rightarrow> (('c, 'd) Raft \<times> RequestVoteReply) go" where
  "RequestVote rf args =
     go_bind (lastLogTermIndex rf) (\<lambda>(lastLogTerm, lastLogIndex).
       let reply = \<lparr>rvr_Term = 0, VoteGranted = False\<rparr>;
           decide = (\<lambda>rf.
             if voteFor rf = -1 \<and>
                (lastLogTerm < LastLogterm args \<or>
                 lastLogTerm = LastLogterm args \<and> lastLogIndex \<le> LastLogIndex args)
             then go_bind (changeRole FOLLOWER (rf\<lparr>voteFor := CandidateId args\<rparr>)) (\<lambda>rf.
                    Inr (persist (resetElectionTimer rf), reply\<lparr>VoteGranted := True\<rparr>))
             else Inr (persist rf, reply))
       in if rva_Term args < currentTerm rf then Inr (persist rf, reply)
          else if rva_Term args > currentTerm rf then
            go_bind (changeRole FOLLOWER (rf\<lparr>currentTerm := rva_Term args\<rparr>)) (\<lambda>rf.
              decide (rf\<lparr>voteFor := -1\<rparr>))
          else if voteFor rf = CandidateId args then
            go_bind (changeRole FOLLOWER rf) (\<lambda>rf.
              Inr (persist (resetElectionTimer rf), reply\<lparr>VoteGranted := True\<rparr>))
          else if voteFor rf \<noteq> -1 then Inr (persist rf, reply)
          else decide rf)"

text \<open>
  One reply in \<open>SendRequest\<close>: \<open>None\<close> is a failed call. The state is the peer, the number of
  votes and the flag \<open>another\<close>.
\<close>

fun SendRequest_reply ::
  "RequestVoteArgs \<Rightarrow> ('c, 'd) Raft \<times> int \<times> bool \<Rightarrow> RequestVoteReply option \<Rightarrow>
   ('c, 'd) Raft \<times> int \<times> bool" where
  "SendRequest_reply args (rf, res, another) None = (rf, res, another)"
| "SendRequest_reply args (rf, res, another) (Some reply) =
     (if rvr_Term reply > rva_Term args then
        (if rvr_Term reply > currentTerm rf
         then (rf\<lparr>currentTerm := rvr_Term reply, rf_state := FOLLOWER\<rparr>, res, True)
         else (rf, res, another))
      else if VoteGranted reply then (rf, res + 1, another)
      else (rf, res, another))"

definition SendRequest_finish :: "('c, 'd) Raft \<Rightarrow> bool \<Rightarrow> ('c, 'd) Raft" where
  "SendRequest_finish rf another =
     (if another then persist (resetElectionTimer rf) else rf)"

definition SendRequest ::
  "('c, 'd) Raft \<Rightarrow> RequestVoteArgs \<Rightarrow> RequestVoteReply option list \<Rightarrow> ('c, 'd) Raft \<times> int" where
  "SendRequest rf args replies =
     (case foldl (SendRequest_reply args) (rf, 0, False) replies of
        (rf, res, another) \<Rightarrow> (SendRequest_finish rf another, res))"

definition Election_begin ::
  "('c, 'd) Raft \<Rightarrow> (('c, 'd) Raft \<times> RequestVoteArgs option) go" where
  "Election_begin rf =
     (let rf = resetElectionTimer rf
      in if rf_state rf = LEADER then Inr (rf, None)
         else go_bind (changeRole CANDIDATE rf) (\<lambda>rf.
              let rf = persist rf
              in go_bind (lastLogTermIndex rf) (\<lambda>(lastTrm, lastIndex).
                   Inr (rf, Some \<lparr>rva_Term = currentTerm rf, CandidateId = int (me rf),
                                  LastLogIndex = lastIndex, LastLogterm = lastTrm\<rparr>))))"

definition Election_end ::
  "('c, 'd) Raft \<Rightarrow> RequestVoteArgs \<Rightarrow> int \<Rightarrow> ('c, 'd) Raft go" where
  "Election_end rf args cnt =
     go_bind
       (if rf_state rf = CANDIDATE \<and> currentTerm rf = rva_Term args \<and>
           cnt \<ge> int (peers rf div 2)
        then go_bind (changeRole LEADER rf) (\<lambda>rf. Inr (persist rf))
        else Inr rf)
       (\<lambda>rf. Inr (if rf_state rf = LEADER then AENow rf else rf))"

definition Election ::
  "('c, 'd) Raft \<Rightarrow> RequestVoteReply option list \<Rightarrow> ('c, 'd) Raft go" where
  "Election rf replies =
     go_bind (Election_begin rf) (\<lambda>(rf, sent).
       case sent of
         None \<Rightarrow> Inr rf
       | Some args \<Rightarrow>
           (case SendRequest rf args replies of (rf, cnt) \<Rightarrow> Election_end rf args cnt))"

section \<open>The effect of the other handlers on votes\<close>

definition vote_frame :: "('c, 'd) Raft \<Rightarrow> ('c, 'd) Raft \<Rightarrow> bool" where
  "vote_frame rf rf' \<longleftrightarrow> me rf' = me rf \<and> peers rf' = peers rf \<and>
     (currentTerm rf' = currentTerm rf \<and> voteFor rf' = voteFor rf \<or>
      currentTerm rf < currentTerm rf') \<and>
     (rf_state rf' \<noteq> FOLLOWER \<longrightarrow>
        rf_state rf' = rf_state rf \<and> currentTerm rf' = currentTerm rf) \<and>
     (saved_vote (raftstate (persister rf')) = saved_vote (raftstate (persister rf)) \<or>
      saved_vote (raftstate (persister rf')) = Some (currentTerm rf', voteFor rf'))"

lemma vote_frame_refl [simp]: "vote_frame rf rf"
  by (simp add: vote_frame_def)

lemma vote_frame_trans:
  "vote_frame a b \<Longrightarrow> saved_vote (raftstate (persister c)) = Some (currentTerm c, voteFor c) \<or>
     saved_vote (raftstate (persister c)) = saved_vote (raftstate (persister b)) \<Longrightarrow>
   me c = me b \<Longrightarrow> peers c = peers b \<Longrightarrow> currentTerm c = currentTerm b \<Longrightarrow>
   voteFor c = voteFor b \<Longrightarrow> rf_state c = rf_state b \<Longrightarrow> vote_frame a c"
  by (auto simp: vote_frame_def)

lemma vote_frame_same:
  "me rf' = me rf \<Longrightarrow> peers rf' = peers rf \<Longrightarrow> currentTerm rf' = currentTerm rf \<Longrightarrow>
   voteFor rf' = voteFor rf \<Longrightarrow> rf_state rf' = rf_state rf \<or> rf_state rf' = FOLLOWER \<Longrightarrow>
   saved_vote (raftstate (persister rf')) = saved_vote (raftstate (persister rf)) \<or>
   saved_vote (raftstate (persister rf')) = Some (currentTerm rf', voteFor rf') \<Longrightarrow>
   vote_frame rf rf'"
  by (auto simp: vote_frame_def)

section \<open>Voting\<close>

text \<open>When a vote is granted, in terms of the state before.\<close>

definition grants :: "('c, 'd) Raft \<Rightarrow> RequestVoteArgs \<Rightarrow> bool" where
  "grants rf args \<longleftrightarrow>
     rva_Term args = currentTerm rf \<and> voteFor rf = CandidateId args \<or>
     (currentTerm rf < rva_Term args \<or> currentTerm rf = rva_Term args \<and> voteFor rf = -1) \<and>
     logUpToDate rf args"

lemma RequestVote_outcome:
  assumes "raft_wf rf"
  shows "\<exists>rf' reply. RequestVote rf args = Inr (rf', reply) \<and>
     VoteGranted reply = grants rf args \<and> rvr_Term reply = 0 \<and>
     currentTerm rf' = max (currentTerm rf) (rva_Term args) \<and>
     voteFor rf' = (if grants rf args then CandidateId args
                    else if currentTerm rf < rva_Term args then -1 else voteFor rf) \<and>
     (grants rf args \<or> currentTerm rf < rva_Term args \<longrightarrow> rf_state rf' = FOLLOWER) \<and>
     (\<not> grants rf args \<and> rva_Term args \<le> currentTerm rf \<longrightarrow> rf_state rf' = rf_state rf) \<and>
     rlog rf' = rlog rf \<and> commitIndex rf' = commitIndex rf \<and>
     saved_vote (raftstate (persister rf')) = Some (currentTerm rf', voteFor rf') \<and>
     me rf' = me rf \<and> peers rf' = peers rf \<and> raft_wf rf'"
proof -
  have "rlog rf \<noteq> []" using assms by (simp add: raft_wf_def)
  then show ?thesis
    using assms
    by (cases "rva_Term args" "currentTerm rf" rule: linorder_cases)
      (auto simp: RequestVote_def grants_def logUpToDate_def Let_def frame_simps max_def
         raft_wf_def leader_arrays_def)
qed

lemma RequestVote_not_granted_frame:
  assumes "raft_wf rf" and "RequestVote rf args = Inr (rf', reply)" and "\<not> VoteGranted reply"
  shows "vote_frame rf rf'"
  using RequestVote_outcome [OF assms(1), of args] assms(2,3)
  by (auto simp: vote_frame_def)

lemma SendRequest_reply_vote_frame:
  "SendRequest_reply args (rf, res, another) r = (rf', res', another') \<Longrightarrow>
   vote_frame rf rf' \<and> rlog rf' = rlog rf"
  by (cases r) (auto simp: vote_frame_def split: if_splits)

lemma SendRequest_reply_wf:
  "SendRequest_reply args (rf, res, another) r = (rf', res', another') \<Longrightarrow>
   raft_wf rf \<Longrightarrow> raft_wf rf'"
  by (cases r) (auto simp: raft_wf_def leader_arrays_def split: if_splits)

lemma SendRequest_finish_frame:
  "vote_frame rf (SendRequest_finish rf another)"
  by (auto simp: SendRequest_finish_def vote_frame_def frame_simps)

lemma SendRequest_finish_wf: "raft_wf rf \<Longrightarrow> raft_wf (SendRequest_finish rf another)"
  by (simp add: SendRequest_finish_def)

text \<open>
  A reply made by \<open>RequestVote\<close> has term 0, so it never deposes the candidate: the branch
  of \<open>SendRequest\<close> that adopts a larger term is dead code.
\<close>

lemma SendRequest_reply_RequestVote:
  assumes "raft_wf p" and "RequestVote p args = Inr (p', reply)" and "0 \<le> rva_Term args"
  shows "SendRequest_reply args (rf, res, another) (Some reply) =
    (rf, if VoteGranted reply then res + 1 else res, another)"
  using RequestVote_outcome [OF assms(1), of args] assms(2,3) by auto

text \<open>
  C8. The \<open>RequestVote\<close> handler, on every branch. It always returns. It grants the vote
  exactly when the candidate already has this peer's recorded vote in the current term, or
  the peer moves to a larger term or has no recorded vote, and the candidate's log is at
  least as up to date. After it, the term is the larger of the two, a granted vote is
  recorded for the candidate, the peer is then a follower, the log is untouched, and term
  and vote are on stable storage before the reply leaves. The reply's term field is never
  filled in.
\<close>

theorem RequestVote_spec:
  assumes "raft_wf rf"
  shows "\<exists>rf' reply. RequestVote rf args = Inr (rf', reply) \<and>
     VoteGranted reply = grants rf args \<and> rvr_Term reply = 0 \<and>
     currentTerm rf' = max (currentTerm rf) (rva_Term args) \<and>
     voteFor rf' = (if grants rf args then CandidateId args
                    else if currentTerm rf < rva_Term args then -1 else voteFor rf) \<and>
     (grants rf args \<or> currentTerm rf < rva_Term args \<longrightarrow> rf_state rf' = FOLLOWER) \<and>
     (\<not> grants rf args \<and> rva_Term args \<le> currentTerm rf \<longrightarrow> rf_state rf' = rf_state rf) \<and>
     rlog rf' = rlog rf \<and> commitIndex rf' = commitIndex rf \<and>
     saved_vote (raftstate (persister rf')) = Some (currentTerm rf', voteFor rf') \<and>
     me rf' = me rf \<and> peers rf' = peers rf \<and> raft_wf rf'"
  using assms by (rule RequestVote_outcome)

theorem RequestVote_spec_witness:
  "\<exists>rf' reply. RequestVote (demo_peer 1 FOLLOWER 1 [demo_entry 7 1])
       \<lparr>rva_Term = 2, CandidateId = 0, LastLogIndex = 1, LastLogterm = 1\<rparr> = Inr (rf', reply) \<and>
     VoteGranted reply \<and> currentTerm rf' = 2 \<and> voteFor rf' = 0 \<and> rf_state rf' = FOLLOWER"
  using RequestVote_spec [of "demo_peer 1 FOLLOWER 1 [demo_entry 7 1]"
      "\<lparr>rva_Term = 2, CandidateId = 0, LastLogIndex = 1, LastLogterm = 1\<rparr>"]
  by (auto simp: grants_def logUpToDate_def demo_simps raft_wf_def leader_arrays_def
      saved_ok_def MakePersister_def)

section \<open>Elections\<close>

lemma Election_begin_cases:
  assumes "raft_wf rf"
  shows "rf_state rf = LEADER \<and> Election_begin rf = Inr (resetElectionTimer rf, None) \<or>
    rf_state rf \<noteq> LEADER \<and>
    (\<exists>rf'. Election_begin rf =
        Inr (rf', Some \<lparr>rva_Term = currentTerm rf + 1, CandidateId = int (me rf),
                        LastLogIndex = lastIdx rf, LastLogterm = lastTerm rf\<rparr>) \<and>
       currentTerm rf' = currentTerm rf + 1 \<and> voteFor rf' = int (me rf) \<and>
       rf_state rf' = CANDIDATE \<and> rlog rf' = rlog rf \<and>
       lastSnapshotIndex rf' = lastSnapshotIndex rf \<and> commitIndex rf' = commitIndex rf \<and>
       saved_vote (raftstate (persister rf')) = Some (currentTerm rf', voteFor rf') \<and>
       me rf' = me rf \<and> peers rf' = peers rf \<and> raft_wf rf')"
proof (cases "rf_state rf = LEADER")
  case True
  then show ?thesis by (simp add: Election_begin_def Let_def frame_simps)
next
  case False
  then show ?thesis
    using assms
    by (auto simp: Election_begin_def Let_def frame_simps raft_wf_def leader_arrays_def
        lastIdx_def lastTerm_def)
qed

lemma Election_end_cases:
  assumes "raft_wf rf"
  shows "\<exists>rf'. Election_end rf args cnt = Inr rf' \<and> raft_wf rf' \<and> rlog rf' = rlog rf \<and>
    lastSnapshotIndex rf' = lastSnapshotIndex rf \<and>
    currentTerm rf' = currentTerm rf \<and> voteFor rf' = voteFor rf \<and> me rf' = me rf \<and>
    peers rf' = peers rf \<and> commitIndex rf' = commitIndex rf \<and>
    (saved_vote (raftstate (persister rf')) = saved_vote (raftstate (persister rf)) \<or>
     saved_vote (raftstate (persister rf')) = Some (currentTerm rf', voteFor rf')) \<and>
    (if rf_state rf = CANDIDATE \<and> currentTerm rf = rva_Term args \<and> int (peers rf div 2) \<le> cnt
     then rf_state rf' = LEADER \<and> nextIndex rf' = replicate (peers rf) (lastIdx rf + 1) \<and>
          matchIndex rf' = (replicate (peers rf) 0)[me rf := lastIdx rf]
     else rf_state rf' = rf_state rf \<and> nextIndex rf' = nextIndex rf \<and> matchIndex rf' = matchIndex rf)"
  using assms
  by (auto simp: Election_end_def raft_wf_def leader_arrays_def changeRole_LEADER frame_simps
      simp del: changeRole.simps)

text \<open>The number of votes \<open>SendRequest\<close> returns for replies that do not carry a larger term.\<close>

lemma foldl_SendRequest_reply:
  "(\<And>r. Some r \<in> set replies \<Longrightarrow> rvr_Term r \<le> rva_Term args) \<Longrightarrow>
   foldl (SendRequest_reply args) (rf, res, another) replies =
     (rf, res + int (length (filter (\<lambda>r. \<exists>v. r = Some v \<and> VoteGranted v) replies)), another)"
proof (induction replies arbitrary: res)
  case Nil
  then show ?case by simp
next
  case (Cons r rs)
  have step: "SendRequest_reply args (rf, res, another) r =
      (rf, res + (if \<exists>v. r = Some v \<and> VoteGranted v then 1 else 0), another)"
  proof (cases r)
    case None
    then show ?thesis by simp
  next
    case (Some v)
    then have "\<not> rva_Term args < rvr_Term v"
      using Cons.prems [of v] by simp
    then show ?thesis by (simp add: Some)
  qed
  show ?case
    using Cons.IH [of "res + (if \<exists>v. r = Some v \<and> VoteGranted v then 1 else 0)"] Cons.prems
    by (simp only: foldl_Cons step) auto
qed

text \<open>
  C9. An uninterrupted election on a peer that is not the leader: it moves to the next
  term and votes for itself, and it becomes the leader of that term exactly when the
  replies (none with a larger term) bring the votes, with its own, above half of the
  peers. The new leader's \<open>nextIndex\<close> is the index after its last entry for every peer.
\<close>

theorem Election_wins_iff_majority:
  assumes "raft_wf rf" and "rf_state rf \<noteq> LEADER"
    and "\<And>r. Some r \<in> set replies \<Longrightarrow> rvr_Term r \<le> currentTerm rf + 1"
  shows "\<exists>rf'. Election rf replies = Inr rf' \<and> currentTerm rf' = currentTerm rf + 1 \<and>
     voteFor rf' = int (me rf) \<and> rlog rf' = rlog rf \<and>
     (rf_state rf' = LEADER \<longleftrightarrow>
        peers rf div 2 < Suc (length (filter (\<lambda>r. \<exists>v. r = Some v \<and> VoteGranted v) replies))) \<and>
     (rf_state rf' = LEADER \<longrightarrow> nextIndex rf' = replicate (peers rf) (lastIdx rf + 1))"
proof -
  let ?n = "length (filter (\<lambda>r. \<exists>v. r = Some v \<and> VoteGranted v) replies)"
  let ?args = "\<lparr>rva_Term = currentTerm rf + 1, CandidateId = int (me rf),
                LastLogIndex = lastIdx rf, LastLogterm = lastTerm rf\<rparr>"
  obtain rf1 where beg: "Election_begin rf = Inr (rf1, Some ?args)"
    and t1: "currentTerm rf1 = currentTerm rf + 1" "voteFor rf1 = int (me rf)"
      "rf_state rf1 = CANDIDATE" "rlog rf1 = rlog rf" "peers rf1 = peers rf" "raft_wf rf1"
      "lastSnapshotIndex rf1 = lastSnapshotIndex rf"
    using Election_begin_cases [OF assms(1)] assms(2) by auto
  have last: "lastIdx rf1 = lastIdx rf"
    using t1 by (simp add: lastIdx_def)
  have "foldl (SendRequest_reply ?args) (rf1, 0, False) replies = (rf1, 0 + int ?n, False)"
    using assms(3) by (intro foldl_SendRequest_reply) simp
  then have snd: "SendRequest rf1 ?args replies = (rf1, int ?n)"
    by (simp add: SendRequest_def SendRequest_finish_def)
  have "Election rf replies = Election_end rf1 ?args (int ?n)"
    by (simp add: Election_def beg snd)
  then show ?thesis
    using Election_end_cases [OF t1(6), of ?args "int ?n"] t1 last
    by (auto simp: less_Suc_eq_le split: if_splits)
qed

theorem Election_wins_iff_majority_witness:
  "\<exists>rf'. Election (demo_peer 0 FOLLOWER 1 []) [None, Some \<lparr>rvr_Term = 0, VoteGranted = True\<rparr>] = Inr rf' \<and>
     currentTerm rf' = 2 \<and> rf_state rf' = LEADER \<and> nextIndex rf' = [1, 1, 1]"
proof -
  have "raft_wf (demo_peer 0 FOLLOWER 1 [])" by simp
  from Election_wins_iff_majority [OF this, of "[None, Some \<lparr>rvr_Term = 0, VoteGranted = True\<rparr>]"]
  show ?thesis by (auto simp: demo_simps numeral_3_eq_3)
qed

end
