(* ===== verification/Raft_AppendEntries.thy ===== *)
theory Raft_AppendEntries
  imports Raft_Election
begin

text \<open>
  Log replication (\<open>raft/append_entries.go\<close>, \<open>getAEInfo\<close> of \<open>raft/common.go\<close>).

  \<open>AppendEntries\<close> is the follower's handler. The leader's loop \<open>appendEntriesToPeer\<close> gives
  up the lock around the RPC, so its body is \<open>AE_send\<close> (lock1: build the arguments) and
  \<open>AE_reply\<close> (lock2: use the reply), which says whether the loop returns, goes round
  again or installs a snapshot. \<open>appendEntriesToPeer\<close> is the loop against a follower that
  answers every call, with a bound on the rounds; \<open>appendEntriesToPeer_converges\<close> gives a
  bound that is enough.
\<close>

section \<open>Messages\<close>

record 'c AppendEntriesArgs =
  aea_Term :: int
  LeaderId :: int
  PrevLogIndex :: int
  PrevLogTerm :: int
  Entries :: "'c Log list"
  aea_LeaderCommit :: int

record AppendEntriesReply =
  Success :: bool
  aer_Term :: int
  XTerm :: int
  XIndex :: int
  XLen :: int
  aer_NextIndex :: int

datatype ae_next = AEReturn | AELoop | AEInstallSnapshot

section \<open>The follower\<close>

definition CheckIfAEOutOfOrder :: "('c, 'd) Raft \<Rightarrow> 'c AppendEntriesArgs \<Rightarrow> bool go" where
  "CheckIfAEOutOfOrder rf args =
     (let argsLastIndex = PrevLogIndex args + int (length (Entries args))
      in go_bind (lastLogTermIndex rf) (\<lambda>(myLastTerm, myLastIndex).
           if aea_Term args < myLastTerm then Inr True
           else if argsLastIndex < myLastIndex \<and> myLastTerm = aea_Term args then Inr True
           else Inr False))"

text \<open>
  The loop that moves \<open>XIndex\<close> to the first entry with the conflicting term, on positions of
  the log slice.
\<close>

function findXIndex :: "'c Log list \<Rightarrow> int \<Rightarrow> nat \<Rightarrow> nat" where
  "findXIndex lg t k =
     (if k < length lg \<and> lg_Term (lg ! k) \<noteq> t then findXIndex lg t (Suc k) else k)"
  by pat_completeness auto
termination
  by (relation "measure (\<lambda>(lg, t, k). length lg - k)") auto

definition AE_commit ::
  "'c AppendEntriesArgs \<Rightarrow> ('c, 'd) Raft \<Rightarrow> ('c, 'd) Raft go" where
  "AE_commit args rf =
     (if aea_LeaderCommit args > commitIndex rf
      then go_bind (lastLogTermIndex rf) (\<lambda>(_, lastIndex).
             notifyApply (rf\<lparr>commitIndex := go_min (aea_LeaderCommit args) lastIndex\<rparr>))
      else Inr rf)"

definition AppendEntries ::
  "('c, 'd) Raft \<Rightarrow> 'c AppendEntriesArgs \<Rightarrow> (('c, 'd) Raft \<times> AppendEntriesReply) go" where
  "AppendEntries rf args =
     (let reply = \<lparr>Success = False, aer_Term = 0, XTerm = -1, XIndex = -1, XLen = -1,
                   aer_NextIndex = 0\<rparr>
      in if aea_Term args < currentTerm rf
         then Inr (rf, reply\<lparr>aer_Term := currentTerm rf\<rparr>)
         else
           go_bind (changeRole FOLLOWER ((resetElectionTimer rf)\<lparr>currentTerm := aea_Term args\<rparr>)) (\<lambda>rf.
           go_bind (lastLogTermIndex rf) (\<lambda>(_, lastLogIndex).
             if lastLogIndex < PrevLogIndex args
             then Inr (persist rf, reply\<lparr>XLen := lastLogIndex + 1\<rparr>)
             else if PrevLogIndex args < lastSnapshotIndex rf
             then Inr (persist rf, reply\<lparr>aer_NextIndex := lastSnapshotIndex rf + 1\<rparr>)
             else
               go_bind (go_idx (rlog rf) (getRealLogIndex rf (PrevLogIndex args))) (\<lambda>entry.
                 if PrevLogIndex args = lastSnapshotIndex rf then
                   go_bind (CheckIfAEOutOfOrder rf args) (\<lambda>late.
                     if late then Inr (persist rf, reply\<lparr>aer_NextIndex := -1\<rparr>)
                     else
                       go_bind (go_to (rlog rf) 1) (\<lambda>lg.
                       go_bind (AE_commit args (rf\<lparr>rlog := lg @ Entries args\<rparr>)) (\<lambda>rf.
                         Inr (persist rf, reply\<lparr>Success := True\<rparr>))))
                 else if PrevLogTerm args = lg_Term entry then
                   go_bind (CheckIfAEOutOfOrder rf args) (\<lambda>late.
                     if late then Inr (persist rf, reply\<lparr>aer_NextIndex := -1\<rparr>)
                     else
                       go_bind (go_to (rlog rf) (getRealLogIndex rf (PrevLogIndex args) + 1)) (\<lambda>lg.
                       go_bind (AE_commit args (rf\<lparr>rlog := lg @ Entries args\<rparr>)) (\<lambda>rf.
                         Inr (persist rf, reply\<lparr>Success := True\<rparr>))))
                 else
                   Inr (persist rf,
                        reply\<lparr>XTerm := lg_Term entry,
                              XIndex := lastSnapshotIndex rf +
                                int (findXIndex (rlog rf) (lg_Term entry) 1)\<rparr>)))))"

section \<open>The leader\<close>

definition getAEInfo :: "('c, 'd) Raft \<Rightarrow> nat \<Rightarrow> (int \<times> int \<times> 'c Log list) go" where
  "getAEInfo rf index =
     go_bind (if peers rf \<le> length (matchIndex rf) \<and> peers rf \<le> length (nextIndex rf)
              then Inr () else Inl IndexOutOfRange) (\<lambda>_.
     go_bind (lastLogTermIndex rf) (\<lambda>(lastLogTerm, lastLogIndex).
     go_bind (go_idx (nextIndex rf) (int index)) (\<lambda>next.
       if next \<le> lastSnapshotIndex rf then Inr (lastLogTerm, lastLogIndex, [])
       else
         let prevIdx = next - 1
         in go_bind (go_idx (rlog rf) (prevIdx - lastSnapshotIndex rf)) (\<lambda>e.
            go_bind (go_from (rlog rf) (getRealLogIndex rf next)) (\<lambda>res.
              Inr (lg_Term e, prevIdx, res))))))"

definition AE_send ::
  "('c, 'd) Raft \<Rightarrow> nat \<Rightarrow> (('c, 'd) Raft \<times> 'c AppendEntriesArgs option) go" where
  "AE_send rf index =
     go_bind (resetAETimer index rf) (\<lambda>rf.
       if rf_state rf \<noteq> LEADER then Inr (rf, None)
       else
         let rf = resetElectionTimer rf
         in go_bind (getAEInfo rf index) (\<lambda>(prevLogTerm, prevLogIndex, AELog).
              Inr (rf, Some \<lparr>aea_Term = currentTerm rf, LeaderId = int (me rf),
                             PrevLogIndex = prevLogIndex, PrevLogTerm = prevLogTerm,
                             Entries = AELog, aea_LeaderCommit = commitIndex rf\<rparr>)))"

text \<open>
  \<open>LeaderCommit\<close>: the inner loop counts the peers whose \<open>matchIndex\<close> has reached \<open>i\<close> and
  stops as soon as they are more than half; the outer loop runs over all candidate
  indices, up to one past the last entry.
\<close>

fun LeaderCommit_inner :: "int list \<Rightarrow> int \<Rightarrow> nat \<Rightarrow> nat \<Rightarrow> bool" where
  "LeaderCommit_inner [] i cnt half = False"
| "LeaderCommit_inner (t # ts) i cnt half =
     (if t \<ge> i then (if Suc cnt > half then True else LeaderCommit_inner ts i (Suc cnt) half)
      else LeaderCommit_inner ts i cnt half)"

definition LeaderCommit :: "('c, 'd) Raft \<Rightarrow> ('c, 'd) Raft" where
  "LeaderCommit rf =
     rf\<lparr>commitIndex :=
          foldl (\<lambda>ci i. if LeaderCommit_inner (matchIndex rf) i 0 (peers rf div 2) then i else ci)
            (commitIndex rf)
            [commitIndex rf + 1 .. int (length (rlog rf)) + lastSnapshotIndex rf]\<rparr>"

text \<open>
  The part of \<open>appendEntriesToPeer\<close> after the reply. The code reads \<open>reply.Term\<close> where the
  protocol has \<open>reply.XTerm\<close>; the model does the same.
\<close>

definition AE_reply ::
  "('c, 'd) Raft \<Rightarrow> nat \<Rightarrow> 'c AppendEntriesArgs \<Rightarrow> AppendEntriesReply \<Rightarrow>
   (('c, 'd) Raft \<times> ae_next) go" where
  "AE_reply rf index args reply =
     (if aer_Term reply > currentTerm rf then
        go_bind (changeRole FOLLOWER rf) (\<lambda>rf.
          Inr (persist ((resetElectionTimer rf)\<lparr>currentTerm := aer_Term reply\<rparr>), AEReturn))
      else if rf_state rf \<noteq> LEADER \<or> currentTerm rf \<noteq> aea_Term args then Inr (rf, AEReturn)
      else if Success reply then
        go_bind (go_idx (nextIndex rf) (int index)) (\<lambda>next.
        go_bind (go_upd (nextIndex rf) (int index) (next + int (length (Entries args)))) (\<lambda>ni.
        go_bind (go_upd (matchIndex rf) (int index) (next + int (length (Entries args)) - 1)) (\<lambda>mi.
          let rf = rf\<lparr>nextIndex := ni, matchIndex := mi\<rparr>
          in Inr (if Entries args \<noteq> [] \<and> lg_Term (last (Entries args)) = currentTerm rf
                  then LeaderCommit rf else rf, AEReturn))))
      else if aer_NextIndex reply = -1 then Inr (rf, AEReturn)
      else
        let XT = aer_Term reply;
            NextIndex =
              (if XLen reply \<noteq> -1 then XLen reply
               else if XT \<noteq> -1 then
                 (let idx = containsXTerm rf XT
                  in if idx \<noteq> -1 then idx + lastSnapshotIndex rf else XIndex reply)
               else 0)
        in go_bind (go_upd (nextIndex rf) (int index) NextIndex) (\<lambda>ni.
           go_bind (go_upd (matchIndex rf) (int index) (NextIndex - 1)) (\<lambda>mi.
             Inr (rf\<lparr>nextIndex := ni, matchIndex := mi\<rparr>,
                  if NextIndex \<le> lastSnapshotIndex rf then AEInstallSnapshot else AELoop))))"

text \<open>
  The loop of \<open>appendEntriesToPeer\<close> against a follower that answers each call at once, for
  at most the given number of rounds (\<open>None\<close>: not finished within them). It returns the
  two peers and whether the loop returned or turned to a snapshot.
\<close>

fun appendEntriesToPeer ::
  "nat \<Rightarrow> ('c, 'd) Raft \<Rightarrow> nat \<Rightarrow> ('c, 'd) Raft \<Rightarrow>
   (('c, 'd) Raft \<times> ('c, 'd) Raft \<times> ae_next) go option" where
  "appendEntriesToPeer 0 rf index peer = None"
| "appendEntriesToPeer (Suc rounds) rf index peer =
     (case AE_send rf index of
        Inl e \<Rightarrow> Some (Inl e)
      | Inr (rf, None) \<Rightarrow> Some (Inr (rf, peer, AEReturn))
      | Inr (rf, Some args) \<Rightarrow>
          (case AppendEntries peer args of
             Inl e \<Rightarrow> Some (Inl e)
           | Inr (peer, reply) \<Rightarrow>
               (case AE_reply rf index args reply of
                  Inl e \<Rightarrow> Some (Inl e)
                | Inr (rf, AELoop) \<Rightarrow> appendEntriesToPeer rounds rf index peer
                | Inr (rf, nxt) \<Rightarrow> Some (Inr (rf, peer, nxt)))))"

section \<open>Lemmas on the loops\<close>

declare findXIndex.simps [simp del]

lemma findXIndex_le:
  "k \<le> j \<Longrightarrow> j < length lg \<Longrightarrow> lg_Term (lg ! j) = t \<Longrightarrow>
   k \<le> findXIndex lg t k \<and> findXIndex lg t k \<le> j"
proof (induction lg t k rule: findXIndex.induct)
  case (1 lg t k)
  show ?case
  proof (cases "k < length lg \<and> lg_Term (lg ! k) \<noteq> t")
    case True
    then have "k \<noteq> j" using "1.prems" by auto
    then have "Suc k \<le> findXIndex lg t (Suc k) \<and> findXIndex lg t (Suc k) \<le> j"
      using "1.IH" [OF True] "1.prems" by auto
    then show ?thesis
      using True by (auto simp: findXIndex.simps [of lg t k])
  next
    case False
    then show ?thesis
      using "1.prems" by (auto simp: findXIndex.simps [of lg t k])
  qed
qed

lemma LeaderCommit_inner_iff:
  "LeaderCommit_inner ts i cnt half \<longleftrightarrow>
   0 < length (filter (\<lambda>t. i \<le> t) ts) \<and> half < cnt + length (filter (\<lambda>t. i \<le> t) ts)"
  by (induction ts arbitrary: cnt) auto

lemma foldl_last_satisfying:
  "foldl (\<lambda>c i. if p i then i else c) d xs = (if filter p xs = [] then d else last (filter p xs))"
  by (induction xs arbitrary: d) auto

section \<open>The follower's handler\<close>

definition ae_late :: "('c, 'd) Raft \<Rightarrow> 'c AppendEntriesArgs \<Rightarrow> bool" where
  "ae_late rf args \<longleftrightarrow> aea_Term args < lastTerm rf \<or>
     PrevLogIndex args + int (length (Entries args)) < lastIdx rf \<and> lastTerm rf = aea_Term args"

text \<open>The entry at a log index of a peer.\<close>

definition entryAt :: "('c, 'd) Raft \<Rightarrow> int \<Rightarrow> 'c Log" where
  "entryAt rf i = rlog rf ! nat (i - lastSnapshotIndex rf)"

definition ae_accepts :: "('c, 'd) Raft \<Rightarrow> 'c AppendEntriesArgs \<Rightarrow> bool" where
  "ae_accepts rf args \<longleftrightarrow> currentTerm rf \<le> aea_Term args \<and>
     lastSnapshotIndex rf \<le> PrevLogIndex args \<and> PrevLogIndex args \<le> lastIdx rf \<and>
     (PrevLogIndex args = lastSnapshotIndex rf \<or>
      PrevLogTerm args = lg_Term (entryAt rf (PrevLogIndex args))) \<and>
     \<not> ae_late rf args"

text \<open>The log of a peer after it has accepted the entries.\<close>

definition ae_log :: "('c, 'd) Raft \<Rightarrow> 'c AppendEntriesArgs \<Rightarrow> 'c Log list" where
  "ae_log rf args =
     take (nat (PrevLogIndex args - lastSnapshotIndex rf) + 1) (rlog rf) @ Entries args"

definition ae_reply_of :: "('c, 'd) Raft \<Rightarrow> 'c AppendEntriesArgs \<Rightarrow> AppendEntriesReply" where
  "ae_reply_of rf args =
     (let reply = \<lparr>Success = False, aer_Term = 0, XTerm = -1, XIndex = -1, XLen = -1,
                   aer_NextIndex = 0\<rparr>;
          prev = PrevLogIndex args
      in if aea_Term args < currentTerm rf then reply\<lparr>aer_Term := currentTerm rf\<rparr>
         else if lastIdx rf < prev then reply\<lparr>XLen := lastIdx rf + 1\<rparr>
         else if prev < lastSnapshotIndex rf
         then reply\<lparr>aer_NextIndex := lastSnapshotIndex rf + 1\<rparr>
         else if prev = lastSnapshotIndex rf \<or> PrevLogTerm args = lg_Term (entryAt rf prev)
         then (if ae_late rf args then reply\<lparr>aer_NextIndex := -1\<rparr> else reply\<lparr>Success := True\<rparr>)
         else reply\<lparr>XTerm := lg_Term (entryAt rf prev),
                    XIndex := lastSnapshotIndex rf +
                      int (findXIndex (rlog rf) (lg_Term (entryAt rf prev)) 1)\<rparr>)"

lemma ae_reply_of_Success: "Success (ae_reply_of rf args) \<longleftrightarrow> ae_accepts rf args"
  by (auto simp: ae_reply_of_def ae_accepts_def Let_def)

lemma CheckIfAEOutOfOrder_eq:
  "rlog rf \<noteq> [] \<Longrightarrow> CheckIfAEOutOfOrder rf args = Inr (ae_late rf args)"
  by (simp add: CheckIfAEOutOfOrder_def ae_late_def)

lemma lastIdx_upd [simp]:
  "lastIdx (rf\<lparr>currentTerm := t\<rparr>) = lastIdx rf" "lastIdx (rf\<lparr>rf_state := st\<rparr>) = lastIdx rf"
  "lastIdx (rf\<lparr>commitIndex := ci\<rparr>) = lastIdx rf" "lastIdx (resetElectionTimer rf) = lastIdx rf"
  "lastIdx (persist rf) = lastIdx rf" "lastIdx (AENow rf) = lastIdx rf"
  "lastIdx (rf\<lparr>rlog := lg\<rparr>) = lastSnapshotIndex rf + int (length lg) - 1"
  "lastIdx (rf\<lparr>nextIndex := ni\<rparr>) = lastIdx rf" "lastIdx (rf\<lparr>matchIndex := mi\<rparr>) = lastIdx rf"
  by (simp_all add: lastIdx_def frame_simps)

lemma lastTerm_upd [simp]:
  "lastTerm (rf\<lparr>currentTerm := t\<rparr>) = lastTerm rf" "lastTerm (rf\<lparr>rf_state := st\<rparr>) = lastTerm rf"
  "lastTerm (resetElectionTimer rf) = lastTerm rf" "lastTerm (persist rf) = lastTerm rf"
  by (simp_all add: lastTerm_def frame_simps)

text \<open>The state the handler works on: the sender's term, follower, election timer reset.\<close>

abbreviation ae_base :: "('c, 'd) Raft \<Rightarrow> 'c AppendEntriesArgs \<Rightarrow> ('c, 'd) Raft" where
  "ae_base rf args \<equiv> (resetElectionTimer rf)\<lparr>currentTerm := aea_Term args, rf_state := FOLLOWER\<rparr>"

lemma ae_base_late: "ae_late (ae_base rf args) args = ae_late rf args"
  by (simp add: ae_late_def)

lemma AppendEntries_stale:
  "aea_Term args < currentTerm rf \<Longrightarrow> AppendEntries rf args = Inr (rf, ae_reply_of rf args)"
  by (simp add: AppendEntries_def ae_reply_of_def)

lemma AppendEntries_rejected:
  assumes "rlog rf \<noteq> []" and "currentTerm rf \<le> aea_Term args" and "\<not> ae_accepts rf args"
  shows "AppendEntries rf args = Inr (persist (ae_base rf args), ae_reply_of rf args)"
proof -
  consider (short) "lastIdx rf < PrevLogIndex args"
    | (snap) "PrevLogIndex args \<le> lastIdx rf" "PrevLogIndex args < lastSnapshotIndex rf"
    | (inside) "PrevLogIndex args \<le> lastIdx rf" "lastSnapshotIndex rf \<le> PrevLogIndex args"
    by linarith
  then show ?thesis
  proof cases
    case inside
    then have "0 \<le> PrevLogIndex args - lastSnapshotIndex rf"
      and "PrevLogIndex args - lastSnapshotIndex rf < int (length (rlog rf))"
      by (auto simp: lastIdx_def)
    then show ?thesis
      using assms inside
      by (auto simp: AppendEntries_def ae_reply_of_def ae_accepts_def Let_def frame_simps
          getRealLogIndex_def go_idx_Inr CheckIfAEOutOfOrder_eq ae_base_late entryAt_def)
  qed (use assms in \<open>auto simp: AppendEntries_def ae_reply_of_def Let_def frame_simps\<close>)
qed

lemma AppendEntries_accepted:
  assumes "rlog rf \<noteq> []" and "ae_accepts rf args"
  shows "AppendEntries rf args =
     go_bind (AE_commit args ((ae_base rf args)\<lparr>rlog := ae_log rf args\<rparr>)) (\<lambda>rf'.
       Inr (persist rf', ae_reply_of rf args))"
proof -
  let ?k = "PrevLogIndex args - lastSnapshotIndex rf"
  have k: "0 \<le> ?k" "?k < int (length (rlog rf))"
    using assms by (auto simp: ae_accepts_def lastIdx_def)
  have k0: "0 < length (rlog rf)" using assms(1) by simp
  show ?thesis
    using assms k k0
    by (auto simp: AppendEntries_def ae_reply_of_def ae_accepts_def ae_log_def Let_def frame_simps
        getRealLogIndex_def go_idx_Inr go_to_Inr CheckIfAEOutOfOrder_eq ae_base_late entryAt_def
        nat_add_distrib Suc_leI)
qed


lemma AE_commit_eq:
  assumes "rlog rf \<noteq> []" and "notifyApplyCh rf < 10"
  shows "\<exists>n. AE_commit args rf = Inr (rf\<lparr>commitIndex :=
      (if aea_LeaderCommit args > commitIndex rf
       then min (aea_LeaderCommit args) (lastIdx rf) else commitIndex rf), notifyApplyCh := n\<rparr>)"
proof (cases "aea_LeaderCommit args > commitIndex rf")
  case True
  then show ?thesis
    using assms
    by (intro exI [of _ "Suc (notifyApplyCh rf)"]) (simp add: AE_commit_def notifyApply_def go_min_def min_def)
next
  case False
  then have "AE_commit args rf = Inr rf" by (simp add: AE_commit_def)
  with False show ?thesis
    by (intro exI [of _ "notifyApplyCh rf"]) simp
qed

lemma length_ae_log:
  assumes "ae_accepts rf args"
  shows "int (length (ae_log rf args)) =
    PrevLogIndex args - lastSnapshotIndex rf + 1 + int (length (Entries args))"
proof -
  have "0 \<le> PrevLogIndex args - lastSnapshotIndex rf"
    and "PrevLogIndex args - lastSnapshotIndex rf < int (length (rlog rf))"
    using assms by (auto simp: ae_accepts_def lastIdx_def)
  then have "nat (PrevLogIndex args - lastSnapshotIndex rf) + 1 \<le> length (rlog rf)"
    by linarith
  then have "length (take (nat (PrevLogIndex args - lastSnapshotIndex rf) + 1) (rlog rf)) =
      nat (PrevLogIndex args - lastSnapshotIndex rf) + 1"
    by (simp only: length_take min_absorb2)
  then show ?thesis
    using assms unfolding ae_log_def length_append by (simp add: ae_accepts_def)
qed

lemma ae_log_nonempty: "rlog rf \<noteq> [] \<Longrightarrow> ae_log rf args \<noteq> []"
  by (simp add: ae_log_def)

lemma AppendEntries_on_accept:
  assumes "raft_wf rf" and "notifyApplyCh rf < 10" and True: "ae_accepts rf args"
  shows "\<exists>rf' reply. AppendEntries rf args = Inr (rf', reply) \<and> raft_wf rf' \<and> Success reply \<and>
     rlog rf' = ae_log rf args \<and>
     commitIndex rf' =
       (if commitIndex rf < aea_LeaderCommit args
        then min (aea_LeaderCommit args) (PrevLogIndex args + int (length (Entries args)))
        else commitIndex rf) \<and>
     currentTerm rf' = aea_Term args \<and> rf_state rf' = FOLLOWER \<and>
     raftstate (persister rf') = getPersistData rf' \<and>
     voteFor rf' = voteFor rf \<and> lastSnapshotIndex rf' = lastSnapshotIndex rf \<and>
     me rf' = me rf \<and> peers rf' = peers rf"
proof -
  have ne: "rlog rf \<noteq> []" using assms by (simp add: raft_wf_def)
  let ?b = "(ae_base rf args)\<lparr>rlog := ae_log rf args\<rparr>"
  have "rlog ?b \<noteq> []" "notifyApplyCh ?b < 10"
    using ae_log_nonempty [OF ne] assms(2) by (simp_all add: frame_simps)
  moreover have "commitIndex ?b = commitIndex rf" by (simp add: frame_simps)
  ultimately obtain n where
    com: "AE_commit args ?b = Inr (?b\<lparr>commitIndex :=
      (if aea_LeaderCommit args > commitIndex rf
       then min (aea_LeaderCommit args) (lastIdx ?b) else commitIndex rf), notifyApplyCh := n\<rparr>)"
    using AE_commit_eq [of ?b args] by metis
  have "currentTerm rf \<le> aea_Term args" using True by (simp add: ae_accepts_def)
  then show ?thesis
    using True assms ae_log_nonempty [OF ne, of args]
    by (simp add: AppendEntries_accepted [OF ne] com ae_reply_of_Success frame_simps
        raft_wf_def leader_arrays_def length_ae_log [OF True])
qed

text \<open>
  C10. The \<open>AppendEntries\<close> handler, for any arguments. On a well-formed peer with room in the
  notification channel it always returns (no index is out of range) and keeps the peer
  well-formed. It succeeds exactly when the sender's term is not old, the previous entry
  is inside the log and matches (or is the snapshot position), and the message is not an
  overtaken one. On success the log is the old log up to the previous index followed by
  the sent entries, and the commit index moves to the leader's, at most to the last entry;
  otherwise log and commit index are untouched. A peer that does not reject the term is a
  follower in the sender's term, and all its state is on stable storage.
\<close>

theorem AppendEntries_spec:
  assumes "raft_wf rf" and "notifyApplyCh rf < 10"
  shows "\<exists>rf' reply. AppendEntries rf args = Inr (rf', reply) \<and> raft_wf rf' \<and>
     (Success reply \<longleftrightarrow> ae_accepts rf args) \<and>
     rlog rf' = (if ae_accepts rf args then ae_log rf args else rlog rf) \<and>
     commitIndex rf' =
       (if ae_accepts rf args \<and> commitIndex rf < aea_LeaderCommit args
        then min (aea_LeaderCommit args) (PrevLogIndex args + int (length (Entries args)))
        else commitIndex rf) \<and>
     (if aea_Term args < currentTerm rf then rf' = rf
      else currentTerm rf' = aea_Term args \<and> rf_state rf' = FOLLOWER \<and>
           raftstate (persister rf') = getPersistData rf') \<and>
     voteFor rf' = voteFor rf \<and> lastSnapshotIndex rf' = lastSnapshotIndex rf \<and>
     me rf' = me rf \<and> peers rf' = peers rf"
proof (cases "ae_accepts rf args")
  case True
  then have "\<not> aea_Term args < currentTerm rf" by (simp add: ae_accepts_def)
  then show ?thesis
    using AppendEntries_on_accept [OF assms True] True by simp
next
  case False
  have ne: "rlog rf \<noteq> []" using assms by (simp add: raft_wf_def)
  show ?thesis
  proof (cases "aea_Term args < currentTerm rf")
    case True
    then show ?thesis
      using False assms
      by (simp add: AppendEntries_stale ae_reply_of_Success)
  next
    case current: False
    then have "AppendEntries rf args = Inr (persist (ae_base rf args), ae_reply_of rf args)"
      using AppendEntries_rejected [OF ne _ False] by simp
    then show ?thesis
      using False assms current
      by (simp add: ae_reply_of_Success frame_simps raft_wf_def leader_arrays_def)
  qed
qed

theorem AppendEntries_spec_witness:
  "\<exists>rf' reply. AppendEntries (demo_peer 1 FOLLOWER 1 [demo_entry 7 1, demo_entry 8 1])
       \<lparr>aea_Term = 2, LeaderId = 0, PrevLogIndex = 1, PrevLogTerm = 1, Entries = [demo_entry 9 2],
        aea_LeaderCommit = 5\<rparr> = Inr (rf', reply) \<and>
     Success reply \<and> commitIndex rf' = 2 \<and>
     rlog rf' = [\<lparr>lg_Command = IStr '''', lg_Term = 0\<rparr>, demo_entry 7 1, demo_entry 9 2]"
  using AppendEntries_spec [of "demo_peer 1 FOLLOWER 1 [demo_entry 7 1, demo_entry 8 1]"
      "\<lparr>aea_Term = 2, LeaderId = 0, PrevLogIndex = 1, PrevLogTerm = 1, Entries = [demo_entry 9 2],
        aea_LeaderCommit = 5\<rparr>"]
  by (auto simp: ae_accepts_def ae_late_def ae_log_def entryAt_def demo_simps raft_wf_def
      leader_arrays_def saved_ok_def MakePersister_def)

lemma AppendEntries_reply:
  assumes "rlog rf \<noteq> []" and "AppendEntries rf args = Inr (rf', reply)"
  shows "reply = ae_reply_of rf args"
proof -
  consider "aea_Term args < currentTerm rf"
    | "currentTerm rf \<le> aea_Term args" "\<not> ae_accepts rf args" | "ae_accepts rf args"
    by linarith
  then show ?thesis
    using assms(2)
    by cases (auto simp: AppendEntries_stale AppendEntries_rejected [OF assms(1)]
        AppendEntries_accepted [OF assms(1)] go_bind_Inr_iff)
qed

text \<open>The voting state through the handler, without the channel assumption.\<close>

lemma AppendEntries_effect:
  assumes "rlog rf \<noteq> []" and "AppendEntries rf args = Inr (rf', reply)"
  shows "vote_frame rf rf' \<and> lastSnapshotIndex rf' = lastSnapshotIndex rf \<and>
     rlog rf' = (if ae_accepts rf args then ae_log rf args else rlog rf) \<and>
     (raft_wf rf \<longrightarrow> raft_wf rf') \<and> nextIndex rf' = nextIndex rf \<and> matchIndex rf' = matchIndex rf"
proof -
  consider "aea_Term args < currentTerm rf"
    | "currentTerm rf \<le> aea_Term args" "\<not> ae_accepts rf args" | "ae_accepts rf args"
    by linarith
  then show ?thesis
  proof cases
    case 3
    have "currentTerm rf \<le> aea_Term args" using 3 by (simp add: ae_accepts_def)
    then show ?thesis
      using 3 assms ae_log_nonempty [OF assms(1), of args]
      by (auto simp: AppendEntries_accepted go_bind_Inr_iff AE_commit_def notifyApply_def
          vote_frame_def frame_simps raft_wf_def leader_arrays_def split: if_splits)
  qed (use assms in \<open>auto simp: AppendEntries_stale AppendEntries_rejected vote_frame_def
          frame_simps raft_wf_def leader_arrays_def ae_accepts_def\<close>)
qed



end
