(* ===== verification/Raft_Replication.thy ===== *)
theory Raft_Replication
  imports Raft_AppendEntries
begin

text \<open>
  The leader's side of replication: what \<open>LeaderCommit\<close> commits, how a rejection moves
  \<open>nextIndex\<close>, and that the loop \<open>appendEntriesToPeer\<close> against a reachable follower ends
  with the follower holding the leader's log.
\<close>

section \<open>Committing\<close>

lemma sorted_last_max: "sorted xs \<Longrightarrow> x \<in> set xs \<Longrightarrow> x \<le> last xs"
  by (induction xs) auto

lemma majority_filter:
  "length ms = n \<Longrightarrow>
   majority n {j. j < n \<and> i \<le> ms ! j} \<longleftrightarrow> n div 2 < length (filter (\<lambda>t. i \<le> t) ms)"
  by (auto simp: majority_def length_filter_conv_card)

text \<open>
  C12. \<open>LeaderCommit\<close> moves the commit index to the largest index, up to one past the last
  entry, that more than half of the peers have reached in \<open>matchIndex\<close>, and leaves it
  where it is when there is none above it. The commit index never goes back.
\<close>

theorem LeaderCommit_largest_majority:
  assumes "length (matchIndex rf) = peers rf"
  shows "commitIndex rf \<le> commitIndex (LeaderCommit rf) \<and>
     (commitIndex (LeaderCommit rf) \<noteq> commitIndex rf \<longrightarrow>
        majority (peers rf) {j. j < peers rf \<and> commitIndex (LeaderCommit rf) \<le> matchIndex rf ! j} \<and>
        commitIndex (LeaderCommit rf) \<le> lastIdx rf + 1) \<and>
     (\<forall>i. commitIndex (LeaderCommit rf) < i \<and> i \<le> lastIdx rf + 1 \<longrightarrow>
        \<not> majority (peers rf) {j. j < peers rf \<and> i \<le> matchIndex rf ! j})"
proof -
  let ?p = "\<lambda>i. LeaderCommit_inner (matchIndex rf) i 0 (peers rf div 2)"
  let ?xs = "[commitIndex rf + 1 .. int (length (rlog rf)) + lastSnapshotIndex rf]"
  have p: "?p i \<longleftrightarrow> majority (peers rf) {j. j < peers rf \<and> i \<le> matchIndex rf ! j}" for i
    using assms by (auto simp: LeaderCommit_inner_iff majority_filter)
  have ci: "commitIndex (LeaderCommit rf) =
      (if filter ?p ?xs = [] then commitIndex rf else last (filter ?p ?xs))"
    by (simp add: LeaderCommit_def foldl_last_satisfying)
  have len: "int (length (rlog rf)) + lastSnapshotIndex rf = lastIdx rf + 1"
    by (simp add: lastIdx_def)
  show ?thesis
  proof (cases "filter ?p ?xs = []")
    case True
    then have "\<not> ?p i" if "commitIndex rf < i" "i \<le> lastIdx rf + 1" for i
      using that by (auto simp: filter_empty_conv len)
    with True show ?thesis
      using ci p by auto
  next
    case False
    let ?l = "last (filter ?p ?xs)"
    have "?l \<in> set (filter ?p ?xs)"
      using False by (rule last_in_set)
    then have l: "?p ?l" "commitIndex rf + 1 \<le> ?l" "?l \<le> lastIdx rf + 1"
      by (auto simp: len)
    have above: "\<not> ?p i" if "?l < i" "i \<le> lastIdx rf + 1" for i
    proof
      assume "?p i"
      then have "i \<in> set (filter ?p ?xs)" using that l by (auto simp: len)
      moreover have "sorted (filter ?p ?xs)"
        by (intro sorted_wrt_filter sorted_upto)
      ultimately have "i \<le> ?l"
        by (rule sorted_last_max [rotated])
      with that show False by simp
    qed
    have eq: "commitIndex (LeaderCommit rf) = ?l" and le: "commitIndex rf \<le> ?l"
      using False ci l(2) by auto
    show ?thesis
      unfolding eq p [symmetric] using le l(1,3) above by blast
  qed
qed

theorem LeaderCommit_largest_majority_witness:
  "let rf = (demo_peer 0 LEADER 1 [demo_entry 7 1, demo_entry 8 1])\<lparr>matchIndex := [2, 1, 0]\<rparr>
   in length (matchIndex rf) = peers rf \<and> commitIndex (LeaderCommit rf) = 1 \<and>
      majority (peers rf) {j. j < peers rf \<and> 1 \<le> matchIndex rf ! j}"
proof -
  let ?rf = "(demo_peer 0 LEADER 1 [demo_entry 7 1, demo_entry 8 1])\<lparr>matchIndex := [2, 1, 0]\<rparr>"
  have len: "length (matchIndex ?rf) = peers ?rf"
    by (simp add: demo_simps)
  have ci: "commitIndex (LeaderCommit ?rf) = 1" "commitIndex ?rf = 0"
    by code_simp+
  show ?thesis
    using LeaderCommit_largest_majority [OF len] len ci by (simp add: Let_def)
qed

lemma LeaderCommit_frame [frame_simps]:
  "rlog (LeaderCommit rf) = rlog rf" "nextIndex (LeaderCommit rf) = nextIndex rf"
  "matchIndex (LeaderCommit rf) = matchIndex rf" "currentTerm (LeaderCommit rf) = currentTerm rf"
  "voteFor (LeaderCommit rf) = voteFor rf" "rf_state (LeaderCommit rf) = rf_state rf"
  "me (LeaderCommit rf) = me rf" "peers (LeaderCommit rf) = peers rf"
  "persister (LeaderCommit rf) = persister rf"
  "lastSnapshotIndex (LeaderCommit rf) = lastSnapshotIndex rf"
  "appendEntriesTimer (LeaderCommit rf) = appendEntriesTimer rf"
  by (simp_all add: LeaderCommit_def)

section \<open>Sending\<close>

lemma resetAETimer_frame:
  "resetAETimer j rf = Inr rf' \<Longrightarrow>
   rlog rf' = rlog rf \<and> nextIndex rf' = nextIndex rf \<and> matchIndex rf' = matchIndex rf \<and>
   currentTerm rf' = currentTerm rf \<and> voteFor rf' = voteFor rf \<and> rf_state rf' = rf_state rf \<and>
   me rf' = me rf \<and> peers rf' = peers rf \<and> persister rf' = persister rf \<and>
   lastSnapshotIndex rf' = lastSnapshotIndex rf \<and> commitIndex rf' = commitIndex rf \<and>
   length (appendEntriesTimer rf') = length (appendEntriesTimer rf)"
  by (auto simp: resetAETimer_def go_Inr_iffs)

lemma AE_send_frame:
  assumes "AE_send rf j = Inr (rf', sent)"
  shows "rlog rf' = rlog rf \<and> nextIndex rf' = nextIndex rf \<and> matchIndex rf' = matchIndex rf \<and>
   currentTerm rf' = currentTerm rf \<and> voteFor rf' = voteFor rf \<and> rf_state rf' = rf_state rf \<and>
   me rf' = me rf \<and> peers rf' = peers rf \<and> persister rf' = persister rf \<and>
   lastSnapshotIndex rf' = lastSnapshotIndex rf \<and> commitIndex rf' = commitIndex rf \<and>
   length (appendEntriesTimer rf') = length (appendEntriesTimer rf)"
  using assms
  by (auto simp: AE_send_def go_bind_Inr_iff Let_def frame_simps split: if_splits
      dest!: resetAETimer_frame)

lemma AE_send_leader:
  assumes "raft_wf rf" and "rf_state rf = LEADER" and "j < peers rf"
    and "lastSnapshotIndex rf < nextIndex rf ! j" and "nextIndex rf ! j \<le> lastIdx rf + 1"
  shows "\<exists>rf'. AE_send rf j = Inr (rf', Some
     \<lparr>aea_Term = currentTerm rf, LeaderId = int (me rf), PrevLogIndex = nextIndex rf ! j - 1,
      PrevLogTerm = lg_Term (entryAt rf (nextIndex rf ! j - 1)),
      Entries = drop (nat (nextIndex rf ! j - lastSnapshotIndex rf)) (rlog rf),
      aea_LeaderCommit = commitIndex rf\<rparr>)"
proof -
  have wf: "rlog rf \<noteq> []" "length (appendEntriesTimer rf) = peers rf"
    "length (nextIndex rf) = peers rf" "length (matchIndex rf) = peers rf"
    using assms(1,2) by (auto simp: raft_wf_def leader_arrays_def)
  have "nextIndex rf ! j - lastSnapshotIndex rf \<le> int (length (rlog rf))"
    using assms(5) by (simp add: lastIdx_def)
  then show ?thesis
    using assms wf
    by (simp add: AE_send_def resetAETimer_def getAEInfo_def go_upd_Inr go_idx_Inr go_from_Inr
        getRealLogIndex_def Let_def frame_simps entryAt_def)
qed

section \<open>Using a reply\<close>

lemma AE_reply_frame:
  assumes "AE_reply rf j args reply = Inr (rf', nxt)"
  shows "vote_frame rf rf' \<and> rlog rf' = rlog rf \<and> lastSnapshotIndex rf' = lastSnapshotIndex rf \<and>
    length (nextIndex rf') = length (nextIndex rf) \<and> length (matchIndex rf') = length (matchIndex rf) \<and>
    length (appendEntriesTimer rf') = length (appendEntriesTimer rf)"
  using assms
  by (auto simp: AE_reply_def go_Inr_iffs Let_def frame_simps vote_frame_def split: if_splits)

lemma AE_reply_wf:
  assumes "AE_reply rf j args reply = Inr (rf', nxt)" and "raft_wf rf"
  shows "raft_wf rf'"
  using assms
  by (auto simp: AE_reply_def go_Inr_iffs Let_def frame_simps raft_wf_def leader_arrays_def
      split: if_splits)

lemma AE_reply_success:
  assumes "raft_wf rf" and "rf_state rf = LEADER" and "j < peers rf"
    and "aer_Term reply \<le> currentTerm rf" and "aea_Term args = currentTerm rf" and "Success reply"
  shows "\<exists>rf'. AE_reply rf j args reply = Inr (rf', AEReturn) \<and> rlog rf' = rlog rf \<and>
     nextIndex rf' = (nextIndex rf)[j := nextIndex rf ! j + int (length (Entries args))] \<and>
     matchIndex rf' = (matchIndex rf)[j := nextIndex rf ! j + int (length (Entries args)) - 1]"
  using assms
  by (simp add: AE_reply_def go_idx_Inr go_upd_Inr raft_wf_def leader_arrays_def Let_def
      frame_simps)

text \<open>The positions of a leader's log that hold real entries have positive terms.\<close>

definition positive_terms :: "('c, 'd) Raft \<Rightarrow> bool" where
  "positive_terms rf \<longleftrightarrow> (\<forall>i. 0 < i \<and> i < length (rlog rf) \<longrightarrow> 0 < lg_Term (rlog rf ! i))"

lemma containsXTerm_zero: "rlog rf \<noteq> [] \<Longrightarrow> positive_terms rf \<Longrightarrow> containsXTerm rf 0 = -1"
  using containsXTerm_cases [of rf 0] by (fastforce simp: positive_terms_def)

text \<open>
  A rejection that is not an overtaken message sends the leader back: the next index it
  will try is at most the previous index of the rejected message. Because a rejection
  carries term 0, the leader always takes the follower's \<open>XLen\<close> or \<open>XIndex\<close>.
\<close>

lemma AE_reply_rejected:
  assumes "raft_wf rf" and "rf_state rf = LEADER" and "j < peers rf" and "positive_terms rf"
    and "aea_Term args = currentTerm rf" and "0 \<le> currentTerm rf"
    and "raft_wf peer" and "currentTerm peer \<le> aea_Term args"
    and "\<not> ae_accepts peer args" and "\<not> ae_late peer args"
    and "lastSnapshotIndex peer \<le> PrevLogIndex args"
  defines "nx \<equiv> (if lastIdx peer < PrevLogIndex args then lastIdx peer + 1
                 else XIndex (ae_reply_of peer args))"
  shows "\<exists>rf'. AE_reply rf j args (ae_reply_of peer args) =
       Inr (rf', if nx \<le> lastSnapshotIndex rf then AEInstallSnapshot else AELoop) \<and>
     rf' = rf\<lparr>nextIndex := (nextIndex rf)[j := nx], matchIndex := (matchIndex rf)[j := nx - 1]\<rparr> \<and>
     lastSnapshotIndex peer < nx \<and> nx \<le> PrevLogIndex args"
proof -
  have ne: "rlog rf \<noteq> []" "rlog peer \<noteq> []" and arr: "length (nextIndex rf) = peers rf"
    "length (matchIndex rf) = peers rf"
    using assms(1,2,7) by (auto simp: raft_wf_def leader_arrays_def)
  have z: "containsXTerm rf 0 = -1"
    using containsXTerm_zero ne(1) assms(4) by blast
  have last: "lastSnapshotIndex peer \<le> lastIdx peer"
    using ne(2) by (cases "rlog peer") (auto simp: lastIdx_def)
  show ?thesis
  proof (cases "lastIdx peer < PrevLogIndex args")
    case True
    have "0 \<le> lastSnapshotIndex peer" using assms(7) by (simp add: raft_wf_def)
    then show ?thesis
      using True assms(2,3,5,6,8) arr last
      by (simp add: AE_reply_def ae_reply_of_def Let_def go_upd_Inr nx_def)
  next
    case False
    let ?prev = "PrevLogIndex args" and ?snap = "lastSnapshotIndex peer"
    have inside: "?snap < ?prev" "PrevLogTerm args \<noteq> lg_Term (entryAt peer ?prev)"
      using False assms(8-11) by (auto simp: ae_accepts_def)
    let ?t = "lg_Term (entryAt peer ?prev)"
    have pos: "1 \<le> nat (?prev - ?snap)" "nat (?prev - ?snap) < length (rlog peer)"
      using inside(1) False by (auto simp: lastIdx_def)
    then have f: "1 \<le> findXIndex (rlog peer) ?t 1" "findXIndex (rlog peer) ?t 1 \<le> nat (?prev - ?snap)"
      using findXIndex_le [of 1 "nat (?prev - ?snap)" "rlog peer" ?t]
      by (auto simp: entryAt_def)
    have r: "ae_reply_of peer args =
        \<lparr>Success = False, aer_Term = 0, XTerm = ?t, XIndex = ?snap + int (findXIndex (rlog peer) ?t 1),
         XLen = -1, aer_NextIndex = 0\<rparr>"
      using False inside assms(8) by (simp add: ae_reply_of_def Let_def)
    have nx: "nx = ?snap + int (findXIndex (rlog peer) ?t 1)"
      using False by (simp add: nx_def r)
    have bnd: "?snap < nx" "nx \<le> ?prev"
      using f inside(1) by (auto simp: nx)
    have "AE_reply rf j args (ae_reply_of peer args) =
        Inr (rf\<lparr>nextIndex := (nextIndex rf)[j := nx], matchIndex := (matchIndex rf)[j := nx - 1]\<rparr>,
             if nx \<le> lastSnapshotIndex rf then AEInstallSnapshot else AELoop)"
      using assms(2,3,5,6) arr z by (simp add: AE_reply_def r nx Let_def go_upd_Inr)
    with bnd show ?thesis by blast
  qed
qed


section \<open>Convergence of the repair loop\<close>

definition log_matching :: "'c Log list \<Rightarrow> 'c Log list \<Rightarrow> bool" where
  "log_matching l m \<longleftrightarrow>
     (\<forall>k. k < length l \<and> k < length m \<and> lg_Term (l ! k) = lg_Term (m ! k) \<longrightarrow>
          take (Suc k) l = take (Suc k) m)"

text \<open>
  A leader and a follower between which the loop runs: no snapshots yet, the follower is
  not ahead in terms, and its last entry is not newer than the leader's.
\<close>

definition repl_ready :: "('c, 'd) Raft \<Rightarrow> nat \<Rightarrow> ('c, 'd) Raft \<Rightarrow> bool" where
  "repl_ready L j F \<longleftrightarrow> raft_wf L \<and> rf_state L = LEADER \<and> j < peers L \<and> positive_terms L \<and>
     0 \<le> currentTerm L \<and> lastSnapshotIndex L = 0 \<and>
     1 \<le> nextIndex L ! j \<and> nextIndex L ! j \<le> lastIdx L + 1 \<and>
     raft_wf F \<and> lastSnapshotIndex F = 0 \<and> notifyApplyCh F < 10 \<and>
     currentTerm F \<le> currentTerm L \<and> lastTerm F \<le> currentTerm L \<and>
     (lastTerm F = currentTerm L \<longrightarrow> lastIdx F \<le> lastIdx L)"

lemma AE_send_wf:
  assumes "AE_send rf j = Inr (rf', sent)" and "raft_wf rf"
  shows "raft_wf rf'"
  using AE_send_frame [OF assms(1)] assms(2) by (simp add: raft_wf_def leader_arrays_def)

text \<open>One round of the loop on a ready pair: it succeeds, or it goes round with a smaller index.\<close>

lemma repl_round:
  assumes "repl_ready L j F"
  defines "nx \<equiv> nextIndex L ! j"
  obtains (finished) L' F' where
      "appendEntriesToPeer (Suc n) L j F = Some (Inr (L', F', AEReturn))"
      "rlog L' = rlog L" "matchIndex L' ! j = lastIdx L"
      "nat nx \<le> length (rlog L)" "nat nx \<le> length (rlog F)"
      "rlog F' = take (nat nx) (rlog F) @ drop (nat nx) (rlog L)"
      "nx = 1 \<or> lg_Term (rlog F ! (nat nx - 1)) = lg_Term (rlog L ! (nat nx - 1))"
  | (again) L' F' where
      "appendEntriesToPeer (Suc n) L j F = appendEntriesToPeer n L' j F'"
      "repl_ready L' j F'" "rlog L' = rlog L" "rlog F' = rlog F"
      "lastIdx L' = lastIdx L" "nextIndex L' ! j < nx"
proof -
  let ?args = "\<lparr>aea_Term = currentTerm L, LeaderId = int (me L), PrevLogIndex = nx - 1,
      PrevLogTerm = lg_Term (entryAt L (nx - 1)),
      Entries = drop (nat (nx - lastSnapshotIndex L)) (rlog L),
      aea_LeaderCommit = commitIndex L\<rparr>"
  have L: "raft_wf L" "rf_state L = LEADER" "j < peers L" "positive_terms L" "0 \<le> currentTerm L"
      "lastSnapshotIndex L = 0" "1 \<le> nx" "nx \<le> lastIdx L + 1"
    and F: "raft_wf F" "lastSnapshotIndex F = 0" "notifyApplyCh F < 10" "currentTerm F \<le> currentTerm L"
      "lastTerm F \<le> currentTerm L" "lastTerm F = currentTerm L \<longrightarrow> lastIdx F \<le> lastIdx L"
    using assms(1) by (auto simp: repl_ready_def nx_def)
  have neF: "rlog F \<noteq> []" using F(1) by (simp add: raft_wf_def)
  obtain L1 where snd: "AE_send L j = Inr (L1, Some ?args)"
    using AE_send_leader [OF L(1-3)] L(6-8) by (auto simp: nx_def)
  note fr = AE_send_frame [OF snd]
  have L1: "raft_wf L1" "rf_state L1 = LEADER" "j < peers L1" "positive_terms L1"
      "currentTerm L1 = currentTerm L" "lastIdx L1 = lastIdx L" "lastSnapshotIndex L1 = 0"
    using AE_send_wf [OF snd L(1)] fr L by (auto simp: positive_terms_def lastIdx_def)
  have nle: "nat nx \<le> length (rlog L)"
    using L(6-8) by (simp add: lastIdx_def)
  have total: "nx - 1 + int (length (Entries ?args)) = lastIdx L"
    using L(6,7) nle by (simp add: lastIdx_def)
  have late: "\<not> ae_late F ?args"
    using F(5,6) total by (auto simp: ae_late_def)
  show thesis
  proof (cases "ae_accepts F ?args")
    case True
    then have "nx - 1 < int (length (rlog F))"
      using F(2) by (simp add: ae_accepts_def lastIdx_def)
    then have inF: "nat nx \<le> length (rlog F)" by linarith
    obtain F' reply where ae: "AppendEntries F ?args = Inr (F', reply)"
        and F': "rlog F' = ae_log F ?args"
      using AppendEntries_on_accept [OF F(1,3) True] by auto
    have rep: "reply = ae_reply_of F ?args"
      by (rule AppendEntries_reply [OF neF ae])
    have ok: "Success reply" "aer_Term reply \<le> currentTerm L1"
      using True L(5) L1(5) unfolding rep ae_reply_of_Success
      by (auto simp: ae_reply_of_def Let_def ae_accepts_def)
    obtain L2 where L2: "AE_reply L1 j ?args reply = Inr (L2, AEReturn)" "rlog L2 = rlog L1"
        "matchIndex L2 = (matchIndex L1)[j := nextIndex L1 ! j + int (length (Entries ?args)) - 1]"
      using AE_reply_success [OF L1(1-3) ok(2) _ ok(1), of ?args] L1(5) by auto
    have "length (matchIndex L1) = peers L1"
      using L1(1,2) by (simp add: raft_wf_def leader_arrays_def)
    then have "matchIndex L2 ! j = lastIdx L"
      using L2(3) L1(3) fr total by (simp add: nx_def)
    moreover have "rlog F' = take (nat nx) (rlog F) @ drop (nat nx) (rlog L)"
      using F' F(2) L(6,7) by (simp add: ae_log_def Suc_nat_eq_nat_zadd1)
    moreover have "nx = 1 \<or> lg_Term (rlog F ! (nat nx - 1)) = lg_Term (rlog L ! (nat nx - 1))"
      using True F(2) L(6) by (auto simp: ae_accepts_def entryAt_def nat_diff_distrib)
    ultimately show thesis
      using finished [of L2 F'] L2(1,2) ae snd fr nle inF by simp
  next
    case False
    let ?F1 = "persist (ae_base F ?args)"
    have rej: "AppendEntries F ?args = Inr (?F1, ae_reply_of F ?args)"
      using AppendEntries_rejected [OF neF _ False] F(4) by simp
    let ?nx = "if lastIdx F < PrevLogIndex ?args then lastIdx F + 1 else XIndex (ae_reply_of F ?args)"
    have "\<exists>rf'. AE_reply L1 j ?args (ae_reply_of F ?args) =
        Inr (rf', if ?nx \<le> lastSnapshotIndex L1 then AEInstallSnapshot else AELoop) \<and>
      rf' = L1\<lparr>nextIndex := (nextIndex L1)[j := ?nx], matchIndex := (matchIndex L1)[j := ?nx - 1]\<rparr> \<and>
      lastSnapshotIndex F < ?nx \<and> ?nx \<le> PrevLogIndex ?args"
      using AE_reply_rejected [OF L1(1-4) _ _ F(1) _ False late] L(5,7) L1(5) F(2,4) by simp
    then obtain L2 where L2: "AE_reply L1 j ?args (ae_reply_of F ?args) =
        Inr (L2, if ?nx \<le> lastSnapshotIndex L1 then AEInstallSnapshot else AELoop)"
      and L2e: "L2 = L1\<lparr>nextIndex := (nextIndex L1)[j := ?nx], matchIndex := (matchIndex L1)[j := ?nx - 1]\<rparr>"
      and b: "lastSnapshotIndex F < ?nx" "?nx \<le> PrevLogIndex ?args"
      by blast
    have "0 < ?nx" using b(1) F(2) by simp
    then have rep: "AE_reply L1 j ?args (ae_reply_of F ?args) = Inr (L2, AELoop)"
      using L2 L1(7) by simp
    have len: "length (nextIndex L1) = peers L1"
      using L1(1,2) by (simp add: raft_wf_def leader_arrays_def)
    have nx2: "nextIndex L2 ! j = ?nx" using L2e len L1(3) by simp
    have "raft_wf L2" by (rule AE_reply_wf [OF rep L1(1)])
    moreover have "raft_wf ?F1"
      using F(1) by (simp add: raft_wf_def leader_arrays_def frame_simps)
    ultimately have "repl_ready L2 j ?F1"
      using L1 L F b nx2 \<open>0 < ?nx\<close>
      by (simp add: repl_ready_def L2e frame_simps positive_terms_def)
    moreover have "appendEntriesToPeer (Suc n) L j F = appendEntriesToPeer n L2 j ?F1"
      using snd rej rep by simp
    moreover have "nextIndex L2 ! j < nx"
      using b(2) nx2 by simp
    ultimately show thesis
      using again [of L2 ?F1] L1(6) fr by (simp add: L2e frame_simps)
  qed
qed

lemma appendEntriesToPeer_converges:
  "repl_ready L j F \<Longrightarrow> nat (nextIndex L ! j) \<le> rounds \<Longrightarrow>
   \<exists>L' F' k. appendEntriesToPeer rounds L j F = Some (Inr (L', F', AEReturn)) \<and>
     rlog L' = rlog L \<and> matchIndex L' ! j = lastIdx L \<and>
     0 < k \<and> k \<le> length (rlog L) \<and> k \<le> length (rlog F) \<and>
     rlog F' = take k (rlog F) @ drop k (rlog L) \<and>
     (k = 1 \<or> lg_Term (rlog F ! (k - 1)) = lg_Term (rlog L ! (k - 1)))"
proof (induction rounds arbitrary: L F)
  case 0
  then show ?case by (auto simp: repl_ready_def)
next
  case (Suc rounds)
  from Suc.prems(1) show ?case
  proof (cases rule: repl_round [where n = rounds])
    case (finished L' F')
    moreover have "0 < nat (nextIndex L ! j)" "nextIndex L ! j = 1 \<longrightarrow> nat (nextIndex L ! j) = 1"
      using Suc.prems(1) by (auto simp: repl_ready_def)
    ultimately show ?thesis by blast
  next
    case (again L' F')
    then have "nat (nextIndex L' ! j) \<le> rounds"
      using Suc.prems by (auto simp: repl_ready_def)
    from Suc.IH [OF again(2) this] again show ?thesis by auto
  qed
qed

lemma log_matching_join:
  assumes "log_matching F L" and "0 < k" and "k \<le> length L" and "k \<le> length F"
    and "lg_Term (F ! (k - 1)) = lg_Term (L ! (k - 1))"
  shows "take k F @ drop k L = L"
proof -
  have "k - 1 < length F" "k - 1 < length L"
    using assms(2-4) by linarith+
  then have "take (Suc (k - 1)) F = take (Suc (k - 1)) L"
    using assms(1,5) unfolding log_matching_def by blast
  then show ?thesis using assms(2) by simp
qed

text \<open>
  C7. Replication reaches agreement. Take a leader and a follower that answers each call,
  with no snapshot taken, whose logs satisfy the log-matching property and whose dummy
  entries have the same term, and let the follower not be ahead of the leader. Then the
  leader's loop \<open>appendEntriesToPeer\<close> stops within as many rounds as the follower's
  \<open>nextIndex\<close>, the follower's log is then the leader's log, the leader's own log is
  untouched, and \<open>matchIndex\<close> records the whole log as replicated.
\<close>

theorem appendEntriesToPeer_agreement:
  assumes "repl_ready L j F" and "log_matching (rlog F) (rlog L)"
    and "lg_Term (rlog F ! 0) = lg_Term (rlog L ! 0)" and "nat (nextIndex L ! j) \<le> rounds"
  shows "\<exists>L' F'. appendEntriesToPeer rounds L j F = Some (Inr (L', F', AEReturn)) \<and>
     rlog F' = rlog L \<and> rlog L' = rlog L \<and> matchIndex L' ! j = lastIdx L"
proof -
  obtain L' F' k where run: "appendEntriesToPeer rounds L j F = Some (Inr (L', F', AEReturn))"
    and L': "rlog L' = rlog L" "matchIndex L' ! j = lastIdx L"
    and k: "0 < k" "k \<le> length (rlog L)" "k \<le> length (rlog F)"
    and F': "rlog F' = take k (rlog F) @ drop k (rlog L)"
    and t: "k = 1 \<or> lg_Term (rlog F ! (k - 1)) = lg_Term (rlog L ! (k - 1))"
    using appendEntriesToPeer_converges [OF assms(1,4)] by (elim exE conjE) (rule that)
  have "lg_Term (rlog F ! (k - 1)) = lg_Term (rlog L ! (k - 1))"
    using t assms(3) by (metis cancel_comm_monoid_add_class.diff_cancel)
  then have "rlog F' = rlog L"
    unfolding F' by (intro log_matching_join assms(2) k)
  with run L' show ?thesis by blast
qed

theorem appendEntriesToPeer_agreement_witness:
  "\<exists>L' F'. appendEntriesToPeer 3 (demo_peer 0 LEADER 3 [demo_entry 7 1, demo_entry 9 3]) 1
         (demo_peer 1 FOLLOWER 2 [demo_entry 7 1, demo_entry 8 2, demo_entry 8 2]) =
       Some (Inr (L', F', AEReturn)) \<and>
     rlog F' = rlog (demo_peer 0 LEADER 3 [demo_entry 7 1, demo_entry 9 3]) \<and> matchIndex L' ! 1 = 2"
proof -
  let ?L = "demo_peer 0 LEADER 3 [demo_entry 7 1, demo_entry 9 3]"
  let ?F = "demo_peer 1 FOLLOWER 2 [demo_entry 7 1, demo_entry 8 2, demo_entry 8 2]"
  have wf: "raft_wf ?L" "raft_wf ?F" by simp_all
  have ready: "repl_ready ?L 1 ?F"
    using wf by (simp add: repl_ready_def) (auto simp: demo_simps positive_terms_def less_Suc_eq nth_Cons')
  have matching: "log_matching (rlog ?F) (rlog ?L)"
    by (auto simp: log_matching_def demo_simps less_Suc_eq)
  have "\<exists>L' F'. appendEntriesToPeer 3 ?L 1 ?F = Some (Inr (L', F', AEReturn)) \<and>
     rlog F' = rlog ?L \<and> rlog L' = rlog ?L \<and> matchIndex L' ! 1 = lastIdx ?L"
    by (rule appendEntriesToPeer_agreement [OF ready matching]) (simp_all add: demo_simps)
  moreover have "lastIdx ?L = 2" by (simp add: demo_simps)
  ultimately show ?thesis by metis
qed

end
