(* ===== verification/Raft_Snapshot.thy ===== *)
theory Raft_Snapshot
  imports Raft_Replication
begin

text \<open>
  Log compaction (\<open>raft/snapshot.go\<close>) and the apply loop (\<open>Apply\<close> of \<open>raft/raft.go\<close>).

  \<open>InstallSnapshotToPeers\<close> is split at its RPC into \<open>InstallSnapshot_send\<close> and
  \<open>InstallSnapshot_reply\<close>; its \<open>for\<close> loop returns at the end of its first round on every
  path. \<open>Apply\<close> reads the entries to apply under the lock (\<open>Apply_collect\<close>) and then
  delivers one message at a time (\<open>Apply_deliver\<close>, after the receive on \<open>applyCh\<close>).
\<close>

section \<open>Snapshots\<close>

record 'd InstallSnapshotArgs =
  isa_Term :: int
  isa_LeaderId :: int
  LastIncludeIndex :: int
  LastIncludeTerm :: int
  Data :: "'d option"
  Done :: bool

record InstallSnapshotReply =
  isr_Term :: int

definition SaveStateAndSnapshot ::
  "('c, 'd) Raft \<Rightarrow> int \<Rightarrow> 'd option \<Rightarrow> ('c, 'd) Raft go" where
  "SaveStateAndSnapshot rf index snap =
     (if index < lastSnapshotIndex rf then Inr rf
      else
        go_bind (go_idx (rlog rf) (getRealLogIndex rf index)) (\<lambda>lastLog.
        go_bind (go_from (rlog rf) (getRealLogIndex rf index)) (\<lambda>lg.
          let rf = rf\<lparr>rlog := lg, lastSnapshotIndex := index, lastSnapshotTerm := lg_Term lastLog\<rparr>
          in Inr (rf\<lparr>persister :=
                ps_SaveStateAndSnapshot (getPersistData rf) snap (persister rf)\<rparr>))))"

definition InstallSnapshot ::
  "('c, 'd) Raft \<Rightarrow> 'd InstallSnapshotArgs \<Rightarrow> (('c, 'd) Raft \<times> InstallSnapshotReply) go" where
  "InstallSnapshot rf args =
     (let reply = \<lparr>isr_Term = currentTerm rf\<rparr>
      in if isa_Term args < currentTerm rf then Inr (rf, reply)
         else
           let newer = isa_Term args > currentTerm rf
           in go_bind
                (if newer
                 then go_bind (changeRole FOLLOWER rf) (\<lambda>rf.
                        Inr (resetElectionTimer (rf\<lparr>currentTerm := isa_Term args\<rparr>)))
                 else Inr rf)
                (\<lambda>rf.
                  let deferred = (\<lambda>rf. if newer then persist rf else rf)
                  in if lastSnapshotIndex rf \<ge> LastIncludeIndex args then Inr (deferred rf, reply)
                     else
                       let offset = LastIncludeIndex args - lastSnapshotIndex rf;
                           lg = (if offset \<ge> int (length (rlog rf))
                                 then [\<lparr>lg_Command = INil, lg_Term = LastIncludeTerm args\<rparr>]
                                 else drop (nat offset) (rlog rf));
                           rf = rf\<lparr>rlog := lg, lastSnapshotIndex := LastIncludeIndex args,
                                   lastSnapshotTerm := LastIncludeTerm args\<rparr>;
                           rf = rf\<lparr>persister :=
                             ps_SaveStateAndSnapshot (getPersistData rf) (Data args) (persister rf)\<rparr>
                       in Inr (deferred rf, reply)))"

definition InstallSnapshot_send :: "('c, 'd) Raft \<Rightarrow> 'd InstallSnapshotArgs" where
  "InstallSnapshot_send rf =
     \<lparr>isa_Term = currentTerm rf, isa_LeaderId = int (me rf),
      LastIncludeIndex = lastSnapshotIndex rf, LastIncludeTerm = lastSnapshotTerm rf,
      Data = ps_ReadSnapshot (persister rf), Done = False\<rparr>"

text \<open>\<open>None\<close>: the timer fired first, and the reply still has its zero value.\<close>

definition InstallSnapshot_reply ::
  "('c, 'd) Raft \<Rightarrow> nat \<Rightarrow> InstallSnapshotReply option \<Rightarrow> ('c, 'd) Raft go" where
  "InstallSnapshot_reply rf index res =
     go_bind
       (case res of
          Some _ \<Rightarrow>
            go_bind (go_upd (nextIndex rf) (int index) (lastSnapshotIndex rf + 1)) (\<lambda>ni.
            go_bind (go_upd (matchIndex rf) (int index) (lastSnapshotIndex rf)) (\<lambda>mi.
              Inr (rf\<lparr>nextIndex := ni, matchIndex := mi\<rparr>)))
        | None \<Rightarrow> Inr rf)
       (\<lambda>rf.
         let term = (case res of Some reply \<Rightarrow> isr_Term reply | None \<Rightarrow> 0)
         in if term > currentTerm rf
            then go_bind (changeRole FOLLOWER (rf\<lparr>currentTerm := term\<rparr>)) (\<lambda>rf.
                   Inr (resetElectionTimer rf))
            else Inr rf)"

section \<open>Applying\<close>

fun Apply_loop :: "('c, 'd) Raft \<Rightarrow> int list \<Rightarrow> 'c ApplyMsg list go" where
  "Apply_loop rf [] = Inr []"
| "Apply_loop rf (i # is) =
     go_bind (go_idx (rlog rf) (getRealLogIndex rf i)) (\<lambda>e.
     go_bind (Apply_loop rf is) (\<lambda>msgs.
       Inr (\<lparr>CommandValid = True, am_Command = lg_Command e, CommandIndex = i\<rparr> # msgs)))"

definition Apply_collect :: "('c, 'd) Raft \<Rightarrow> 'c ApplyMsg list go" where
  "Apply_collect rf =
     (if lastApplied rf < lastSnapshotIndex rf
      then Inr [\<lparr>CommandValid = False, am_Command = IStr ''installSnapshot'',
                 CommandIndex = lastSnapshotIndex rf\<rparr>]
      else if commitIndex rf < lastApplied rf then Inl SliceOutOfRange
      else Apply_loop rf [lastApplied rf + 1 .. commitIndex rf])"

definition Apply_deliver :: "('c, 'd) Raft \<Rightarrow> 'c ApplyMsg \<Rightarrow> ('c, 'd) Raft" where
  "Apply_deliver rf msg =
     (let rf = rf\<lparr>lastApplied := CommandIndex msg\<rparr>
      in if am_Command msg = IStr ''installSnapshot''
         then rf\<lparr>commitIndex := lastApplied rf\<rparr> else rf)"

definition Apply :: "('c, 'd) Raft \<Rightarrow> (('c, 'd) Raft \<times> 'c ApplyMsg list) go" where
  "Apply rf = go_bind (Apply_collect rf) (\<lambda>msgs. Inr (foldl Apply_deliver rf msgs, msgs))"

section \<open>The apply loop\<close>

text \<open>
  The goroutine of \<open>Periodic\<close> that applies entries: a timer puts a notification into the channel
  that the same goroutine reads. A step is \<open>None\<close> when its case of the \<open>select\<close> is not ready.
\<close>

datatype apply_event = ApplyTimer | ApplyNotified

fun apply_loop_step :: "apply_event \<Rightarrow> ('c, 'd) Raft \<Rightarrow> (('c, 'd) Raft \<times> 'c ApplyMsg list) go option" where
  "apply_loop_step ApplyTimer rf = Some (go_bind (notifyApply rf) (\<lambda>rf. Inr (rf, [])))"
| "apply_loop_step ApplyNotified rf =
     (if notifyApplyCh rf = 0 then None else Some (Apply (rf\<lparr>notifyApplyCh := notifyApplyCh rf - 1\<rparr>)))"

section \<open>Effect on votes and well-formedness\<close>

lemma SaveStateAndSnapshot_frame:
  assumes "SaveStateAndSnapshot rf index sn = Inr rf'" and "raft_wf rf"
  shows "vote_frame rf rf' \<and> raft_wf rf'"
  using assms
  by (auto simp: SaveStateAndSnapshot_def go_Inr_iffs Let_def vote_frame_def raft_wf_def
      leader_arrays_def ps_SaveStateAndSnapshot_def split: if_splits)

lemma InstallSnapshot_frame:
  assumes "InstallSnapshot rf args = Inr (rf', reply)" and "raft_wf rf"
  shows "vote_frame rf rf' \<and> raft_wf rf'"
proof -
  consider "isa_Term args < currentTerm rf" | "isa_Term args = currentTerm rf"
    | "currentTerm rf < isa_Term args" by linarith
  then show ?thesis
    using assms
    by cases (auto simp: InstallSnapshot_def Let_def vote_frame_def raft_wf_def leader_arrays_def
        frame_simps ps_SaveStateAndSnapshot_def split: if_splits)
qed

lemma InstallSnapshot_reply_frame:
  assumes "InstallSnapshot_reply rf j res = Inr rf'"
  shows "vote_frame rf rf' \<and> rlog rf' = rlog rf \<and> (raft_wf rf \<longrightarrow> raft_wf rf')"
  using assms
  by (cases res) (auto simp: InstallSnapshot_reply_def go_Inr_iffs Let_def vote_frame_def
      raft_wf_def leader_arrays_def frame_simps split: if_splits)

lemma Apply_deliver_frame [simp]:
  "vote_frame rf (Apply_deliver rf msg)" "rlog (Apply_deliver rf msg) = rlog rf"
  "raft_wf (Apply_deliver rf msg) = raft_wf rf"
  "lastSnapshotIndex (Apply_deliver rf msg) = lastSnapshotIndex rf"
  by (auto simp: Apply_deliver_def Let_def vote_frame_def raft_wf_def leader_arrays_def)

section \<open>Compaction\<close>

text \<open>
  C14. Compaction keeps the log that is still needed. A snapshot at an index of the log makes
  that index the snapshot position, with the term of its entry; every entry from that
  index on is where it was, the last index is unchanged, and the new raft state and the
  snapshot are saved together. An index before the current snapshot changes nothing.
\<close>

theorem SaveStateAndSnapshot_keeps_suffix:
  assumes "raft_wf rf" and "index \<le> lastIdx rf"
  shows "\<exists>rf'. SaveStateAndSnapshot rf index sn = Inr rf' \<and> raft_wf rf' \<and>
     lastIdx rf' = lastIdx rf \<and>
     (if index < lastSnapshotIndex rf then rf' = rf
      else lastSnapshotIndex rf' = index \<and> lastSnapshotTerm rf' = lg_Term (entryAt rf index) \<and>
           (\<forall>i. index \<le> i \<and> i \<le> lastIdx rf \<longrightarrow> entryAt rf' i = entryAt rf i) \<and>
           raftstate (persister rf') = getPersistData rf' \<and> snapshot (persister rf') = sn \<and>
           currentTerm rf' = currentTerm rf \<and> voteFor rf' = voteFor rf \<and>
           commitIndex rf' = commitIndex rf)"
proof (cases "index < lastSnapshotIndex rf")
  case True
  then show ?thesis using assms by (simp add: SaveStateAndSnapshot_def)
next
  case False
  let ?k = "index - lastSnapshotIndex rf"
  have k: "0 \<le> ?k" "?k < int (length (rlog rf))"
    using False assms(2) by (auto simp: lastIdx_def)
  obtain rf' where eq: "SaveStateAndSnapshot rf index sn = Inr rf'"
    and f: "rlog rf' = drop (nat ?k) (rlog rf)" "lastSnapshotIndex rf' = index"
      "lastSnapshotTerm rf' = lg_Term (entryAt rf index)"
      "raftstate (persister rf') = getPersistData rf'" "snapshot (persister rf') = sn"
      "currentTerm rf' = currentTerm rf" "voteFor rf' = voteFor rf" "commitIndex rf' = commitIndex rf"
    using False k
    by (simp add: SaveStateAndSnapshot_def getRealLogIndex_def go_idx_Inr go_from_Inr Let_def
        entryAt_def ps_SaveStateAndSnapshot_def getPersistData_def)
  have "lastIdx rf' = lastIdx rf"
    using k f by (auto simp: lastIdx_def)
  moreover have "entryAt rf' i = entryAt rf i" if "index \<le> i" "i \<le> lastIdx rf" for i
    using that k f by (auto simp: entryAt_def nat_diff_distrib add.commute simp flip: nat_add_distrib)
  moreover have "raft_wf rf'"
    using SaveStateAndSnapshot_frame [OF eq assms(1)] by simp
  ultimately show ?thesis
    using False eq f by simp
qed

theorem SaveStateAndSnapshot_keeps_suffix_witness:
  "\<exists>rf'. SaveStateAndSnapshot (demo_peer 1 FOLLOWER 1 [demo_entry 7 1, demo_entry 8 1]) 1 (Some 42) = Inr rf' \<and>
     lastSnapshotIndex rf' = 1 \<and> lastIdx rf' = 2 \<and> lastSnapshotTerm rf' = 1 \<and>
     snapshot (persister rf') = Some 42"
  using SaveStateAndSnapshot_keeps_suffix [OF demo_peer_wf, of 1 1 FOLLOWER 1
      "[demo_entry 7 1, demo_entry 8 1]" "Some 42"]
  by (auto simp: demo_simps entryAt_def)

text \<open>
  Installing a snapshot that is ahead of the peer's own: the snapshot position becomes
  the leader's, the log entries after it survive, a log that does not reach it is replaced
  by a single entry with the snapshot's term, and state and snapshot are saved together.
  A message of an old term, or of a snapshot not ahead, leaves the log alone.
\<close>

theorem InstallSnapshot_spec:
  assumes "raft_wf rf"
  shows "\<exists>rf'. InstallSnapshot rf args = Inr (rf', \<lparr>isr_Term = currentTerm rf\<rparr>) \<and> raft_wf rf' \<and>
     currentTerm rf' = max (currentTerm rf) (isa_Term args) \<and>
     (if isa_Term args < currentTerm rf \<or> LastIncludeIndex args \<le> lastSnapshotIndex rf
      then rlog rf' = rlog rf \<and> lastSnapshotIndex rf' = lastSnapshotIndex rf
      else lastSnapshotIndex rf' = LastIncludeIndex args \<and>
           lastSnapshotTerm rf' = LastIncludeTerm args \<and>
           rlog rf' = (if lastIdx rf < LastIncludeIndex args
                       then [\<lparr>lg_Command = INil, lg_Term = LastIncludeTerm args\<rparr>]
                       else drop (nat (LastIncludeIndex args - lastSnapshotIndex rf)) (rlog rf)) \<and>
           lastIdx rf' = max (lastIdx rf) (LastIncludeIndex args) \<and>
           raftstate (persister rf') = getPersistData rf' \<and> snapshot (persister rf') = Data args)"
proof -
  have ex: "\<exists>rf'. InstallSnapshot rf args = Inr (rf', \<lparr>isr_Term = currentTerm rf\<rparr>)"
    by (simp add: InstallSnapshot_def Let_def)
  then obtain rf' where eq: "InstallSnapshot rf args = Inr (rf', \<lparr>isr_Term = currentTerm rf\<rparr>)" ..
  have len: "LastIncludeIndex args - lastSnapshotIndex rf < int (length (rlog rf)) \<longleftrightarrow>
      \<not> lastIdx rf < LastIncludeIndex args"
    by (auto simp: lastIdx_def)
  consider "isa_Term args < currentTerm rf" | "isa_Term args = currentTerm rf"
    | "currentTerm rf < isa_Term args" by linarith
  then show ?thesis
    using eq InstallSnapshot_frame [OF eq assms]
    by cases (auto simp: InstallSnapshot_def Let_def frame_simps ps_SaveStateAndSnapshot_def
        getPersistData_def len not_less max_def lastIdx_def split: if_splits)
qed

theorem InstallSnapshot_spec_witness:
  "\<exists>rf'. InstallSnapshot (demo_peer 1 FOLLOWER 1 [demo_entry 7 1])
       \<lparr>isa_Term = 2, isa_LeaderId = 0, LastIncludeIndex = 5, LastIncludeTerm = 2, Data = Some 42, Done = False\<rparr> =
       Inr (rf', \<lparr>isr_Term = 1\<rparr>) \<and>
     currentTerm rf' = 2 \<and> lastIdx rf' = 5 \<and> snapshot (persister rf') = Some 42 \<and>
     rlog rf' = [\<lparr>lg_Command = INil, lg_Term = 2\<rparr>]"
  using InstallSnapshot_spec [OF demo_peer_wf, of 1 FOLLOWER 1 "[demo_entry 7 1]"
      "\<lparr>isa_Term = 2, isa_LeaderId = 0, LastIncludeIndex = 5, LastIncludeTerm = 2, Data = Some 42, Done = False\<rparr>"]
  by (auto simp: demo_simps)

section \<open>The apply loop\<close>

lemma Apply_loop_eq:
  assumes "\<And>i. i \<in> set is \<Longrightarrow> lastSnapshotIndex rf \<le> i \<and> i \<le> lastIdx rf"
  shows "Apply_loop rf is = Inr (map (\<lambda>i. \<lparr>CommandValid = True,
           am_Command = lg_Command (entryAt rf i), CommandIndex = i\<rparr>) is)"
  using assms
proof (induction "is")
  case Nil
  then show ?case by simp
next
  case (Cons i "is")
  have "lastSnapshotIndex rf \<le> i" "i - lastSnapshotIndex rf < int (length (rlog rf))"
    using Cons.prems [of i] by (auto simp: lastIdx_def)
  then have "go_idx (rlog rf) (getRealLogIndex rf i) = Inr (entryAt rf i)"
    by (simp add: getRealLogIndex_def go_idx_Inr entryAt_def)
  then show ?case
    using Cons by simp
qed

lemma foldl_Apply_deliver:
  "(\<And>m. m \<in> set msgs \<Longrightarrow> am_Command m \<noteq> IStr ''installSnapshot'') \<Longrightarrow>
   foldl Apply_deliver rf msgs =
     (if msgs = [] then rf else rf\<lparr>lastApplied := CommandIndex (last msgs)\<rparr>)"
  by (induction msgs arbitrary: rf) (auto simp: Apply_deliver_def Let_def)

text \<open>
  C15. Committed entries are applied once each and in log order: on a peer whose applied
  index is not behind its snapshot and whose commit index lies inside its log, \<open>Apply\<close>
  delivers exactly the commands of the entries after the applied index up to the commit
  index, in increasing order of index, and then has applied everything committed. Nothing
  else changes.
\<close>

theorem Apply_delivers_committed_in_order:
  assumes "lastSnapshotIndex rf \<le> lastApplied rf" and "lastApplied rf \<le> commitIndex rf"
    and "commitIndex rf \<le> lastIdx rf"
    and "\<And>i. lastApplied rf < i \<Longrightarrow> i \<le> commitIndex rf \<Longrightarrow>
           lg_Command (entryAt rf i) \<noteq> IStr ''installSnapshot''"
  shows "Apply rf = Inr (rf\<lparr>lastApplied := commitIndex rf\<rparr>,
           map (\<lambda>i. \<lparr>CommandValid = True, am_Command = lg_Command (entryAt rf i), CommandIndex = i\<rparr>)
             [lastApplied rf + 1 .. commitIndex rf])"
proof -
  let ?is = "[lastApplied rf + 1 .. commitIndex rf]"
  let ?msgs = "map (\<lambda>i. \<lparr>CommandValid = True, am_Command = lg_Command (entryAt rf i), CommandIndex = i\<rparr>) ?is"
  have "Apply_collect rf = Inr ?msgs"
    using assms(1-3) by (simp add: Apply_collect_def) (intro Apply_loop_eq, auto)
  moreover have "foldl Apply_deliver rf ?msgs =
      (if ?msgs = [] then rf else rf\<lparr>lastApplied := CommandIndex (last ?msgs)\<rparr>)"
    using assms(4) by (intro foldl_Apply_deliver) auto
  moreover have "(if ?msgs = [] then rf else rf\<lparr>lastApplied := CommandIndex (last ?msgs)\<rparr>) =
      rf\<lparr>lastApplied := commitIndex rf\<rparr>"
  proof (cases "lastApplied rf < commitIndex rf")
    case True
    then have "?is = [lastApplied rf + 1 .. commitIndex rf - 1] @ [commitIndex rf]"
      by (intro upto_rec2) simp
    then show ?thesis by (simp add: last_map)
  next
    case False
    then show ?thesis using assms(2) by simp
  qed
  ultimately show ?thesis by (simp add: Apply_def)
qed

theorem Apply_delivers_committed_in_order_witness:
  "Apply ((demo_peer 0 LEADER 1 [demo_entry 7 1, demo_entry 8 1])\<lparr>commitIndex := 2\<rparr>) =
     Inr ((demo_peer 0 LEADER 1 [demo_entry 7 1, demo_entry 8 1])\<lparr>commitIndex := 2, lastApplied := 2\<rparr>,
          [\<lparr>CommandValid = True, am_Command = ICmd 7, CommandIndex = 1\<rparr>,
           \<lparr>CommandValid = True, am_Command = ICmd 8, CommandIndex = 2\<rparr>])"
proof -
  let ?rf = "(demo_peer 0 LEADER 1 [demo_entry 7 1, demo_entry 8 1])\<lparr>commitIndex := 2\<rparr>"
  have cmd: "lg_Command (entryAt ?rf i) \<noteq> IStr ''installSnapshot''" if "0 < i" "i \<le> 2" for i
  proof -
    have "i = 1 \<or> i = 2" using that by linarith
    then show ?thesis by (auto simp: entryAt_def demo_simps)
  qed
  have "Apply ?rf = Inr (?rf\<lparr>lastApplied := commitIndex ?rf\<rparr>,
           map (\<lambda>i. \<lparr>CommandValid = True, am_Command = lg_Command (entryAt ?rf i), CommandIndex = i\<rparr>)
             [lastApplied ?rf + 1 .. commitIndex ?rf])"
    by (rule Apply_delivers_committed_in_order) (use cmd in \<open>simp_all add: demo_simps\<close>)
  then show ?thesis
    by (simp add: entryAt_def demo_simps upto.simps)
qed

section \<open>The apply loop and its channel\<close>

fun ae_all :: "('c, 'd) Raft \<Rightarrow> 'c AppendEntriesArgs list \<Rightarrow> ('c, 'd) Raft go" where
  "ae_all rf [] = Inr rf"
| "ae_all rf (a # as) = go_bind (AppendEntries rf a) (\<lambda>(rf, _). ae_all rf as)"

definition commit_message :: "nat \<Rightarrow> nat AppendEntriesArgs" where
  "commit_message k =
     \<lparr>aea_Term = 1, LeaderId = 0, PrevLogIndex = int k, PrevLogTerm = (if k = 0 then 0 else 1),
      Entries = [demo_entry k 1], aea_LeaderCommit = int k + 1\<rparr>"

text \<open>With room in the channel the timer leads to a round of \<open>Apply\<close>.\<close>

theorem apply_loop_round:
  assumes "notifyApplyCh rf < 10"
  shows "\<exists>rf1. apply_loop_step ApplyTimer rf = Some (Inr (rf1, [])) \<and> apply_loop_step ApplyNotified rf1 = Some (Apply rf)"
  using assms by (simp add: notifyApply_def)

text \<open>
  Ten messages that raise the commit index before the loop runs fill the channel. When the timer fires
  then, the loop waits for room in a channel that nobody else reads: it blocks for ever, with the ten
  entries committed and none applied.
\<close>

theorem apply_loop_blocks_itself:
  "case ae_all (demo_peer 1 FOLLOWER 1 []) (map commit_message [0..<10]) of
     Inl _ \<Rightarrow> False
   | Inr rf \<Rightarrow> commitIndex rf = 10 \<and> lastApplied rf = 0 \<and> apply_loop_step ApplyTimer rf = Some (Inl ChannelFull)"
  by code_simp

end
