(* ===== verification/Raft_Cluster.thy ===== *)
theory Raft_Cluster
  imports Raft_Snapshot
begin

text \<open>
  A cluster of \<open>n\<close> Raft peers over a network that may lose, delay, reorder and duplicate
  messages (\<open>labrpc\<close>). \<open>net\<close> is the set of all requests and replies ever sent; delivering
  one does not remove it. A step \<open>cexec\<close> is one critical section of the code, run by one
  peer: the handlers of the three RPCs, the two halves of \<open>Election\<close> with one step per
  vote reply in between, the two halves of a round of \<open>appendEntriesToPeer\<close> and of
  \<open>InstallSnapshotToPeers\<close>, \<open>Start\<close>, the two halves of \<open>Apply\<close>, \<open>SaveStateAndSnapshot\<close>,
  and a crash followed by \<open>Make\<close> on the persister. Timers may fire at any moment. A
  handler that panics or blocks has no step; a crash is always possible.

  \<open>elect_run\<close> is a running \<open>SendRequest\<close>, \<open>sender\<close> the program counter of the goroutine
  that replicates to one peer. Two fields are history and read by no step: \<open>votes\<close>, the
  votes ever given as (voter, term, candidate), and \<open>el_voters\<close>, the peers counted in
  \<open>res\<close>.
\<close>

section \<open>State\<close>

datatype ('c, 'd) msg =
    RVReq nat nat RequestVoteArgs
  | RVResp nat nat RequestVoteArgs RequestVoteReply
  | AEReq nat nat "'c AppendEntriesArgs"
  | AEResp nat nat "'c AppendEntriesArgs" AppendEntriesReply
  | ISReq nat nat "'d InstallSnapshotArgs"
  | ISResp nat nat "'d InstallSnapshotArgs" InstallSnapshotReply

datatype ('c, 'd) sender =
    SIdle
  | SAwaitAE "'c AppendEntriesArgs"
  | SWantIS
  | SAwaitIS "'d InstallSnapshotArgs"

record elect_run =
  el_args :: RequestVoteArgs
  el_pending :: "nat list"
  el_res :: int
  el_another :: bool
  el_voters :: "nat list"

record ('c, 'd) cluster =
  node :: "nat \<Rightarrow> ('c, 'd) Raft"
  net :: "('c, 'd) msg set"
  elects :: "nat \<Rightarrow> elect_run option"
  senders :: "nat \<Rightarrow> nat \<Rightarrow> ('c, 'd) sender"
  applying :: "nat \<Rightarrow> 'c ApplyMsg list"
  votes :: "(nat \<times> int \<times> int) set"

datatype ('c, 'd) event =
    Timeout nat
  | RecvRV nat nat RequestVoteArgs
  | RVReply nat nat "RequestVoteReply option"
  | ElectionDone nat
  | SendAE nat nat
  | RecvAE nat nat "'c AppendEntriesArgs"
  | AEReplied nat nat AppendEntriesReply
  | AELost nat nat
  | SendIS nat nat
  | RecvIS nat nat "'d InstallSnapshotArgs"
  | ISDone nat nat "InstallSnapshotReply option"
  | ClientStart nat "'c iface"
  | ApplyCollect nat
  | ApplyDeliver nat
  | TakeSnapshot nat int "'d option"
  | Crash nat

definition cluster_init :: "nat \<Rightarrow> ('c, 'd) cluster" where
  "cluster_init n =
     \<lparr>node = (\<lambda>i. projr (Make n i MakePersister)), net = {}, elects = (\<lambda>_. None),
      senders = (\<lambda>_ _. SIdle), applying = (\<lambda>_. []), votes = {}\<rparr>"

section \<open>Steps\<close>

definition set_node ::
  "nat \<Rightarrow> ('c, 'd) Raft \<Rightarrow> ('c, 'd) cluster \<Rightarrow> ('c, 'd) cluster" where
  "set_node i rf c = c\<lparr>node := (node c)(i := rf)\<rparr>"

definition send :: "('c, 'd) msg set \<Rightarrow> ('c, 'd) cluster \<Rightarrow> ('c, 'd) cluster" where
  "send ms c = c\<lparr>net := net c \<union> ms\<rparr>"

definition set_sender ::
  "nat \<Rightarrow> nat \<Rightarrow> ('c, 'd) sender \<Rightarrow> ('c, 'd) cluster \<Rightarrow> ('c, 'd) cluster" where
  "set_sender i j s c = c\<lparr>senders := (senders c)(i := (senders c i)(j := s))\<rparr>"

fun res_opt :: "'a go \<Rightarrow> 'a option" where
  "res_opt (Inl e) = None"
| "res_opt (Inr x) = Some x"

definition step_timeout :: "nat \<Rightarrow> nat \<Rightarrow> ('c, 'd) cluster \<Rightarrow> ('c, 'd) cluster option" where
  "step_timeout n i c =
     (if elects c i \<noteq> None then None
      else case Election_begin (node c i) of
        Inl _ \<Rightarrow> None
      | Inr (rf, None) \<Rightarrow> Some (set_node i rf c)
      | Inr (rf, Some args) \<Rightarrow>
          let others = filter (\<lambda>p. p \<noteq> i) [0..<n]
          in Some (send ((\<lambda>p. RVReq i p args) ` set others) (set_node i rf
               (c\<lparr>elects := (elects c)(i := Some \<lparr>el_args = args, el_pending = others, el_res = 0,
                     el_another = False, el_voters = []\<rparr>),
                  votes := insert (i, rva_Term args, int i) (votes c)\<rparr>))))"

definition step_rv_reply ::
  "nat \<Rightarrow> nat \<Rightarrow> RequestVoteReply option \<Rightarrow> ('c, 'd) cluster \<Rightarrow> ('c, 'd) cluster option" where
  "step_rv_reply i p r c =
     (case elects c i of
        None \<Rightarrow> None
      | Some el \<Rightarrow>
          if p \<in> set (el_pending el) \<and> 
             (case r of None \<Rightarrow> True | Some v \<Rightarrow> RVResp p i (el_args el) v \<in> net c)
          then (case SendRequest_reply (el_args el) (node c i, el_res el, el_another el) r of
                  (rf, res, another) \<Rightarrow>
                    Some (set_node i rf
                      (c\<lparr>elects := (elects c)(i := Some (el\<lparr>
                           el_pending := remove1 p (el_pending el), el_res := res,
                           el_another := another,
                           el_voters := (if res = el_res el then el_voters el
                                         else p # el_voters el)\<rparr>))\<rparr>)))
          else None)"

definition step_election_done :: "nat \<Rightarrow> ('c, 'd) cluster \<Rightarrow> ('c, 'd) cluster option" where
  "step_election_done i c =
     (case elects c i of
        None \<Rightarrow> None
      | Some el \<Rightarrow>
          (case Election_end (SendRequest_finish (node c i) (el_another el)) (el_args el) (el_res el) of
             Inl _ \<Rightarrow> None
           | Inr rf \<Rightarrow> Some (set_node i rf (c\<lparr>elects := (elects c)(i := None)\<rparr>))))"

definition step_recv_rv ::
  "nat \<Rightarrow> nat \<Rightarrow> RequestVoteArgs \<Rightarrow> ('c, 'd) cluster \<Rightarrow> ('c, 'd) cluster option" where
  "step_recv_rv i src args c =
     (if RVReq src i args \<notin> net c then None
      else case RequestVote (node c i) args of
        Inl _ \<Rightarrow> None
      | Inr (rf, reply) \<Rightarrow>
          Some (send {RVResp i src args reply} (set_node i rf
            (if VoteGranted reply
             then c\<lparr>votes := insert (i, rva_Term args, CandidateId args) (votes c)\<rparr> else c))))"

definition step_send_ae :: "nat \<Rightarrow> nat \<Rightarrow> ('c, 'd) cluster \<Rightarrow> ('c, 'd) cluster option" where
  "step_send_ae i j c =
     (if senders c i j \<noteq> SIdle \<or> i = j then None
      else case AE_send (node c i) j of
        Inl _ \<Rightarrow> None
      | Inr (rf, None) \<Rightarrow> Some (set_node i rf c)
      | Inr (rf, Some args) \<Rightarrow>
          Some (send {AEReq i j args} (set_sender i j (SAwaitAE args) (set_node i rf c))))"

definition step_recv_ae ::
  "nat \<Rightarrow> nat \<Rightarrow> 'c AppendEntriesArgs \<Rightarrow> ('c, 'd) cluster \<Rightarrow> ('c, 'd) cluster option" where
  "step_recv_ae i src args c =
     (if AEReq src i args \<notin> net c then None
      else case AppendEntries (node c i) args of
        Inl _ \<Rightarrow> None
      | Inr (rf, reply) \<Rightarrow> Some (send {AEResp i src args reply} (set_node i rf c)))"

definition step_ae_replied ::
  "nat \<Rightarrow> nat \<Rightarrow> AppendEntriesReply \<Rightarrow> ('c, 'd) cluster \<Rightarrow> ('c, 'd) cluster option" where
  "step_ae_replied i j reply c =
     (case senders c i j of
        SAwaitAE args \<Rightarrow>
          (if AEResp j i args reply \<notin> net c then None
           else case AE_reply (node c i) j args reply of
             Inl _ \<Rightarrow> None
           | Inr (rf, nxt) \<Rightarrow>
               Some (set_sender i j (if nxt = AEInstallSnapshot then SWantIS else SIdle)
                       (set_node i rf c)))
      | _ \<Rightarrow> None)"

definition step_send_is :: "nat \<Rightarrow> nat \<Rightarrow> ('c, 'd) cluster \<Rightarrow> ('c, 'd) cluster option" where
  "step_send_is i j c =
     (if senders c i j \<noteq> SWantIS then None
      else let args = InstallSnapshot_send (node c i)
           in Some (send {ISReq i j args} (set_sender i j (SAwaitIS args) c)))"

definition step_recv_is ::
  "nat \<Rightarrow> nat \<Rightarrow> 'd InstallSnapshotArgs \<Rightarrow> ('c, 'd) cluster \<Rightarrow> ('c, 'd) cluster option" where
  "step_recv_is i src args c =
     (if ISReq src i args \<notin> net c then None
      else case InstallSnapshot (node c i) args of
        Inl _ \<Rightarrow> None
      | Inr (rf, reply) \<Rightarrow> Some (send {ISResp i src args reply} (set_node i rf c)))"

definition step_is_done ::
  "nat \<Rightarrow> nat \<Rightarrow> InstallSnapshotReply option \<Rightarrow> ('c, 'd) cluster \<Rightarrow> ('c, 'd) cluster option" where
  "step_is_done i j r c =
     (case senders c i j of
        SAwaitIS args \<Rightarrow>
          (if \<not> (case r of None \<Rightarrow> True | Some v \<Rightarrow> ISResp j i args v \<in> net c) then None
           else case InstallSnapshot_reply (node c i) j r of
             Inl _ \<Rightarrow> None
           | Inr rf \<Rightarrow> Some (set_sender i j SIdle (set_node i rf c)))
      | _ \<Rightarrow> None)"

definition step_crash :: "nat \<Rightarrow> nat \<Rightarrow> ('c, 'd) cluster \<Rightarrow> ('c, 'd) cluster option" where
  "step_crash n i c =
     map_option (\<lambda>rf. set_node i rf
         (c\<lparr>elects := (elects c)(i := None), senders := (senders c)(i := (\<lambda>_. SIdle)),
            applying := (applying c)(i := [])\<rparr>))
       (res_opt (Make n i (persister (node c i))))"

text \<open>The peer that takes a step, and the step.\<close>

fun actor :: "('c, 'd) event \<Rightarrow> nat" where
  "actor (Timeout i) = i" | "actor (RecvRV i _ _) = i" | "actor (RVReply i _ _) = i"
| "actor (ElectionDone i) = i" | "actor (SendAE i _) = i" | "actor (RecvAE i _ _) = i"
| "actor (AEReplied i _ _) = i" | "actor (AELost i _) = i" | "actor (SendIS i _) = i"
| "actor (RecvIS i _ _) = i" | "actor (ISDone i _ _) = i" | "actor (ClientStart i _) = i"
| "actor (ApplyCollect i) = i" | "actor (ApplyDeliver i) = i" | "actor (TakeSnapshot i _ _) = i"
| "actor (Crash i) = i"

fun cstep :: "nat \<Rightarrow> ('c, 'd) cluster \<Rightarrow> ('c, 'd) event \<Rightarrow> ('c, 'd) cluster option" where
  "cstep n c (Timeout i) = step_timeout n i c"
| "cstep n c (RecvRV i src args) = step_recv_rv i src args c"
| "cstep n c (RVReply i p r) = step_rv_reply i p r c"
| "cstep n c (ElectionDone i) = step_election_done i c"
| "cstep n c (SendAE i j) = step_send_ae i j c"
| "cstep n c (RecvAE i src args) = step_recv_ae i src args c"
| "cstep n c (AEReplied i j reply) = step_ae_replied i j reply c"
| "cstep n c (AELost i j) =
     (case senders c i j of SAwaitAE _ \<Rightarrow> Some (set_sender i j SIdle c) | _ \<Rightarrow> None)"
| "cstep n c (SendIS i j) = step_send_is i j c"
| "cstep n c (RecvIS i src args) = step_recv_is i src args c"
| "cstep n c (ISDone i j r) = step_is_done i j r c"
| "cstep n c (ClientStart i cmd) =
     map_option (\<lambda>(rf, _). set_node i rf c) (res_opt (Start (node c i) cmd))"
| "cstep n c (ApplyCollect i) =
     (if applying c i \<noteq> [] then None
      else map_option (\<lambda>msgs. c\<lparr>applying := (applying c)(i := msgs)\<rparr>)
             (res_opt (Apply_collect (node c i))))"
| "cstep n c (ApplyDeliver i) =
     (case applying c i of
        [] \<Rightarrow> None
      | m # ms \<Rightarrow> Some (set_node i (Apply_deliver (node c i) m)
                          (c\<lparr>applying := (applying c)(i := ms)\<rparr>)))"
| "cstep n c (TakeSnapshot i index sn) =
     map_option (\<lambda>rf. set_node i rf c) (res_opt (SaveStateAndSnapshot (node c i) index sn))"
| "cstep n c (Crash i) = step_crash n i c"

definition cexec :: "nat \<Rightarrow> ('c, 'd) cluster \<Rightarrow> ('c, 'd) event \<Rightarrow> ('c, 'd) cluster option" where
  "cexec n c e = (if actor e < n then cstep n c e else None)"

abbreviation creach :: "nat \<Rightarrow> ('c, 'd) cluster \<Rightarrow> bool" where
  "creach n \<equiv> reachable (\<lambda>c. c = cluster_init n) (cexec n)"

section \<open>The election invariant\<close>

definition nodes_ok :: "nat \<Rightarrow> ('c, 'd) cluster \<Rightarrow> bool" where
  "nodes_ok n c \<longleftrightarrow> (\<forall>i<n. raft_wf (node c i) \<and> me (node c i) = i \<and> peers (node c i) = n)"

definition votes_ok :: "nat \<Rightarrow> ('c, 'd) cluster \<Rightarrow> bool" where
  "votes_ok n c \<longleftrightarrow> (\<forall>p T s. (p, T, s) \<in> votes c \<longrightarrow>
     p < n \<and> 0 \<le> s \<and> T \<le> currentTerm (node c p) \<and>
     (T = currentTerm (node c p) \<longrightarrow> voteFor (node c p) = s) \<and>
     (\<exists>t v. saved_vote (raftstate (persister (node c p))) = Some (t, v) \<and> T \<le> t \<and> (T = t \<longrightarrow> v = s)))"

definition votes_unique :: "('c, 'd) cluster \<Rightarrow> bool" where
  "votes_unique c \<longleftrightarrow> (\<forall>p T s s'. (p, T, s) \<in> votes c \<longrightarrow> (p, T, s') \<in> votes c \<longrightarrow> s = s')"

definition rv_net_ok :: "nat \<Rightarrow> ('c, 'd) cluster \<Rightarrow> bool" where
  "rv_net_ok n c \<longleftrightarrow>
     (\<forall>src dst args. RVReq src dst args \<in> net c \<longrightarrow> CandidateId args = int src \<and> src \<noteq> dst) \<and>
     (\<forall>p s args reply. RVResp p s args reply \<in> net c \<longrightarrow> VoteGranted reply \<longrightarrow>
        (p, rva_Term args, int s) \<in> votes c \<and> p \<noteq> s)"

definition elect_ok :: "(nat \<times> int \<times> int) set \<Rightarrow> nat \<Rightarrow> elect_run \<Rightarrow> bool" where
  "elect_ok V i el \<longleftrightarrow>
     el_res el = int (length (el_voters el)) \<and> distinct (el_voters el) \<and>
     distinct (el_pending el) \<and> set (el_voters el) \<inter> set (el_pending el) = {} \<and>
     i \<notin> set (el_voters el) \<and> (i, rva_Term (el_args el), int i) \<in> V \<and>
     (\<forall>p \<in> set (el_voters el). (p, rva_Term (el_args el), int i) \<in> V)"

definition elects_ok :: "nat \<Rightarrow> ('c, 'd) cluster \<Rightarrow> bool" where
  "elects_ok n c \<longleftrightarrow> (\<forall>i el. elects c i = Some el \<longrightarrow> elect_ok (votes c) i el)"

definition leaders_ok :: "nat \<Rightarrow> ('c, 'd) cluster \<Rightarrow> bool" where
  "leaders_ok n c \<longleftrightarrow> (\<forall>i<n. rf_state (node c i) = LEADER \<longrightarrow>
     (\<exists>Q. majority n Q \<and> (\<forall>p\<in>Q. (p, currentTerm (node c i), int i) \<in> votes c)))"

definition election_inv :: "nat \<Rightarrow> ('c, 'd) cluster \<Rightarrow> bool" where
  "election_inv n c \<longleftrightarrow> nodes_ok n c \<and> votes_ok n c \<and> votes_unique c \<and> rv_net_ok n c \<and>
     elects_ok n c \<and> leaders_ok n c"

lemmas election_inv_defs =
  election_inv_def nodes_ok_def votes_ok_def votes_unique_def rv_net_ok_def elects_ok_def
  elect_ok_def leaders_ok_def

lemmas step_defs = set_node_def send_def set_sender_def

lemma Make_fresh:
  assumes "i < n" and "rf = projr (Make n i MakePersister)"
  shows "raft_wf rf \<and> me rf = i \<and> peers rf = n \<and> rf_state rf = FOLLOWER"
  using assms
  by (simp add: Make_def MakePersister_def ReadRaftState_def raft_wf_def saved_ok_def leader_arrays_def)

lemma election_inv_init:
  assumes "c = cluster_init n"
  shows "election_inv n c"
proof -
  have "raft_wf (node c i) \<and> me (node c i) = i \<and> peers (node c i) = n \<and>
      rf_state (node c i) = FOLLOWER" if "i < n" for i
    using Make_fresh [OF that, of "node c i"] assms by (simp add: cluster_init_def)
  then show ?thesis
    using assms by (simp add: election_inv_defs) (simp add: cluster_init_def)
qed

text \<open>
  A step that changes one peer within \<open>vote_frame\<close>, sends no vote message and starts,
  changes or ends no election keeps the invariant.
\<close>

lemma votes_ok_frame:
  assumes "votes_ok n c" and "vote_frame (node c i) (rf\<lparr>rf_state := r\<rparr>)"
    and "votes c' = votes c" and "node c' = (node c)(i := rf)"
  shows "votes_ok n c'"
  unfolding votes_ok_def
proof (intro allI impI)
  fix p T s
  assume v: "(p, T, s) \<in> votes c'"
  then have old: "p < n \<and> 0 \<le> s \<and> T \<le> currentTerm (node c p) \<and>
     (T = currentTerm (node c p) \<longrightarrow> voteFor (node c p) = s) \<and>
     (\<exists>t v. saved_vote (raftstate (persister (node c p))) = Some (t, v) \<and> T \<le> t \<and> (T = t \<longrightarrow> v = s))"
    using assms(1,3) by (simp add: votes_ok_def)
  show "p < n \<and> 0 \<le> s \<and> T \<le> currentTerm (node c' p) \<and>
     (T = currentTerm (node c' p) \<longrightarrow> voteFor (node c' p) = s) \<and>
     (\<exists>t v. saved_vote (raftstate (persister (node c' p))) = Some (t, v) \<and> T \<le> t \<and> (T = t \<longrightarrow> v = s))"
  proof (cases "p = i")
    case True
    then have now: "T \<le> currentTerm rf" "T = currentTerm rf \<longrightarrow> voteFor rf = s"
      using old assms(2) by (auto simp: vote_frame_def)
    have "saved_vote (raftstate (persister rf)) = saved_vote (raftstate (persister (node c p))) \<or>
        saved_vote (raftstate (persister rf)) = Some (currentTerm rf, voteFor rf)"
      using True assms(2) by (simp add: vote_frame_def)
    then have "\<exists>t v. saved_vote (raftstate (persister rf)) = Some (t, v) \<and> T \<le> t \<and> (T = t \<longrightarrow> v = s)"
      using old now by (elim disjE) simp_all
    then show ?thesis
      using True old now assms(4) by simp
  next
    case False
    then show ?thesis using old assms(4) by simp
  qed
qed

lemma election_inv_frame:
  assumes "election_inv n c" and "vote_frame (node c i) rf" and "raft_wf rf"
    and "node c' = (node c)(i := rf)" and "votes c' = votes c"
    and "elects c' \<noteq> elects c \<Longrightarrow> elects_ok n c'"
    and "\<And>a b x. RVReq a b x \<in> net c' \<Longrightarrow> RVReq a b x \<in> net c"
    and "\<And>a b x r. RVResp a b x r \<in> net c' \<Longrightarrow> RVResp a b x r \<in> net c"
  shows "election_inv n c'"
proof -
  have "nodes_ok n c'"
    using assms(1-4) by (auto simp: election_inv_def nodes_ok_def vote_frame_def)
  moreover have "votes_ok n c'"
    using votes_ok_frame [of n c i "rf_state rf" rf] assms(1,2,4,5) by (simp add: election_inv_def)
  moreover have "votes_unique c'"
    using assms(1,5) by (simp add: election_inv_def votes_unique_def)
  moreover have "rv_net_ok n c'"
    using assms(1,5,7,8) unfolding election_inv_def rv_net_ok_def by metis
  moreover have "elects_ok n c'"
    using assms(1,5,6) by (cases "elects c' = elects c") (auto simp: election_inv_def elects_ok_def)
  moreover have "leaders_ok n c'"
    unfolding leaders_ok_def
  proof (intro allI impI)
    fix k
    assume k: "k < n" "rf_state (node c' k) = LEADER"
    then have "rf_state (node c k) = LEADER" "currentTerm (node c' k) = currentTerm (node c k)"
      using assms(2,4) by (auto simp: vote_frame_def split: if_splits)
    then show "\<exists>Q. majority n Q \<and> (\<forall>p\<in>Q. (p, currentTerm (node c' k), int k) \<in> votes c')"
      using k(1) assms(1,5) by (simp add: election_inv_def leaders_ok_def)
  qed
  ultimately show ?thesis by (simp add: election_inv_def)
qed

section \<open>Steps that give no vote\<close>

lemma node_wf: "election_inv n c \<Longrightarrow> i < n \<Longrightarrow> raft_wf (node c i)"
  by (simp add: election_inv_def nodes_ok_def)

lemma node_log: "election_inv n c \<Longrightarrow> i < n \<Longrightarrow> rlog (node c i) \<noteq> []"
  using node_wf [of n c i] by (simp add: raft_wf_def)

lemma AE_send_vote_frame: "AE_send rf j = Inr (rf', sent) \<Longrightarrow> vote_frame rf rf'"
  using AE_send_frame [of rf j rf' sent] by (auto simp: vote_frame_def)

lemma Start_vote_frame:
  assumes "Start rf cmd = Inr (rf', r)" and "raft_wf rf"
  shows "vote_frame rf rf' \<and> raft_wf rf'"
proof -
  have "vote_frame rf rf'"
    using assms(1)
    by (auto simp: Start_def go_Inr_iffs Let_def frame_simps vote_frame_def split: if_splits)
  then show ?thesis
    using Start_wf [OF assms(2), of cmd] assms(1) by auto
qed

lemma step_send_ae_inv:
  assumes "election_inv n c" and "i < n" and "step_send_ae i j c = Some c'"
  shows "election_inv n c'"
proof -
  obtain rf sent where "AE_send (node c i) j = Inr (rf, sent)"
      "node c' = (node c)(i := rf)" "votes c' = votes c" "elects c' = elects c"
      "\<And>a b x. RVReq a b x \<in> net c' \<Longrightarrow> RVReq a b x \<in> net c"
      "\<And>a b x r. RVResp a b x r \<in> net c' \<Longrightarrow> RVResp a b x r \<in> net c"
    using assms(3) that
    by (auto simp: step_send_ae_def step_defs split: if_splits sum.splits option.splits)
  then show ?thesis
    using AE_send_wf [OF _ node_wf [OF assms(1,2)]]
    by (intro election_inv_frame [OF assms(1) AE_send_vote_frame]) auto
qed

lemma step_recv_ae_inv:
  assumes "election_inv n c" and "i < n" and "step_recv_ae i src args c = Some c'"
  shows "election_inv n c'"
proof -
  obtain rf reply where ae: "AppendEntries (node c i) args = Inr (rf, reply)"
    and c': "c' = send {AEResp i src args reply} (set_node i rf c)"
    using assms(3) by (auto simp: step_recv_ae_def split: if_splits sum.splits)
  have "vote_frame (node c i) rf" "raft_wf rf"
    using AppendEntries_effect [OF node_log [OF assms(1,2)] ae] node_wf [OF assms(1,2)] by auto
  then show ?thesis
    by (rule election_inv_frame [OF assms(1)]) (auto simp: c' step_defs)
qed

lemma step_ae_replied_inv:
  assumes "election_inv n c" and "i < n" and "step_ae_replied i j reply c = Some c'"
  shows "election_inv n c'"
proof -
  obtain rf nxt args where ae: "AE_reply (node c i) j args reply = Inr (rf, nxt)"
    and c': "\<exists>s. c' = set_sender i j s (set_node i rf c)"
    using assms(3) by (auto simp: step_ae_replied_def split: if_splits sum.splits sender.splits)
  have "vote_frame (node c i) rf" "raft_wf rf"
    using AE_reply_frame [OF ae] AE_reply_wf [OF ae node_wf [OF assms(1,2)]] by auto
  then show ?thesis
    by (rule election_inv_frame [OF assms(1)]) (use c' in \<open>auto simp: step_defs\<close>)
qed

lemma step_send_is_inv:
  assumes "election_inv n c" and "i < n" and "step_send_is i j c = Some c'"
  shows "election_inv n c'"
  by (rule election_inv_frame [OF assms(1) vote_frame_refl node_wf [OF assms(1,2)]])
    (use assms(3) in \<open>auto simp: step_send_is_def step_defs Let_def split: if_splits\<close>)

lemma step_recv_is_inv:
  assumes "election_inv n c" and "i < n" and "step_recv_is i src args c = Some c'"
  shows "election_inv n c'"
proof -
  obtain rf reply where ins: "InstallSnapshot (node c i) args = Inr (rf, reply)"
    and c': "c' = send {ISResp i src args reply} (set_node i rf c)"
    using assms(3) by (auto simp: step_recv_is_def split: if_splits sum.splits)
  have "vote_frame (node c i) rf" "raft_wf rf"
    using InstallSnapshot_frame [OF ins node_wf [OF assms(1,2)]] by auto
  then show ?thesis
    by (rule election_inv_frame [OF assms(1)]) (auto simp: c' step_defs)
qed

lemma step_is_done_inv:
  assumes "election_inv n c" and "i < n" and "step_is_done i j r c = Some c'"
  shows "election_inv n c'"
proof -
  obtain rf where ins: "InstallSnapshot_reply (node c i) j r = Inr rf"
    and c': "c' = set_sender i j SIdle (set_node i rf c)"
    using assms(3) by (auto simp: step_is_done_def split: if_splits sum.splits sender.splits)
  have "vote_frame (node c i) rf" "raft_wf rf"
    using InstallSnapshot_reply_frame [OF ins] node_wf [OF assms(1,2)] by auto
  then show ?thesis
    by (rule election_inv_frame [OF assms(1)]) (auto simp: c' step_defs)
qed

lemma cstep_local_inv:
  assumes "election_inv n c" and "i < n"
    and "e \<in> {AELost i j, ClientStart i cmd, ApplyCollect i, ApplyDeliver i, TakeSnapshot i ix sn}"
    and "cstep n c e = Some c'"
  shows "election_inv n c'"
proof -
  have "vote_frame (node c i) (node c' i) \<and> raft_wf (node c' i) \<and>
      node c' = (node c)(i := node c' i) \<and> votes c' = votes c \<and> elects c' = elects c \<and> net c' = net c"
    using assms(3,4) node_wf [OF assms(1,2)]
    by (auto simp: step_defs split: sender.splits list.splits if_splits elim!: res_opt.elims
        dest!: Start_vote_frame [OF _ node_wf [OF assms(1,2)]]
          SaveStateAndSnapshot_frame [OF _ node_wf [OF assms(1,2)]])
  then show ?thesis
    using election_inv_frame [OF assms(1), of i "node c' i" c'] by auto
qed

section \<open>Steps of an election\<close>

text \<open>A vote given by peer \<open>i\<close>: at a larger term, or at its own term to the recorded candidate.\<close>

lemma election_inv_vote:
  assumes inv: "election_inv n c" and "i < n"
    and rf: "raft_wf rf" "me rf = i" "peers rf = n" "rf_state rf \<noteq> LEADER"
      "currentTerm rf = T" "voteFor rf = s" "saved_vote (raftstate (persister rf)) = Some (T, s)"
    and vote: "0 \<le> s" "currentTerm (node c i) \<le> T"
      "currentTerm (node c i) = T \<Longrightarrow> voteFor (node c i) \<in> {s, -1}"
    and c': "node c' = (node c)(i := rf)" "votes c' = insert (i, T, s) (votes c)"
    and new: "rv_net_ok n c'" "elects_ok n c'"
  shows "election_inv n c'"
proof -
  have old: "p < n \<and> 0 \<le> s' \<and> T' \<le> currentTerm (node c p) \<and>
      (T' = currentTerm (node c p) \<longrightarrow> voteFor (node c p) = s') \<and>
      (\<exists>t v. saved_vote (raftstate (persister (node c p))) = Some (t, v) \<and> T' \<le> t \<and> (T' = t \<longrightarrow> v = s'))"
    if "(p, T', s') \<in> votes c" for p T' s'
    using inv that by (simp add: election_inv_def votes_ok_def)
  have mine: "T' \<le> T \<and> (T' = T \<longrightarrow> s' = s)" if "(i, T', s') \<in> votes c" for T' s'
    using old [OF that] vote by auto
  have "nodes_ok n c'"
    using inv rf c' by (simp add: election_inv_def nodes_ok_def)
  moreover have "votes_ok n c'"
    unfolding votes_ok_def
  proof (intro allI impI)
    fix p T' s'
    assume "(p, T', s') \<in> votes c'"
    then consider "p = i" "T' = T" "s' = s" | "p = i" "(i, T', s') \<in> votes c"
      | "p \<noteq> i" "(p, T', s') \<in> votes c"
      using c' by auto
    then show "p < n \<and> 0 \<le> s' \<and> T' \<le> currentTerm (node c' p) \<and>
      (T' = currentTerm (node c' p) \<longrightarrow> voteFor (node c' p) = s') \<and>
      (\<exists>t v. saved_vote (raftstate (persister (node c' p))) = Some (t, v) \<and> T' \<le> t \<and> (T' = t \<longrightarrow> v = s'))"
      by cases (use assms(2) c' rf vote(1) mine old in \<open>auto\<close>)
  qed
  moreover have "votes_unique c'"
    using inv mine c' unfolding election_inv_def votes_unique_def by auto
  moreover have "leaders_ok n c'"
    using inv c' rf(4) unfolding election_inv_def leaders_ok_def by (metis fun_upd_apply insert_iff)
  ultimately show ?thesis
    using new by (simp add: election_inv_def)
qed

lemma rv_net_ok_mono:
  assumes "rv_net_ok n c" and "votes c \<subseteq> votes c'"
    and "\<And>a b x. RVReq a b x \<in> net c' - net c \<Longrightarrow> CandidateId x = int a \<and> a \<noteq> b"
    and "\<And>p q x r. RVResp p q x r \<in> net c' - net c \<Longrightarrow> VoteGranted r \<Longrightarrow>
           (p, rva_Term x, int q) \<in> votes c' \<and> p \<noteq> q"
  shows "rv_net_ok n c'"
  unfolding rv_net_ok_def
proof (intro conjI allI impI)
  fix a b x
  assume "RVReq a b x \<in> net c'"
  then show "CandidateId x = int a" and "a \<noteq> b"
    using assms(1,3) by (cases "RVReq a b x \<in> net c"; auto simp: rv_net_ok_def)+
next
  fix p q x r
  assume "RVResp p q x r \<in> net c'" "VoteGranted r"
  then show "(p, rva_Term x, int q) \<in> votes c'" and "p \<noteq> q"
    using assms(1,2,4) by (cases "RVResp p q x r \<in> net c"; auto simp: rv_net_ok_def)+
qed

lemma elects_ok_mono:
  assumes "elects_ok n c" and "votes c \<subseteq> votes c'" and "elects c' = elects c"
  shows "elects_ok n c'"
  using assms(1,3) subsetD [OF assms(2)] by (auto simp: elects_ok_def elect_ok_def)

lemma step_recv_rv_inv:
  assumes "election_inv n c" and "i < n" and "step_recv_rv i src args c = Some c'"
  shows "election_inv n c'"
proof -
  obtain rf reply where rv: "RequestVote (node c i) args = Inr (rf, reply)"
    and req: "RVReq src i args \<in> net c"
    and c': "c' = send {RVResp i src args reply} (set_node i rf
            (if VoteGranted reply
             then c\<lparr>votes := insert (i, rva_Term args, CandidateId args) (votes c)\<rparr> else c))"
    using assms(3) by (auto simp: step_recv_rv_def split: if_splits sum.splits)
  have cand: "CandidateId args = int src" "src \<noteq> i"
    using assms(1) req by (auto simp: election_inv_def rv_net_ok_def)
  have i_ok: "me (node c i) = i" "peers (node c i) = n"
    using assms(1,2) by (auto simp: election_inv_def nodes_ok_def)
  have oldc: "rv_net_ok n c" "elects_ok n c"
    using assms(1) by (simp_all add: election_inv_def)
  have net_ok: "rv_net_ok n c'"
    by (rule rv_net_ok_mono [OF oldc(1)]) (use cand in \<open>auto simp: c' step_defs split: if_splits\<close>)
  have el_ok: "elects_ok n c'"
    by (rule elects_ok_mono [OF oldc(2)]) (auto simp: c' step_defs)
  have out: "VoteGranted reply = grants (node c i) args" "raft_wf rf" "me rf = i" "peers rf = n"
      "currentTerm rf = max (currentTerm (node c i)) (rva_Term args)"
      "saved_vote (raftstate (persister rf)) = Some (currentTerm rf, voteFor rf)"
    and granted: "grants (node c i) args \<Longrightarrow> voteFor rf = CandidateId args \<and> rf_state rf = FOLLOWER"
    using RequestVote_outcome [OF node_wf [OF assms(1,2)], of args] rv i_ok by auto
  show ?thesis
  proof (cases "VoteGranted reply")
    case True
    then have g: "grants (node c i) args" using out by simp
    then have t: "currentTerm (node c i) \<le> rva_Term args"
        "currentTerm (node c i) = rva_Term args \<Longrightarrow> voteFor (node c i) \<in> {CandidateId args, -1}"
      by (auto simp: grants_def)
    show ?thesis
      by (rule election_inv_vote [OF assms(1,2) out(2-4) _ _ _ _ _ t _ _ net_ok el_ok])
        (use True granted [OF g] t(1) out cand(1) in \<open>simp_all add: c' step_defs\<close>)
  next
    case False
    have "vote_frame (node c i) rf" "raft_wf rf"
      using RequestVote_not_granted_frame [OF node_wf [OF assms(1,2)] rv False] out by auto
    then have "election_inv n (set_node i rf c)"
      by (rule election_inv_frame [OF assms(1)]) (auto simp: step_defs)
    then show ?thesis
      using False net_ok el_ok by (auto simp: c' election_inv_defs step_defs)
  qed
qed

lemma step_timeout_inv:
  assumes inv: "election_inv n c" and "i < n" and "step_timeout n i c = Some c'"
  shows "election_inv n c'"
proof -
  have i_ok: "me (node c i) = i" "peers (node c i) = n"
    using assms(1,2) by (auto simp: election_inv_def nodes_ok_def)
  have oldc: "rv_net_ok n c" "elects_ok n c"
    using inv by (simp_all add: election_inv_def)
  have idle: "elects c i = None"
    using assms(3) by (auto simp: step_timeout_def split: if_splits)
  show ?thesis
  proof (cases "rf_state (node c i) = LEADER")
    case True
    then have "c' = set_node i (resetElectionTimer (node c i)) c"
      using Election_begin_cases [OF node_wf [OF assms(1,2)]] assms(3)
      by (auto simp: step_timeout_def split: if_splits)
    moreover have "vote_frame (node c i) (resetElectionTimer (node c i))"
      by (simp add: vote_frame_def frame_simps)
    ultimately show ?thesis
      using node_wf [OF assms(1,2)]
      by (intro election_inv_frame [OF inv, of i "resetElectionTimer (node c i)"])
        (auto simp: step_defs)
  next
    case False
    define args where "args = \<lparr>rva_Term = currentTerm (node c i) + 1, CandidateId = int i,
        LastLogIndex = lastIdx (node c i), LastLogterm = lastTerm (node c i)\<rparr>"
    obtain rf where beg: "Election_begin (node c i) = Inr (rf, Some args)"
      and rf: "raft_wf rf" "me rf = i" "peers rf = n" "rf_state rf = CANDIDATE"
        "currentTerm rf = rva_Term args" "voteFor rf = int i"
        "saved_vote (raftstate (persister rf)) = Some (rva_Term args, int i)"
      using Election_begin_cases [OF node_wf [OF assms(1,2)]] False i_ok by (auto simp: args_def)
    let ?others = "filter (\<lambda>p. p \<noteq> i) [0..<n]"
    have c': "c' = send ((\<lambda>p. RVReq i p args) ` set ?others) (set_node i rf
               (c\<lparr>elects := (elects c)(i := Some \<lparr>el_args = args, el_pending = ?others, el_res = 0,
                     el_another = False, el_voters = []\<rparr>),
                  votes := insert (i, rva_Term args, int i) (votes c)\<rparr>))"
      using assms(3) idle by (simp add: step_timeout_def beg Let_def)
    have net_ok: "rv_net_ok n c'"
      by (rule rv_net_ok_mono [OF oldc(1)]) (auto simp: c' step_defs args_def)
    have el_ok: "elects_ok n c'"
      using oldc(2) by (auto simp: elects_ok_def elect_ok_def c' step_defs)
    show ?thesis
      by (rule election_inv_vote [OF inv assms(2) rf(1-3) _ rf(5-7) _ _ _ _ _ net_ok el_ok])
        (simp_all add: rf c' step_defs args_def)
  qed
qed

lemma step_rv_reply_inv:
  assumes inv: "election_inv n c" and "i < n" and "step_rv_reply i p r c = Some c'"
  shows "election_inv n c'"
proof -
  obtain el rf res another el' where el: "elects c i = Some el"
    and pend: "p \<in> set (el_pending el)" "\<And>v. r = Some v \<Longrightarrow> RVResp p i (el_args el) v \<in> net c"
    and rep: "SendRequest_reply (el_args el) (node c i, el_res el, el_another el) r = (rf, res, another)"
    and el': "el' = el\<lparr>el_pending := remove1 p (el_pending el), el_res := res,
             el_another := another,
             el_voters := (if res = el_res el then el_voters el else p # el_voters el)\<rparr>"
    and c': "c' = set_node i rf (c\<lparr>elects := (elects c)(i := Some el')\<rparr>)"
    using assms(3) by (auto simp: step_rv_reply_def split: option.splits if_splits prod.splits)
  have frame: "vote_frame (node c i) rf" "raft_wf rf"
    using SendRequest_reply_vote_frame [OF rep] SendRequest_reply_wf [OF rep node_wf [OF assms(1,2)]]
    by auto
  have oldc: "rv_net_ok n c" "elects_ok n c"
    using inv by (simp_all add: election_inv_def)
  have cnt: "res = el_res el \<or> res = el_res el + 1 \<and> (p, rva_Term (el_args el), int i) \<in> votes c \<and> p \<noteq> i"
    using rep pend(2) oldc(1) by (cases r) (auto simp: rv_net_ok_def split: if_splits)
  have "elect_ok (votes c) i el"
    using oldc(2) el by (simp add: elects_ok_def)
  then have "elect_ok (votes c) i el'"
    using cnt pend(1) by (auto simp: elect_ok_def el')
  then have "elects_ok n c'"
    using oldc(2) by (simp add: elects_ok_def c' step_defs)
  then show ?thesis
    by (intro election_inv_frame [OF inv frame]) (simp_all add: c' step_defs)
qed

lemma elects_ok_ended:
  assumes "elects_ok n c" and "elects c' = (elects c)(i := None)" and "votes c' = votes c"
  shows "elects_ok n c'"
  using assms by (simp add: elects_ok_def)

text \<open>The voters of a won election, with the candidate, are a majority.\<close>

lemma elected_majority:
  assumes "elect_ok (votes c) i el" and "votes_ok n c" and "int (n div 2) \<le> el_res el"
  shows "majority n (insert i (set (el_voters el)))"
proof -
  let ?Q = "insert i (set (el_voters el))"
  have "card ?Q = Suc (length (el_voters el))"
    using assms(1) by (simp add: elect_ok_def distinct_card)
  moreover have "?Q \<subseteq> {..<n}"
    using assms(1,2) unfolding elect_ok_def votes_ok_def by blast
  ultimately show ?thesis
    using assms(1,3) by (simp add: majority_def elect_ok_def)
qed

lemma elect_ok_majority:
  assumes "elect_ok (votes c) i el" and "votes_ok n c" and "int (n div 2) \<le> el_res el"
  shows "\<exists>Q. majority n Q \<and> (\<forall>p\<in>Q. (p, rva_Term (el_args el), int i) \<in> votes c)"
  using elected_majority [OF assms] assms(1) by (fastforce simp: elect_ok_def)

lemma step_election_done_inv:
  assumes inv: "election_inv n c" and "i < n" and "step_election_done i c = Some c'"
  shows "election_inv n c'"
proof -
  define rf1 where "rf1 = SendRequest_finish (node c i) (el_another (the (elects c i)))"
  obtain el rf where el: "elects c i = Some el"
    and fin: "Election_end rf1 (el_args el) (el_res el) = Inr rf"
    and c': "c' = set_node i rf (c\<lparr>elects := (elects c)(i := None)\<rparr>)"
    using assms(3) by (auto simp: step_election_done_def rf1_def split: option.splits sum.splits)
  have i_ok: "me (node c i) = i" "peers (node c i) = n"
    using assms(1,2) by (auto simp: election_inv_def nodes_ok_def)
  have fr1: "vote_frame (node c i) rf1" and wf1: "raft_wf rf1"
    unfolding rf1_def
    using SendRequest_finish_frame SendRequest_finish_wf [OF node_wf [OF assms(1,2)]] by blast+
  note out = Election_end_cases [OF wf1, of "el_args el" "el_res el", unfolded fin]
  have oldc: "rv_net_ok n c" "elects_ok n c" "votes_ok n c"
    using inv by (simp_all add: election_inv_def)
  have ended: "elects_ok n c'"
    by (rule elects_ok_ended [OF oldc(2)]) (simp_all add: c' step_defs)
  show ?thesis
  proof (cases "rf_state rf = LEADER \<and> rf_state (node c i) \<noteq> LEADER")
    case False
    then have "vote_frame (node c i) rf" "raft_wf rf"
      using out fr1 by (auto simp: vote_frame_def split: if_splits)
    then show ?thesis
      using ended by (intro election_inv_frame [OF inv]) (simp_all add: c' step_defs)
  next
    case True
    then have won: "currentTerm rf = rva_Term (el_args el)" "int (n div 2) \<le> el_res el" "raft_wf rf"
        "me rf = i" "peers rf = n" "vote_frame (node c i) (rf\<lparr>rf_state := FOLLOWER\<rparr>)"
      using out fr1 i_ok by (auto simp: vote_frame_def split: if_splits)
    have "elect_ok (votes c) i el" using oldc(2) el by (simp add: elects_ok_def)
    then have "\<exists>Q. majority n Q \<and> (\<forall>p\<in>Q. (p, currentTerm rf, int i) \<in> votes c)"
      using elect_ok_majority oldc(3) won by auto
    then have "leaders_ok n c'"
      using inv by (simp add: election_inv_def leaders_ok_def c' step_defs)
    moreover have "votes_ok n c'"
      by (rule votes_ok_frame [OF oldc(3) won(6)]) (simp_all add: c' step_defs)
    ultimately show ?thesis
      using inv ended won by (simp add: election_inv_defs c' step_defs)
  qed
qed

lemma step_crash_inv:
  assumes inv: "election_inv n c" and "i < n" and "step_crash n i c = Some c'"
  shows "election_inv n c'"
proof -
  obtain rf where mk: "Make n i (persister (node c i)) = Inr rf"
    and c': "c' = set_node i rf (c\<lparr>elects := (elects c)(i := None),
        senders := (senders c)(i := (\<lambda>_. SIdle)), applying := (applying c)(i := [])\<rparr>)"
    using assms(3) by (auto simp: step_crash_def elim!: res_opt.elims)
  have rf: "raft_wf rf" "me rf = i" "peers rf = n" "rf_state rf = FOLLOWER"
      "persister rf = persister (node c i)"
      "(currentTerm rf, voteFor rf) =
         (case saved_vote (raftstate (persister (node c i))) of None \<Rightarrow> (0, -1) | Some v \<Rightarrow> v)"
    using Make_wf [OF assms(2), of "persister (node c i)"] node_wf [OF assms(1,2)] mk
    by (auto simp: raft_wf_def)
  have oldc: "votes_ok n c" "elects_ok n c"
    using inv by (simp_all add: election_inv_def)
  have "votes_ok n c'"
    unfolding votes_ok_def
  proof (intro allI impI)
    fix p T s
    assume "(p, T, s) \<in> votes c'"
    then have "(p, T, s) \<in> votes c" by (simp add: c' step_defs)
    then show "p < n \<and> 0 \<le> s \<and> T \<le> currentTerm (node c' p) \<and>
      (T = currentTerm (node c' p) \<longrightarrow> voteFor (node c' p) = s) \<and>
      (\<exists>t v. saved_vote (raftstate (persister (node c' p))) = Some (t, v) \<and> T \<le> t \<and> (T = t \<longrightarrow> v = s))"
      using oldc(1) rf(5,6) unfolding votes_ok_def by (cases "p = i") (fastforce simp: c' step_defs)+
  qed
  moreover have "elects_ok n c'"
    by (rule elects_ok_ended [OF oldc(2)]) (simp_all add: c' step_defs)
  ultimately show ?thesis
    using inv rf by (simp add: election_inv_defs c' step_defs)
qed

lemma cexec_inv:
  assumes "election_inv n c" and "cexec n c e = Some c'"
  shows "election_inv n c'"
proof -
  have "actor e < n" "cstep n c e = Some c'"
    using assms(2) by (auto simp: cexec_def split: if_splits)
  then show ?thesis
    using assms(1)
    by (cases e) (auto intro: step_timeout_inv step_recv_rv_inv step_rv_reply_inv
        step_election_done_inv step_send_ae_inv step_recv_ae_inv step_ae_replied_inv
        step_send_is_inv step_recv_is_inv step_is_done_inv step_crash_inv
        simp del: cstep.simps(8,12-15) dest: cstep_local_inv [rotated 3])
qed

interpretation raft_election: invariant_system "\<lambda>c. c = cluster_init n" "cexec n" "election_inv n" for n
  by unfold_locales (auto intro: election_inv_init cexec_inv)

section \<open>Election safety\<close>

lemma cexec_votes_mono: "cexec n c e = Some c' \<Longrightarrow> votes c \<subseteq> votes c'"
  by (cases e)
    (auto simp: cexec_def step_timeout_def step_recv_rv_def step_rv_reply_def step_election_done_def
      step_send_ae_def step_recv_ae_def step_ae_replied_def step_send_is_def step_recv_is_def
      step_is_done_def step_crash_def step_defs Let_def
      split: if_splits option.splits sum.splits prod.splits sender.splits list.splits)

lemma run_votes_mono: "run_events (cexec n) c es = Some c' \<Longrightarrow> votes c \<subseteq> votes c'"
  by (induction es arbitrary: c) (fastforce dest: cexec_votes_mono split: option.splits)+

text \<open>
  C1. Election safety: in a cluster of \<open>n\<close> peers, whatever messages are lost, delayed,
  duplicated or reordered and whatever peers crash and restart, a term has at most one
  leader over the whole execution. A peer that leads term \<open>T\<close> now and a peer that leads the
  same term at any later moment are the same peer.
\<close>

theorem election_safety:
  assumes "creach n c" and "run_events (cexec n) c es = Some c'" and "i < n" and "j < n"
    and "rf_state (node c i) = LEADER" and "rf_state (node c' j) = LEADER"
    and "currentTerm (node c i) = currentTerm (node c' j)"
  shows "i = j"
proof -
  have inv: "election_inv n c" "election_inv n c'"
    using raft_election.inv_reachable assms(1) run_events_reachable [OF assms(1,2)] by blast+
  obtain Q where Q: "majority n Q" "\<And>p. p \<in> Q \<Longrightarrow> (p, currentTerm (node c i), int i) \<in> votes c"
    using inv(1) assms(3,5) unfolding election_inv_def leaders_ok_def by blast
  obtain R where R: "majority n R" "\<And>p. p \<in> R \<Longrightarrow> (p, currentTerm (node c' j), int j) \<in> votes c'"
    using inv(2) assms(4,6) unfolding election_inv_def leaders_ok_def by blast
  have one: "s = s'" if "(p, T, s) \<in> votes c'" "(p, T, s') \<in> votes c'" for p T s s'
    using inv(2) that unfolding election_inv_def votes_unique_def by blast
  have "int i = int j"
  proof (rule maj.quorum_winner_unique [OF Q(1) R(1)])
    show "(p, currentTerm (node c' j), int i) \<in> votes c'" if "p \<in> Q" for p
      using Q(2) [OF that] run_votes_mono [OF assms(2)] assms(7) by auto
  qed (use R(2) one in \<open>blast+\<close>)
  then show ?thesis by simp
qed

definition elect_0 :: "(nat, nat) event list" where
  "elect_0 = [Timeout 0, RecvRV 1 0 \<lparr>rva_Term = 1, CandidateId = 0, LastLogIndex = 0, LastLogterm = 0\<rparr>,
     RVReply 0 1 (Some \<lparr>rvr_Term = 0, VoteGranted = True\<rparr>), ElectionDone 0]"

lemma elect_0_run:
  "case run_events (cexec 3) (cluster_init 3) elect_0 of
     None \<Rightarrow> False
   | Some c \<Rightarrow> rf_state (node c 0) = LEADER \<and> currentTerm (node c 0) = 1 \<and>
       (case run_events (cexec 3) c [ClientStart 0 (ICmd 7), SendAE 0 1] of
          None \<Rightarrow> False
        | Some c' \<Rightarrow> rf_state (node c' 0) = LEADER \<and> currentTerm (node c' 0) = 1)"
  by code_simp

theorem election_safety_witness:
  "case run_events (cexec 3) (cluster_init 3) elect_0 of
     None \<Rightarrow> False
   | Some c \<Rightarrow>
       (case run_events (cexec 3) c [ClientStart 0 (ICmd 7), SendAE 0 1] of
          None \<Rightarrow> False
        | Some c' \<Rightarrow> {j. j < 3 \<and> rf_state (node c' j) = LEADER \<and> currentTerm (node c' j) = 1} = {0})"
proof -
  obtain c c' where run: "run_events (cexec 3) (cluster_init 3) elect_0 = Some c"
      "run_events (cexec 3) c [ClientStart 0 (ICmd 7), SendAE 0 1] = Some c'"
    and lead: "rf_state (node c 0) = LEADER" "currentTerm (node c 0) = 1"
      "rf_state (node c' 0) = LEADER" "currentTerm (node c' 0) = 1"
    using elect_0_run by (auto split: option.splits)
  have "creach 3 (cluster_init 3)"
    by (rule reachable_init) simp
  then have reach: "creach 3 c"
    using run(1) by (rule run_events_reachable)
  have "0 = j" if "j < 3" "rf_state (node c' j) = LEADER" "currentTerm (node c' j) = 1" for j
    by (rule election_safety [OF reach run(2), of 0 j]) (use that lead in simp_all)
  then have "{j. j < 3 \<and> rf_state (node c' j) = LEADER \<and> currentTerm (node c' j) = 1} = {0}"
    using lead by auto
  then show ?thesis
    by (simp only: run option.case)
qed

section \<open>No handler panics\<close>

lemma InstallSnapshot_returns: "\<exists>rf' reply. InstallSnapshot rf args = Inr (rf', reply)"
  by (auto simp: InstallSnapshot_def Let_def changeRole.simps)

lemma AppendEntries_returns:
  assumes "raft_wf rf"
  shows "AppendEntries rf args = Inl ChannelFull \<and> 10 \<le> notifyApplyCh rf \<or>
    (\<exists>rf' reply. AppendEntries rf args = Inr (rf', reply))"
proof -
  have ne: "rlog rf \<noteq> []" using assms by (simp add: raft_wf_def)
  show ?thesis
  proof (cases "ae_accepts rf args")
    case True
    have "AE_commit args r = Inl ChannelFull \<and> 10 \<le> notifyApplyCh r \<or> (\<exists>r'. AE_commit args r = Inr r')"
      if "rlog r \<noteq> []" for r :: "('a, 'b) Raft"
      using that by (auto simp: AE_commit_def lastLogTermIndex_eq notifyApply_def)
    from this [of "(ae_base rf args)\<lparr>rlog := ae_log rf args\<rparr>"] show ?thesis
      using ae_log_nonempty [OF ne, of args] by (auto simp: AppendEntries_accepted [OF ne True] frame_simps)
  next
    case False
    then show ?thesis
      using AppendEntries_rejected [OF ne _ False] by (cases "aea_Term args < currentTerm rf") (auto simp: AppendEntries_stale)
  qed
qed

text \<open>
  C33. Type safety of the Raft peers: in every reachable state of a cluster, with any loss,
  duplication, reordering, crash and snapshot before it, every peer is well-formed, and every
  handler and every call of the service returns on it and leaves it well-formed, whatever
  the arguments it gets: no slice is indexed out of range and no stored state fails to decode.
  The one exception is \<open>AppendEntries\<close>, which blocks when ten notifications are
  waiting in the channel of the apply loop.
\<close>

theorem raft_type_safe:
  assumes "creach n c" and "i < n"
  shows "raft_wf (node c i) \<and>
    (\<exists>rf reply. RequestVote (node c i) rv = Inr (rf, reply) \<and> raft_wf rf) \<and>
    ((\<exists>rf reply. AppendEntries (node c i) ae = Inr (rf, reply) \<and> raft_wf rf) \<or>
     AppendEntries (node c i) ae = Inl ChannelFull \<and> 10 \<le> notifyApplyCh (node c i)) \<and>
    (\<exists>rf reply. InstallSnapshot (node c i) ins = Inr (rf, reply) \<and> raft_wf rf) \<and>
    (\<exists>rf res. Start (node c i) cmd = Inr (rf, res) \<and> raft_wf rf) \<and>
    (\<exists>rf args. Election_begin (node c i) = Inr (rf, args) \<and> raft_wf rf) \<and>
    (\<exists>rf. Make n i (persister (node c i)) = Inr rf \<and> raft_wf rf)"
proof (intro conjI)
  have inv: "election_inv n c" using raft_election.inv_reachable assms(1) by blast
  show wf: "raft_wf (node c i)" by (rule node_wf [OF inv assms(2)])
  show "\<exists>rf reply. RequestVote (node c i) rv = Inr (rf, reply) \<and> raft_wf rf"
    using RequestVote_outcome [OF wf] by blast
  show "\<exists>rf reply. InstallSnapshot (node c i) ins = Inr (rf, reply) \<and> raft_wf rf"
    using InstallSnapshot_returns [of "node c i" ins] InstallSnapshot_frame [OF _ wf] by blast
  show "\<exists>rf res. Start (node c i) cmd = Inr (rf, res) \<and> raft_wf rf"
    using Start_wf [OF wf, of cmd] by blast
  show "\<exists>rf args. Election_begin (node c i) = Inr (rf, args) \<and> raft_wf rf"
    using Election_begin_cases [OF wf] wf by (auto simp: frame_simps raft_wf_def leader_arrays_def)
  show "\<exists>rf. Make n i (persister (node c i)) = Inr rf \<and> raft_wf rf"
    using Make_wf [OF assms(2), of "persister (node c i)"] wf by (auto simp: raft_wf_def)
  have "rlog (node c i) \<noteq> []" using wf by (simp add: raft_wf_def)
  then show "(\<exists>rf reply. AppendEntries (node c i) ae = Inr (rf, reply) \<and> raft_wf rf) \<or>
      AppendEntries (node c i) ae = Inl ChannelFull \<and> 10 \<le> notifyApplyCh (node c i)"
    using AppendEntries_returns [OF wf, of ae] AppendEntries_effect [of "node c i" ae] wf by blast
qed

theorem raft_type_safe_witness:
  "case run_events (cexec 3) (cluster_init 3) elect_0 of
     None \<Rightarrow> False
   | Some c \<Rightarrow> raft_wf (node c 1) \<and>
       (\<exists>rf reply. RequestVote (node c 1) \<lparr>rva_Term = -5, CandidateId = 9, LastLogIndex = -7, LastLogterm = 3\<rparr> =
          Inr (rf, reply) \<and> raft_wf rf)"
proof -
  obtain c where run: "run_events (cexec 3) (cluster_init 3) elect_0 = Some c"
    using elect_0_run by (auto split: option.splits)
  have "creach 3 (cluster_init 3)" by (rule reachable_init) simp
  then have reach: "creach 3 c" using run by (rule run_events_reachable)
  have "(1::nat) < 3" by simp
  note safe = raft_type_safe [OF reach this]
  have "raft_wf (node c 1)" "\<exists>rf reply. RequestVote (node c 1)
      \<lparr>rva_Term = -5, CandidateId = 9, LastLogIndex = -7, LastLogterm = 3\<rparr> = Inr (rf, reply) \<and> raft_wf rf"
    using safe by blast+
  then show ?thesis by (simp only: run option.case simp_thms)
qed

end
