(* ===== verification/Dedup.thy ===== *)
theory Dedup
  imports Prelude
begin

text \<open>
  Duplicate detection, as the three services do it (\<open>CheckApplied\<close> of \<open>kvraft\<close>, \<open>shardkv\<close>
  and \<open>shardmaster\<close>): a table holds for each client the id of its last applied write, and
  a write with just that id is skipped.

  \<open>once\<close> keeps the first occurrence of every (client, id) pair. \<open>sequential\<close> says that no
  client goes back to an earlier id. The locale \<open>dedup_service\<close> is the interface of a
  service with such a table; its lemma \<open>exactly_once\<close> says that a log in which retries
  produced duplicates has the effect of the log without them, provided it is sequential.
\<close>

fun once :: "('op \<Rightarrow> 'k) \<Rightarrow> ('op \<Rightarrow> 'm) \<Rightarrow> ('k \<times> 'm) list \<Rightarrow> 'op list \<Rightarrow> 'op list" where
  "once client msg seen [] = []"
| "once client msg seen (x # xs) =
     (if (client x, msg x) \<in> set seen then once client msg seen xs
      else x # once client msg ((client x, msg x) # seen) xs)"

fun sequential :: "('op \<Rightarrow> 'k) \<Rightarrow> ('op \<Rightarrow> 'm) \<Rightarrow> 'op list \<Rightarrow> bool" where
  "sequential client msg [] = True"
| "sequential client msg (x # xs) =
     (msg x \<notin> msg ` set (dropWhile (\<lambda>y. msg y = msg x) (filter (\<lambda>y. client y = client x) xs)) \<and>
      sequential client msg xs)"

text \<open>The ids a client has finished with do not come back.\<close>

definition settled ::
  "('op \<Rightarrow> 'k) \<Rightarrow> ('op \<Rightarrow> 'm) \<Rightarrow> ('k \<times> 'm) list \<Rightarrow> ('k \<rightharpoonup> 'm) \<Rightarrow> 'op list \<Rightarrow> bool" where
  "settled client msg seen la xs \<longleftrightarrow>
     (\<forall>c m. la c = Some m \<longrightarrow> (c, m) \<in> set seen) \<and>
     (\<forall>c m. (c, m) \<in> set seen \<longrightarrow>
        m \<notin> msg ` set (dropWhile (\<lambda>y. la c = Some (msg y)) (filter (\<lambda>y. client y = c) xs)))"

lemma dropWhile_tail:
  "set (dropWhile P (filter Q xs)) \<subseteq> set (dropWhile P (filter Q (x # xs)))"
  by (auto dest: set_dropWhileD)

lemma settled_duplicate:
  assumes "settled client msg seen la (x # xs)" and "la (client x) = Some (msg x)"
  shows "(client x, msg x) \<in> set seen \<and> settled client msg seen la xs"
proof -
  have "set (dropWhile (\<lambda>y. la c = Some (msg y)) (filter (\<lambda>y. client y = c) xs)) \<subseteq>
      set (dropWhile (\<lambda>y. la c = Some (msg y)) (filter (\<lambda>y. client y = c) (x # xs)))" for c
    by (rule dropWhile_tail)
  then show ?thesis
    using assms unfolding settled_def by blast
qed

lemma settled_new:
  assumes "settled client msg seen la (x # xs)" and "la (client x) \<noteq> Some (msg x)"
    and "sequential client msg (x # xs)"
  shows "(client x, msg x) \<notin> set seen \<and>
    settled client msg ((client x, msg x) # seen) (la(client x \<mapsto> msg x)) xs"
proof (intro conjI)
  have gone: "m \<notin> msg ` set (x # filter (\<lambda>y. client y = client x) xs)"
    if "(client x, m) \<in> set seen" for m
  proof -
    have "m \<notin> msg ` set (dropWhile (\<lambda>y. la (client x) = Some (msg y))
        (filter (\<lambda>y. client y = client x) (x # xs)))"
      using that assms(1) unfolding settled_def by blast
    then show ?thesis using assms(2) by simp
  qed
  then show "(client x, msg x) \<notin> set seen" by auto
  have mine: "m \<notin> msg ` set (dropWhile (\<lambda>y. msg x = msg y) (filter (\<lambda>y. client y = client x) xs))"
    if "(client x, m) \<in> set ((client x, msg x) # seen)" for m
  proof (cases "m = msg x")
    case True
    have "(\<lambda>y. msg x = msg y) = (\<lambda>y. msg y = msg x)" by auto
    then show ?thesis using True assms(3) by simp
  next
    case False
    then have "m \<notin> msg ` set (filter (\<lambda>y. client y = client x) xs)"
      using that gone [of m] by auto
    then show ?thesis by (auto dest: set_dropWhileD)
  qed
  have other: "m \<notin> msg ` set (dropWhile (\<lambda>y. la c = Some (msg y)) (filter (\<lambda>y. client y = c) xs))"
    if "c \<noteq> client x" "(c, m) \<in> set seen" for c m
  proof -
    have "m \<notin> msg ` set (dropWhile (\<lambda>y. la c = Some (msg y)) (filter (\<lambda>y. client y = c) (x # xs)))"
      using that(2) assms(1) unfolding settled_def by blast
    then show ?thesis using that(1) by simp
  qed
  show "settled client msg ((client x, msg x) # seen) (la(client x \<mapsto> msg x)) xs"
    unfolding settled_def
  proof (intro conjI allI impI)
    fix c m
    assume "(la(client x \<mapsto> msg x)) c = Some m"
    then show "(c, m) \<in> set ((client x, msg x) # seen)"
      using assms(1) unfolding settled_def by (auto split: if_splits)
  next
    fix c m
    assume "(c, m) \<in> set ((client x, msg x) # seen)"
    then show "m \<notin> msg ` set (dropWhile (\<lambda>y. (la(client x \<mapsto> msg x)) c = Some (msg y))
        (filter (\<lambda>y. client y = c) xs))"
      using mine [of m] other [of c m] by (cases "c = client x") simp_all
  qed
qed

locale dedup_service =
  fixes client :: "'op \<Rightarrow> 'k"
    and msg :: "'op \<Rightarrow> 'm"
    and is_write :: "'op \<Rightarrow> bool"
    and eff :: "'op \<Rightarrow> 's \<Rightarrow> 's"
    and data_of :: "'st \<Rightarrow> 's"
    and last_of :: "'st \<Rightarrow> 'k \<rightharpoonup> 'm"
    and apply_op :: "'op \<Rightarrow> 'st \<Rightarrow> 'st"
  assumes apply_read: "\<not> is_write x \<Longrightarrow> data_of (apply_op x st) = data_of st \<and> last_of (apply_op x st) = last_of st"
    and apply_dup: "is_write x \<Longrightarrow> last_of st (client x) = Some (msg x) \<Longrightarrow>
      data_of (apply_op x st) = data_of st \<and> last_of (apply_op x st) = last_of st"
    and apply_new: "is_write x \<Longrightarrow> last_of st (client x) \<noteq> Some (msg x) \<Longrightarrow>
      data_of (apply_op x st) = eff x (data_of st) \<and>
      last_of (apply_op x st) = (last_of st)(client x \<mapsto> msg x)"
begin

lemma exactly_once_from:
  "settled client msg seen (last_of st) (filter is_write xs) \<Longrightarrow> sequential client msg (filter is_write xs) \<Longrightarrow>
   data_of (fold apply_op xs st) = fold eff (once client msg seen (filter is_write xs)) (data_of st)"
proof (induction xs arbitrary: st seen)
  case Nil
  then show ?case by simp
next
  case (Cons x xs)
  show ?case
  proof (cases "is_write x")
    case False
    then show ?thesis
      using Cons.IH [of seen "apply_op x st"] Cons.prems apply_read [OF False, of st] by simp
  next
    case w: True
    show ?thesis
    proof (cases "last_of st (client x) = Some (msg x)")
      case True
      then show ?thesis
        using Cons.IH [of seen "apply_op x st"] Cons.prems apply_dup [OF w True]
          settled_duplicate [of client msg seen "last_of st" x "filter is_write xs"] w by simp
    next
      case False
      note new = apply_new [OF w False]
      have st: "(client x, msg x) \<notin> set seen"
          "settled client msg ((client x, msg x) # seen) (last_of (apply_op x st)) (filter is_write xs)"
        using settled_new [of client msg seen "last_of st" x "filter is_write xs"] Cons.prems False w new
        by simp_all
      show ?thesis
        using Cons.IH [OF st(2)] Cons.prems st(1) new w by simp
    qed
  qed
qed

text \<open>Whether a write of a sequential log is skipped is whether it was there before.\<close>

lemma applied_iff_seen:
  "settled client msg seen (last_of st) (filter is_write (xs @ y # ys)) \<Longrightarrow>
   sequential client msg (filter is_write (xs @ y # ys)) \<Longrightarrow> is_write y \<Longrightarrow>
   last_of (fold apply_op xs st) (client y) = Some (msg y) \<longleftrightarrow>
     (client y, msg y) \<in> set seen \<union> (\<lambda>x. (client x, msg x)) ` set (filter is_write xs)"
proof (induction xs arbitrary: st seen)
  case Nil
  then show ?case
    using settled_duplicate [of client msg seen "last_of st" y "filter is_write ys"]
      settled_new [of client msg seen "last_of st" y "filter is_write ys"] by auto
next
  case (Cons x xs)
  let ?rest = "filter is_write (xs @ y # ys)"
  show ?case
  proof (cases "is_write x")
    case False
    then show ?thesis
      using Cons.IH [of seen "apply_op x st"] Cons.prems apply_read [OF False, of st] by simp
  next
    case w: True
    show ?thesis
    proof (cases "last_of st (client x) = Some (msg x)")
      case True
      have "(client x, msg x) \<in> set seen" "settled client msg seen (last_of (apply_op x st)) ?rest"
        using settled_duplicate [of client msg seen "last_of st" x ?rest] Cons.prems(1) True
          apply_dup [OF w True] w by simp_all
      then show ?thesis
        using Cons.IH [of seen "apply_op x st"] Cons.prems w by auto
    next
      case False
      have "settled client msg ((client x, msg x) # seen) (last_of (apply_op x st)) ?rest"
        using settled_new [of client msg seen "last_of st" x ?rest] Cons.prems False w
          apply_new [OF w False] by simp
      then show ?thesis
        using Cons.IH [of "(client x, msg x) # seen" "apply_op x st"] Cons.prems w by auto
    qed
  qed
qed

lemma applied_iff_before:
  assumes "last_of st = Map.empty" and "sequential client msg (filter is_write (xs @ y # ys))" and "is_write y"
  shows "last_of (fold apply_op xs st) (client y) = Some (msg y) \<longleftrightarrow>
    (\<exists>x\<in>set xs. is_write x \<and> client x = client y \<and> msg x = msg y)"
  using applied_iff_seen [of "[]" st xs y ys] assms by (auto simp: settled_def image_iff)

lemma exactly_once:
  assumes "last_of st = Map.empty" and "sequential client msg (filter is_write xs)"
  shows "data_of (fold apply_op xs st) = fold eff (once client msg [] (filter is_write xs)) (data_of st)"
  by (rule exactly_once_from) (simp_all add: settled_def assms)

end

end
