(* ===== verification/KvRaft.thy ===== *)
theory KvRaft
  imports Raft_Snapshot Dedup
begin

text \<open>
  The replicated key/value server (\<open>kvraft/server.go\<close>, \<open>kvraft/common.go\<close>) and the
  sequential model it is tested against (\<open>models/kv.go\<close>).

  \<open>KVServer\<close> holds its Raft peer; \<open>kv.persister\<close> is the peer's persister, the same object in
  the code. \<open>WaitApplyCh\<close> is one round of the apply loop, split into the update
  \<open>kv_applyOp\<close>, \<open>saveSnapshot\<close> and the notification of the waiting handler. \<open>waitForRaft\<close> is
  split where it releases the lock: \<open>waitForRaft_start\<close>, \<open>waitForRaft_register\<close> and
  \<open>waitForRaft_select\<close> with the arm of the \<open>select\<close> that is taken. The channel of a request
  is unbuffered: it is \<open>Receiving\<close> while the handler sits in the \<open>select\<close> and \<open>Abandoned\<close>
  once the handler has left it; a send on an abandoned channel blocks for ever
  (\<open>NoReceiver\<close>). Ids made by \<open>nrand\<close> are arguments. The byte size of the gob-encoded Raft
  state is the parameter \<open>bytes\<close>.
\<close>

section \<open>Data\<close>

record Op =
  Method :: string
  Key :: string
  Value :: string
  ClientId :: int
  MsgId :: int
  RequestId :: int

datatype Err = OK | ErrNoKey | ErrWrongLeader | ErrTimeOut | ErrUnset

record NotifyMsg =
  nm_Err :: Err
  nm_Value :: string

record PutAppendArgs =
  pa_Key :: string
  pa_Value :: string
  pa_Op :: string
  pa_MsgId :: int
  pa_ClientId :: int

record GetArgs =
  ga_Key :: string
  ga_MsgId :: int
  ga_ClientId :: int

record GetStateReply =
  gs_Term :: int
  gs_IsLeader :: bool
  gs_LeaderId :: int

datatype chan = Receiving | Abandoned

datatype kv_gob = GData "string \<rightharpoonup> string" | GApplied "int \<rightharpoonup> int"

record KVServer =
  kv_me :: nat
  kv_rf :: "(Op, kv_gob list) Raft"
  kv_dead :: bool
  kv_stopped :: bool
  kv_data :: "string \<rightharpoonup> string"
  maxraftstate :: int
  kv_lastApplied :: "int \<rightharpoonup> int"
  notifyData :: "int \<rightharpoonup> chan"

text \<open>Reading a Go map of strings: the zero value is the empty string.\<close>

definition str_at :: "('k \<rightharpoonup> string) \<Rightarrow> 'k \<Rightarrow> string" where
  "str_at m k = (case m k of None \<Rightarrow> '''' | Some v \<Rightarrow> v)"

section \<open>Applying\<close>

definition CheckApplied :: "int \<Rightarrow> int \<Rightarrow> KVServer \<Rightarrow> bool" where
  "CheckApplied msgId clientId kv =
     (case kv_lastApplied kv clientId of Some oldMsgId \<Rightarrow> msgId = oldMsgId | None \<Rightarrow> False)"

definition removeCh :: "int \<Rightarrow> KVServer \<Rightarrow> KVServer" where
  "removeCh i kv = kv\<lparr>notifyData := (notifyData kv)(i := None)\<rparr>"

definition saveSnapshot :: "(Op raft_gob list \<Rightarrow> int) \<Rightarrow> int \<Rightarrow> KVServer \<Rightarrow> KVServer go" where
  "saveSnapshot bytes index kv =
     (if maxraftstate kv = -1 \<or> RaftStateSize bytes (persister (kv_rf kv)) < maxraftstate kv
      then Inr kv
      else go_bind (SaveStateAndSnapshot (kv_rf kv) index
                      (Some [GData (kv_data kv), GApplied (kv_lastApplied kv)])) (\<lambda>rf.
             Inr (kv\<lparr>kv_rf := rf\<rparr>)))"

fun ReadSnapshot :: "KVServer \<Rightarrow> kv_gob list option \<Rightarrow> KVServer go" where
  "ReadSnapshot kv None = Inr kv"
| "ReadSnapshot kv (Some (GData kvdata # GApplied la # _)) =
     Inr (kv\<lparr>kv_lastApplied := la, kv_data := kvdata\<rparr>)"
| "ReadSnapshot kv (Some _) = Inl ProcessExit"

definition kv_applyOp :: "Op \<Rightarrow> KVServer \<Rightarrow> KVServer" where
  "kv_applyOp x kv =
     (let repeat = CheckApplied (MsgId x) (ClientId x) kv
      in if \<not> repeat \<and> Method x = ''Put'' then
           kv\<lparr>kv_data := (kv_data kv)(Key x \<mapsto> Value x),
              kv_lastApplied := (kv_lastApplied kv)(ClientId x \<mapsto> MsgId x)\<rparr>
         else if \<not> repeat \<and> Method x = ''Append'' then
           (let newS = str_at (kv_data kv) (Key x) @ Value x
            in kv\<lparr>kv_data := (kv_data kv)(Key x \<mapsto> newS),
                  kv_lastApplied := (kv_lastApplied kv)(ClientId x \<mapsto> MsgId x)\<rparr>)
         else kv)"

definition notify_kv :: "Op \<Rightarrow> KVServer \<Rightarrow> (KVServer \<times> (int \<times> NotifyMsg) option) go" where
  "notify_kv x kv =
     (case notifyData kv (RequestId x) of
        None \<Rightarrow> Inr (kv, None)
      | Some Receiving \<Rightarrow>
          Inr (kv\<lparr>notifyData := (notifyData kv)(RequestId x \<mapsto> Abandoned)\<rparr>,
               Some (RequestId x, \<lparr>nm_Err = OK, nm_Value = str_at (kv_data kv) (Key x)\<rparr>))
      | Some Abandoned \<Rightarrow> Inl NoReceiver)"

fun WaitApplyCh ::
  "(Op raft_gob list \<Rightarrow> int) \<Rightarrow> KVServer \<Rightarrow> bool \<Rightarrow> Op iface \<Rightarrow> int \<Rightarrow>
   (KVServer \<times> (int \<times> NotifyMsg) option) go" where
  "WaitApplyCh bytes kv False cmd index =
     go_bind (ReadSnapshot kv (ps_ReadSnapshot (persister (kv_rf kv)))) (\<lambda>kv. Inr (kv, None))"
| "WaitApplyCh bytes kv True (ICmd x) index =
     go_bind (saveSnapshot bytes index (kv_applyOp x kv)) (notify_kv x)"
| "WaitApplyCh bytes kv True _ index = Inl TypeAssertion"

text \<open>The apply loop on a sequence of messages, with the notifications sent.\<close>

fun apply_run ::
  "(Op raft_gob list \<Rightarrow> int) \<Rightarrow> KVServer \<Rightarrow> Op ApplyMsg list \<Rightarrow> (KVServer \<times> (int \<times> NotifyMsg) list) go" where
  "apply_run bytes kv [] = Inr (kv, [])"
| "apply_run bytes kv (m # ms) =
     go_bind (WaitApplyCh bytes kv (CommandValid m) (am_Command m) (CommandIndex m)) (\<lambda>(kv, sent).
     go_bind (apply_run bytes kv ms) (\<lambda>(kv, rest).
       Inr (kv, (case sent of None \<Rightarrow> rest | Some r \<Rightarrow> r # rest))))"

section \<open>Handlers\<close>

datatype arm = ArmNotify NotifyMsg | ArmTimer | ArmStop

definition waitForRaft_start :: "Op \<Rightarrow> KVServer \<Rightarrow> (KVServer \<times> NotifyMsg option) go" where
  "waitForRaft_start x kv =
     go_bind (Start (kv_rf kv) (ICmd x)) (\<lambda>(rf, _, _, isLeader).
       Inr (kv\<lparr>kv_rf := rf\<rparr>,
            if isLeader then None else Some \<lparr>nm_Err = ErrWrongLeader, nm_Value = ''''\<rparr>))"

definition waitForRaft_register :: "Op \<Rightarrow> KVServer \<Rightarrow> KVServer" where
  "waitForRaft_register x kv = kv\<lparr>notifyData := (notifyData kv)(RequestId x \<mapsto> Receiving)\<rparr>"

text \<open>Taking the timer's arm leaves the channel without a receiver until \<open>removeCh\<close> has the lock.\<close>

definition waitForRaft_leave :: "Op \<Rightarrow> KVServer \<Rightarrow> KVServer" where
  "waitForRaft_leave x kv =
     kv\<lparr>notifyData := (notifyData kv)(RequestId x :=
          map_option (\<lambda>_. Abandoned) (notifyData kv (RequestId x)))\<rparr>"

definition waitForRaft_select :: "Op \<Rightarrow> arm \<Rightarrow> KVServer \<Rightarrow> KVServer \<times> NotifyMsg" where
  "waitForRaft_select x a kv =
     (case a of
        ArmNotify res \<Rightarrow> (removeCh (RequestId x) kv, res)
      | ArmTimer \<Rightarrow> (removeCh (RequestId x) (waitForRaft_leave x kv), \<lparr>nm_Err = ErrTimeOut, nm_Value = ''''\<rparr>)
      | ArmStop \<Rightarrow> (waitForRaft_leave x kv, \<lparr>nm_Err = ErrUnset, nm_Value = ''''\<rparr>))"

definition kv_Get_op :: "int \<Rightarrow> GetArgs \<Rightarrow> Op" where
  "kv_Get_op rid args =
     \<lparr>Method = ''Get'', Key = ga_Key args, Value = '''', ClientId = ga_ClientId args,
      MsgId = ga_MsgId args, RequestId = rid\<rparr>"

definition kv_Get :: "int \<Rightarrow> GetArgs \<Rightarrow> KVServer \<Rightarrow> (KVServer \<times> NotifyMsg option) go" where
  "kv_Get rid args kv =
     (let isLeader = snd (GetState (kv_rf kv))
      in if \<not> isLeader then Inr (kv, Some \<lparr>nm_Err = ErrWrongLeader, nm_Value = ''''\<rparr>)
         else waitForRaft_start (kv_Get_op rid args) kv)"

definition kv_PutAppend_op :: "int \<Rightarrow> PutAppendArgs \<Rightarrow> Op" where
  "kv_PutAppend_op rid args =
     \<lparr>Method = pa_Op args, Key = pa_Key args, Value = pa_Value args,
      ClientId = pa_ClientId args, MsgId = pa_MsgId args, RequestId = rid\<rparr>"

definition kv_PutAppend :: "int \<Rightarrow> PutAppendArgs \<Rightarrow> KVServer \<Rightarrow> (KVServer \<times> NotifyMsg option) go" where
  "kv_PutAppend rid args kv = waitForRaft_start (kv_PutAppend_op rid args) kv"

definition kv_GetState :: "KVServer \<Rightarrow> GetStateReply" where
  "kv_GetState kv =
     \<lparr>gs_Term = fst (GetState (kv_rf kv)), gs_IsLeader = snd (GetState (kv_rf kv)),
      gs_LeaderId = int (kv_me kv)\<rparr>"

definition kv_Kill :: "KVServer \<Rightarrow> KVServer" where
  "kv_Kill kv = kv\<lparr>kv_dead := True, kv_rf := Kill (kv_rf kv), kv_stopped := True\<rparr>"

definition StartKVServer ::
  "nat \<Rightarrow> nat \<Rightarrow> (Op, kv_gob list) Persister \<Rightarrow> int \<Rightarrow> KVServer go" where
  "StartKVServer n i ps mx =
     go_bind (Make n i ps) (\<lambda>rf.
       ReadSnapshot
         \<lparr>kv_me = i, kv_rf = rf, kv_dead = False, kv_stopped = False, kv_data = Map.empty,
          maxraftstate = mx, kv_lastApplied = Map.empty, notifyData = Map.empty\<rparr>
         (ps_ReadSnapshot (persister rf)))"

section \<open>The sequential model\<close>

record KvInput =
  ki_Op :: nat
  ki_Key :: string
  ki_Value :: string

definition KvModel_Init :: string where
  "KvModel_Init = ''''"

definition KvModel_Step :: "string \<Rightarrow> KvInput \<Rightarrow> string \<Rightarrow> bool \<times> string" where
  "KvModel_Step st inp out =
     (if ki_Op inp = 0 then (out = st, st)
      else if ki_Op inp = 1 then (True, ki_Value inp)
      else (True, st @ ki_Value inp))"

text \<open>The grouping of a history by key, before the groups are sorted.\<close>

fun KvModel_group :: "('a \<Rightarrow> string) \<Rightarrow> 'a list \<Rightarrow> (string \<times> 'a list) list \<Rightarrow> (string \<times> 'a list) list" where
  "KvModel_group key [] m = m"
| "KvModel_group key (v # vs) m =
     KvModel_group key vs
       (if key v \<in> fst ` set m then map (\<lambda>(k, xs). if k = key v then (k, xs @ [v]) else (k, xs)) m
        else m @ [(key v, [v])])"

definition KvModel_Partition :: "('a \<Rightarrow> string) \<Rightarrow> 'a list \<Rightarrow> 'a list list" where
  "KvModel_Partition key history =
     (let m = KvModel_group key history []
      in map (\<lambda>k. the (map_of m k)) (sort (map fst m)))"

section \<open>One command\<close>

text \<open>A write and its effect on the data.\<close>

definition is_update :: "Op \<Rightarrow> bool" where
  "is_update x \<longleftrightarrow> Method x = ''Put'' \<or> Method x = ''Append''"

definition kv_effect :: "Op \<Rightarrow> (string \<rightharpoonup> string) \<Rightarrow> string \<rightharpoonup> string" where
  "kv_effect x m =
     m(Key x \<mapsto> (if Method x = ''Put'' then Value x else str_at m (Key x) @ Value x))"

definition kv_input :: "Op \<Rightarrow> KvInput" where
  "kv_input x =
     \<lparr>ki_Op = (if Method x = ''Get'' then 0 else if Method x = ''Put'' then 1 else 2),
      ki_Key = Key x, ki_Value = Value x\<rparr>"

lemma CheckApplied_iff: "CheckApplied m c kv \<longleftrightarrow> kv_lastApplied kv c = Some m"
  by (auto simp: CheckApplied_def split: option.splits)

interpretation kv_dedup:
  dedup_service ClientId MsgId is_update kv_effect kv_data kv_lastApplied kv_applyOp
  by unfold_locales
    (auto simp: kv_applyOp_def is_update_def kv_effect_def CheckApplied_iff Let_def)

lemma kv_applyOp_frame [frame_simps]:
  "kv_me (kv_applyOp x kv) = kv_me kv" "kv_rf (kv_applyOp x kv) = kv_rf kv"
  "maxraftstate (kv_applyOp x kv) = maxraftstate kv" "notifyData (kv_applyOp x kv) = notifyData kv"
  by (simp_all add: kv_applyOp_def Let_def)

lemma str_at_upd [simp]: "str_at (m(k \<mapsto> v)) k' = (if k' = k then v else str_at m k')"
  by (simp add: str_at_def)

lemma SaveStateAndSnapshot_ok:
  assumes "raft_wf rf" and "index \<le> lastIdx rf"
  shows "\<exists>rf'. SaveStateAndSnapshot rf index sn = Inr rf' \<and> raft_wf rf' \<and> lastIdx rf' = lastIdx rf"
proof (cases "index < lastSnapshotIndex rf")
  case True
  then show ?thesis using assms by (simp add: SaveStateAndSnapshot_def)
next
  case False
  then have "\<exists>rf'. SaveStateAndSnapshot rf index sn = Inr rf' \<and> lastIdx rf' = lastIdx rf"
    using assms(2)
    by (simp add: SaveStateAndSnapshot_def getRealLogIndex_def go_idx_Inr go_from_Inr Let_def lastIdx_def)
  then show ?thesis
    using SaveStateAndSnapshot_frame assms(1) by blast
qed

lemma saveSnapshot_ok:
  assumes "raft_wf (kv_rf kv)" and "index \<le> lastIdx (kv_rf kv)"
  shows "\<exists>rf. saveSnapshot bytes index kv = Inr (kv\<lparr>kv_rf := rf\<rparr>) \<and> raft_wf rf \<and>
    lastIdx rf = lastIdx (kv_rf kv)"
proof (cases "maxraftstate kv = -1 \<or> RaftStateSize bytes (persister (kv_rf kv)) < maxraftstate kv")
  case True
  then have "saveSnapshot bytes index kv = Inr (kv\<lparr>kv_rf := kv_rf kv\<rparr>)"
    by (simp add: saveSnapshot_def)
  then show ?thesis using assms(1) by blast
next
  case False
  obtain rf where "SaveStateAndSnapshot (kv_rf kv) index
        (Some [GData (kv_data kv), GApplied (kv_lastApplied kv)]) = Inr rf"
      "raft_wf rf" "lastIdx rf = lastIdx (kv_rf kv)"
    using SaveStateAndSnapshot_ok [OF assms] by blast
  then show ?thesis
    using False by (auto simp: saveSnapshot_def)
qed

text \<open>One valid message: the data and the table are those of \<open>kv_applyOp\<close>.\<close>

lemma WaitApplyCh_ok:
  assumes "raft_wf (kv_rf kv)" and "index \<le> lastIdx (kv_rf kv)"
    and "notifyData kv (RequestId x) \<noteq> Some Abandoned"
  shows "\<exists>kv' sent. WaitApplyCh bytes kv True (ICmd x) index = Inr (kv', sent) \<and>
     kv_data kv' = kv_data (kv_applyOp x kv) \<and> kv_lastApplied kv' = kv_lastApplied (kv_applyOp x kv) \<and>
     raft_wf (kv_rf kv') \<and> lastIdx (kv_rf kv') = lastIdx (kv_rf kv) \<and>
     sent = (if notifyData kv (RequestId x) = None then None
             else Some (RequestId x, \<lparr>nm_Err = OK, nm_Value = str_at (kv_data kv') (Key x)\<rparr>)) \<and>
     notifyData kv' = (if notifyData kv (RequestId x) = None then notifyData kv
                       else (notifyData kv)(RequestId x \<mapsto> Abandoned))"
proof -
  obtain rf where "saveSnapshot bytes index (kv_applyOp x kv) = Inr ((kv_applyOp x kv)\<lparr>kv_rf := rf\<rparr>)"
      "raft_wf rf" "lastIdx rf = lastIdx (kv_rf kv)"
    using saveSnapshot_ok [of "kv_applyOp x kv" index bytes] assms(1,2) by (auto simp: frame_simps)
  then show ?thesis
    using assms(3)
    by (auto simp: notify_kv_def frame_simps split: option.splits chan.splits)
qed

section \<open>The server implements the sequential model\<close>

text \<open>
  C16. The server against the sequential model of \<open>models/kv.go\<close>: applying a committed Get,
  Put or Append that is not a repeat never fails, the waiting handler is answered with
  \<open>OK\<close> and the key's value after the command, that answer and the new value are a step of
  the model for this key, and every other key keeps its value.
\<close>

theorem WaitApplyCh_implements_KvModel:
  assumes "raft_wf (kv_rf kv)" and "index \<le> lastIdx (kv_rf kv)"
    and "notifyData kv (RequestId x) = Some Receiving"
    and "Method x \<in> {''Get'', ''Put'', ''Append''}"
    and "\<not> CheckApplied (MsgId x) (ClientId x) kv"
  shows "\<exists>kv' v. WaitApplyCh bytes kv True (ICmd x) index =
       Inr (kv', Some (RequestId x, \<lparr>nm_Err = OK, nm_Value = v\<rparr>)) \<and>
     KvModel_Step (str_at (kv_data kv) (Key x)) (kv_input x) v = (True, str_at (kv_data kv') (Key x)) \<and>
     (\<forall>k. k \<noteq> Key x \<longrightarrow> kv_data kv' k = kv_data kv k)"
proof -
  obtain kv' where eq: "WaitApplyCh bytes kv True (ICmd x) index =
      Inr (kv', Some (RequestId x, \<lparr>nm_Err = OK, nm_Value = str_at (kv_data kv') (Key x)\<rparr>))"
    and data: "kv_data kv' = kv_data (kv_applyOp x kv)"
    using WaitApplyCh_ok [OF assms(1,2), of x bytes] assms(3) by auto
  have "KvModel_Step (str_at (kv_data kv) (Key x)) (kv_input x) (str_at (kv_data kv') (Key x)) =
      (True, str_at (kv_data kv') (Key x))"
    using assms(4,5) by (auto simp: data kv_applyOp_def KvModel_Step_def kv_input_def Let_def)
  moreover have "kv_data kv' k = kv_data kv k" if "k \<noteq> Key x" for k
    using that by (simp add: data kv_applyOp_def Let_def)
  ultimately show ?thesis
    using eq by blast
qed

definition demo_kv :: "Op Log list \<Rightarrow> KVServer" where
  "demo_kv lg =
     \<lparr>kv_me = 0,
      kv_rf = \<lparr>peers = 3, persister = MakePersister, me = 0, dead = False, rf_state = LEADER,
        currentTerm = 1, voteFor = 0, rlog = \<lparr>lg_Command = IStr '''', lg_Term = 0\<rparr> # lg,
        commitIndex = int (length lg), lastApplied = 0, nextIndex = replicate 3 (int (length lg) + 1),
        matchIndex = replicate 3 0, electionTimer = 0, appendEntriesTimer = replicate 3 BeatPeriod,
        lastSnapshotIndex = 0, lastSnapshotTerm = 0, notifyApplyCh = 0\<rparr>,
      kv_dead = False, kv_stopped = False, kv_data = Map.empty, maxraftstate = 1,
      kv_lastApplied = Map.empty, notifyData = Map.empty\<rparr>"

definition demo_append :: "string \<Rightarrow> int \<Rightarrow> int \<Rightarrow> Op" where
  "demo_append v m r =
     \<lparr>Method = ''Append'', Key = ''k'', Value = v, ClientId = 5, MsgId = m, RequestId = r\<rparr>"

lemma demo_kv_wf [simp]:
  "raft_wf (kv_rf (demo_kv lg))" "lastIdx (kv_rf (demo_kv lg)) = int (length lg)"
  by (simp_all add: demo_kv_def raft_wf_def leader_arrays_def saved_ok_def MakePersister_def lastIdx_def)

theorem WaitApplyCh_implements_KvModel_witness:
  "\<exists>kv' v. WaitApplyCh (\<lambda>_. 100)
       ((demo_kv [\<lparr>lg_Command = ICmd (demo_append ''a'' 1 9), lg_Term = 1\<rparr>])\<lparr>notifyData := [9 \<mapsto> Receiving]\<rparr>)
       True (ICmd (demo_append ''a'' 1 9)) 1 = Inr (kv', Some (9, \<lparr>nm_Err = OK, nm_Value = v\<rparr>)) \<and>
     KvModel_Step '''' (kv_input (demo_append ''a'' 1 9)) v = (True, str_at (kv_data kv') ''k'')"
  using WaitApplyCh_implements_KvModel [of
      "(demo_kv [\<lparr>lg_Command = ICmd (demo_append ''a'' 1 9), lg_Term = 1\<rparr>])\<lparr>notifyData := [9 \<mapsto> Receiving]\<rparr>"
      1 "demo_append ''a'' 1 9" "\<lambda>_. 100"]
  by (force simp: CheckApplied_iff demo_append_def str_at_def demo_kv_def raft_wf_def leader_arrays_def
      saved_ok_def MakePersister_def lastIdx_def)

section \<open>A log of commands\<close>

definition op_msg :: "int \<times> Op \<Rightarrow> Op ApplyMsg" where
  "op_msg = (\<lambda>(i, x). \<lparr>CommandValid = True, am_Command = ICmd x, CommandIndex = i\<rparr>)"

lemma kv_applyOp_fold_frame:
  "kv_data kv = kv_data kv' \<Longrightarrow> kv_lastApplied kv = kv_lastApplied kv' \<Longrightarrow>
   kv_data (kv_applyOp x kv) = kv_data (kv_applyOp x kv') \<and>
   kv_lastApplied (kv_applyOp x kv) = kv_lastApplied (kv_applyOp x kv')"
  by (simp add: kv_applyOp_def CheckApplied_def Let_def)

lemma kv_fold_frame:
  "kv_data kv = kv_data kv' \<Longrightarrow> kv_lastApplied kv = kv_lastApplied kv' \<Longrightarrow>
   kv_data (fold kv_applyOp xs kv) = kv_data (fold kv_applyOp xs kv') \<and>
   kv_lastApplied (fold kv_applyOp xs kv) = kv_lastApplied (fold kv_applyOp xs kv')"
proof (induction xs arbitrary: kv kv')
  case (Cons x xs)
  from Cons.IH [of "kv_applyOp x kv" "kv_applyOp x kv'"] kv_applyOp_fold_frame [OF Cons.prems]
  show ?case by (simp only: fold_simps(2))
qed auto

text \<open>The apply loop always gets through a log and computes \<open>kv_applyOp\<close> on its commands in order.\<close>

lemma apply_run_ok:
  assumes "raft_wf (kv_rf kv)" and "\<And>i x. (i, x) \<in> set ixs \<Longrightarrow> i \<le> lastIdx (kv_rf kv)"
    and "\<And>i x. (i, x) \<in> set ixs \<Longrightarrow> notifyData kv (RequestId x) \<noteq> Some Abandoned"
    and "distinct (map (RequestId \<circ> snd) ixs)"
  shows "\<exists>kv' sent. apply_run bytes kv (map op_msg ixs) = Inr (kv', sent) \<and>
     kv_data kv' = kv_data (fold kv_applyOp (map snd ixs) kv) \<and>
     kv_lastApplied kv' = kv_lastApplied (fold kv_applyOp (map snd ixs) kv)"
  using assms
proof (induction ixs arbitrary: kv)
  case Nil
  then show ?case by simp
next
  case (Cons ix ixs)
  obtain i x where ix: "ix = (i, x)" by (cases ix)
  have "i \<le> lastIdx (kv_rf kv)" "notifyData kv (RequestId x) \<noteq> Some Abandoned"
    using Cons.prems(2,3) ix by auto
  from WaitApplyCh_ok [OF Cons.prems(1) this, of bytes] obtain kv1 s1
    where w: "WaitApplyCh bytes kv True (ICmd x) i = Inr (kv1, s1)"
      and d: "kv_data kv1 = kv_data (kv_applyOp x kv)"
        "kv_lastApplied kv1 = kv_lastApplied (kv_applyOp x kv)"
      and r: "raft_wf (kv_rf kv1)" "lastIdx (kv_rf kv1) = lastIdx (kv_rf kv)"
      and n: "notifyData kv1 = (if notifyData kv (RequestId x) = None then notifyData kv
                 else (notifyData kv)(RequestId x \<mapsto> Abandoned))"
    by (elim exE conjE) (rule that)
  have "j \<le> lastIdx (kv_rf kv1)" if "(j, y) \<in> set ixs" for j y
    using Cons.prems(2) [of j y] that r(2) by simp
  moreover have "notifyData kv1 (RequestId y) \<noteq> Some Abandoned" if "(j, y) \<in> set ixs" for j y
  proof -
    have "RequestId y \<noteq> RequestId x"
      using Cons.prems(4) that ix by (force simp: image_iff)
    then show ?thesis
      using Cons.prems(3) [of j y] that n by simp
  qed
  ultimately obtain kv' s2 where run: "apply_run bytes kv1 (map op_msg ixs) = Inr (kv', s2)"
      and fin: "kv_data kv' = kv_data (fold kv_applyOp (map snd ixs) kv1)"
      "kv_lastApplied kv' = kv_lastApplied (fold kv_applyOp (map snd ixs) kv1)"
    using Cons.IH [OF r(1)] Cons.prems(4) by auto
  have "apply_run bytes kv (map op_msg (ix # ixs)) =
      Inr (kv', case s1 of None \<Rightarrow> s2 | Some r \<Rightarrow> r # s2)"
    using run by (simp add: ix op_msg_def w del: WaitApplyCh.simps)
  moreover have "kv_data kv' = kv_data (fold kv_applyOp (map snd (ix # ixs)) kv)"
      "kv_lastApplied kv' = kv_lastApplied (fold kv_applyOp (map snd (ix # ixs)) kv)"
    using kv_fold_frame [OF d, of "map snd ixs"] fin ix by simp_all
  ultimately show ?case by blast
qed

text \<open>
  C17. Exactly once: a server that starts with an empty table of clients and applies a
  committed log, in which retries may have put the same write several times, gets through
  the whole log and ends with the data that the log without the repetitions gives,
  provided that no client's earlier write comes back after a later one of that client.
\<close>

theorem apply_run_exactly_once:
  assumes "raft_wf (kv_rf kv)" and "\<And>i x. (i, x) \<in> set ixs \<Longrightarrow> i \<le> lastIdx (kv_rf kv)"
    and "\<And>i x. (i, x) \<in> set ixs \<Longrightarrow> notifyData kv (RequestId x) \<noteq> Some Abandoned"
    and "distinct (map (RequestId \<circ> snd) ixs)"
    and "kv_lastApplied kv = Map.empty"
    and "sequential ClientId MsgId (filter is_update (map snd ixs))"
  shows "\<exists>kv' sent. apply_run bytes kv (map op_msg ixs) = Inr (kv', sent) \<and>
     kv_data kv' =
       fold kv_effect (once ClientId MsgId [] (filter is_update (map snd ixs))) (kv_data kv)"
proof -
  obtain kv' sent where "apply_run bytes kv (map op_msg ixs) = Inr (kv', sent)"
      "kv_data kv' = kv_data (fold kv_applyOp (map snd ixs) kv)"
    using apply_run_ok [OF assms(1) _ _ assms(4)] assms(2,3) by blast
  then show ?thesis
    using kv_dedup.exactly_once [OF assms(5,6)] by auto
qed

theorem apply_run_exactly_once_witness:
  "\<exists>kv' sent. apply_run (\<lambda>_. 100) (demo_kv [\<lparr>lg_Command = ICmd (demo_append ''a'' 1 8), lg_Term = 1\<rparr>,
       \<lparr>lg_Command = ICmd (demo_append ''a'' 1 9), lg_Term = 1\<rparr>,
       \<lparr>lg_Command = ICmd (demo_append ''b'' 2 10), lg_Term = 1\<rparr>])
     (map op_msg [(1, demo_append ''a'' 1 8), (2, demo_append ''a'' 1 9), (3, demo_append ''b'' 2 10)]) =
       Inr (kv', sent) \<and> kv_data kv' ''k'' = Some ''ab''"
proof -
  let ?kv = "demo_kv [\<lparr>lg_Command = ICmd (demo_append ''a'' 1 8), lg_Term = 1\<rparr>,
       \<lparr>lg_Command = ICmd (demo_append ''a'' 1 9), lg_Term = 1\<rparr>,
       \<lparr>lg_Command = ICmd (demo_append ''b'' 2 10), lg_Term = 1\<rparr>]"
  let ?ixs = "[(1 :: int, demo_append ''a'' 1 8), (2, demo_append ''a'' 1 9), (3, demo_append ''b'' 2 10)]"
  have "\<exists>kv' sent. apply_run (\<lambda>_. 100) ?kv (map op_msg ?ixs) = Inr (kv', sent) \<and>
     kv_data kv' =
       fold kv_effect (once ClientId MsgId [] (filter is_update (map snd ?ixs))) (kv_data ?kv)"
    by (rule apply_run_exactly_once)
      (auto simp: demo_append_def is_update_def, simp_all add: demo_kv_def)
  then show ?thesis
    by (auto simp: demo_append_def is_update_def kv_effect_def str_at_def demo_kv_def)
qed

text \<open>
  The proviso is needed: \<open>CheckApplied\<close> compares with the last id only, so a retry that the
  network delivers after the client's next command is applied a second time.
\<close>

theorem kv_delayed_retry_applied_twice:
  "case apply_run (\<lambda>_. 0) (demo_kv [])
       (map op_msg [(0, demo_append ''a'' 1 8), (0, demo_append ''b'' 2 9), (0, demo_append ''a'' 1 10)]) of
     Inl _ \<Rightarrow> False
   | Inr (kv', _) \<Rightarrow> kv_data kv' ''k'' = Some ''aba''"
  by code_simp

text \<open>
  The apply loop can stop for ever: a handler whose timer fires has left its \<open>select\<close>, and
  until it gets the lock in \<open>removeCh\<close> its channel is still registered. A command applied in
  between blocks in the send while holding the lock that \<open>removeCh\<close> waits for.
\<close>

theorem kv_timeout_blocks_apply_loop:
  "case WaitApplyCh (\<lambda>_. 0) (waitForRaft_leave (demo_append ''a'' 1 8)
       (waitForRaft_register (demo_append ''a'' 1 8) (demo_kv []))) True (ICmd (demo_append ''a'' 1 8)) 0 of
     Inl e \<Rightarrow> e = NoReceiver | Inr _ \<Rightarrow> False"
  by code_simp

section \<open>Snapshots and restarts\<close>

definition kv_encode :: "(string \<rightharpoonup> string) \<times> (int \<rightharpoonup> int) \<Rightarrow> kv_gob list" where
  "kv_encode = (\<lambda>(d, la). [GData d, GApplied la])"

fun kv_decode :: "kv_gob list \<Rightarrow> ((string \<rightharpoonup> string) \<times> (int \<rightharpoonup> int)) option" where
  "kv_decode (GData d # GApplied la # _) = Some (d, la)"
| "kv_decode _ = None"

interpretation kv_codec: codec kv_encode kv_decode
  by unfold_locales (auto simp: kv_encode_def)

lemma ReadSnapshot_decode:
  "ReadSnapshot kv (Some g) =
     (case kv_decode g of
        None \<Rightarrow> Inl ProcessExit
      | Some (d, la) \<Rightarrow> Inr (kv\<lparr>kv_lastApplied := la, kv_data := d\<rparr>))"
  by (induction g rule: kv_decode.induct) auto

lemma SaveStateAndSnapshot_saved:
  assumes "lastSnapshotIndex rf \<le> index" and "index \<le> lastIdx rf"
  shows "\<exists>rf'. SaveStateAndSnapshot rf index sn = Inr rf' \<and>
    raftstate (persister rf') = getPersistData rf' \<and> snapshot (persister rf') = sn \<and>
    lastSnapshotIndex rf' = index \<and> rlog rf' = drop (nat (index - lastSnapshotIndex rf)) (rlog rf) \<and>
    currentTerm rf' = currentTerm rf \<and> voteFor rf' = voteFor rf"
  using assms
  by (simp add: SaveStateAndSnapshot_def getRealLogIndex_def go_idx_Inr go_from_Inr Let_def lastIdx_def
      ps_SaveStateAndSnapshot_def getPersistData_def)

lemma Make_getPersistData:
  assumes "raftstate ps = getPersistData rf"
  shows "\<exists>rf'. Make n i ps = Inr rf' \<and> persister rf' = ps \<and> rlog rf' = rlog rf \<and>
    lastSnapshotIndex rf' = lastSnapshotIndex rf \<and> currentTerm rf' = currentTerm rf \<and>
    voteFor rf' = voteFor rf \<and> lastApplied rf' = 0"
  using assms by (simp add: Make_def ReadRaftState_def getPersistData_def)

text \<open>
  C18. Snapshot and restart: when the Raft state has outgrown the limit, \<open>saveSnapshot\<close> at an
  applied index saves data and client table next to the shortened log, and a server
  started on that persister has the same data, client table, term, vote and log suffix. Its
  first round of the apply loop then delivers only the snapshot message, after which the
  entries the snapshot covers count as applied: none of them is applied again.
\<close>

theorem saveSnapshot_restart:
  assumes "lastSnapshotIndex (kv_rf kv) \<le> index" and "index \<le> lastIdx (kv_rf kv)" and "0 < index"
    and "maxraftstate kv \<noteq> -1" and "maxraftstate kv \<le> RaftStateSize bytes (persister (kv_rf kv))"
  shows "\<exists>kv' kv''. saveSnapshot bytes index kv = Inr kv' \<and>
     StartKVServer n i (persister (kv_rf kv')) mx = Inr kv'' \<and>
     kv_data kv'' = kv_data kv \<and> kv_lastApplied kv'' = kv_lastApplied kv \<and>
     currentTerm (kv_rf kv'') = currentTerm (kv_rf kv) \<and> voteFor (kv_rf kv'') = voteFor (kv_rf kv) \<and>
     rlog (kv_rf kv'') = drop (nat (index - lastSnapshotIndex (kv_rf kv))) (rlog (kv_rf kv)) \<and>
     Apply (kv_rf kv'') =
       Inr ((kv_rf kv'')\<lparr>lastApplied := index, commitIndex := index\<rparr>,
            [\<lparr>CommandValid = False, am_Command = IStr ''installSnapshot'', CommandIndex = index\<rparr>])"
proof -
  let ?sn = "Some (kv_encode (kv_data kv, kv_lastApplied kv))"
  obtain rf where sv: "SaveStateAndSnapshot (kv_rf kv) index ?sn = Inr rf"
    and rf: "raftstate (persister rf) = getPersistData rf" "snapshot (persister rf) = ?sn"
      "lastSnapshotIndex rf = index" "rlog rf = drop (nat (index - lastSnapshotIndex (kv_rf kv))) (rlog (kv_rf kv))"
      "currentTerm rf = currentTerm (kv_rf kv)" "voteFor rf = voteFor (kv_rf kv)"
    using SaveStateAndSnapshot_saved [OF assms(1,2), of ?sn] by blast
  have save: "saveSnapshot bytes index kv = Inr (kv\<lparr>kv_rf := rf\<rparr>)"
    using assms(4,5) sv by (simp add: saveSnapshot_def kv_encode_def)
  obtain rf' where mk: "Make n i (persister rf) = Inr rf'" "persister rf' = persister rf"
      "rlog rf' = rlog rf" "lastSnapshotIndex rf' = lastSnapshotIndex rf"
      "currentTerm rf' = currentTerm rf" "voteFor rf' = voteFor rf" "lastApplied rf' = 0"
    using Make_getPersistData [OF rf(1)] by blast
  have start: "StartKVServer n i (persister rf) mx =
      Inr \<lparr>kv_me = i, kv_rf = rf', kv_dead = False, kv_stopped = False, kv_data = kv_data kv,
           maxraftstate = mx, kv_lastApplied = kv_lastApplied kv, notifyData = Map.empty\<rparr>"
    using rf(2) mk(1,2) by (simp add: StartKVServer_def ps_ReadSnapshot_def ReadSnapshot_decode kv_codec.dec_enc)
  have "Apply rf' = Inr (rf'\<lparr>lastApplied := index, commitIndex := index\<rparr>,
            [\<lparr>CommandValid = False, am_Command = IStr ''installSnapshot'', CommandIndex = index\<rparr>])"
    using assms(3) mk(4,7) rf(3) by (simp add: Apply_def Apply_collect_def Apply_deliver_def Let_def)
  then show ?thesis
    using save start mk rf by auto
qed

theorem saveSnapshot_restart_witness:
  "\<exists>kv' kv''. saveSnapshot (\<lambda>_. 100) 1
       ((demo_kv [\<lparr>lg_Command = ICmd (demo_append ''a'' 1 8), lg_Term = 1\<rparr>])\<lparr>kv_data := [''k'' \<mapsto> ''a'']\<rparr>) = Inr kv' \<and>
     StartKVServer 3 0 (persister (kv_rf kv')) 1000 = Inr kv'' \<and> kv_data kv'' ''k'' = Some ''a''"
proof -
  let ?kv = "(demo_kv [\<lparr>lg_Command = ICmd (demo_append ''a'' 1 8), lg_Term = 1\<rparr>])\<lparr>kv_data := [''k'' \<mapsto> ''a'']\<rparr>"
  have "lastSnapshotIndex (kv_rf ?kv) \<le> 1" "1 \<le> lastIdx (kv_rf ?kv)"
      "maxraftstate ?kv \<noteq> -1" "maxraftstate ?kv \<le> RaftStateSize (\<lambda>_. 100) (persister (kv_rf ?kv))"
    by (simp_all add: demo_kv_def lastIdx_def RaftStateSize_def)
  from saveSnapshot_restart [OF this(1,2) zero_less_one this(3,4), of 3 0 1000]
  show ?thesis by auto
qed

section \<open>Handlers\<close>

text \<open>
  The request handlers: a server that is not the leader answers \<open>ErrWrongLeader\<close> and
  nothing changes. The leader appends exactly one entry to its log, which carries the
  client's command with the client's own ids, answers nothing yet, and neither its data
  nor its client table change before the entry is committed.
\<close>

theorem kv_handlers_start:
  assumes "raft_wf (kv_rf kv)"
    and "h = kv_Get rid ga \<and> x = kv_Get_op rid ga \<or> h = kv_PutAppend rid pa \<and> x = kv_PutAppend_op rid pa"
  shows "if rf_state (kv_rf kv) = LEADER
     then \<exists>kv'. h kv = Inr (kv', None) \<and>
            rlog (kv_rf kv') = rlog (kv_rf kv) @ [\<lparr>lg_Command = ICmd x, lg_Term = currentTerm (kv_rf kv)\<rparr>] \<and>
            lastIdx (kv_rf kv') = lastIdx (kv_rf kv) + 1 \<and> raft_wf (kv_rf kv') \<and>
            kv_data kv' = kv_data kv \<and> kv_lastApplied kv' = kv_lastApplied kv \<and> notifyData kv' = notifyData kv
     else h kv = Inr (kv, Some \<lparr>nm_Err = ErrWrongLeader, nm_Value = ''''\<rparr>)"
proof (cases "rf_state (kv_rf kv) = LEADER")
  case True
  then have wf: "rlog (kv_rf kv) \<noteq> []" "me (kv_rf kv) < peers (kv_rf kv)"
      "length (nextIndex (kv_rf kv)) = peers (kv_rf kv)" "length (matchIndex (kv_rf kv)) = peers (kv_rf kv)"
    using assms(1) by (auto simp: raft_wf_def leader_arrays_def)
  have "\<exists>rf r. Start (kv_rf kv) (ICmd x) = Inr (rf, r) \<and> snd (snd r) \<and>
      rlog rf = rlog (kv_rf kv) @ [\<lparr>lg_Command = ICmd x, lg_Term = currentTerm (kv_rf kv)\<rparr>] \<and>
      lastIdx rf = lastIdx (kv_rf kv) + 1"
    using True wf by (simp add: Start_def Let_def go_upd_Inr frame_simps lastIdx_def)
  then obtain rf a b where "Start (kv_rf kv) (ICmd x) = Inr (rf, a, b, True)"
      "rlog rf = rlog (kv_rf kv) @ [\<lparr>lg_Command = ICmd x, lg_Term = currentTerm (kv_rf kv)\<rparr>]"
      "lastIdx rf = lastIdx (kv_rf kv) + 1" by auto
  moreover have "raft_wf rf"
    using Start_wf [OF assms(1), of "ICmd x"] calculation(1) by auto
  ultimately show ?thesis
    using True assms(2) by (auto simp: kv_Get_def kv_PutAppend_def waitForRaft_start_def GetState_def)
next
  case False
  then have "Start (kv_rf kv) (ICmd x) = Inr (kv_rf kv, lastIdx (kv_rf kv) + 1, currentTerm (kv_rf kv), False)"
    using assms(1) by (simp add: Start_def Let_def raft_wf_def)
  then show ?thesis
    using False assms(2) by (auto simp: kv_Get_def kv_PutAppend_def waitForRaft_start_def GetState_def)
qed

theorem kv_handlers_start_witness:
  "\<exists>kv'. kv_PutAppend 9 \<lparr>pa_Key = ''k'', pa_Value = ''a'', pa_Op = ''Append'', pa_MsgId = 1, pa_ClientId = 5\<rparr>
       (demo_kv []) = Inr (kv', None) \<and>
     rlog (kv_rf kv') = [\<lparr>lg_Command = IStr '''', lg_Term = 0\<rparr>,
       \<lparr>lg_Command = ICmd (demo_append ''a'' 1 9), lg_Term = 1\<rparr>]"
  using kv_handlers_start [of "demo_kv []" "kv_PutAppend 9 \<lparr>pa_Key = ''k'', pa_Value = ''a'',
      pa_Op = ''Append'', pa_MsgId = 1, pa_ClientId = 5\<rparr>" 9 undefined "kv_PutAppend_op 9 \<lparr>pa_Key = ''k'',
      pa_Value = ''a'', pa_Op = ''Append'', pa_MsgId = 1, pa_ClientId = 5\<rparr>"
      "\<lparr>pa_Key = ''k'', pa_Value = ''a'', pa_Op = ''Append'', pa_MsgId = 1, pa_ClientId = 5\<rparr>"]
  by (auto simp: kv_PutAppend_op_def demo_append_def demo_kv_def raft_wf_def leader_arrays_def
      saved_ok_def MakePersister_def)

end
