(* ===== verification/Kv_Clerk.thy ===== *)
theory Kv_Clerk
  imports KvRaft
begin

text \<open>
  The client of the key/value service (\<open>kvraft/client.go\<close>).

  \<open>FindLeader\<close> asks every server at once; the goroutine of a server tests the term without
  the lock and then writes the result under the lock, so the two are separate events here.
  The loops of \<open>Get\<close> and \<open>PutAppend\<close> run over a list of rounds: what \<open>ck.leaderId\<close> is in
  that round and what the call returns (\<open>None\<close>: the RPC failed). They return the requests
  sent and the result, \<open>None\<close> when the rounds are used up before the loop ends.
\<close>

section \<open>The clerk\<close>

record Clerk =
  ck_servers :: nat
  ck_dead :: bool
  leaderId :: int
  clientId :: int
  leaderMe :: int
  findLeaderTimer :: timer
  ck_Term :: int

definition MakeClerk :: "nat \<Rightarrow> int \<Rightarrow> Clerk" where
  "MakeClerk n r =
     \<lparr>ck_servers = n, ck_dead = False, leaderId = -1, clientId = r, leaderMe = 0,
      findLeaderTimer = BeatPeriod, ck_Term = 0\<rparr>"

definition resetFLTimer :: "Clerk \<Rightarrow> Clerk" where
  "resetFLTimer ck = ck\<lparr>findLeaderTimer := BeatPeriod\<rparr>"

definition findLeaderNow :: "Clerk \<Rightarrow> Clerk" where
  "findLeaderNow ck = ck\<lparr>findLeaderTimer := FireNow\<rparr>"

datatype fl_event = FLReply nat "GetStateReply option" | FLSet nat

text \<open>State: the clerk and the goroutines that passed the test and have not yet written.\<close>

fun FindLeader_event ::
  "Clerk \<times> (nat \<times> GetStateReply) list \<Rightarrow> fl_event \<Rightarrow> Clerk \<times> (nat \<times> GetStateReply) list" where
  "FindLeader_event (ck, pend) (FLReply i None) = (ck, pend)"
| "FindLeader_event (ck, pend) (FLReply i (Some reply)) =
     (if gs_IsLeader reply \<and> gs_Term reply \<ge> ck_Term ck then (ck, (i, reply) # pend) else (ck, pend))"
| "FindLeader_event (ck, pend) (FLSet i) =
     (case map_of pend i of
        None \<Rightarrow> (ck, pend)
      | Some reply \<Rightarrow>
          (ck\<lparr>leaderId := int i, leaderMe := gs_LeaderId reply, ck_Term := gs_Term reply\<rparr>,
           filter (\<lambda>p. fst p \<noteq> i) pend))"

definition FindLeader :: "Clerk \<Rightarrow> fl_event list \<Rightarrow> Clerk" where
  "FindLeader ck evs =
     resetFLTimer (fst (foldl FindLeader_event (ck\<lparr>leaderId := -1, leaderMe := -1\<rparr>, []) evs))"

text \<open>Making the arguments, the reply of one round, and the loops.\<close>

definition clerk_Get_args :: "Clerk \<Rightarrow> string \<Rightarrow> int \<Rightarrow> GetArgs" where
  "clerk_Get_args ck key r = \<lparr>ga_Key = key, ga_MsgId = r, ga_ClientId = clientId ck\<rparr>"

definition clerk_PutAppend_args :: "Clerk \<Rightarrow> string \<Rightarrow> string \<Rightarrow> string \<Rightarrow> int \<Rightarrow> PutAppendArgs" where
  "clerk_PutAppend_args ck key v x r =
     \<lparr>pa_Key = key, pa_Value = v, pa_Op = x, pa_MsgId = r, pa_ClientId = clientId ck\<rparr>"

fun clerk_Get_loop ::
  "Clerk \<Rightarrow> GetArgs \<Rightarrow> (int \<times> (Err \<times> string) option) list \<Rightarrow>
   Clerk \<times> (int \<times> GetArgs) list \<times> string option" where
  "clerk_Get_loop ck args [] = (ck, [], if ck_dead ck then Some '''' else None)"
| "clerk_Get_loop ck args ((leader, res) # rounds) =
     (if ck_dead ck then (ck, [], Some '''')
      else if leader = -1 then clerk_Get_loop ck args rounds
      else
        let go_on = (\<lambda>ck. case clerk_Get_loop ck args rounds of
              (ck, sent, r) \<Rightarrow> (ck, (leader, args) # sent, r))
        in case res of
             None \<Rightarrow> go_on ck
           | Some (OK, v) \<Rightarrow> (ck, [(leader, args)], Some v)
           | Some (ErrNoKey, v) \<Rightarrow> (ck, [(leader, args)], Some '''')
           | Some (ErrWrongLeader, v) \<Rightarrow> go_on (findLeaderNow ck)
           | Some (ErrTimeOut, v) \<Rightarrow> go_on (findLeaderNow ck)
           | Some (ErrUnset, v) \<Rightarrow> go_on ck)"

fun clerk_PutAppend_loop ::
  "Clerk \<Rightarrow> PutAppendArgs \<Rightarrow> (int \<times> Err option) list \<Rightarrow>
   Clerk \<times> (int \<times> PutAppendArgs) list \<times> bool" where
  "clerk_PutAppend_loop ck args [] = (ck, [], ck_dead ck)"
| "clerk_PutAppend_loop ck args ((leader, res) # rounds) =
     (if ck_dead ck then (ck, [], True)
      else if leader = -1 then clerk_PutAppend_loop ck args rounds
      else
        let go_on = (\<lambda>ck. case clerk_PutAppend_loop ck args rounds of
              (ck, sent, r) \<Rightarrow> (ck, (leader, args) # sent, r))
        in case res of
             None \<Rightarrow> go_on ck
           | Some OK \<Rightarrow> (ck, [(leader, args)], True)
           | Some ErrNoKey \<Rightarrow> (ck, [(leader, args)], True)
           | Some ErrWrongLeader \<Rightarrow> go_on (findLeaderNow ck)
           | Some ErrTimeOut \<Rightarrow> go_on (findLeaderNow ck)
           | Some ErrUnset \<Rightarrow> go_on ck)"

definition clerk_Get ::
  "Clerk \<Rightarrow> string \<Rightarrow> int \<Rightarrow> (int \<times> (Err \<times> string) option) list \<Rightarrow>
   Clerk \<times> (int \<times> GetArgs) list \<times> string option" where
  "clerk_Get ck key r rounds = clerk_Get_loop ck (clerk_Get_args ck key r) rounds"

definition clerk_PutAppend ::
  "Clerk \<Rightarrow> string \<Rightarrow> string \<Rightarrow> string \<Rightarrow> int \<Rightarrow> (int \<times> Err option) list \<Rightarrow>
   Clerk \<times> (int \<times> PutAppendArgs) list \<times> bool" where
  "clerk_PutAppend ck key v x r rounds =
     clerk_PutAppend_loop ck (clerk_PutAppend_args ck key v x r) rounds"

definition clerk_Put ::
  "Clerk \<Rightarrow> string \<Rightarrow> string \<Rightarrow> int \<Rightarrow> (int \<times> Err option) list \<Rightarrow>
   Clerk \<times> (int \<times> PutAppendArgs) list \<times> bool" where
  "clerk_Put ck key v r rounds = clerk_PutAppend ck key v ''Put'' r rounds"

definition clerk_Append ::
  "Clerk \<Rightarrow> string \<Rightarrow> string \<Rightarrow> int \<Rightarrow> (int \<times> Err option) list \<Rightarrow>
   Clerk \<times> (int \<times> PutAppendArgs) list \<times> bool" where
  "clerk_Append ck key v r rounds = clerk_PutAppend ck key v ''Append'' r rounds"

section \<open>Finding the leader\<close>

definition fl_inv :: "int \<Rightarrow> fl_event list \<Rightarrow> Clerk \<times> (nat \<times> GetStateReply) list \<Rightarrow> bool" where
  "fl_inv t0 evs s \<longleftrightarrow>
     t0 \<le> ck_Term (fst s) \<and>
     (\<forall>(i, r)\<in>set (snd s). gs_IsLeader r \<and> t0 \<le> gs_Term r \<and> FLReply i (Some r) \<in> set evs) \<and>
     (leaderId (fst s) = -1 \<or>
      (\<exists>i r. leaderId (fst s) = int i \<and> FLReply i (Some r) \<in> set evs \<and> gs_IsLeader r \<and>
             t0 \<le> gs_Term r \<and> ck_Term (fst s) = gs_Term r \<and> leaderMe (fst s) = gs_LeaderId r))"

lemma fl_inv_event:
  assumes "fl_inv t0 evs s" and "e \<in> set evs"
  shows "fl_inv t0 evs (FindLeader_event s e)"
proof -
  obtain ck pend where s: "s = (ck, pend)" by (cases s)
  show ?thesis
  proof (cases e)
    case (FLReply i res)
    then show ?thesis
      using assms s by (cases res) (auto simp: fl_inv_def)
  next
    case (FLSet i)
    show ?thesis
    proof (cases "map_of pend i")
      case None
      then show ?thesis using assms(1) FLSet s by simp
    next
      case (Some r)
      then have "(i, r) \<in> set pend" by (rule map_of_SomeD)
      then show ?thesis
        using assms(1) FLSet s Some by (auto simp: fl_inv_def)
    qed
  qed
qed

lemma fl_inv_foldl:
  "fl_inv t0 evs s \<Longrightarrow> set es \<subseteq> set evs \<Longrightarrow> fl_inv t0 evs (foldl FindLeader_event s es)"
proof (induction es arbitrary: s)
  case (Cons e es)
  then have "fl_inv t0 evs (FindLeader_event s e)"
    by (intro fl_inv_event) auto
  then show ?case
    using Cons.IH Cons.prems(2) by simp
qed simp

text \<open>
  Whatever the order of replies and writes, \<open>FindLeader\<close> ends with no leader, or with a
  server that answered that it is the leader of the term the clerk then remembers, and that
  term is not older than the one the clerk knew before.
\<close>

theorem FindLeader_result:
  "leaderId (FindLeader ck evs) = -1 \<or>
   (\<exists>i r. leaderId (FindLeader ck evs) = int i \<and> FLReply i (Some r) \<in> set evs \<and> gs_IsLeader r \<and>
          ck_Term (FindLeader ck evs) = gs_Term r \<and> ck_Term ck \<le> gs_Term r)"
proof -
  have "fl_inv (ck_Term ck) evs (ck\<lparr>leaderId := -1, leaderMe := -1\<rparr>, [])"
    by (simp add: fl_inv_def)
  from fl_inv_foldl [OF this subset_refl]
  show ?thesis by (auto simp: fl_inv_def FindLeader_def resetFLTimer_def)
qed

section \<open>Retries\<close>

lemma clerk_PutAppend_loop_sent:
  "clerk_PutAppend_loop ck args rounds = (ck', sent, r) \<Longrightarrow> p \<in> set sent \<Longrightarrow> snd p = args"
proof (induction ck args rounds arbitrary: ck' sent r rule: clerk_PutAppend_loop.induct)
  case (1 ck args)
  then show ?case by auto
next
  case (2 ck args leader res rounds)
  then show ?case
    by (fastforce simp: Let_def split: if_splits option.splits Err.splits prod.splits)
qed

lemma fold_repeat:
  "kv_lastApplied kv (pa_ClientId args) = Some (pa_MsgId args) \<Longrightarrow>
   fold kv_applyOp (map (\<lambda>rid. kv_PutAppend_op rid args) rids) kv = kv"
  by (induction rids) (auto simp: kv_applyOp_def kv_PutAppend_op_def CheckApplied_def Let_def)



text \<open>
  The loop of the clerk's \<open>Get\<close> ends with the first final answer: rounds that failed, were
  sent to a wrong leader or timed out are followed by another try of the same request, and
  the value returned is the one that answer carries (empty for \<open>ErrNoKey\<close>).
\<close>

theorem clerk_Get_first_answer:
  assumes "\<not> ck_dead ck" and "leader \<noteq> -1" and "e = OK \<or> e = ErrNoKey"
    and "\<And>l res. (l, res) \<in> set rounds \<Longrightarrow>
           l = -1 \<or> res = None \<or> (\<exists>e v. res = Some (e, v) \<and> e \<noteq> OK \<and> e \<noteq> ErrNoKey)"
  shows "\<exists>ck' sent. clerk_Get ck key m (rounds @ (leader, Some (e, v)) # later) =
     (ck', sent, Some (if e = OK then v else '''')) \<and> snd ` set sent = {clerk_Get_args ck key m} \<and>
     last sent = (leader, clerk_Get_args ck key m)"
proof -
  let ?a = "clerk_Get_args ck key m"
  have "\<exists>ck' sent. clerk_Get_loop ck0 ?a (rounds @ (leader, Some (e, v)) # later) =
     (ck', sent, Some (if e = OK then v else '''')) \<and> snd ` set sent = {?a} \<and>
     sent \<noteq> [] \<and> last sent = (leader, ?a)" if "\<not> ck_dead ck0" for ck0
    using that assms(4)
  proof (induction rounds arbitrary: ck0)
    case Nil
    then show ?case using assms(2,3) by auto
  next
    case (Cons r rounds)
    obtain l res where r: "r = (l, res)" by (cases r)
    have rest: "\<And>l res. (l, res) \<in> set rounds \<Longrightarrow>
           l = -1 \<or> res = None \<or> (\<exists>e v. res = Some (e, v) \<and> e \<noteq> OK \<and> e \<noteq> ErrNoKey)"
      using Cons.prems(2) by auto
    have now: "\<not> ck_dead (findLeaderNow ck0)"
      using Cons.prems(1) by (simp add: findLeaderNow_def)
    have "l = -1 \<or> res = None \<or> (\<exists>e v. res = Some (e, v) \<and> e \<noteq> OK \<and> e \<noteq> ErrNoKey)"
      using Cons.prems(2) r by auto
    then show ?case
      using Cons.IH [OF Cons.prems(1) rest] Cons.IH [OF now rest] Cons.prems(1)
      by (auto simp: r split: Err.splits)
  qed
  from this [OF assms(1)] show ?thesis
    by (auto simp: clerk_Get_def)
qed

theorem clerk_Get_first_answer_witness:
  "\<exists>ck' sent. clerk_Get (MakeClerk 3 5) ''k'' 1 ([(-1, None), (0, None), (1, Some (ErrWrongLeader, ''''))] @
      (2, Some (OK, ''a'')) # []) = (ck', sent, Some ''a'') \<and>
     last sent = (2, clerk_Get_args (MakeClerk 3 5) ''k'' 1)"
  using clerk_Get_first_answer [of "MakeClerk 3 5" 2 OK "[(-1, None), (0, None), (1, Some (ErrWrongLeader, ''''))]"
      "''k''" 1 "''a''" "[]"]
  by (auto simp: MakeClerk_def)

end
