(* ===== verification/ShardMaster.thy ===== *)
theory ShardMaster
  imports Raft_Snapshot Dedup "HOL-Library.AList"
begin

text \<open>
  The shard master (\<open>shardmaster/server.go\<close>, \<open>shardmaster/common.go\<close>): configurations, their
  rebalancing on Join and Leave, the apply loop and the request handlers.

  A Go map \<open>gid -> servers\<close> is an association list with distinct keys. Go visits a map in an
  unspecified order, which may differ at every loop: \<open>rng k g\<close> is the order in which loop \<open>k\<close>
  (for the nested loops, inside the round of group \<open>g\<close>) visits the keys it is given. The
  properties hold for every choice of orders, \<open>rng_ok\<close> says only that a loop visits each key
  once. \<open>reassign\<close> and \<open>take_over\<close> are the loops over the shards, including their exit test
  after each shard.
\<close>

section \<open>Data\<close>

abbreviation NShards :: nat where
  "NShards \<equiv> 10"

record Config =
  Num :: int
  Shards :: "int list"
  Groups :: "(int \<times> string list) list"

datatype sm_Err = sm_OK | sm_ErrWrongLeader | sm_ErrTimeOut | sm_ErrTransition | sm_ErrUnset

datatype sm_phase = STABLE | TRANSITION | FREEZE

record JoinArgs =
  ja_Servers :: "(int \<times> string list) list"
  ja_ClientId :: int
  ja_MsgId :: int

record LeaveArgs =
  la_GIDs :: "int list"
  la_ClientId :: int
  la_MsgId :: int

record MoveArgs =
  ma_Shard :: int
  ma_GID :: int
  ma_ClientId :: int
  ma_MsgId :: int

record QueryArgs =
  qa_Num :: int
  qa_ClientId :: int
  qa_MsgId :: int

datatype sm_args = AJoin JoinArgs | ALeave LeaveArgs | AMove MoveArgs | AQuery QueryArgs

record sm_Op =
  sm_Method :: string
  sm_ClientId :: int
  sm_MsgId :: int
  sm_RequestId :: int
  sm_Args :: sm_args

record sm_NotifyMsg =
  snm_Err :: sm_Err
  snm_WrongLeader :: bool

datatype sm_chan = sm_Receiving | sm_Abandoned

record ShardMaster =
  sm_me :: nat
  sm_rf :: "(sm_Op, unit) Raft"
  configs :: "Config list"
  lastApplies :: "int \<rightharpoonup> int"
  sm_notifyData :: "int \<rightharpoonup> sm_chan"
  sm_state :: sm_phase

definition Config_Copy :: "Config \<Rightarrow> Config" where
  "Config_Copy c = \<lparr>Num = Num c, Shards = Shards c, Groups = map (\<lambda>(gid, s). (gid, [] @ s)) (Groups c)\<rparr>"

definition gids :: "Config \<Rightarrow> int list" where
  "gids c = map fst (Groups c)"

section \<open>Rebalancing\<close>

text \<open>\<open>for i := 0; i < NShards; i++ { if s[i] == x { s[i] = y; r-- }; if r == 0 { break } }\<close>\<close>

fun reassign :: "int \<Rightarrow> int \<Rightarrow> int \<Rightarrow> int list \<Rightarrow> int list \<times> int" where
  "reassign x y r [] = ([], r)"
| "reassign x y r (s # ss) =
     (let (s', r') = (if s = x then (y, r - 1) else (s, r))
      in if r' = 0 then (s' # ss, 0)
         else case reassign x y r' ss of (ss', r'') \<Rightarrow> (s' # ss', r''))"

text \<open>The same loop over the pairs \<open>(lastConfig.Shards[i], config.Shards[i])\<close>.\<close>

fun take_over :: "int \<Rightarrow> int \<Rightarrow> int \<Rightarrow> (int \<times> int) list \<Rightarrow> (int \<times> int) list \<times> int" where
  "take_over oldGid gid r [] = ([], r)"
| "take_over oldGid gid r ((l, c) # ps) =
     (let (p', r') = (if l = oldGid then ((0, gid), r - 1) else ((l, c), r))
      in if r' = 0 then (p' # ps, 0)
         else case take_over oldGid gid r' ps of (ps', r'') \<Rightarrow> (p' # ps', r''))"

fun MOVEGID :: "int list \<Rightarrow> int \<Rightarrow> int list \<Rightarrow> int \<Rightarrow> (int \<times> int) list \<Rightarrow> (int \<times> int) list" where
  "MOVEGID cur gid [] r ps = ps"
| "MOVEGID cur gid (oldGid # olds) r ps =
     (if oldGid \<in> set cur then MOVEGID cur gid olds r ps
      else case take_over oldGid gid r ps of
             (ps', r') \<Rightarrow> if r' = 0 then ps' else MOVEGID cur gid olds r' ps')"

definition lastCnt :: "Config \<Rightarrow> Config \<Rightarrow> int \<rightharpoonup> int" where
  "lastCnt lastConfig config gid =
     (if gid \<in> set (gids config) \<and> gid \<in> set (Shards lastConfig)
      then Some (int (count_list (Shards lastConfig) gid)) else None)"

definition cnt_at :: "(int \<rightharpoonup> int) \<Rightarrow> int \<Rightarrow> int" where
  "cnt_at m g = (case m g of None \<Rightarrow> 0 | Some n \<Rightarrow> n)"

text \<open>The branch for fewer groups: first the groups that had shards, then the others.\<close>

fun leave_first ::
  "(int \<Rightarrow> int list) \<Rightarrow> int list \<Rightarrow> (int \<rightharpoonup> int) \<Rightarrow> int \<Rightarrow> int list \<Rightarrow> int \<Rightarrow> (int \<times> int) list \<Rightarrow>
   int \<times> (int \<times> int) list" where
  "leave_first olds cur cnt avg [] left ps = (left, ps)"
| "leave_first olds cur cnt avg (gid # gs) left ps =
     (case cnt gid of
        None \<Rightarrow> leave_first olds cur cnt avg gs left ps
      | Some c \<Rightarrow>
          let r = avg - c
          in if r = 0 then leave_first olds cur cnt avg gs left ps
             else
               let (r, left) = (if left > 0 then (r + 1, left - 1) else (r, left))
               in if r = 0 then leave_first olds cur cnt avg gs left ps
                  else leave_first olds cur cnt avg gs left (MOVEGID cur gid (olds gid) r ps))"

fun leave_second ::
  "(int \<Rightarrow> int list) \<Rightarrow> int list \<Rightarrow> (int \<rightharpoonup> int) \<Rightarrow> int \<Rightarrow> int list \<Rightarrow> int \<Rightarrow> (int \<times> int) list \<Rightarrow>
   int \<times> (int \<times> int) list" where
  "leave_second olds cur cnt avg [] left ps = (left, ps)"
| "leave_second olds cur cnt avg (gid # gs) left ps =
     (case cnt gid of
        Some _ \<Rightarrow> leave_second olds cur cnt avg gs left ps
      | None \<Rightarrow>
          let (r, left) = (if left > 0 then (avg + 1, left - 1) else (avg, left))
          in leave_second olds cur cnt avg gs left (MOVEGID cur gid (olds gid) r ps))"

text \<open>The branch for at least as many groups: take shards away, then give them to the rest.\<close>

fun join_first ::
  "int list \<Rightarrow> (int \<rightharpoonup> int) \<Rightarrow> int \<Rightarrow> int list \<Rightarrow> int \<Rightarrow> int list \<Rightarrow> int list \<Rightarrow>
   int \<times> int list \<times> int list" where
  "join_first cur cnt avg [] left finish ss = (left, finish, ss)"
| "join_first cur cnt avg (lastGid # gs) left finish ss =
     (if lastGid \<in> set cur then
        let r = cnt_at cnt lastGid - avg
        in if r = 0 then join_first cur cnt avg gs left (lastGid # finish) ss
           else
             let (r, left) = (if left > 0 then (r - 1, left - 1) else (r, left))
             in if r = 0 then join_first cur cnt avg gs left (lastGid # finish) ss
                else case reassign lastGid 0 r ss of
                       (ss', r') \<Rightarrow>
                         join_first cur cnt avg gs left (if r' = 0 then lastGid # finish else finish) ss'
      else join_first cur cnt avg gs left finish (map (\<lambda>s. if s = lastGid then 0 else s) ss))"

fun join_second :: "int \<Rightarrow> int list \<Rightarrow> int \<Rightarrow> int list \<Rightarrow> int list \<Rightarrow> int list" where
  "join_second avg [] left finish ss = ss"
| "join_second avg (gid # gs) left finish ss =
     (if gid \<in> set finish then join_second avg gs left finish ss
      else
        let (r, left) = (if left > 0 then (avg + 1, left - 1) else (avg, left))
        in case reassign 0 gid r ss of
             (ss', r') \<Rightarrow> join_second avg gs left (if r' = 0 then gid # finish else finish) ss')"

definition adjustConfig ::
  "(nat \<Rightarrow> int \<Rightarrow> int list \<Rightarrow> int list) \<Rightarrow> Config \<Rightarrow> Config \<Rightarrow> Config" where
  "adjustConfig rng lastConfig config =
     (let cur = gids config; old = gids lastConfig in
      if length cur = 0 then config\<lparr>Shards := replicate NShards 0\<rparr>
      else if length cur = 1 then config\<lparr>Shards := replicate NShards (hd cur)\<rparr>
      else
        let avg = int NShards div int (length cur); left = int NShards mod int (length cur);
            cnt = lastCnt lastConfig config
        in if length cur < length old then
             let (left, ps) = leave_first (\<lambda>g. rng 3 g old) cur cnt avg (rng 1 0 cur) left
                                (zip (Shards lastConfig) (Shards config));
                 (_, ps) = leave_second (\<lambda>g. rng 4 g old) cur cnt avg (rng 2 0 cur) left ps
             in config\<lparr>Shards := map snd ps\<rparr>
           else
             let (left, finish, ss) = join_first cur cnt avg (rng 1 0 old) left [] (Shards config)
             in config\<lparr>Shards := join_second avg (rng 2 0 cur) left finish ss\<rparr>)"

section \<open>Operations on configurations\<close>

definition getConfigCopy :: "Config list \<Rightarrow> int \<Rightarrow> Config go" where
  "getConfigCopy cs i =
     (if i < 0 \<or> i \<ge> int (length cs)
      then go_bind (go_idx cs (int (length cs) - 1)) (\<lambda>c. Inr (Config_Copy c))
      else go_bind (go_idx cs i) (\<lambda>c. Inr (Config_Copy c)))"

definition sm_join ::
  "(nat \<Rightarrow> int \<Rightarrow> int list \<Rightarrow> int list) \<Rightarrow> JoinArgs \<Rightarrow> Config list \<Rightarrow> Config list go" where
  "sm_join rng args cs =
     go_bind (getConfigCopy cs (-1)) (\<lambda>config.
       let config = config\<lparr>Num := Num config + 1\<rparr>;
           config = config\<lparr>Groups := fold (\<lambda>(k, v). AList.update k v) (ja_Servers args) (Groups config)\<rparr>
       in go_bind (getConfigCopy cs (-1)) (\<lambda>lastConfig.
            Inr (cs @ [adjustConfig rng lastConfig config])))"

definition sm_leave ::
  "(nat \<Rightarrow> int \<Rightarrow> int list \<Rightarrow> int list) \<Rightarrow> LeaveArgs \<Rightarrow> Config list \<Rightarrow> Config list go" where
  "sm_leave rng args cs =
     go_bind (getConfigCopy cs (-1)) (\<lambda>config.
       let config = config\<lparr>Num := Num config + 1\<rparr>;
           config = config\<lparr>Groups := fold (\<lambda>gid. AList.delete gid) (la_GIDs args) (Groups config)\<rparr>
       in go_bind (getConfigCopy cs (-1)) (\<lambda>lastConfig.
            Inr (cs @ [adjustConfig rng lastConfig config])))"

definition sm_move :: "MoveArgs \<Rightarrow> Config list \<Rightarrow> Config list go" where
  "sm_move args cs =
     go_bind (getConfigCopy cs (-1)) (\<lambda>config.
       let config = config\<lparr>Num := Num config + 1\<rparr>
       in go_bind (go_upd (Shards config) (ma_Shard args) (ma_GID args)) (\<lambda>ss.
            Inr (cs @ [config\<lparr>Shards := ss\<rparr>])))"

section \<open>The apply loop\<close>

definition sm_CheckApplied :: "int \<Rightarrow> int \<Rightarrow> ShardMaster \<Rightarrow> bool" where
  "sm_CheckApplied msgId clientId sm =
     (case lastApplies sm clientId of Some oldMsgId \<Rightarrow> msgId = oldMsgId | None \<Rightarrow> False)"

definition sm_switch ::
  "(nat \<Rightarrow> int \<Rightarrow> int list \<Rightarrow> int list) \<Rightarrow> sm_Op \<Rightarrow> Config list \<Rightarrow> Config list go" where
  "sm_switch rng x cs =
     (if sm_Method x = ''Join'' then
        (case sm_Args x of AJoin a \<Rightarrow> sm_join rng a cs | _ \<Rightarrow> Inl TypeAssertion)
      else if sm_Method x = ''Leave'' then
        (case sm_Args x of ALeave a \<Rightarrow> sm_leave rng a cs | _ \<Rightarrow> Inl TypeAssertion)
      else if sm_Method x = ''Move'' then
        (case sm_Args x of AMove a \<Rightarrow> sm_move a cs | _ \<Rightarrow> Inl TypeAssertion)
      else Inr cs)"

definition sm_applyOp ::
  "(nat \<Rightarrow> int \<Rightarrow> int list \<Rightarrow> int list) \<Rightarrow> sm_Op \<Rightarrow> ShardMaster \<Rightarrow> ShardMaster go" where
  "sm_applyOp rng x sm =
     go_bind (if sm_CheckApplied (sm_MsgId x) (sm_ClientId x) sm then Inr (configs sm)
              else sm_switch rng x (configs sm)) (\<lambda>cs.
       Inr (sm\<lparr>configs := cs, lastApplies := (lastApplies sm)(sm_ClientId x \<mapsto> sm_MsgId x)\<rparr>))"

definition sm_notify :: "sm_Op \<Rightarrow> ShardMaster \<Rightarrow> (ShardMaster \<times> (int \<times> sm_NotifyMsg) option) go" where
  "sm_notify x sm =
     (case sm_notifyData sm (sm_RequestId x) of
        None \<Rightarrow> Inr (sm, None)
      | Some sm_Receiving \<Rightarrow>
          Inr (sm\<lparr>sm_notifyData := (sm_notifyData sm)(sm_RequestId x \<mapsto> sm_Abandoned)\<rparr>,
               Some (sm_RequestId x, \<lparr>snm_Err = sm_OK, snm_WrongLeader = False\<rparr>))
      | Some sm_Abandoned \<Rightarrow> Inl NoReceiver)"

fun sm_apply ::
  "(nat \<Rightarrow> int \<Rightarrow> int list \<Rightarrow> int list) \<Rightarrow> ShardMaster \<Rightarrow> bool \<Rightarrow> sm_Op iface \<Rightarrow>
   (ShardMaster \<times> (int \<times> sm_NotifyMsg) option) go" where
  "sm_apply rng sm False cmd = Inr (sm, None)"
| "sm_apply rng sm True (ICmd x) = go_bind (sm_applyOp rng x sm) (sm_notify x)"
| "sm_apply rng sm True _ = Inl TypeAssertion"

section \<open>Handlers\<close>

definition changeState :: "sm_phase \<Rightarrow> ShardMaster \<Rightarrow> ShardMaster" where
  "changeState s sm = sm\<lparr>sm_state := s\<rparr>"

definition sm_removeCh :: "int \<Rightarrow> ShardMaster \<Rightarrow> ShardMaster" where
  "sm_removeCh i sm = sm\<lparr>sm_notifyData := (sm_notifyData sm)(i := None)\<rparr>"

definition sm_wait_start :: "sm_Op \<Rightarrow> ShardMaster \<Rightarrow> (ShardMaster \<times> sm_NotifyMsg option) go" where
  "sm_wait_start x sm =
     go_bind (Start (sm_rf sm) (ICmd x)) (\<lambda>(rf, _, _, isLeader).
       Inr (sm\<lparr>sm_rf := rf\<rparr>,
            if isLeader then None else Some \<lparr>snm_Err = sm_ErrWrongLeader, snm_WrongLeader = True\<rparr>))"

definition sm_wait_register :: "sm_Op \<Rightarrow> ShardMaster \<Rightarrow> ShardMaster" where
  "sm_wait_register x sm = sm\<lparr>sm_notifyData := (sm_notifyData sm)(sm_RequestId x \<mapsto> sm_Receiving)\<rparr>"

text \<open>The end of \<open>waitForRaft\<close>: the notification, or the timer (\<open>None\<close>).\<close>

definition sm_wait_end :: "sm_Op \<Rightarrow> sm_NotifyMsg option \<Rightarrow> ShardMaster \<Rightarrow> ShardMaster \<times> sm_NotifyMsg" where
  "sm_wait_end x res sm =
     (sm_removeCh (sm_RequestId x) sm,
      case res of Some r \<Rightarrow> r | None \<Rightarrow> \<lparr>snm_Err = sm_ErrTimeOut, snm_WrongLeader = False\<rparr>)"

definition sm_Join_op :: "int \<Rightarrow> JoinArgs \<Rightarrow> sm_Op" where
  "sm_Join_op rid args =
     \<lparr>sm_Method = ''Join'', sm_ClientId = ja_ClientId args, sm_MsgId = ja_MsgId args,
      sm_RequestId = rid, sm_Args = AJoin args\<rparr>"

definition sm_Leave_op :: "int \<Rightarrow> LeaveArgs \<Rightarrow> sm_Op" where
  "sm_Leave_op rid args =
     \<lparr>sm_Method = ''Leave'', sm_ClientId = la_ClientId args, sm_MsgId = la_MsgId args,
      sm_RequestId = rid, sm_Args = ALeave args\<rparr>"

definition sm_Move_op :: "int \<Rightarrow> MoveArgs \<Rightarrow> sm_Op" where
  "sm_Move_op rid args =
     \<lparr>sm_Method = ''Move'', sm_ClientId = ma_ClientId args, sm_MsgId = ma_MsgId args,
      sm_RequestId = rid, sm_Args = AMove args\<rparr>"

definition sm_Query_op :: "int \<Rightarrow> QueryArgs \<Rightarrow> sm_Op" where
  "sm_Query_op rid args =
     \<lparr>sm_Method = ''Query'', sm_ClientId = qa_ClientId args, sm_MsgId = qa_MsgId args,
      sm_RequestId = rid, sm_Args = AQuery args\<rparr>"

text \<open>
  The first part of the four handlers, up to the wait in \<open>waitForRaft\<close>: the leader test, the
  loop that waits for the phase (no step while it waits), the change of phase, and \<open>Start\<close>.
\<close>

definition sm_enter :: "bool \<Rightarrow> sm_Op \<Rightarrow> ShardMaster \<Rightarrow> (ShardMaster \<times> sm_NotifyMsg option) go option" where
  "sm_enter update x sm =
     (if \<not> snd (GetState (sm_rf sm))
      then Some (Inr (sm, Some \<lparr>snm_Err = sm_ErrWrongLeader, snm_WrongLeader = True\<rparr>))
      else if (if update then sm_state sm = STABLE else sm_state sm \<noteq> TRANSITION)
      then Some (sm_wait_start x (if update then changeState TRANSITION sm else sm))
      else None)"

definition sm_Join :: "int \<Rightarrow> JoinArgs \<Rightarrow> ShardMaster \<Rightarrow> (ShardMaster \<times> sm_NotifyMsg option) go option" where
  "sm_Join rid args = sm_enter True (sm_Join_op rid args)"

definition sm_Leave :: "int \<Rightarrow> LeaveArgs \<Rightarrow> ShardMaster \<Rightarrow> (ShardMaster \<times> sm_NotifyMsg option) go option" where
  "sm_Leave rid args = sm_enter True (sm_Leave_op rid args)"

definition sm_Move :: "int \<Rightarrow> MoveArgs \<Rightarrow> ShardMaster \<Rightarrow> (ShardMaster \<times> sm_NotifyMsg option) go option" where
  "sm_Move rid args = sm_enter True (sm_Move_op rid args)"

definition sm_Query :: "int \<Rightarrow> QueryArgs \<Rightarrow> ShardMaster \<Rightarrow> (ShardMaster \<times> sm_NotifyMsg option) go option" where
  "sm_Query rid args = sm_enter False (sm_Query_op rid args)"

text \<open>
  The phases a handler sets, in this order: the first one before \<open>waitForRaft\<close>, the others
  after it has returned (\<open>FREEZE\<close> for \<open>FreezeTime\<close>, while the groups migrate shards).
\<close>

definition handler_phases :: "string \<Rightarrow> sm_phase list" where
  "handler_phases m =
     (if m = ''Join'' \<or> m = ''Leave'' then [TRANSITION, FREEZE, STABLE]
      else if m = ''Move'' then [TRANSITION, STABLE] else [])"

text \<open>The rest of \<open>Query\<close>: the configuration is read whatever the outcome of the wait was.\<close>

definition sm_Query_reply :: "QueryArgs \<Rightarrow> ShardMaster \<Rightarrow> Config go" where
  "sm_Query_reply args sm = getConfigCopy (configs sm) (qa_Num args)"

definition Stable :: "ShardMaster \<Rightarrow> sm_Err" where
  "Stable sm = (if sm_state sm = STABLE then sm_OK else sm_ErrTransition)"

definition findGid :: "int \<Rightarrow> ShardMaster \<Rightarrow> (sm_Err \<times> int) go" where
  "findGid shard sm =
     (if sm_state sm \<noteq> STABLE then Inr (sm_ErrTransition, 0)
      else go_bind (getConfigCopy (configs sm) (-1)) (\<lambda>config.
             go_bind (go_idx (Shards config) shard) (\<lambda>g. Inr (sm_OK, g))))"

definition sm_Kill :: "ShardMaster \<Rightarrow> ShardMaster" where
  "sm_Kill sm = sm\<lparr>sm_rf := Kill (sm_rf sm)\<rparr>"

definition StartServer :: "nat \<Rightarrow> nat \<Rightarrow> (sm_Op, unit) Persister \<Rightarrow> ShardMaster go" where
  "StartServer n i ps =
     go_bind (Make n i ps) (\<lambda>rf.
       Inr \<lparr>sm_me = i, sm_rf = rf,
            configs = [\<lparr>Num = 0, Shards = replicate NShards 0, Groups = []\<rparr>],
            lastApplies = Map.empty, sm_notifyData = Map.empty, sm_state = STABLE\<rparr>)"

end
