(* ===== verification/ShardMaster_Balance.thy ===== *)
theory ShardMaster_Balance
  imports ShardMaster
begin

text \<open>
  Correctness of the rebalancing in \<open>adjustConfig\<close>. A configuration is \<open>balanced\<close> when every
  shard belongs to a group and the groups' numbers of shards differ by at most one (and all
  shards are at the invalid group 0 when there is no group). Join keeps configurations
  balanced and moves shards only to groups that joined; Leave moves only the shards of
  groups that left. Leave does not keep configurations balanced, nor all shards assigned.
\<close>

definition balanced :: "Config \<Rightarrow> bool" where
  "balanced c \<longleftrightarrow> length (Shards c) = NShards \<and> distinct (gids c) \<and> 0 \<notin> set (gids c) \<and>
     (if gids c = [] then set (Shards c) = {0}
      else set (Shards c) \<subseteq> set (gids c) \<and>
           (\<forall>g\<in>set (gids c). int (count_list (Shards c) g) \<in>
              {int NShards div int (length (gids c)), int NShards div int (length (gids c)) + 1}))"

definition rng_ok :: "(nat \<Rightarrow> int \<Rightarrow> int list \<Rightarrow> int list) \<Rightarrow> bool" where
  "rng_ok rng \<longleftrightarrow> (\<forall>k g xs. mset (rng k g xs) = mset xs)"

section \<open>The loop over the shards\<close>

lemma reassign_spec:
  "x \<noteq> y \<Longrightarrow> 0 < r \<Longrightarrow> r \<le> int (count_list ss x) \<Longrightarrow>
   \<exists>ss'. reassign x y r ss = (ss', 0) \<and>
     int (count_list ss' x) = int (count_list ss x) - r \<and>
     int (count_list ss' y) = int (count_list ss y) + r \<and>
     (\<forall>z. z \<noteq> x \<and> z \<noteq> y \<longrightarrow> count_list ss' z = count_list ss z) \<and>
     list_all2 (\<lambda>a b. b = a \<or> a = x \<and> b = y) ss ss'"
proof (induction ss arbitrary: r)
  case Nil
  then show ?case by simp
next
  case (Cons s ss)
  have refl: "list_all2 (\<lambda>a b. b = a \<or> a = x \<and> b = y) ss ss"
    by (simp add: list_all2_same)
  show ?case
  proof (cases "s = x")
    case False
    then show ?thesis
      using Cons.IH [of r] Cons.prems by auto
  next
    case True
    show ?thesis
    proof (cases "r = 1")
      case True
      then show ?thesis using \<open>s = x\<close> Cons.prems refl by auto
    next
      case False
      then have "0 < r - 1" "r - 1 \<le> int (count_list ss x)"
        using True Cons.prems by auto
      from Cons.IH [OF Cons.prems(1) this] show ?thesis
        using True False Cons.prems by auto
    qed
  qed
qed

lemma reassign_none: "x \<notin> set ss \<Longrightarrow> fst (reassign x y r ss) = ss"
  by (induction ss arbitrary: r) (auto simp: case_prod_beta)

section \<open>Join\<close>

text \<open>First pass: every old group is cut down to its share; the rest is at group 0.\<close>

lemma join_first_spec:
  assumes "distinct gs" and "0 \<notin> set gs" and "set gs \<subseteq> set cur" and "0 \<le> left" and avg: "0 \<le> avg"
    and "\<And>g. g \<in> set gs \<Longrightarrow> cnt_at cnt g = int (count_list ss g) \<and> avg \<le> int (count_list ss g)"
  shows "\<exists>left' finish' ss'. join_first cur cnt avg gs left finish ss = (left', finish', ss') \<and>
     set finish' = set finish \<union> set gs \<and>
     (\<forall>g\<in>set gs. int (count_list ss' g) \<in> {avg, avg + 1}) \<and>
     (\<Sum>g\<in>set gs. int (count_list ss' g)) = int (length gs) * avg + (left - left') \<and>
     (\<forall>z. z \<noteq> 0 \<and> z \<notin> set gs \<longrightarrow> count_list ss' z = count_list ss z) \<and>
     left' = max 0 (left - int (card {g \<in> set gs. int (count_list ss g) \<noteq> avg})) \<and>
     list_all2 (\<lambda>a b. b = a \<or> b = 0 \<and> a \<in> set gs) ss ss'"
  using assms(1-4,6)
proof (induction gs arbitrary: left finish ss)
  case Nil
  then show ?case by (simp add: list_all2_same)
next
  case (Cons g gs)
  let ?c = "int (count_list ss g)"
  have g: "g \<in> set cur" "g \<noteq> 0" "g \<notin> set gs" "cnt_at cnt g = ?c" "avg \<le> ?c"
    using Cons.prems by auto
  define left1 where "left1 = (if ?c \<noteq> avg \<and> left > 0 then left - 1 else left)"
  define r where "r = (if ?c = avg then 0 else if left > 0 then ?c - avg - 1 else ?c - avg)"
  have l1: "0 \<le> left1" and r: "0 \<le> r" "r \<le> ?c"
    using Cons.prems(4) g(5) avg by (auto simp: left1_def r_def)
  obtain ss1 where one: "join_first cur cnt avg (g # gs) left finish ss = join_first cur cnt avg gs left1 (g # finish) ss1"
    and c1: "int (count_list ss1 g) = ?c - r" "\<And>z. z \<noteq> g \<Longrightarrow> z \<noteq> 0 \<Longrightarrow> count_list ss1 z = count_list ss z"
    and mv: "list_all2 (\<lambda>a b. b = a \<or> a = g \<and> b = 0) ss ss1"
  proof (cases "r = 0")
    case True
    then have "join_first cur cnt avg (g # gs) left finish ss = join_first cur cnt avg gs left1 (g # finish) ss"
      using g by (auto simp: r_def left1_def split: if_splits)
    then show ?thesis
      using True that [of ss] by (simp add: list_all2_same)
  next
    case False
    then obtain ss1 where re: "reassign g 0 r ss = (ss1, 0)" "int (count_list ss1 g) = ?c - r"
        "\<And>z. z \<noteq> g \<Longrightarrow> z \<noteq> 0 \<Longrightarrow> count_list ss1 z = count_list ss z"
        "list_all2 (\<lambda>a b. b = a \<or> a = g \<and> b = 0) ss ss1"
      using reassign_spec [of g 0 r ss] g(2) r by auto
    moreover have "join_first cur cnt avg (g # gs) left finish ss = join_first cur cnt avg gs left1 (g # finish) ss1"
      using False g re(1) by (auto simp: r_def left1_def split: if_splits)
    ultimately show ?thesis using that by blast
  qed
  have "cnt_at cnt h = int (count_list ss1 h) \<and> avg \<le> int (count_list ss1 h)" if "h \<in> set gs" for h
  proof -
    have "h \<noteq> g" "h \<noteq> 0" using that g(3) Cons.prems(2) by auto
    then show ?thesis using Cons.prems(5) [of h] that c1(2) [of h] by simp
  qed
  from Cons.IH [OF _ _ _ l1 this, of "g # finish"] Cons.prems(1-3)
  obtain left' finish' ss' where res: "join_first cur cnt avg gs left1 (g # finish) ss1 = (left', finish', ss')"
      "set finish' = set (g # finish) \<union> set gs"
      "\<forall>h\<in>set gs. int (count_list ss' h) \<in> {avg, avg + 1}"
      "(\<Sum>h\<in>set gs. int (count_list ss' h)) = int (length gs) * avg + (left1 - left')"
      "\<forall>z. z \<noteq> 0 \<and> z \<notin> set gs \<longrightarrow> count_list ss' z = count_list ss1 z"
      "left' = max 0 (left1 - int (card {h \<in> set gs. int (count_list ss1 h) \<noteq> avg}))"
      "list_all2 (\<lambda>a b. b = a \<or> b = 0 \<and> a \<in> set gs) ss1 ss'"
    by auto
  have cg: "int (count_list ss' g) = ?c - r" using res(5) g(2,3) c1(1) by simp
  have "{h \<in> set gs. int (count_list ss1 h) \<noteq> avg} = {h \<in> set gs. int (count_list ss h) \<noteq> avg}"
    using c1(2) g(3) Cons.prems(2) by force
  moreover have "{h \<in> set (g # gs). int (count_list ss h) \<noteq> avg} =
      (if ?c = avg then {} else {g}) \<union> {h \<in> set gs. int (count_list ss h) \<noteq> avg}" by auto
  ultimately have q: "int (card {h \<in> set (g # gs). int (count_list ss h) \<noteq> avg}) =
      (if ?c = avg then 0 else 1) + int (card {h \<in> set gs. int (count_list ss1 h) \<noteq> avg})"
    using g(3) by simp
  have "list_all2 (\<lambda>a b. b = a \<or> b = 0 \<and> a \<in> set (g # gs)) ss ss'"
    by (rule list_all2_trans [OF _ mv res(7)]) auto
  moreover have "(\<Sum>h\<in>set (g # gs). int (count_list ss' h)) = int (length (g # gs)) * avg + (left - left')"
    using res(4) cg g(3,5) Cons.prems(4) by (auto simp: r_def left1_def algebra_simps split: if_splits)
  moreover have "left' = max 0 (left - int (card {h \<in> set (g # gs). int (count_list ss h) \<noteq> avg}))"
    using res(6) q Cons.prems(4) by (auto simp: left1_def)
  moreover have "int (count_list ss' g) \<in> {avg, avg + 1}"
    using cg g(5) by (auto simp: r_def)
  ultimately show ?case
    unfolding one using res c1(2) by auto
qed

text \<open>Second pass: the shards at group 0 go to the groups that are not finished.\<close>

lemma join_second_spec:
  assumes "distinct gs" and "0 \<notin> set gs" and "0 \<le> avg" and "0 \<le> left"
    and "left \<le> int (length (filter (\<lambda>g. g \<notin> set finish) gs))"
    and "\<And>g. g \<in> set gs \<Longrightarrow> g \<notin> set finish \<Longrightarrow> count_list ss g = 0"
    and "int (count_list ss 0) = int (length (filter (\<lambda>g. g \<notin> set finish) gs)) * avg + left"
    and "ss' = join_second avg gs left finish ss"
  shows "(\<forall>g\<in>set gs - set finish. int (count_list ss' g) \<in> {avg, avg + 1}) \<and> count_list ss' 0 = 0 \<and>
     (\<forall>z. z \<noteq> 0 \<and> z \<notin> set gs - set finish \<longrightarrow> count_list ss' z = count_list ss z) \<and>
     list_all2 (\<lambda>a b. b = a \<or> a = 0 \<and> b \<in> set gs - set finish) ss ss'"
  using assms(1,2,4-8)
proof (induction gs arbitrary: left finish ss)
  case Nil
  then show ?case by (simp add: list_all2_same)
next
  case (Cons g gs)
  show ?case
  proof (cases "g \<in> set finish")
    case True
    then have "set (g # gs) - set finish = set gs - set finish" by auto
    then show ?thesis
      using Cons.IH [of left finish ss] Cons.prems True by simp
  next
    case False
    let ?n = "int (length (filter (\<lambda>h. h \<notin> set finish) gs))"
    define r where "r = (if left > 0 then avg + 1 else avg)"
    define left1 where "left1 = (if left > 0 then left - 1 else left)"
    have n: "int (count_list ss 0) = r + (?n * avg + left1)" "0 \<le> ?n * avg" "0 \<le> left1" "0 \<le> r" "left1 \<le> ?n"
      using Cons.prems(3,4,6) False assms(3) by (auto simp: r_def left1_def algebra_simps)
    have fresh: "g \<noteq> 0" "g \<notin> set gs" "count_list ss g = 0"
      using Cons.prems(1,2,5) False by auto
    obtain ss1 finish1 where one: "join_second avg (g # gs) left finish ss = join_second avg gs left1 finish1 ss1"
      and fin: "set finish1 \<subseteq> insert g (set finish)" "set finish \<subseteq> set finish1"
      and c1: "int (count_list ss1 0) = int (count_list ss 0) - r" "int (count_list ss1 g) = r"
        "\<And>z. z \<noteq> g \<Longrightarrow> z \<noteq> 0 \<Longrightarrow> count_list ss1 z = count_list ss z"
      and mv: "list_all2 (\<lambda>a b. b = a \<or> a = 0 \<and> b = g) ss ss1"
    proof (cases "r = 0")
      case True
      then have "left = 0" "avg = 0" using Cons.prems(3) assms(3) by (auto simp: r_def split: if_splits)
      then have "0 \<notin> set ss" using Cons.prems(6) by (simp add: count_list_0_iff)
      then have "fst (reassign 0 g r ss) = ss" by (rule reassign_none)
      moreover define fin1 where "fin1 = (if snd (reassign 0 g r ss) = 0 then g # finish else finish)"
      moreover have "set fin1 \<subseteq> insert g (set finish)" "set finish \<subseteq> set fin1"
        by (auto simp: fin1_def)
      ultimately show ?thesis
        using True False fresh(3) \<open>left = 0\<close> \<open>avg = 0\<close> that [of fin1 ss]
        by (simp add: case_prod_beta left1_def list_all2_same)
    next
      case nz: False
      then obtain ss1 where "reassign 0 g r ss = (ss1, 0)" "int (count_list ss1 0) = int (count_list ss 0) - r"
          "int (count_list ss1 g) = int (count_list ss g) + r"
          "\<And>z. z \<noteq> 0 \<Longrightarrow> z \<noteq> g \<Longrightarrow> count_list ss1 z = count_list ss z"
          "list_all2 (\<lambda>a b. b = a \<or> a = 0 \<and> b = g) ss ss1"
        using reassign_spec [of 0 g r ss] fresh(1) n by auto
      then show ?thesis
        using False fresh(3) that [of "g # finish" ss1]
        by (auto simp: r_def left1_def split: if_splits)
    qed
    have same: "filter (\<lambda>h. h \<notin> set finish1) gs = filter (\<lambda>h. h \<notin> set finish) gs"
      using fin fresh(2) by (intro filter_cong) auto
    then have dom: "set gs - set finish1 = set gs - set finish"
      using fin fresh(2) by auto
    have zero: "count_list ss1 h = 0" if "h \<in> set gs" "h \<notin> set finish1" for h
    proof -
      have "h \<noteq> g" "h \<noteq> 0" "h \<notin> set finish"
        using that fresh(2) Cons.prems(2) fin(2) by auto
      then show ?thesis
        using Cons.prems(5) [of h] c1(3) [of h] that(1) by simp
    qed
    have eq1: "ss' = join_second avg gs left1 finish1 ss1"
      using Cons.prems(7) unfolding one .
    have IH: "(\<forall>h\<in>set gs - set finish. int (count_list ss' h) \<in> {avg, avg + 1}) \<and> count_list ss' 0 = 0 \<and>
       (\<forall>z. z \<noteq> 0 \<and> z \<notin> set gs - set finish \<longrightarrow> count_list ss' z = count_list ss1 z) \<and>
       list_all2 (\<lambda>a b. b = a \<or> a = 0 \<and> b \<in> set gs - set finish) ss1 ss'"
      unfolding dom [symmetric]
      by (rule Cons.IH [of left1]) (use Cons.prems(1,2) n zero c1(1) eq1 same in simp_all)
    have "list_all2 (\<lambda>a b. b = a \<or> a = 0 \<and> b \<in> set (g # gs) - set finish) ss ss'"
      by (rule list_all2_trans [OF _ mv conjunct2 [OF conjunct2 [OF conjunct2 [OF IH]]]]) (use False in auto)
    moreover have "int (count_list ss' g) \<in> {avg, avg + 1}"
      using IH fresh c1(2) by (auto simp: r_def)
    moreover have "count_list ss' z = count_list ss z" if "z \<noteq> 0 \<and> z \<notin> set (g # gs) - set finish" for z
    proof -
      have "z \<noteq> g" "z \<notin> set gs - set finish" using that False by auto
      then show ?thesis using IH c1(3) [of z] that by simp
    qed
    ultimately show ?thesis
      using IH by auto
  qed
qed

lemma length_list_all2: "list_all2 P xs ys \<Longrightarrow> length ys = length xs"
  by (simp add: list_all2_lengthD)

text \<open>After the first pass there are not more extra shares left than there are new groups.\<close>

lemma left_over_bound:
  assumes "finite X" and "\<And>g. g \<in> X \<Longrightarrow> f g \<in> {a, a + 1}" and "(\<Sum>g\<in>X. f g) = N"
    and "int (card X) \<le> n" and "avg \<le> a" and "0 \<le> avg" and "left < n" and "0 \<le> left"
    and "n * avg + left = N" and "X \<noteq> {}"
  shows "max 0 (left - int (card {g \<in> X. f g \<noteq> avg})) \<le> n - int (card X)"
proof (cases "avg = a")
  case True
  have "(\<Sum>g\<in>X. f g) = (\<Sum>g\<in>X. a + (if f g \<noteq> a then 1 else 0))"
    using assms(2) by (intro sum.cong) force+
  also have "\<dots> = int (card X) * a + int (card {g \<in> X. f g \<noteq> a})"
    using assms(1) by (simp add: sum.distrib sum.If_cases Int_def)
  finally have "n * a + left = int (card X) * a + int (card {g \<in> X. f g \<noteq> a})"
    using assms(3,9) True by simp
  moreover have "int (card X) * a \<le> n * a"
    using assms(4,6) True by (intro mult_right_mono) auto
  ultimately have "left \<le> int (card {g \<in> X. f g \<noteq> avg})"
    using True by simp
  then show ?thesis using assms(4) by simp
next
  case False
  then have "{g \<in> X. f g \<noteq> avg} = X"
    using assms(2,5) by force
  then show ?thesis
    using assms(4,7) by simp
qed

lemma join_passes:
  assumes gs: "mset gs1 = mset old" "mset gs2 = mset cur"
    and dist: "distinct old" "distinct cur" "0 \<notin> set cur" "set old \<subseteq> set cur" "cur \<noteq> []"
    and ss: "length ss = N" "if old = [] then set ss \<subseteq> {0} else set ss \<subseteq> set old"
      "\<And>g. g \<in> set old \<Longrightarrow> int (count_list ss g) \<in> {int N div int (length old), int N div int (length old) + 1}"
    and cnt: "\<And>g. g \<in> set old \<Longrightarrow> cnt_at cnt g = int (count_list ss g)"
    and avg: "avg = int N div int (length cur)" "left = int N mod int (length cur)"
    and run: "join_first cur cnt avg gs1 left [] ss = (left', finish, ss1)" "ss' = join_second avg gs2 left' finish ss1"
  shows "set ss' \<subseteq> set cur \<and> (\<forall>g\<in>set cur. int (count_list ss' g) \<in> {avg, avg + 1}) \<and>
     list_all2 (\<lambda>a b. b = a \<or> b \<notin> set old) ss ss'"
proof -
  let ?n = "int (length cur)"
  have sets: "set gs1 = set old" "set gs2 = set cur" "distinct gs1" "distinct gs2"
      "length gs1 = length old" "length gs2 = length cur"
    using gs dist mset_eq_setD mset_eq_imp_distinct_iff mset_eq_length by metis+
  have n: "0 < ?n" "0 \<le> avg" "0 \<le> left" "left < ?n" "?n * avg + left = int N"
    using dist(5) by (simp_all add: avg pos_imp_zdiv_nonneg_iff)
  have le: "length old \<le> length cur"
    using card_mono [OF finite_set dist(4)] by (simp add: distinct_card dist)
  have avg_le: "avg \<le> int N div int (length old)" if "old \<noteq> []"
    unfolding avg using le that by (intro zdiv_mono2) auto
  have small: "cnt_at cnt g = int (count_list ss g) \<and> avg \<le> int (count_list ss g)" if "g \<in> set gs1" for g
    using that cnt [of g] ss(3) [of g] avg_le sets(1) by (cases "old = []") auto
  from join_first_spec [OF sets(3) _ _ n(3,2) small, of cur "[]"] dist(3,4) sets(1) run(1)
  have fin: "set finish = set old"
    and c1: "\<And>g. g \<in> set old \<Longrightarrow> int (count_list ss1 g) \<in> {avg, avg + 1}"
    and sum1: "(\<Sum>g\<in>set old. int (count_list ss1 g)) = int (length old) * avg + (left - left')"
    and same1: "\<And>z. z \<noteq> 0 \<Longrightarrow> z \<notin> set old \<Longrightarrow> count_list ss1 z = count_list ss z"
    and left': "left' = max 0 (left - int (card {g \<in> set old. int (count_list ss g) \<noteq> avg}))"
    and mv1: "list_all2 (\<lambda>a b. b = a \<or> b = 0 \<and> a \<in> set old) ss ss1"
    by (auto simp: sets(5))
  have new: "int (length (filter (\<lambda>g. g \<notin> set finish) gs2)) = ?n - int (length old)"
  proof -
    have "length (filter (\<lambda>g. g \<notin> set finish) gs2) = card (set cur - set old)"
      using sets(2,4) fin by (metis distinct_card distinct_filter set_diff_eq set_filter)
    then show ?thesis
      using le dist by (simp add: card_Diff_subset distinct_card)
  qed
  have bound: "left' \<le> ?n - int (length old)"
  proof (cases "old = []")
    case True
    then show ?thesis using left' n by simp
  next
    case False
    have "(\<Sum>g\<in>set old. int (count_list ss g)) = int N"
      using ss(1,2) False sum_count_set [of ss "set old"] by (simp flip: of_nat_sum)
    then have "max 0 (left - int (card {g \<in> set old. int (count_list ss g) \<noteq> avg})) \<le> ?n - int (card (set old))"
      using ss(3) le avg_le [OF False] n False dist(1)
      by (intro left_over_bound [where a = "int N div int (length old)" and N = "int N"])
        (auto simp: distinct_card)
    then show ?thesis
      unfolding left' using dist(1) by (simp add: distinct_card)
  qed
  have old0: "0 \<notin> set old" using dist(3,4) by blast
  have in1: "set ss1 \<subseteq> insert 0 (set old)"
  proof
    fix z assume "z \<in> set ss1"
    then have "z = 0 \<or> z \<in> set old \<or> z \<in> set ss"
      using same1 [of z] by (metis count_list_0_iff)
    then show "z \<in> insert 0 (set old)" using ss(2) by (auto split: if_splits)
  qed
  have zeros: "int (count_list ss1 0) = (?n - int (length old)) * avg + left'"
  proof -
    have "(\<Sum>z\<in>insert 0 (set old). count_list ss1 z) = length ss1"
      by (rule sum_count_set [OF in1]) simp
    then have "int (count_list ss1 0) + (\<Sum>g\<in>set old. int (count_list ss1 g)) = int N"
      using old0 length_list_all2 [OF mv1] ss(1) by (simp flip: of_nat_sum of_nat_add)
    then show ?thesis using sum1 n(5) by (simp add: algebra_simps)
  qed
  have none: "count_list ss1 g = 0" if "g \<in> set gs2" "g \<notin> set finish" for g
    using that in1 fin sets(2) dist(3) by (auto simp: count_list_0_iff)
  have res: "(\<forall>g\<in>set gs2 - set finish. int (count_list ss' g) \<in> {avg, avg + 1}) \<and> count_list ss' 0 = 0 \<and>
     (\<forall>z. z \<noteq> 0 \<and> z \<notin> set gs2 - set finish \<longrightarrow> count_list ss' z = count_list ss1 z) \<and>
     list_all2 (\<lambda>a b. b = a \<or> a = 0 \<and> b \<in> set gs2 - set finish) ss1 ss'"
    by (rule join_second_spec [of _ _ left']) (use sets dist(3) n left' new bound zeros none run(2) in simp_all)
  have counts: "int (count_list ss' g) \<in> {avg, avg + 1}" if "g \<in> set cur" for g
  proof (cases "g \<in> set old")
    case True
    then have "g \<noteq> 0" "g \<notin> set gs2 - set finish" using old0 fin by auto
    then have "count_list ss' g = count_list ss1 g" using res by blast
    then show ?thesis using c1 [OF True] by simp
  next
    case False
    then have "g \<in> set gs2 - set finish" using that fin sets(2) by simp
    then show ?thesis using res by blast
  qed
  have mv: "list_all2 (\<lambda>a b. b \<noteq> 0 \<longrightarrow> b = a \<or> b \<in> set cur - set old) ss ss'"
    by (rule list_all2_trans [OF _ mv1 conjunct2 [OF conjunct2 [OF conjunct2 [OF res]]]])
      (auto simp: fin sets(2))
  have nz: "0 \<notin> set ss'" using res by (simp add: count_list_0_iff)
  have "list_all2 (\<lambda>a b. b = a \<or> b \<notin> set old) ss ss'"
    by (rule list_all2_mono [OF mv]) (use old0 in auto)
  moreover have "set ss' \<subseteq> set cur"
  proof
    fix z assume "z \<in> set ss'"
    then have "z \<noteq> 0" "count_list ss' z \<noteq> 0" using nz by (auto simp: count_list_0_iff)
    then have "z \<in> set cur \<or> count_list ss1 z \<noteq> 0" using res sets(2) fin by force
    then show "z \<in> set cur"
      using in1 dist(4) \<open>z \<noteq> 0\<close> by (auto simp: count_list_0_iff)
  qed
  ultimately show ?thesis using counts by blast
qed

lemma cnt_at_lastCnt:
  "g \<in> set (gids config) \<Longrightarrow> cnt_at (lastCnt l config) g = int (count_list (Shards l) g)"
  by (auto simp: cnt_at_def lastCnt_def count_list_0_iff)

lemma count_list_replicate [simp]: "count_list (replicate n x) y = (if x = y then n else 0)"
  by (induction n) auto

lemma adjustConfig_join:
  assumes "rng_ok rng" and bal: "balanced l" and "Shards c = Shards l"
    and cur: "distinct (gids c)" "0 \<notin> set (gids c)" "set (gids l) \<subseteq> set (gids c)"
  shows "balanced (adjustConfig rng l c) \<and>
    list_all2 (\<lambda>a b. b = a \<or> b \<notin> set (gids l)) (Shards l) (Shards (adjustConfig rng l c))"
proof -
  let ?n = "length (gids c)"
  have len: "length (Shards l) = NShards" "distinct (gids l)"
    using bal by (simp_all add: balanced_def)
  have le: "length (gids l) \<le> ?n"
    using card_mono [OF finite_set cur(3)] by (simp add: distinct_card cur(1) len(2))
  consider "?n = 0" | "?n = 1" | "2 \<le> ?n" by linarith
  then show ?thesis
  proof cases
    case 1
    then have "gids l = []" "gids c = []" using le by auto
    moreover from this have "Shards l = replicate NShards 0"
      using bal len(1) unfolding balanced_def by (metis replicate_eqI singletonD)
    ultimately show ?thesis
      by (simp add: adjustConfig_def Let_def balanced_def gids_def list_all2_same)
  next
    case 2
    then obtain g where g: "gids c = [g]" by (auto simp: length_Suc_conv)
    have adj: "adjustConfig rng l c = c\<lparr>Shards := replicate NShards g\<rparr>"
      using g by (simp add: adjustConfig_def Let_def)
    have old: "gids l = [] \<or> gids l = [g]"
      using cur(3) len(2) g le by (cases "gids l") auto
    have "Shards l ! i = g" if "gids l = [g]" "i < NShards" for i
    proof -
      have "set (Shards l) \<subseteq> {g}" using bal that(1) by (simp add: balanced_def)
      moreover have "Shards l ! i \<in> set (Shards l)" using that(2) len(1) by simp
      ultimately show ?thesis by blast
    qed
    then have "list_all2 (\<lambda>a b. b = a \<or> b \<notin> set (gids l)) (Shards l) (replicate NShards g)"
      using old len(1) by (auto simp: list_all2_conv_all_nth)
    then show ?thesis
      using g cur by (simp add: adj balanced_def gids_def)
  next
    case 3
    let ?avg = "int NShards div int ?n" and ?left = "int NShards mod int ?n"
    obtain left' finish ss1 where one: "join_first (gids c) (lastCnt l c) ?avg (rng 1 0 (gids l)) ?left [] (Shards c) =
        (left', finish, ss1)"
      by (metis prod_cases3)
    define ss' where "ss' = join_second ?avg (rng 2 0 (gids c)) left' finish ss1"
    have adj: "adjustConfig rng l c = c\<lparr>Shards := ss'\<rparr>"
      using 3 le one by (auto simp: adjustConfig_def Let_def ss'_def)
    have m: "mset (rng 1 0 (gids l)) = mset (gids l)" "mset (rng 2 0 (gids c)) = mset (gids c)"
      using assms(1) by (simp_all add: rng_ok_def)
    have "set ss' \<subseteq> set (gids c) \<and> (\<forall>g\<in>set (gids c). int (count_list ss' g) \<in> {?avg, ?avg + 1}) \<and>
       list_all2 (\<lambda>a b. b = a \<or> b \<notin> set (gids l)) (Shards l) ss'"
    proof (rule join_passes [OF m len(2) cur])
      show "join_first (gids c) (lastCnt l c) ?avg (rng 1 0 (gids l)) ?left [] (Shards l) = (left', finish, ss1)"
        using one assms(3) by simp
      show "cnt_at (lastCnt l c) g = int (count_list (Shards l) g)" if "g \<in> set (gids l)" for g
        using cnt_at_lastCnt that cur(3) by blast
    qed (use bal 3 in \<open>auto simp: ss'_def balanced_def split: if_splits\<close>)
    then show ?thesis
      using cur 3 len(1) length_list_all2 [of _ "Shards l" ss']
      by (auto simp: adj balanced_def gids_def)
  qed
qed

lemma Config_Copy_id [simp]: "Config_Copy c = c"
  by (simp add: Config_Copy_def)

lemma getConfigCopy_last [simp]: "cs \<noteq> [] \<Longrightarrow> getConfigCopy cs (-1) = Inr (last cs)"
  by (simp add: getConfigCopy_def go_idx_def last_conv_nth Suc_leI nat_diff_distrib)

lemma fold_update_keys:
  "distinct (map fst al) \<Longrightarrow>
   distinct (map fst (fold (\<lambda>(k, v). AList.update k v) kvs al)) \<and>
   set (map fst (fold (\<lambda>(k, v). AList.update k v) kvs al)) = set (map fst al) \<union> fst ` set kvs"
proof (induction kvs arbitrary: al)
  case (Cons kv kvs)
  obtain k v where kv: "kv = (k, v)" by (cases kv)
  have "distinct (map fst (AList.update k v al))"
    by (rule distinct_update) (rule Cons.prems)
  from Cons.IH [OF this] show ?case
    by (simp add: kv update_keys) (auto simp: dom_update)
qed simp


definition demo_config :: "int list \<Rightarrow> int list \<Rightarrow> Config" where
  "demo_config gs ss = \<lparr>Num = 1, Shards = ss, Groups = map (\<lambda>g. (g, [''srv''])) gs\<rparr>"


section \<open>Leave\<close>

text \<open>What the passes for fewer groups do to a shard of owner \<open>a\<close>: the pair is its owner in
  \<open>lastConfig\<close> (0 once it has been taken) and its owner in \<open>config\<close>.\<close>

definition kept_or_taken :: "int list \<Rightarrow> int \<Rightarrow> int \<times> int \<Rightarrow> bool" where
  "kept_or_taken cur a p \<longleftrightarrow> p = (a, a) \<or> (fst p = 0 \<and> a \<notin> set cur \<and> snd p \<in> set cur)"

lemma take_over_kept:
  assumes "oldGid \<notin> set cur" and "oldGid \<noteq> 0" and "gid \<in> set cur"
  shows "list_all2 (kept_or_taken cur) ss ps \<Longrightarrow>
     list_all2 (kept_or_taken cur) ss (fst (take_over oldGid gid r ps))"
proof (induction ps arbitrary: ss r)
  case Nil
  then show ?case by simp
next
  case (Cons p ps)
  obtain l c where p: "p = (l, c)" by (cases p)
  obtain a as where ss: "ss = a # as" "kept_or_taken cur a (l, c)" "list_all2 (kept_or_taken cur) as ps"
    using Cons.prems p by (auto simp: list_all2_Cons2)
  have "kept_or_taken cur a (if l = oldGid then (0, gid) else (l, c))"
    using ss(2) assms by (auto simp: kept_or_taken_def)
  then show ?case
    using Cons.IH [OF ss(3)] ss by (auto simp: p Let_def case_prod_beta)
qed

lemma MOVEGID_kept:
  assumes "0 \<notin> set olds" and "gid \<in> set cur"
  shows "list_all2 (kept_or_taken cur) ss ps \<Longrightarrow> list_all2 (kept_or_taken cur) ss (MOVEGID cur gid olds r ps)"
  using assms(1)
proof (induction olds arbitrary: r ps)
  case (Cons g gs)
  then show ?case
    using take_over_kept [of g cur gid ss ps r] assms(2) by (auto simp: case_prod_beta)
qed simp

lemma leave_first_kept:
  assumes "\<And>g. 0 \<notin> set (olds g)" and "set gs \<subseteq> set cur"
  shows "list_all2 (kept_or_taken cur) ss ps \<Longrightarrow>
     list_all2 (kept_or_taken cur) ss (snd (leave_first olds cur cnt avg gs left ps))"
  using assms(2)
  by (induction gs arbitrary: left ps)
    (auto simp: Let_def MOVEGID_kept assms(1) split: option.splits)

lemma leave_second_kept:
  assumes "\<And>g. 0 \<notin> set (olds g)" and "set gs \<subseteq> set cur"
  shows "list_all2 (kept_or_taken cur) ss ps \<Longrightarrow>
     list_all2 (kept_or_taken cur) ss (snd (leave_second olds cur cnt avg gs left ps))"
  using assms(2)
  by (induction gs arbitrary: left ps)
    (auto simp: Let_def MOVEGID_kept assms(1) split: option.splits)

lemma adjustConfig_leave:
  assumes "rng_ok rng" and bal: "balanced l" and "Shards c = Shards l"
    and cur: "distinct (gids c)" "set (gids c) \<subseteq> set (gids l)"
  shows "list_all2 (\<lambda>a b. b = a \<or> a \<notin> set (gids c) \<and> (b \<in> set (gids c) \<or> gids c = [] \<and> b = 0))
     (Shards l) (Shards (adjustConfig rng l c))"
proof -
  let ?n = "length (gids c)"
  have len: "length (Shards l) = NShards" "distinct (gids l)" "0 \<notin> set (gids l)"
    using bal by (simp_all add: balanced_def)
  have le: "?n \<le> length (gids l)"
    using card_mono [OF finite_set cur(2)] by (simp add: distinct_card cur(1) len(2))
  consider "?n = 0" | "?n = 1" | "2 \<le> ?n" "?n = length (gids l)" | "2 \<le> ?n" "?n < length (gids l)"
    using le by linarith
  then show ?thesis
  proof cases
    case 1
    then show ?thesis
      using len(1) by (auto simp: adjustConfig_def Let_def list_all2_conv_all_nth)
  next
    case 2
    then obtain g where g: "gids c = [g]" by (auto simp: length_Suc_conv)
    then show ?thesis
      using len(1) by (auto simp: adjustConfig_def Let_def list_all2_conv_all_nth)
  next
    case 3
    have same: "set (gids c) = set (gids l)"
      using 3 cur len(2) by (intro card_subset_eq) (simp_all add: distinct_card)
    have z: "0 \<notin> set (gids c)" using same len(3) by simp
    note j = adjustConfig_join [OF assms(1-3) cur(1) z equalityD2 [OF same]]
    have "gids (adjustConfig rng l c) = gids c"
      by (simp add: adjustConfig_def Let_def gids_def split: prod.splits)
    then have "set (Shards (adjustConfig rng l c)) \<subseteq> set (gids l)"
      using j same 3 by (auto simp: balanced_def split: if_splits)
    then show ?thesis
      using conjunct2 [OF j] by (auto simp: list_all2_conv_all_nth subset_iff)
  next
    case 4
    let ?avg = "int NShards div int ?n" and ?left = "int NShards mod int ?n"
    let ?f = "leave_first (\<lambda>g. rng 3 g (gids l)) (gids c) (lastCnt l c) ?avg (rng 1 0 (gids c)) ?left
      (zip (Shards l) (Shards l))"
    let ?s = "leave_second (\<lambda>g. rng 4 g (gids l)) (gids c) (lastCnt l c) ?avg (rng 2 0 (gids c)) (fst ?f) (snd ?f)"
    have sets: "set (rng k g xs) = set xs" for k g xs
      using assms(1) by (metis rng_ok_def mset_eq_setD)
    have "list_all2 (kept_or_taken (gids c)) (Shards l) (zip (Shards l) (Shards l))"
      by (simp add: list_all2_conv_all_nth kept_or_taken_def)
    then have "list_all2 (kept_or_taken (gids c)) (Shards l) (snd ?s)"
      by (intro leave_second_kept leave_first_kept) (simp_all add: sets len(3))
    moreover have "Shards (adjustConfig rng l c) = map snd (snd ?s)"
      using 4 assms(3) by (auto simp: adjustConfig_def Let_def case_prod_beta)
    ultimately show ?thesis
      by (auto simp: list_all2_conv_all_nth kept_or_taken_def)
  qed
qed

lemma fold_delete_keys:
  "distinct (map fst al) \<Longrightarrow>
   distinct (map fst (fold (\<lambda>g. AList.delete g) gs al)) \<and>
   set (map fst (fold (\<lambda>g. AList.delete g) gs al)) = set (map fst al) - set gs"
proof (induction gs arbitrary: al)
  case (Cons g gs)
  have "distinct (map fst (AList.delete g al))"
    by (rule distinct_delete) (rule Cons.prems)
  from Cons.IH [OF this] show ?case
    by (auto simp: delete_keys)
qed simp



section \<open>Where the rebalancing falls short\<close>

text \<open>
  Five groups with two shards each, one leaves: each remaining group already has the new
  average of two, so the loop skips all of them, and the departed group keeps its shards.
\<close>

theorem leave_keeps_departed_owner:
  "sm_leave (\<lambda>_ _ xs. xs) \<lparr>la_GIDs = [5], la_ClientId = 1, la_MsgId = 1\<rparr>
     [demo_config [1, 2, 3, 4, 5] [1, 1, 2, 2, 3, 3, 4, 4, 5, 5]] =
   Inr [demo_config [1, 2, 3, 4, 5] [1, 1, 2, 2, 3, 3, 4, 4, 5, 5],
        (demo_config [1, 2, 3, 4] [1, 1, 2, 2, 3, 3, 4, 4, 5, 5])\<lparr>Num := 2\<rparr>]"
  by code_simp

text \<open>
  All shards on one of three groups (the result of Move requests), a fourth group joins: the
  groups without shards use up the extra shares, and a shard is left at the invalid group 0.
\<close>

theorem join_after_moves_loses_shard:
  "case sm_join (\<lambda>_ _ xs. xs) \<lparr>ja_Servers = [(4, [''srv''])], ja_ClientId = 1, ja_MsgId = 1\<rparr>
       [demo_config [1, 2, 3] (replicate 10 1)] of
     Inl _ \<Rightarrow> False
   | Inr cs \<Rightarrow> Shards (last cs) = [2, 2, 3, 3, 4, 4, 0, 1, 1, 1]"
  by code_simp

text \<open>
  Replicas that apply the same Join but visit the map of groups in different orders, which Go
  allows, end with different configurations.
\<close>

theorem join_order_divergence:
  "sm_join (\<lambda>_ _ xs. xs) \<lparr>ja_Servers = [(2, [''a'']), (3, [''b''])], ja_ClientId = 1, ja_MsgId = 1\<rparr>
       [demo_config [1] (replicate 10 1)] \<noteq>
   sm_join (\<lambda>_ _ xs. rev xs) \<lparr>ja_Servers = [(2, [''a'']), (3, [''b''])], ja_ClientId = 1, ja_MsgId = 1\<rparr>
       [demo_config [1] (replicate 10 1)]"
  by code_simp

end
