(* ===== verification/ShardMaster_Service.thy ===== *)
theory ShardMaster_Service
  imports ShardMaster_Balance
begin

text \<open>
  The shard master as a service: the numbered history of configurations, Query, duplicate
  detection, and the clerk (\<open>shardmaster/client.go\<close>). A clerk's loop is run on the list of
  the outcomes of its calls, server after server, \<open>None\<close> for a failed call.
\<close>

section \<open>The clerk\<close>

record sm_Clerk =
  smc_servers :: nat
  smc_clientId :: int

definition sm_MakeClerk :: "nat \<Rightarrow> int \<Rightarrow> sm_Clerk" where
  "sm_MakeClerk n r = \<lparr>smc_servers = n, smc_clientId = r\<rparr>"

definition smc_Join_args :: "sm_Clerk \<Rightarrow> (int \<times> string list) list \<Rightarrow> int \<Rightarrow> JoinArgs" where
  "smc_Join_args ck servers r = \<lparr>ja_Servers = servers, ja_ClientId = smc_clientId ck, ja_MsgId = r\<rparr>"

definition smc_Leave_args :: "sm_Clerk \<Rightarrow> int list \<Rightarrow> int \<Rightarrow> LeaveArgs" where
  "smc_Leave_args ck gs r = \<lparr>la_GIDs = gs, la_ClientId = smc_clientId ck, la_MsgId = r\<rparr>"

definition smc_Move_args :: "sm_Clerk \<Rightarrow> int \<Rightarrow> int \<Rightarrow> int \<Rightarrow> MoveArgs" where
  "smc_Move_args ck shard g r =
     \<lparr>ma_Shard = shard, ma_GID = g, ma_ClientId = smc_clientId ck, ma_MsgId = r\<rparr>"

definition smc_Query_args :: "sm_Clerk \<Rightarrow> int \<Rightarrow> int \<Rightarrow> QueryArgs" where
  "smc_Query_args ck num r = \<lparr>qa_Num = num, qa_ClientId = smc_clientId ck, qa_MsgId = r\<rparr>"

text \<open>The loop of \<open>Join\<close>, \<open>Leave\<close> and \<open>Move\<close>: it ends at \<open>ok && reply.WrongLeader == false\<close>.\<close>

fun smc_update_loop :: "(bool \<times> sm_Err) option list \<Rightarrow> sm_Err option" where
  "smc_update_loop [] = None"
| "smc_update_loop (None # rs) = smc_update_loop rs"
| "smc_update_loop (Some (wrongLeader, e) # rs) =
     (if wrongLeader = False then Some e else smc_update_loop rs)"

fun smc_Query_loop :: "(bool \<times> Config) option list \<Rightarrow> Config option" where
  "smc_Query_loop [] = None"
| "smc_Query_loop (None # rs) = smc_Query_loop rs"
| "smc_Query_loop (Some (wrongLeader, c) # rs) =
     (if wrongLeader = False then Some c else smc_Query_loop rs)"

fun smc_Stable :: "sm_Err option list \<Rightarrow> bool" where
  "smc_Stable [] = False"
| "smc_Stable (None # rs) = smc_Stable rs"
| "smc_Stable (Some e # rs) = (if e = sm_OK then True else smc_Stable rs)"

fun smc_FindGid_loop :: "(sm_Err \<times> int) option list \<Rightarrow> int option" where
  "smc_FindGid_loop [] = None"
| "smc_FindGid_loop (None # rs) = smc_FindGid_loop rs"
| "smc_FindGid_loop (Some (e, g) # rs) = (if e = sm_OK then Some g else smc_FindGid_loop rs)"

section \<open>The history of configurations\<close>

definition configs_ok :: "Config list \<Rightarrow> bool" where
  "configs_ok cs \<longleftrightarrow> cs \<noteq> [] \<and> (\<forall>i<length cs. Num (cs ! i) = int i \<and> length (Shards (cs ! i)) = NShards)"

lemma reassign_length: "length (fst (reassign x y r ss)) = length ss"
  by (induction ss arbitrary: r) (auto simp: case_prod_beta)

lemma take_over_length: "length (fst (take_over og g r ps)) = length ps"
  by (induction og g r ps rule: take_over.induct) (auto simp: Let_def case_prod_beta)

lemma MOVEGID_length: "length (MOVEGID cur g olds r ps) = length ps"
  by (induction cur g olds r ps rule: MOVEGID.induct)
    (auto simp: case_prod_beta take_over_length)

lemma leave_first_length: "length (snd (leave_first olds cur cnt avg gs left ps)) = length ps"
  by (induction gs arbitrary: left ps) (auto simp: Let_def MOVEGID_length split: option.splits)

lemma leave_second_length: "length (snd (leave_second olds cur cnt avg gs left ps)) = length ps"
  by (induction gs arbitrary: left ps) (auto simp: Let_def MOVEGID_length split: option.splits)

lemma join_first_length: "length (snd (snd (join_first cur cnt avg gs left fin ss))) = length ss"
  by (induction gs arbitrary: left fin ss) (auto simp: Let_def case_prod_beta reassign_length)

lemma join_second_length: "length (join_second avg gs left fin ss) = length ss"
  by (induction gs arbitrary: left fin ss) (auto simp: Let_def case_prod_beta reassign_length)

lemma adjustConfig_length:
  assumes "length (Shards l) = NShards" and "length (Shards c) = NShards"
  shows "length (Shards (adjustConfig rng l c)) = NShards"
  using assms
  by (simp add: adjustConfig_def Let_def case_prod_beta leave_first_length leave_second_length
      join_first_length join_second_length)

lemma adjustConfig_Num: "Num (adjustConfig rng l c) = Num c"
  by (simp add: adjustConfig_def Let_def case_prod_beta)

lemma configs_ok_snoc:
  "configs_ok cs \<Longrightarrow> Num c = Num (last cs) + 1 \<Longrightarrow> length (Shards c) = NShards \<Longrightarrow> configs_ok (cs @ [c])"
  by (cases cs rule: rev_cases) (auto simp: configs_ok_def nth_append less_Suc_eq)

text \<open>A command as one of the four handlers makes it, with a shard number in range.\<close>

definition sm_op_ok :: "sm_Op \<Rightarrow> bool" where
  "sm_op_ok x \<longleftrightarrow>
     (\<exists>rid. (\<exists>a. x = sm_Join_op rid a) \<or> (\<exists>a. x = sm_Leave_op rid a) \<or> (\<exists>a. x = sm_Query_op rid a) \<or>
        (\<exists>a. x = sm_Move_op rid a \<and> 0 \<le> ma_Shard a \<and> ma_Shard a < int NShards))"

text \<open>Every command succeeds and appends at most one configuration, with the next number.\<close>

lemma sm_switch_ok:
  assumes "configs_ok cs" and "sm_op_ok x"
  shows "\<exists>new. sm_switch rng x cs = Inr (cs @ new) \<and> configs_ok (cs @ new) \<and> length new \<le> 1"
proof -
  have l: "cs \<noteq> []" "length (Shards (last cs)) = NShards"
    using assms(1) by (auto simp: configs_ok_def last_conv_nth)
  have one: ?thesis
    if "\<exists>c. sm_switch rng x cs = Inr (cs @ [c]) \<and> Num c = Num (last cs) + 1 \<and> length (Shards c) = NShards"
  proof -
    from that obtain c where "sm_switch rng x cs = Inr (cs @ [c])" "Num c = Num (last cs) + 1"
        "length (Shards c) = NShards" by blast
    then show ?thesis
      using configs_ok_snoc [OF assms(1)] by (intro exI [of _ "[c]"]) simp
  qed
  consider (j) rid a where "x = sm_Join_op rid a" | (l) rid a where "x = sm_Leave_op rid a"
    | (q) rid a where "x = sm_Query_op rid a"
    | (m) rid a where "x = sm_Move_op rid a" "0 \<le> ma_Shard a" "ma_Shard a < int NShards"
    using assms(2) unfolding sm_op_ok_def by blast
  then show ?thesis
  proof cases
    case j
    then show ?thesis
      using l by (intro one) (simp add: sm_switch_def sm_Join_op_def sm_join_def Let_def
          adjustConfig_Num adjustConfig_length)
  next
    case l
    then show ?thesis
      using \<open>cs \<noteq> []\<close> \<open>length (Shards (last cs)) = NShards\<close>
      by (intro one) (simp add: sm_switch_def sm_Leave_op_def sm_leave_def Let_def
          adjustConfig_Num adjustConfig_length)
  next
    case q
    then show ?thesis
      using assms(1) by (intro exI [of _ "[]"]) (simp add: sm_switch_def sm_Query_op_def)
  next
    case m
    then show ?thesis
      using l by (intro one) (simp add: sm_switch_def sm_Move_op_def sm_move_def Let_def go_upd_Inr)
  qed
qed

section \<open>Applying a log\<close>

fun sm_run ::
  "(nat \<Rightarrow> int \<Rightarrow> int list \<Rightarrow> int list) \<Rightarrow> sm_Op list \<Rightarrow> ShardMaster \<Rightarrow> ShardMaster go" where
  "sm_run rng [] sm = Inr sm"
| "sm_run rng (x # xs) sm =
     go_bind (sm_apply rng sm True (ICmd x)) (\<lambda>(sm, _). sm_run rng xs sm)"

definition sm_effect ::
  "(nat \<Rightarrow> int \<Rightarrow> int list \<Rightarrow> int list) \<Rightarrow> sm_Op \<Rightarrow> Config list \<Rightarrow> Config list" where
  "sm_effect rng x cs = (case sm_switch rng x cs of Inl _ \<Rightarrow> cs | Inr cs' \<Rightarrow> cs')"

definition sm_applied ::
  "(nat \<Rightarrow> int \<Rightarrow> int list \<Rightarrow> int list) \<Rightarrow> sm_Op \<Rightarrow> ShardMaster \<Rightarrow> ShardMaster" where
  "sm_applied rng x sm =
     sm\<lparr>configs := (if sm_CheckApplied (sm_MsgId x) (sm_ClientId x) sm then configs sm
                    else sm_effect rng x (configs sm)),
        lastApplies := (lastApplies sm)(sm_ClientId x \<mapsto> sm_MsgId x)\<rparr>"

lemma sm_CheckApplied_iff: "sm_CheckApplied m c sm \<longleftrightarrow> lastApplies sm c = Some m"
  by (auto simp: sm_CheckApplied_def split: option.splits)

interpretation sm_dedup:
  dedup_service sm_ClientId sm_MsgId "\<lambda>_. True" "sm_effect rng" configs lastApplies "sm_applied rng"
  for rng
  by unfold_locales (auto simp: sm_applied_def sm_CheckApplied_iff)

lemma sm_apply_ok:
  assumes "configs_ok (configs sm)" and "sm_op_ok x"
    and "sm_notifyData sm (sm_RequestId x) \<noteq> Some sm_Abandoned"
  shows "\<exists>sm' sent. sm_apply rng sm True (ICmd x) = Inr (sm', sent) \<and>
    configs sm' = configs (sm_applied rng x sm) \<and> lastApplies sm' = lastApplies (sm_applied rng x sm) \<and>
    configs_ok (configs sm') \<and>
    (\<forall>i. i \<noteq> sm_RequestId x \<longrightarrow> sm_notifyData sm' i = sm_notifyData sm i)"
proof -
  obtain new where sw: "sm_switch rng x (configs sm) = Inr (configs sm @ new)" "configs_ok (configs sm @ new)"
    using sm_switch_ok [OF assms(1,2)] by blast
  have ap: "sm_applyOp rng x sm = Inr (sm_applied rng x sm)"
    using sw by (simp add: sm_applyOp_def sm_applied_def sm_effect_def)
  have ok: "configs_ok (configs (sm_applied rng x sm))" "sm_notifyData (sm_applied rng x sm) = sm_notifyData sm"
    using sw assms(1) by (simp_all add: sm_applied_def sm_effect_def)
  show ?thesis
  proof (cases "sm_notifyData sm (sm_RequestId x)")
    case None
    then show ?thesis using ap ok by (simp add: sm_notify_def)
  next
    case (Some ch)
    then have "ch = sm_Receiving" using assms(3) by (cases ch) auto
    then show ?thesis using Some ap ok by (simp add: sm_notify_def)
  qed
qed

lemma sm_applied_cong:
  "configs a = configs b \<Longrightarrow> lastApplies a = lastApplies b \<Longrightarrow>
   configs (sm_applied rng x a) = configs (sm_applied rng x b) \<and>
   lastApplies (sm_applied rng x a) = lastApplies (sm_applied rng x b)"
  by (simp add: sm_applied_def sm_CheckApplied_iff)

lemma fold_sm_applied_cong:
  "configs a = configs b \<Longrightarrow> lastApplies a = lastApplies b \<Longrightarrow>
   configs (fold (sm_applied rng) xs a) = configs (fold (sm_applied rng) xs b)"
proof (induction xs arbitrary: a b)
  case (Cons x xs)
  from sm_applied_cong [OF Cons.prems, of rng x] show ?case
    by (simp only: fold_simps(2)) (rule Cons.IH; blast)
qed simp

lemma sm_run_ok:
  "configs_ok (configs sm) \<Longrightarrow> (\<forall>x\<in>set xs. sm_op_ok x) \<Longrightarrow> distinct (map sm_RequestId xs) \<Longrightarrow>
   (\<forall>x\<in>set xs. sm_notifyData sm (sm_RequestId x) \<noteq> Some sm_Abandoned) \<Longrightarrow>
   \<exists>sm'. sm_run rng xs sm = Inr sm' \<and> configs sm' = configs (fold (sm_applied rng) xs sm) \<and>
     configs_ok (configs sm')"
proof (induction xs arbitrary: sm)
  case Nil
  then show ?case by simp
next
  case (Cons x xs)
  obtain sm1 sent where one: "sm_apply rng sm True (ICmd x) = Inr (sm1, sent)"
      and c1: "configs sm1 = configs (sm_applied rng x sm)" "lastApplies sm1 = lastApplies (sm_applied rng x sm)"
      and ok1: "configs_ok (configs sm1)"
      and n1: "\<forall>i. i \<noteq> sm_RequestId x \<longrightarrow> sm_notifyData sm1 i = sm_notifyData sm i"
    using sm_apply_ok [OF Cons.prems(1), of x rng] Cons.prems(2,4) by auto
  have "\<forall>y\<in>set xs. sm_notifyData sm1 (sm_RequestId y) \<noteq> Some sm_Abandoned"
  proof
    fix y assume y: "y \<in> set xs"
    then have "sm_RequestId y \<in> sm_RequestId ` set xs" by simp
    then have "sm_RequestId y \<noteq> sm_RequestId x" using Cons.prems(3) by auto
    then show "sm_notifyData sm1 (sm_RequestId y) \<noteq> Some sm_Abandoned"
      using n1 Cons.prems(4) y by simp
  qed
  from Cons.IH [OF ok1 _ _ this] Cons.prems(2,3)
  obtain sm' where "sm_run rng xs sm1 = Inr sm'" "configs sm' = configs (fold (sm_applied rng) xs sm1)"
      "configs_ok (configs sm')" by auto
  then show ?case
    using one fold_sm_applied_cong [OF c1, of rng xs] by (simp del: sm_apply.simps)
qed


definition demo_sm :: ShardMaster where
  "demo_sm = projr (StartServer 3 0 MakePersister)"

lemma demo_sm_simps:
  "configs demo_sm = [\<lparr>Num = 0, Shards = replicate NShards 0, Groups = []\<rparr>]"
  "lastApplies demo_sm = Map.empty" "sm_notifyData demo_sm = Map.empty" "sm_state demo_sm = STABLE"
  by (simp_all add: demo_sm_def StartServer_def Make_def MakePersister_def ReadRaftState_def)


text \<open>
  Query: on a numbered history, a query for a number that exists returns the configuration
  with that number, and any other number (such as -1) returns the latest one.
\<close>

theorem sm_Query_reply_spec:
  assumes "configs_ok (configs sm)"
  shows "\<exists>c. sm_Query_reply args sm = Inr c \<and> c \<in> set (configs sm) \<and>
     Num c = (if 0 \<le> qa_Num args \<and> qa_Num args < int (length (configs sm)) then qa_Num args
              else int (length (configs sm)) - 1)"
proof -
  have ne: "configs sm \<noteq> []" using assms by (simp add: configs_ok_def)
  have num: "Num (configs sm ! i) = int i" if "i < length (configs sm)" for i
    using assms that by (simp add: configs_ok_def)
  show ?thesis
  proof (cases "0 \<le> qa_Num args \<and> qa_Num args < int (length (configs sm))")
    case True
    then show ?thesis
      using num [of "nat (qa_Num args)"] by (auto simp: sm_Query_reply_def getConfigCopy_def go_idx_def)
  next
    case False
    have "length (configs sm) - 1 < length (configs sm)" using ne by simp
    then show ?thesis
      using False ne num [of "length (configs sm) - 1"]
      by (auto simp: sm_Query_reply_def getConfigCopy_def go_idx_def nat_diff_distrib Suc_leI of_nat_diff)
  qed
qed

theorem sm_Query_reply_spec_witness:
  "\<exists>c. sm_Query_reply \<lparr>qa_Num = -1, qa_ClientId = 1, qa_MsgId = 1\<rparr> demo_sm = Inr c \<and> Num c = 0"
  using sm_Query_reply_spec [of demo_sm "\<lparr>qa_Num = -1, qa_ClientId = 1, qa_MsgId = 1\<rparr>"]
  by (auto simp: demo_sm_simps configs_ok_def)

text \<open>
  A Join that times out is reported as done: \<open>waitForRaft\<close> answers a timeout with
  \<open>WrongLeader\<close> unset, and that is all the clerk's loop looks at.
\<close>

theorem smc_timeout_taken_for_success:
  "smc_update_loop [Some (case sm_wait_end (sm_Join_op 7 \<lparr>ja_Servers = [], ja_ClientId = 4, ja_MsgId = 1\<rparr>) None demo_sm of
      (_, r) \<Rightarrow> (snm_WrongLeader r, snm_Err r))] = Some sm_ErrTimeOut"
  by (simp add: sm_wait_end_def)

end
