(* ===== verification/ShardKV.thy ===== *)
theory ShardKV
  imports ShardMaster_Service KvRaft
begin

text \<open>
  The sharded key/value server (\<open>shardkv/server.go\<close>, \<open>waitApply.go\<close>, \<open>migration.go\<close>,
  \<open>common.go\<close>): commands and configurations in one Raft log, shards handed over between
  groups by Migration commands.

  \<open>sk_data\<close> maps a shard to its map; a Go map may be nil, so the value is \<open>None\<close> for a nil
  map that is present and the shard is absent from \<open>sk_data\<close> when it has no entry; reading
  either gives the empty string, writing to a nil map panics (\<open>NilMapWrite\<close>). The pointer
  \<open>kv.config\<close> is \<open>None\<close> until the first configuration is applied. What the shard master
  answers to \<open>Query(-1)\<close>, and the replies of other groups, are arguments. Maps are values
  here: that \<open>applyOp\<close> stores the map of the log entry itself, and \<open>migrationToPeer\<close> sends
  the live map, is not visible in this model.
\<close>

section \<open>Data\<close>

record sk_Op =
  sk_Method :: string
  sk_Shard :: int
  sk_Key :: string
  sk_Value :: string
  sk_ClientId :: int
  sk_MsgId :: int
  sk_RequestId :: int
  MigrationData :: "(string \<rightharpoonup> string) option"

datatype sk_cmd = SkOp sk_Op | SkConfig Config

datatype sk_Err = sk_OK | sk_ErrNoKey | sk_ErrWrongGroup | sk_ErrWrongLeader | sk_ErrTimeOut | sk_ErrUnset

datatype sk_phase = sk_STABLE | sk_TRANSITION

record sk_NotifyMsg =
  skn_Err :: sk_Err
  skn_Value :: string

record sk_PutAppendArgs =
  spa_Key :: string
  spa_Value :: string
  spa_Op :: string
  spa_MsgId :: int
  spa_ClientId :: int
  spa_Gid :: int
  spa_Shard :: int

record sk_GetArgs =
  sga_Key :: string
  sga_MsgId :: int
  sga_ClientId :: int
  sga_Gid :: int
  sga_Shard :: int

record MigrationArgs =
  mg_Shard :: int
  mg_Data :: "(string \<rightharpoonup> string) option"
  mg_NewGid :: int
  mg_MsgId :: int
  mg_ClientId :: int

type_synonym shard_data = "int \<rightharpoonup> (string \<rightharpoonup> string) option"

datatype sk_gob = SGData shard_data | SGApplied "int \<rightharpoonup> int" | SGConfig Config

record ShardKV =
  sk_me :: nat
  sk_rf :: "(sk_cmd, sk_gob list) Raft"
  sk_gid :: int
  sk_maxraftstate :: int
  sk_config :: "Config option"
  sk_data :: shard_data
  sk_lastApplied :: "int \<rightharpoonup> int"
  sk_notifyData :: "int \<rightharpoonup> chan"
  sk_state :: sk_phase

text \<open>\<open>kv.data[shard][key]\<close> as an expression.\<close>

definition shard_at :: "shard_data \<Rightarrow> int \<Rightarrow> string \<Rightarrow> string" where
  "shard_at d s k = (case d s of Some (Some m) \<Rightarrow> str_at m k | _ \<Rightarrow> '''')"

definition key2shard :: "string \<Rightarrow> int" where
  "key2shard key =
     (let shard = (if length key > 0 then of_char (hd key) else 0) in shard mod int NShards)"

section \<open>Applying\<close>

definition sk_CheckApplied :: "int \<Rightarrow> int \<Rightarrow> ShardKV \<Rightarrow> bool" where
  "sk_CheckApplied msgId clientId kv =
     (case sk_lastApplied kv clientId of Some oldMsgId \<Rightarrow> msgId = oldMsgId | None \<Rightarrow> False)"

definition sk_saveSnapshot :: "(sk_cmd raft_gob list \<Rightarrow> int) \<Rightarrow> int \<Rightarrow> ShardKV \<Rightarrow> ShardKV go" where
  "sk_saveSnapshot bytes index kv =
     (if sk_maxraftstate kv = -1 \<or> RaftStateSize bytes (persister (sk_rf kv)) < sk_maxraftstate kv
      then Inr kv
      else case sk_config kv of
        None \<Rightarrow> Inl NilDereference
      | Some config \<Rightarrow>
          go_bind (SaveStateAndSnapshot (sk_rf kv) index
                     (Some [SGData (sk_data kv), SGApplied (sk_lastApplied kv), SGConfig config])) (\<lambda>rf.
            Inr (kv\<lparr>sk_rf := rf\<rparr>)))"

fun sk_ReadSnapshot :: "ShardKV \<Rightarrow> sk_gob list option \<Rightarrow> ShardKV go" where
  "sk_ReadSnapshot kv None = Inr kv"
| "sk_ReadSnapshot kv (Some (SGData kvdata # SGApplied la # SGConfig config # _)) =
     Inr (kv\<lparr>sk_lastApplied := la, sk_data := kvdata\<rparr>)"
| "sk_ReadSnapshot kv (Some _) = Inl ProcessExit"

text \<open>The update part of \<open>applyOp\<close>.\<close>

definition sk_update :: "sk_Op \<Rightarrow> ShardKV \<Rightarrow> ShardKV go" where
  "sk_update x kv =
     (let repeat = sk_CheckApplied (sk_MsgId x) (sk_ClientId x) kv;
          s = sk_Shard x;
          d0 = (if sk_data kv s = None then (sk_data kv)(s \<mapsto> Some Map.empty) else sk_data kv)
      in if \<not> repeat \<and> sk_Method x = ''Migration'' then
           Inr (kv\<lparr>sk_data := d0(s \<mapsto> MigrationData x)\<rparr>)
         else if \<not> repeat \<and> sk_Method x = ''Put'' then
           (let d1 = (case d0 s of Some None \<Rightarrow> d0(s \<mapsto> Some Map.empty) | _ \<Rightarrow> d0)
            in case d1 s of
                 Some (Some m) \<Rightarrow>
                   Inr (kv\<lparr>sk_data := d1(s \<mapsto> Some (m(sk_Key x \<mapsto> sk_Value x))),
                           sk_lastApplied := (sk_lastApplied kv)(sk_ClientId x \<mapsto> sk_MsgId x)\<rparr>)
               | _ \<Rightarrow> Inl NilMapWrite)
         else if \<not> repeat \<and> sk_Method x = ''Append'' then
           (let newS = shard_at d0 s (sk_Key x) @ sk_Value x
            in case d0 s of
                 Some (Some m) \<Rightarrow>
                   Inr (kv\<lparr>sk_data := d0(s \<mapsto> Some (m(sk_Key x \<mapsto> newS))),
                           sk_lastApplied := (sk_lastApplied kv)(sk_ClientId x \<mapsto> sk_MsgId x)\<rparr>)
               | _ \<Rightarrow> Inl NilMapWrite)
         else Inr kv)"

definition sk_notify :: "sk_Op \<Rightarrow> ShardKV \<Rightarrow> (ShardKV \<times> (int \<times> sk_NotifyMsg) option) go" where
  "sk_notify x kv =
     (case sk_notifyData kv (sk_RequestId x) of
        None \<Rightarrow> Inr (kv, None)
      | Some Receiving \<Rightarrow>
          Inr (kv\<lparr>sk_notifyData := (sk_notifyData kv)(sk_RequestId x \<mapsto> Abandoned)\<rparr>,
               Some (sk_RequestId x, \<lparr>skn_Err = sk_OK, skn_Value = shard_at (sk_data kv) (sk_Shard x) (sk_Key x)\<rparr>))
      | Some Abandoned \<Rightarrow> Inl NoReceiver)"

definition applyOp ::
  "(sk_cmd raft_gob list \<Rightarrow> int) \<Rightarrow> int \<Rightarrow> sk_Op \<Rightarrow> ShardKV \<Rightarrow> (ShardKV \<times> (int \<times> sk_NotifyMsg) option) go" where
  "applyOp bytes index x kv =
     go_bind (sk_update x kv) (\<lambda>kv. go_bind (sk_saveSnapshot bytes index kv) (sk_notify x))"

definition applyConfig ::
  "(sk_cmd raft_gob list \<Rightarrow> int) \<Rightarrow> int \<Rightarrow> Config \<Rightarrow> ShardKV \<Rightarrow> ShardKV go" where
  "applyConfig bytes index newConfig kv =
     (if (case sk_config kv of Some c \<Rightarrow> Num newConfig \<le> Num c | None \<Rightarrow> False)
      then sk_saveSnapshot bytes index kv
      else Inr (kv\<lparr>sk_config := Some newConfig\<rparr>))"

fun sk_WaitApplyCh ::
  "(sk_cmd raft_gob list \<Rightarrow> int) \<Rightarrow> ShardKV \<Rightarrow> bool \<Rightarrow> sk_cmd iface \<Rightarrow> int \<Rightarrow>
   (ShardKV \<times> (int \<times> sk_NotifyMsg) option) go" where
  "sk_WaitApplyCh bytes kv False cmd index =
     go_bind (sk_ReadSnapshot kv (ps_ReadSnapshot (persister (sk_rf kv)))) (\<lambda>kv. Inr (kv, None))"
| "sk_WaitApplyCh bytes kv True (ICmd (SkOp x)) index = applyOp bytes index x kv"
| "sk_WaitApplyCh bytes kv True (ICmd (SkConfig c)) index =
     go_bind (applyConfig bytes index c kv) (\<lambda>kv. Inr (kv, None))"
| "sk_WaitApplyCh bytes kv True _ index = Inr (kv, None)"

section \<open>Handlers\<close>

definition sk_removeCh :: "int \<Rightarrow> ShardKV \<Rightarrow> ShardKV" where
  "sk_removeCh i kv = kv\<lparr>sk_notifyData := (sk_notifyData kv)(i := None)\<rparr>"

definition sk_wait_start :: "sk_Op \<Rightarrow> ShardKV \<Rightarrow> (ShardKV \<times> sk_NotifyMsg option) go" where
  "sk_wait_start x kv =
     go_bind (Start (sk_rf kv) (ICmd (SkOp x))) (\<lambda>(rf, _, _, isLeader).
       Inr (kv\<lparr>sk_rf := rf\<rparr>,
            if isLeader then None else Some \<lparr>skn_Err = sk_ErrWrongLeader, skn_Value = ''''\<rparr>))"

definition sk_wait_register :: "sk_Op \<Rightarrow> ShardKV \<Rightarrow> ShardKV" where
  "sk_wait_register x kv = kv\<lparr>sk_notifyData := (sk_notifyData kv)(sk_RequestId x \<mapsto> Receiving)\<rparr>"

definition sk_wait_end :: "sk_Op \<Rightarrow> sk_NotifyMsg option \<Rightarrow> ShardKV \<Rightarrow> ShardKV \<times> sk_NotifyMsg" where
  "sk_wait_end x res kv =
     (sk_removeCh (sk_RequestId x) kv,
      case res of Some r \<Rightarrow> r\<lparr>skn_Err := sk_OK\<rparr> | None \<Rightarrow> \<lparr>skn_Err = sk_ErrTimeOut, skn_Value = ''''\<rparr>)"

definition checkAndMigrateShard :: "int \<Rightarrow> ShardKV \<Rightarrow> bool go" where
  "checkAndMigrateShard shard kv =
     (case sk_config kv of
        None \<Rightarrow> Inl NilDereference
      | Some config \<Rightarrow>
          go_bind (go_idx (Shards config) shard) (\<lambda>newGid. Inr (newGid = sk_gid kv)))"

text \<open>
  The common shape of \<open>Get\<close> and \<open>PutAppend\<close> up to \<open>waitForRaft\<close>: leader, the loop that waits for
  \<open>STABLE\<close> (no step while it waits), group and shard owner.
\<close>

definition sk_enter ::
  "int \<Rightarrow> int \<Rightarrow> sk_Op \<Rightarrow> ShardKV \<Rightarrow> (ShardKV \<times> sk_NotifyMsg option) go option" where
  "sk_enter gid shard x kv =
     (if \<not> snd (GetState (sk_rf kv))
      then Some (Inr (kv, Some \<lparr>skn_Err = sk_ErrWrongLeader, skn_Value = ''''\<rparr>))
      else if sk_state kv \<noteq> sk_STABLE then None
      else if gid \<noteq> sk_gid kv
      then Some (Inr (kv, Some \<lparr>skn_Err = sk_ErrWrongGroup, skn_Value = ''''\<rparr>))
      else Some (go_bind (checkAndMigrateShard shard kv) (\<lambda>ok.
             if \<not> ok then Inr (kv, Some \<lparr>skn_Err = sk_ErrWrongGroup, skn_Value = ''''\<rparr>)
             else sk_wait_start x kv)))"

definition sk_Get_op :: "int \<Rightarrow> sk_GetArgs \<Rightarrow> sk_Op" where
  "sk_Get_op rid args =
     \<lparr>sk_Method = ''Get'', sk_Shard = sga_Shard args, sk_Key = sga_Key args, sk_Value = '''',
      sk_ClientId = sga_ClientId args, sk_MsgId = sga_MsgId args, sk_RequestId = rid,
      MigrationData = None\<rparr>"

definition sk_Get :: "int \<Rightarrow> sk_GetArgs \<Rightarrow> ShardKV \<Rightarrow> (ShardKV \<times> sk_NotifyMsg option) go option" where
  "sk_Get rid args = sk_enter (sga_Gid args) (sga_Shard args) (sk_Get_op rid args)"

definition sk_PutAppend_op :: "int \<Rightarrow> sk_PutAppendArgs \<Rightarrow> sk_Op" where
  "sk_PutAppend_op rid args =
     \<lparr>sk_Method = spa_Op args, sk_Shard = spa_Shard args, sk_Key = spa_Key args,
      sk_Value = spa_Value args, sk_ClientId = spa_ClientId args, sk_MsgId = spa_MsgId args,
      sk_RequestId = rid, MigrationData = None\<rparr>"

definition sk_PutAppend ::
  "int \<Rightarrow> sk_PutAppendArgs \<Rightarrow> ShardKV \<Rightarrow> (ShardKV \<times> sk_NotifyMsg option) go option" where
  "sk_PutAppend rid args = sk_enter (spa_Gid args) (spa_Shard args) (sk_PutAppend_op rid args)"

section \<open>Migration\<close>

definition Migration_op :: "int \<Rightarrow> MigrationArgs \<Rightarrow> ShardKV \<Rightarrow> sk_Op" where
  "Migration_op rid args kv =
     \<lparr>sk_Method = ''Migration'', sk_Shard = mg_Shard args, sk_Key = '''', sk_Value = '''',
      sk_ClientId = int (sk_me kv), sk_MsgId = mg_MsgId args, sk_RequestId = rid,
      MigrationData = mg_Data args\<rparr>"

definition Migration ::
  "int \<Rightarrow> MigrationArgs \<Rightarrow> ShardKV \<Rightarrow> (ShardKV \<times> sk_NotifyMsg option) go" where
  "Migration rid args kv =
     (if mg_NewGid args \<noteq> sk_gid kv
      then Inr (kv, Some \<lparr>skn_Err = sk_ErrWrongGroup, skn_Value = ''''\<rparr>)
      else if \<not> snd (GetState (sk_rf kv))
      then Inr (kv, Some \<lparr>skn_Err = sk_ErrWrongLeader, skn_Value = ''''\<rparr>)
      else sk_wait_start (Migration_op rid args kv) kv)"

definition removeShardData :: "int \<Rightarrow> ShardKV \<Rightarrow> ShardKV" where
  "removeShardData shard kv = kv\<lparr>sk_data := (sk_data kv)(shard := None)\<rparr>"

definition migrationToPeer_args :: "int \<Rightarrow> int \<Rightarrow> int \<Rightarrow> ShardKV \<Rightarrow> MigrationArgs" where
  "migrationToPeer_args shard newGid r kv =
     \<lparr>mg_Shard = shard, mg_Data = (case sk_data kv shard of Some m \<Rightarrow> m | None \<Rightarrow> None),
      mg_NewGid = newGid, mg_MsgId = r, mg_ClientId = int (sk_me kv)\<rparr>"

text \<open>
  One round of the loop of \<open>migrationToPeer\<close> over the replies of the new group's servers
  (\<open>None\<close>: the call failed): whether it ended with \<open>OK\<close>.
\<close>

fun migration_round :: "sk_Err option list \<Rightarrow> bool" where
  "migration_round [] = False"
| "migration_round (None # rs) = migration_round rs"
| "migration_round (Some e # rs) =
     (if e = sk_OK then True else if e = sk_ErrWrongLeader then migration_round rs else False)"

fun migrationToPeer :: "int \<Rightarrow> sk_Err option list list \<Rightarrow> ShardKV \<Rightarrow> ShardKV option" where
  "migrationToPeer shard [] kv = None"
| "migrationToPeer shard (rs # rounds) kv =
     (if migration_round rs then Some (removeShardData shard kv) else migrationToPeer shard rounds kv)"

text \<open>The test and the list of shards to hand over in \<open>FindConfig\<close>, and the replication of the
  configuration at its end.\<close>

definition needs_migration :: "Config \<Rightarrow> ShardKV \<Rightarrow> bool" where
  "needs_migration curConfig kv =
     (case sk_config kv of
        None \<Rightarrow> False
      | Some c \<Rightarrow> length (Groups c) \<noteq> 0 \<and> length (Groups curConfig) \<noteq> 0 \<and>
                  length (Groups curConfig) \<noteq> length (Groups c))"

definition shards_to_move :: "Config \<Rightarrow> ShardKV \<Rightarrow> nat list" where
  "shards_to_move curConfig kv =
     (case sk_config kv of
        None \<Rightarrow> []
      | Some c \<Rightarrow> filter (\<lambda>i. Shards curConfig ! i \<noteq> sk_gid kv)
                    (filter (\<lambda>i. Shards c ! i = sk_gid kv) [0..<NShards]))"

definition FindConfig_begin :: "Config \<Rightarrow> ShardKV \<Rightarrow> (ShardKV \<times> nat list) option" where
  "FindConfig_begin curConfig kv =
     (if \<not> snd (GetState (sk_rf kv)) then None
      else if needs_migration curConfig kv
      then Some (kv\<lparr>sk_state := sk_TRANSITION\<rparr>, shards_to_move curConfig kv)
      else Some (kv, []))"

definition FindConfig_end :: "Config \<Rightarrow> bool \<Rightarrow> ShardKV \<Rightarrow> ShardKV go" where
  "FindConfig_end curConfig migrated kv =
     (let kv = (if migrated then kv\<lparr>sk_state := sk_STABLE\<rparr> else kv)
      in go_bind (Start (sk_rf kv) (ICmd (SkConfig (Config_Copy curConfig)))) (\<lambda>(rf, _).
           Inr (kv\<lparr>sk_rf := rf\<rparr>)))"

definition sk_Kill :: "ShardKV \<Rightarrow> ShardKV" where
  "sk_Kill kv = kv\<lparr>sk_rf := Kill (sk_rf kv)\<rparr>"

definition sk_StartServer ::
  "nat \<Rightarrow> nat \<Rightarrow> (sk_cmd, sk_gob list) Persister \<Rightarrow> int \<Rightarrow> int \<Rightarrow> ShardKV go" where
  "sk_StartServer n i ps mx gid =
     go_bind (Make n i ps) (\<lambda>rf.
       sk_ReadSnapshot
         \<lparr>sk_me = i, sk_rf = rf, sk_gid = gid, sk_maxraftstate = mx, sk_config = None,
          sk_data = Map.empty, sk_lastApplied = Map.empty, sk_notifyData = Map.empty,
          sk_state = sk_STABLE\<rparr>
         (ps_ReadSnapshot (persister rf)))"

section \<open>One command\<close>

definition sk_input :: "sk_Op \<Rightarrow> KvInput" where
  "sk_input x =
     \<lparr>ki_Op = (if sk_Method x = ''Get'' then 0 else if sk_Method x = ''Put'' then 1 else 2),
      ki_Key = sk_Key x, ki_Value = sk_Value x\<rparr>"

definition sk_snapshot_ready :: "int \<Rightarrow> ShardKV \<Rightarrow> bool" where
  "sk_snapshot_ready index kv \<longleftrightarrow>
     raft_wf (sk_rf kv) \<and> index \<le> lastIdx (sk_rf kv) \<and> (sk_maxraftstate kv = -1 \<or> sk_config kv \<noteq> None)"

lemma sk_CheckApplied_iff: "sk_CheckApplied m c kv \<longleftrightarrow> sk_lastApplied kv c = Some m"
  by (auto simp: sk_CheckApplied_def split: option.splits)

lemma sk_saveSnapshot_ok:
  assumes "sk_snapshot_ready index kv"
  shows "\<exists>rf. sk_saveSnapshot bytes index kv = Inr (kv\<lparr>sk_rf := rf\<rparr>)"
proof (cases "sk_maxraftstate kv = -1 \<or> RaftStateSize bytes (persister (sk_rf kv)) < sk_maxraftstate kv")
  case True
  then have "sk_saveSnapshot bytes index kv = Inr (kv\<lparr>sk_rf := sk_rf kv\<rparr>)"
    by (simp add: sk_saveSnapshot_def)
  then show ?thesis by blast
next
  case False
  then obtain c where "sk_config kv = Some c"
    using assms by (auto simp: sk_snapshot_ready_def)
  then show ?thesis
    using False assms SaveStateAndSnapshot_ok [of "sk_rf kv" index
        "Some [SGData (sk_data kv), SGApplied (sk_lastApplied kv), SGConfig c]"]
    by (auto simp: sk_saveSnapshot_def sk_snapshot_ready_def)
qed

lemma sk_update_frame:
  assumes "sk_update x kv = Inr kv'"
  shows "sk_rf kv' = sk_rf kv \<and> sk_config kv' = sk_config kv \<and> sk_maxraftstate kv' = sk_maxraftstate kv \<and>
    sk_notifyData kv' = sk_notifyData kv \<and> sk_gid kv' = sk_gid kv"
  using assms by (auto simp: sk_update_def Let_def split: if_splits option.splits)

lemma shard_at_upd:
  "shard_at (d(s \<mapsto> Some m)) s' k = (if s' = s then str_at m k else shard_at d s' k)"
  by (simp add: shard_at_def)

lemma str_at_empty [simp]: "str_at Map.empty k = ''''"
  by (simp add: str_at_def)

text \<open>A client command on a shard whose map is not nil.\<close>

lemma sk_update_client:
  assumes "sk_Method x \<in> {''Get'', ''Put'', ''Append''}"
    and "\<not> sk_CheckApplied (sk_MsgId x) (sk_ClientId x) kv"
    and "sk_Method x = ''Append'' \<longrightarrow> sk_data kv (sk_Shard x) \<noteq> Some None"
  shows "\<exists>kv'. sk_update x kv = Inr kv' \<and>
    KvModel_Step (shard_at (sk_data kv) (sk_Shard x) (sk_Key x)) (sk_input x)
      (shard_at (sk_data kv') (sk_Shard x) (sk_Key x)) =
      (True, shard_at (sk_data kv') (sk_Shard x) (sk_Key x)) \<and>
    (\<forall>s k. s \<noteq> sk_Shard x \<or> k \<noteq> sk_Key x \<longrightarrow> shard_at (sk_data kv') s k = shard_at (sk_data kv) s k)"
proof -
  consider "sk_data kv (sk_Shard x) = None" | "sk_data kv (sk_Shard x) = Some None"
    | m where "sk_data kv (sk_Shard x) = Some (Some m)"
    by (metis option.exhaust)
  then show ?thesis
    by cases (use assms in \<open>auto simp: sk_update_def Let_def KvModel_Step_def sk_input_def shard_at_def\<close>)
qed


definition demo_sk :: "int \<Rightarrow> Config option \<Rightarrow> shard_data \<Rightarrow> ShardKV" where
  "demo_sk g c d =
     \<lparr>sk_me = 0,
      sk_rf = \<lparr>peers = 3, persister = MakePersister, me = 0, dead = False, rf_state = LEADER,
        currentTerm = 1, voteFor = 0, rlog = [\<lparr>lg_Command = IStr '''', lg_Term = 0\<rparr>],
        commitIndex = 0, lastApplied = 0, nextIndex = replicate 3 1,
        matchIndex = replicate 3 0, electionTimer = 0, appendEntriesTimer = replicate 3 BeatPeriod,
        lastSnapshotIndex = 0, lastSnapshotTerm = 0, notifyApplyCh = 0\<rparr>,
      sk_gid = g, sk_maxraftstate = -1, sk_config = c, sk_data = d, sk_lastApplied = Map.empty,
      sk_notifyData = [9 \<mapsto> Receiving], sk_state = sk_STABLE\<rparr>"

definition demo_sk_append :: "string \<Rightarrow> int \<Rightarrow> sk_Op" where
  "demo_sk_append v m =
     \<lparr>sk_Method = ''Append'', sk_Shard = 7, sk_Key = ''k'', sk_Value = v, sk_ClientId = 5,
      sk_MsgId = m, sk_RequestId = 9, MigrationData = None\<rparr>"

lemma demo_sk_wf [simp]: "raft_wf (sk_rf (demo_sk g c d))"
  by (simp add: demo_sk_def raft_wf_def leader_arrays_def saved_ok_def MakePersister_def)


text \<open>
  The proviso on nil maps is needed: after the migration of a shard for which the sender had
  no data, an Append to it writes to a nil map and the server panics. Put creates the map.
\<close>

theorem append_after_empty_migration_panics:
  "case sk_update (Migration_op 8 (migrationToPeer_args 7 2 3 (demo_sk 1 None Map.empty)) (demo_sk 2 None Map.empty))
       (demo_sk 2 None Map.empty) of
     Inl _ \<Rightarrow> False
   | Inr kv \<Rightarrow> (case applyOp (\<lambda>_. 0) 0 (demo_sk_append ''a'' 1) kv of Inl e \<Rightarrow> e = NilMapWrite | Inr _ \<Rightarrow> False)"
  by code_simp

section \<open>Duplicates\<close>

definition sk_is_update :: "sk_Op \<Rightarrow> bool" where
  "sk_is_update x \<longleftrightarrow> sk_Method x = ''Put'' \<or> sk_Method x = ''Append''"

text \<open>The client commands of a log on the data alone, nil maps read as empty ones.\<close>

definition sk_flat :: "shard_data \<Rightarrow> int \<Rightarrow> string \<Rightarrow> string" where
  "sk_flat d = (\<lambda>s k. shard_at d s k)"

definition sk_effect :: "sk_Op \<Rightarrow> (int \<Rightarrow> string \<Rightarrow> string) \<Rightarrow> int \<Rightarrow> string \<Rightarrow> string" where
  "sk_effect x f =
     f(sk_Shard x := (f (sk_Shard x))(sk_Key x :=
        (if sk_Method x = ''Put'' then sk_Value x else f (sk_Shard x) (sk_Key x) @ sk_Value x)))"

definition no_nil_shard :: "ShardKV \<Rightarrow> bool" where
  "no_nil_shard kv \<longleftrightarrow> (\<forall>s. sk_data kv s \<noteq> Some None)"

text \<open>The server that skips a command it would panic on, for the interpretation only.\<close>

definition sk_updated :: "sk_Op \<Rightarrow> ShardKV \<Rightarrow> ShardKV" where
  "sk_updated x kv =
     (if sk_is_update x \<and> \<not> sk_CheckApplied (sk_MsgId x) (sk_ClientId x) kv
      then let s = sk_Shard x;
               m = (case sk_data kv s of Some (Some m) \<Rightarrow> m | _ \<Rightarrow> Map.empty)
           in kv\<lparr>sk_data := (sk_data kv)(s \<mapsto> Some (m(sk_Key x \<mapsto>
                  (if sk_Method x = ''Put'' then sk_Value x else str_at m (sk_Key x) @ sk_Value x)))),
                sk_lastApplied := (sk_lastApplied kv)(sk_ClientId x \<mapsto> sk_MsgId x)\<rparr>
      else kv)"

lemma sk_update_eq_updated:
  assumes "no_nil_shard kv" and "sk_Method x \<noteq> ''Migration''"
  shows "sk_update x kv = Inr (sk_updated x kv) \<and> no_nil_shard (sk_updated x kv)"
proof -
  have "sk_data kv (sk_Shard x) \<noteq> Some None" using assms(1) by (simp add: no_nil_shard_def)
  then consider "sk_data kv (sk_Shard x) = None" | m where "sk_data kv (sk_Shard x) = Some (Some m)"
    by (metis option.exhaust)
  then show ?thesis
    by cases (use assms in \<open>auto simp: sk_update_def sk_updated_def sk_is_update_def no_nil_shard_def
        shard_at_def Let_def\<close>)
qed

interpretation sk_dedup:
  dedup_service sk_ClientId sk_MsgId sk_is_update sk_effect "\<lambda>kv. sk_flat (sk_data kv)" sk_lastApplied sk_updated
proof unfold_locales
  fix x and st :: ShardKV
  assume "sk_is_update x" "sk_lastApplied st (sk_ClientId x) \<noteq> Some (sk_MsgId x)"
  then show "sk_flat (sk_data (sk_updated x st)) = sk_effect x (sk_flat (sk_data st)) \<and>
      sk_lastApplied (sk_updated x st) = (sk_lastApplied st)(sk_ClientId x \<mapsto> sk_MsgId x)"
    by (auto simp: sk_updated_def sk_CheckApplied_iff sk_flat_def sk_effect_def shard_at_def Let_def fun_eq_iff
        split: option.splits)
qed (auto simp: sk_updated_def sk_CheckApplied_iff)

fun sk_update_all :: "sk_Op list \<Rightarrow> ShardKV \<Rightarrow> ShardKV go" where
  "sk_update_all [] kv = Inr kv"
| "sk_update_all (x # xs) kv = go_bind (sk_update x kv) (sk_update_all xs)"

lemma sk_update_all_fold:
  "no_nil_shard kv \<Longrightarrow> \<forall>x\<in>set xs. sk_Method x \<noteq> ''Migration'' \<Longrightarrow>
   sk_update_all xs kv = Inr (fold sk_updated xs kv)"
proof (induction xs arbitrary: kv)
  case (Cons x xs)
  then show ?case
    using sk_update_eq_updated [of kv x] by simp
qed simp

text \<open>
  Exactly once on a shard server: a server without nil shard maps and with an empty client
  table that applies a log of client commands with repeated writes never panics and ends
  with the values that the log without the repetitions gives, for every shard and key,
  provided that no client's earlier write comes back after a later one of that client.
\<close>

theorem sk_update_all_exactly_once:
  assumes "no_nil_shard kv" and "\<forall>x\<in>set xs. sk_Method x \<noteq> ''Migration''"
    and "sk_lastApplied kv = Map.empty"
    and "sequential sk_ClientId sk_MsgId (filter sk_is_update xs)"
  shows "\<exists>kv'. sk_update_all xs kv = Inr kv' \<and>
     sk_flat (sk_data kv') =
       fold sk_effect (once sk_ClientId sk_MsgId [] (filter sk_is_update xs)) (sk_flat (sk_data kv))"
  using sk_update_all_fold [OF assms(1,2)] sk_dedup.exactly_once [OF assms(3,4)] by auto

theorem sk_update_all_exactly_once_witness:
  "\<exists>kv'. sk_update_all [demo_sk_append ''a'' 1, demo_sk_append ''a'' 1, demo_sk_append ''b'' 2]
       (demo_sk 1 None Map.empty) = Inr kv' \<and> sk_flat (sk_data kv') 7 ''k'' = ''ab''"
proof -
  let ?xs = "[demo_sk_append ''a'' 1, demo_sk_append ''a'' 1, demo_sk_append ''b'' 2]"
  have "\<exists>kv'. sk_update_all ?xs (demo_sk 1 None Map.empty) = Inr kv' \<and>
     sk_flat (sk_data kv') =
       fold sk_effect (once sk_ClientId sk_MsgId [] (filter sk_is_update ?xs)) (sk_flat (sk_data (demo_sk 1 None Map.empty)))"
    by (rule sk_update_all_exactly_once)
      (auto simp: no_nil_shard_def demo_sk_append_def sk_is_update_def, simp_all add: demo_sk_def)
  moreover have "fold sk_effect (once sk_ClientId sk_MsgId [] (filter sk_is_update ?xs))
      (sk_flat (sk_data (demo_sk 1 None Map.empty))) 7 ''k'' = ''ab''"
    by (simp add: demo_sk_append_def sk_is_update_def sk_effect_def sk_flat_def shard_at_def demo_sk_def)
  ultimately show ?thesis by metis
qed

section \<open>Handlers\<close>



section \<open>Configurations\<close>

text \<open>
  C25. The configuration of a shard server never goes back: whatever message the apply loop
  handles, a server that has a configuration keeps it or replaces it by one with a larger
  number.
\<close>

theorem sk_config_monotone:
  assumes "sk_WaitApplyCh bytes kv valid cmd index = Inr (kv', sent)" and "sk_config kv = Some c"
  shows "\<exists>c'. sk_config kv' = Some c' \<and> (c' = c \<or> Num c < Num c')"
proof -
  have snap: "sk_config b = sk_config a" if "sk_saveSnapshot bytes index a = Inr b" for a b
    using that by (auto simp: sk_saveSnapshot_def go_bind_Inr_iff split: if_splits option.splits)
  have read: "sk_config b = sk_config a" if "sk_ReadSnapshot a g = Inr b" for a b g
    using that by (cases "(a, g)" rule: sk_ReadSnapshot.cases) auto
  have noti: "sk_config b = sk_config a" if "sk_notify x a = Inr (b, sent)" for a b x
    using that by (auto simp: sk_notify_def split: option.splits chan.splits)
  have app: "sk_config kv' = sk_config kv" if "applyOp bytes index x kv = Inr (kv', sent)" for x
    using that sk_update_frame snap noti by (fastforce simp: applyOp_def go_bind_Inr_iff)
  show ?thesis
    using assms
    by (cases "(bytes, kv, valid, cmd, index)" rule: sk_WaitApplyCh.cases)
      (auto simp: go_bind_Inr_iff applyConfig_def split: if_splits dest: snap read app)
qed

theorem sk_config_monotone_witness:
  "\<exists>kv' c'. sk_WaitApplyCh (\<lambda>_. 0) (demo_sk 1 (Some (demo_config [1] (replicate 10 1))) Map.empty) True
       (ICmd (SkConfig ((demo_config [1, 2] (replicate 10 1))\<lparr>Num := 2\<rparr>))) 1 = Inr (kv', None) \<and>
     sk_config kv' = Some c' \<and> (c' = demo_config [1] (replicate 10 1) \<or> 1 < Num c')"
proof -
  let ?c = "demo_config [1] (replicate 10 1)"
  let ?new = "(demo_config [1, 2] (replicate 10 1))\<lparr>Num := 2\<rparr>"
  have c: "sk_config (demo_sk 1 (Some ?c) Map.empty) = Some ?c" "Num ?c = 1"
    by (simp_all add: demo_sk_def demo_config_def)
  have run: "sk_WaitApplyCh (\<lambda>_. 0) (demo_sk 1 (Some ?c) Map.empty) True (ICmd (SkConfig ?new)) 1 =
      Inr ((demo_sk 1 (Some ?c) Map.empty)\<lparr>sk_config := Some ?new\<rparr>, None)"
    using c by (simp add: applyConfig_def)
  from sk_config_monotone [OF run c(1)] c(2) run show ?thesis by metis
qed

section \<open>Handing over a shard\<close>



section \<open>Where the shard server falls short\<close>

text \<open>
  A Move keeps the number of groups, and that number is all \<open>FindConfig\<close> compares: the shard's
  new owner is announced, but its data is not handed over.
\<close>

theorem move_without_migration:
  "needs_migration (demo_config [1, 2] (2 # replicate 9 1))
     (demo_sk 1 (Some (demo_config [1, 2] (replicate 10 1))) [0 \<mapsto> Some [''k'' \<mapsto> ''x'']]) = False \<and>
   shards_to_move (demo_config [1, 2] (2 # replicate 9 1))
     (demo_sk 1 (Some (demo_config [1, 2] (replicate 10 1))) [0 \<mapsto> Some [''k'' \<mapsto> ''x'']]) = [0]"
  by code_simp

text \<open>
  A snapshot holds the configuration, but reading it back drops it: the restarted server has none,
  and a request to it as leader dereferences a nil pointer.
\<close>

theorem snapshot_config_dropped:
  "case sk_ReadSnapshot (demo_sk 1 None Map.empty)
       (Some [SGData Map.empty, SGApplied Map.empty, SGConfig (demo_config [1] (replicate 10 1))]) of
     Inl _ \<Rightarrow> False
   | Inr kv \<Rightarrow> (case sk_enter 1 7 (demo_sk_append ''a'' 1) kv of Some (Inl e) \<Rightarrow> e = NilDereference | _ \<Rightarrow> False)"
  by code_simp

end
