(* ===== verification/ShardKV_Clerk.thy ===== *)
theory ShardKV_Clerk
  imports ShardKV
begin

text \<open>
  The client of the sharded service (\<open>shardkv/client.go\<close>). A call is a loop of rounds: each
  sends the request to the servers of the group that owns the key's shard in the clerk's
  configuration, and ends by asking the shard master for the latest configuration. A
  round is given by the servers' replies (\<open>None\<close>: the call failed and the reply keeps its
  zero value) and the configuration queried after it. The loops return the requests of the
  rounds and the result, \<open>None\<close> when the rounds are used up before the loop ends.
\<close>

record sk_Clerk =
  skc_config :: Config
  skc_clientId :: int

text \<open>\<open>MakeClerk\<close>, with the answer of the first query.\<close>

definition sk_MakeClerk :: "Config \<Rightarrow> int \<Rightarrow> sk_Clerk" where
  "sk_MakeClerk c r = \<lparr>skc_config = c, skc_clientId = r\<rparr>"

fun sk_get_round :: "(sk_Err \<times> string) option list \<Rightarrow> string option" where
  "sk_get_round [] = None"
| "sk_get_round (r # rs) =
     (let (e, v) = (case r of None \<Rightarrow> (sk_ErrUnset, '''') | Some p \<Rightarrow> p)
      in if e = sk_OK \<or> e = sk_ErrNoKey then Some v
         else if e = sk_ErrWrongGroup then None
         else sk_get_round rs)"

fun sk_put_round :: "sk_Err option list \<Rightarrow> bool" where
  "sk_put_round [] = False"
| "sk_put_round (r # rs) =
     (let e = (case r of None \<Rightarrow> sk_ErrUnset | Some e \<Rightarrow> e)
      in if e = sk_OK then True else if e = sk_ErrWrongGroup then False else sk_put_round rs)"

definition sk_clerk_Get_args :: "sk_Clerk \<Rightarrow> string \<Rightarrow> int \<Rightarrow> sk_GetArgs go" where
  "sk_clerk_Get_args ck key r =
     go_bind (go_idx (Shards (skc_config ck)) (key2shard key)) (\<lambda>gid.
       Inr \<lparr>sga_Key = key, sga_MsgId = r, sga_ClientId = skc_clientId ck, sga_Gid = gid,
            sga_Shard = key2shard key\<rparr>)"

definition sk_clerk_PutAppend_args ::
  "sk_Clerk \<Rightarrow> string \<Rightarrow> string \<Rightarrow> string \<Rightarrow> int \<Rightarrow> sk_PutAppendArgs go" where
  "sk_clerk_PutAppend_args ck key v x r =
     go_bind (go_idx (Shards (skc_config ck)) (key2shard key)) (\<lambda>gid.
       Inr \<lparr>spa_Key = key, spa_Value = v, spa_Op = x, spa_MsgId = r, spa_ClientId = skc_clientId ck,
            spa_Gid = gid, spa_Shard = key2shard key\<rparr>)"

fun sk_clerk_Get ::
  "sk_Clerk \<Rightarrow> string \<Rightarrow> int \<Rightarrow> ((sk_Err \<times> string) option list \<times> Config) list \<Rightarrow>
   (sk_GetArgs list \<times> string option) go" where
  "sk_clerk_Get ck key r [] = Inr ([], None)"
| "sk_clerk_Get ck key r ((replies, next) # rounds) =
     go_bind (sk_clerk_Get_args ck key r) (\<lambda>args.
       case (if sga_Gid args \<in> set (gids (skc_config ck)) then sk_get_round replies else None) of
         Some v \<Rightarrow> Inr ([args], Some v)
       | None \<Rightarrow> go_bind (sk_clerk_Get (ck\<lparr>skc_config := next\<rparr>) key r rounds) (\<lambda>(reqs, res).
                   Inr (args # reqs, res)))"

fun sk_clerk_PutAppend ::
  "sk_Clerk \<Rightarrow> string \<Rightarrow> string \<Rightarrow> string \<Rightarrow> int \<Rightarrow> (sk_Err option list \<times> Config) list \<Rightarrow>
   (sk_PutAppendArgs list \<times> bool) go" where
  "sk_clerk_PutAppend ck key v x r [] = Inr ([], False)"
| "sk_clerk_PutAppend ck key v x r ((replies, next) # rounds) =
     go_bind (sk_clerk_PutAppend_args ck key v x r) (\<lambda>args.
       if spa_Gid args \<in> set (gids (skc_config ck)) \<and> sk_put_round replies then Inr ([args], True)
       else go_bind (sk_clerk_PutAppend (ck\<lparr>skc_config := next\<rparr>) key v x r rounds) (\<lambda>(reqs, res).
              Inr (args # reqs, res)))"

definition sk_clerk_Put ::
  "sk_Clerk \<Rightarrow> string \<Rightarrow> string \<Rightarrow> int \<Rightarrow> (sk_Err option list \<times> Config) list \<Rightarrow> (sk_PutAppendArgs list \<times> bool) go" where
  "sk_clerk_Put ck key v r rounds = sk_clerk_PutAppend ck key v ''Put'' r rounds"

definition sk_clerk_Append ::
  "sk_Clerk \<Rightarrow> string \<Rightarrow> string \<Rightarrow> int \<Rightarrow> (sk_Err option list \<times> Config) list \<Rightarrow> (sk_PutAppendArgs list \<times> bool) go" where
  "sk_clerk_Append ck key v r rounds = sk_clerk_PutAppend ck key v ''Append'' r rounds"

lemma key2shard_range: "0 \<le> key2shard key \<and> key2shard key < int NShards"
  by (simp add: key2shard_def Let_def)

lemma sk_clerk_PutAppend_args_ok:
  "length (Shards (skc_config ck)) = NShards \<Longrightarrow>
   sk_clerk_PutAppend_args ck key v x r =
     Inr \<lparr>spa_Key = key, spa_Value = v, spa_Op = x, spa_MsgId = r, spa_ClientId = skc_clientId ck,
          spa_Gid = Shards (skc_config ck) ! nat (key2shard key), spa_Shard = key2shard key\<rparr>"
  using key2shard_range [of key] by (simp add: sk_clerk_PutAppend_args_def go_idx_Inr)

text \<open>
  Routing: with complete configurations the clerk never fails, all requests of one call
  carry the same key, value, operation and ids, and each request that was made under the
  configuration by which a stable leader of the addressed group works is started by that
  leader, not refused.
\<close>

theorem sk_clerk_routes_to_owner:
  assumes "length (Shards (skc_config ck)) = NShards"
    and "\<forall>(_, c)\<in>set rounds. length (Shards c) = NShards"
  shows "\<exists>reqs res. sk_clerk_PutAppend ck key v x r rounds = Inr (reqs, res) \<and>
     (\<forall>a\<in>set reqs. spa_Key a = key \<and> spa_Value a = v \<and> spa_Op a = x \<and> spa_MsgId a = r \<and>
        spa_ClientId a = skc_clientId ck \<and>
        (\<exists>c\<in>insert (skc_config ck) (snd ` set rounds). \<forall>kv rid.
           raft_wf (sk_rf kv) \<and> rf_state (sk_rf kv) = LEADER \<and> sk_state kv = sk_STABLE \<and>
           sk_gid kv = spa_Gid a \<and> sk_config kv = Some c \<longrightarrow>
           sk_PutAppend rid a kv = Some (sk_wait_start (sk_PutAppend_op rid a) kv)))"
  using assms
proof (induction rounds arbitrary: ck)
  case Nil
  then show ?case by auto
next
  case (Cons rd rounds)
  obtain replies nxt where rd: "rd = (replies, nxt)" by (cases rd)
  define args where "args = \<lparr>spa_Key = key, spa_Value = v, spa_Op = x, spa_MsgId = r,
      spa_ClientId = skc_clientId ck, spa_Gid = Shards (skc_config ck) ! nat (key2shard key),
      spa_Shard = key2shard key\<rparr>"
  have mk: "sk_clerk_PutAppend_args ck key v x r = Inr args"
    unfolding args_def by (rule sk_clerk_PutAppend_args_ok [OF Cons.prems(1)])
  have own: "sk_PutAppend rid args kv = Some (sk_wait_start (sk_PutAppend_op rid args) kv)"
    if "rf_state (sk_rf kv) = LEADER" "sk_state kv = sk_STABLE"
      "sk_gid kv = spa_Gid args" "sk_config kv = Some (skc_config ck)" for kv rid
    using that key2shard_range [of key] Cons.prems(1)
    by (simp add: sk_PutAppend_def sk_enter_def GetState_def checkAndMigrateShard_def args_def go_idx_Inr)
  have IH: "\<exists>reqs res. sk_clerk_PutAppend (ck\<lparr>skc_config := nxt\<rparr>) key v x r rounds = Inr (reqs, res) \<and>
     (\<forall>a\<in>set reqs. spa_Key a = key \<and> spa_Value a = v \<and> spa_Op a = x \<and> spa_MsgId a = r \<and>
        spa_ClientId a = skc_clientId ck \<and>
        (\<exists>c\<in>insert nxt (snd ` set rounds). \<forall>kv rid.
           raft_wf (sk_rf kv) \<and> rf_state (sk_rf kv) = LEADER \<and> sk_state kv = sk_STABLE \<and>
           sk_gid kv = spa_Gid a \<and> sk_config kv = Some c \<longrightarrow>
           sk_PutAppend rid a kv = Some (sk_wait_start (sk_PutAppend_op rid a) kv)))"
    using Cons.IH [of "ck\<lparr>skc_config := nxt\<rparr>"] Cons.prems(2) rd by simp
  show ?case
  proof (cases "spa_Gid args \<in> set (gids (skc_config ck)) \<and> sk_put_round replies")
    case True
    then show ?thesis
      using mk own by (auto simp: rd args_def)
  next
    case False
    from IH obtain reqs res where run: "sk_clerk_PutAppend (ck\<lparr>skc_config := nxt\<rparr>) key v x r rounds = Inr (reqs, res)"
      and all: "\<forall>a\<in>set reqs. spa_Key a = key \<and> spa_Value a = v \<and> spa_Op a = x \<and> spa_MsgId a = r \<and>
        spa_ClientId a = skc_clientId ck \<and>
        (\<exists>c\<in>insert nxt (snd ` set rounds). \<forall>kv rid.
           raft_wf (sk_rf kv) \<and> rf_state (sk_rf kv) = LEADER \<and> sk_state kv = sk_STABLE \<and>
           sk_gid kv = spa_Gid a \<and> sk_config kv = Some c \<longrightarrow>
           sk_PutAppend rid a kv = Some (sk_wait_start (sk_PutAppend_op rid a) kv))" by blast
    have "sk_clerk_PutAppend ck key v x r (rd # rounds) = Inr (args # reqs, res)"
      using False mk run by (auto simp: rd)
    moreover have "\<exists>c\<in>insert (skc_config ck) (snd ` set (rd # rounds)). \<forall>kv rid.
           raft_wf (sk_rf kv) \<and> rf_state (sk_rf kv) = LEADER \<and> sk_state kv = sk_STABLE \<and>
           sk_gid kv = spa_Gid args \<and> sk_config kv = Some c \<longrightarrow>
           sk_PutAppend rid args kv = Some (sk_wait_start (sk_PutAppend_op rid args) kv)"
      by (rule bexI [of _ "skc_config ck"]) (use own in auto)
    moreover have "spa_Key args = key" "spa_Value args = v" "spa_Op args = x" "spa_MsgId args = r"
        "spa_ClientId args = skc_clientId ck" by (simp_all add: args_def)
    moreover have "insert nxt (snd ` set rounds) \<subseteq> insert (skc_config ck) (snd ` set (rd # rounds))"
      by (auto simp: rd)
    ultimately show ?thesis
      using all by (intro exI [of _ "args # reqs"] exI [of _ res]) (fastforce simp: rd)
  qed
qed

theorem sk_clerk_routes_to_owner_witness:
  "\<exists>reqs res. sk_clerk_PutAppend (sk_MakeClerk (demo_config [1] (replicate 10 1)) 5) ''k'' ''a'' ''Put'' 3
       [([None, Some sk_ErrWrongGroup], demo_config [1, 2] (replicate 10 2)), ([Some sk_OK], demo_config [1, 2] (replicate 10 2))] =
     Inr (reqs, res) \<and> {spa_MsgId a |a. a \<in> set reqs} \<subseteq> {3}"
proof -
  have len: "length (Shards (skc_config (sk_MakeClerk (demo_config [1] (replicate 10 1)) 5))) = NShards"
    by (simp add: sk_MakeClerk_def demo_config_def)
  have rounds: "\<forall>(_, c)\<in>set [([None, Some sk_ErrWrongGroup], demo_config [1, 2] (replicate 10 2)),
      ([Some sk_OK], demo_config [1, 2] (replicate 10 2))]. length (Shards c) = NShards"
    by (simp add: demo_config_def)
  from sk_clerk_routes_to_owner [OF len rounds, of "''k''" "''a''" "''Put''" 3]
  show ?thesis by blast
qed

end
