(* ===== verification/MapReduce_Worker.thy ===== *)
theory MapReduce_Worker
  imports Prelude "HOL-Library.Word"
begin

text \<open>
  The MapReduce worker (\<open>mr/worker.go\<close>), the sequential version it is compared with
  (\<open>main/mrsequential.go\<close>) and the applications \<open>mrapps/wc.go\<close> and \<open>mrapps/indexer.go\<close>.

  The intermediate file \<open>mr-X-Y\<close> is the entry \<open>(X, Y)\<close> of a map of files, and its contents is
  the list of the pairs that the JSON encoder wrote and the decoder reads back. \<open>sort.Sort\<close> is
  not stable, so sorting is a parameter \<open>srt\<close> of which \<open>sort_ok\<close> says that it permutes and
  orders by key. A string is a list of bytes; \<open>FieldsFunc\<close> is modelled for ASCII text.
\<close>

unbundle bit_operations_syntax

section \<open>Hashing\<close>

type_synonym KeyValue = "string \<times> string"

definition fnv32a :: "string \<Rightarrow> 32 word" where
  "fnv32a key = foldl (\<lambda>h c. (h XOR of_nat (of_char c)) * 16777619) 2166136261 key"

definition ihash :: "string \<Rightarrow> nat" where
  "ihash key = unat (fnv32a key AND 0x7fffffff)"

section \<open>Tasks\<close>

record Task =
  task_Done :: bool
  Phase :: string
  FileName :: string
  Imap :: int
  IReduce :: int
  NMap :: nat
  NReduce :: nat

fun put_partition :: "KeyValue list list \<Rightarrow> nat \<Rightarrow> KeyValue list \<Rightarrow> KeyValue list list" where
  "put_partition parts n [] = parts"
| "put_partition parts n ((key, v) # kvs) =
     (let bucket = ihash key mod n
      in put_partition (parts[bucket := parts ! bucket @ [(key, v)]]) n kvs)"

text \<open>Integer division by zero and a missing input file end the worker.\<close>

definition doMapTask ::
  "(string \<Rightarrow> string \<Rightarrow> KeyValue list) \<Rightarrow> (string \<rightharpoonup> string) \<Rightarrow> Task \<Rightarrow>
   (int \<times> int \<rightharpoonup> KeyValue list) \<Rightarrow> (int \<times> int \<rightharpoonup> KeyValue list) go" where
  "doMapTask mapf inputs task fs =
     (case inputs (FileName task) of
        None \<Rightarrow> Inl ProcessExit
      | Some content \<Rightarrow>
          let inter = mapf (FileName task) content
          in if NReduce task = 0 \<and> inter \<noteq> [] then Inl ProcessExit
             else
               let partitions = put_partition (replicate (NReduce task) []) (NReduce task) inter
               in Inr (fold (\<lambda>i fs. fs((Imap task, int i) \<mapsto> partitions ! i)) [0..<NReduce task] fs))"

fun read_inter :: "(int \<times> int \<rightharpoonup> KeyValue list) \<Rightarrow> int \<Rightarrow> nat list \<Rightarrow> KeyValue list go" where
  "read_inter fs r [] = Inr []"
| "read_inter fs r (i # is) =
     (case fs (int i, r) of
        None \<Rightarrow> Inl ProcessExit
      | Some kvs \<Rightarrow> go_bind (read_inter fs r is) (\<lambda>rest. Inr (kvs @ rest)))"

text \<open>The loop over runs of equal keys, shared with \<open>mrsequential.go\<close>.\<close>

function reduce_runs :: "(string \<Rightarrow> string list \<Rightarrow> string) \<Rightarrow> KeyValue list \<Rightarrow> KeyValue list" where
  "reduce_runs reducef [] = []"
| "reduce_runs reducef ((k, v) # kvs) =
     (k, reducef k (v # map snd (takeWhile (\<lambda>p. fst p = k) kvs))) #
     reduce_runs reducef (dropWhile (\<lambda>p. fst p = k) kvs)"
  by pat_completeness auto

termination
  by (relation "measure (\<lambda>(_, kvs). length kvs)") (auto simp: le_imp_less_Suc length_dropWhile_le)

definition doReduceTask ::
  "(KeyValue list \<Rightarrow> KeyValue list) \<Rightarrow> (string \<Rightarrow> string list \<Rightarrow> string) \<Rightarrow> Task \<Rightarrow>
   (int \<times> int \<rightharpoonup> KeyValue list) \<Rightarrow> KeyValue list go" where
  "doReduceTask srt reducef task fs =
     go_bind (read_inter fs (IReduce task) [0..<NMap task]) (\<lambda>intermediate.
       Inr (reduce_runs reducef (srt intermediate)))"

section \<open>The sequential version\<close>

fun seq_inter ::
  "(string \<Rightarrow> string \<Rightarrow> KeyValue list) \<Rightarrow> (string \<rightharpoonup> string) \<Rightarrow> string list \<Rightarrow> KeyValue list go" where
  "seq_inter mapf inputs [] = Inr []"
| "seq_inter mapf inputs (f # fs) =
     (case inputs f of
        None \<Rightarrow> Inl ProcessExit
      | Some content \<Rightarrow> go_bind (seq_inter mapf inputs fs) (\<lambda>rest. Inr (mapf f content @ rest)))"

definition mrsequential ::
  "(KeyValue list \<Rightarrow> KeyValue list) \<Rightarrow> (string \<Rightarrow> string \<Rightarrow> KeyValue list) \<Rightarrow>
   (string \<Rightarrow> string list \<Rightarrow> string) \<Rightarrow> (string \<rightharpoonup> string) \<Rightarrow> string list \<Rightarrow> KeyValue list go" where
  "mrsequential srt mapf reducef inputs files =
     go_bind (seq_inter mapf inputs files) (\<lambda>inter. Inr (reduce_runs reducef (srt inter)))"

section \<open>Applications\<close>

definition isLetter :: "char \<Rightarrow> bool" where
  "isLetter c \<longleftrightarrow> (let n = of_char c :: nat in 65 \<le> n \<and> n \<le> 90 \<or> 97 \<le> n \<and> n \<le> 122)"

text \<open>\<open>strings.FieldsFunc\<close>: the maximal runs of characters that are not separators.\<close>

function FieldsFunc :: "(char \<Rightarrow> bool) \<Rightarrow> string \<Rightarrow> string list" where
  "FieldsFunc sep s =
     (case dropWhile sep s of
        [] \<Rightarrow> []
      | c # cs \<Rightarrow> takeWhile (\<lambda>x. \<not> sep x) (c # cs) # FieldsFunc sep (dropWhile (\<lambda>x. \<not> sep x) (c # cs)))"
  by pat_completeness auto

termination
proof (relation "measure (\<lambda>(_, s). length s)")
  fix sep :: "char \<Rightarrow> bool" and s c cs
  assume eq: "dropWhile sep s = c # cs"
  then have "\<not> sep c" by (metis dropWhile_eq_Cons_conv)
  then have "length (dropWhile (\<lambda>x. \<not> sep x) (c # cs)) \<le> length cs"
    by (simp add: length_dropWhile_le)
  moreover have "length (c # cs) \<le> length s"
    unfolding eq [symmetric] by (rule length_dropWhile_le)
  ultimately show "((sep, dropWhile (\<lambda>x. \<not> sep x) (c # cs)), sep, s) \<in> measure (\<lambda>(_, s). length s)"
    by simp
qed simp

declare FieldsFunc.simps [simp del]

definition wc_Map :: "string \<Rightarrow> string \<Rightarrow> KeyValue list" where
  "wc_Map filename contents =
     map (\<lambda>w. (w, ''1'')) (FieldsFunc (\<lambda>r. \<not> isLetter r) contents)"

definition wc_Reduce :: "string \<Rightarrow> string list \<Rightarrow> string" where
  "wc_Reduce key vals = itoa (length vals)"

text \<open>The indexer: \<open>ord\<close> is the order in which Go visits the set of words.\<close>

definition indexer_Map :: "(string list \<Rightarrow> string list) \<Rightarrow> string \<Rightarrow> string \<Rightarrow> KeyValue list" where
  "indexer_Map ord document contents =
     map (\<lambda>w. (w, document)) (ord (remdups (FieldsFunc (\<lambda>x. \<not> isLetter x) contents)))"

fun join_strings :: "string \<Rightarrow> string list \<Rightarrow> string" where
  "join_strings sep [] = ''''"
| "join_strings sep [x] = x"
| "join_strings sep (x # y # xs) = x @ sep @ join_strings sep (y # xs)"

definition indexer_Reduce :: "string \<Rightarrow> string list \<Rightarrow> string" where
  "indexer_Reduce key vals = itoa (length vals) @ '' '' @ join_strings '','' (sort vals)"

section \<open>Reducing\<close>

definition sort_ok :: "(KeyValue list \<Rightarrow> KeyValue list) \<Rightarrow> bool" where
  "sort_ok srt \<longleftrightarrow> (\<forall>xs. mset (srt xs) = mset xs \<and> sorted (map fst (srt xs)))"

text \<open>A reduce function that does not depend on the order of the values.\<close>

definition order_free :: "(string \<Rightarrow> string list \<Rightarrow> string) \<Rightarrow> bool" where
  "order_free f \<longleftrightarrow> (\<forall>k vs ws. mset vs = mset ws \<longrightarrow> f k vs = f k ws)"

definition vals_of :: "string \<Rightarrow> KeyValue list \<Rightarrow> string list" where
  "vals_of k kvs = map snd (filter (\<lambda>p. fst p = k) kvs)"

lemma sorted_split:
  assumes "sorted (k # map fst kvs)"
  shows "takeWhile (\<lambda>p. fst p = k) kvs = filter (\<lambda>p. fst p = k) kvs \<and>
    dropWhile (\<lambda>p. fst p = k) kvs = filter (\<lambda>p. fst p \<noteq> k) kvs"
  using assms
proof (induction kvs)
  case (Cons a kvs)
  show ?case
  proof (cases "fst a = k")
    case True
    then show ?thesis using Cons by simp
  next
    case False
    have "fst p \<noteq> k" if "p \<in> set kvs" for p
    proof
      assume "fst p = k"
      moreover have "k \<le> fst a" "fst a \<le> fst p" using Cons.prems that by auto
      ultimately show False using False by simp
    qed
    then show ?thesis using False by (simp add: filter_empty_conv)
  qed
qed simp

lemma reduce_runs_set:
  "sorted (map fst kvs) \<Longrightarrow>
   set (reduce_runs f kvs) = (\<lambda>k. (k, f k (vals_of k kvs))) ` fst ` set kvs \<and>
   distinct (map fst (reduce_runs f kvs))"
proof (induction f kvs rule: reduce_runs.induct)
  case (1 f)
  then show ?case by simp
next
  case (2 f k v kvs)
  let ?rest = "filter (\<lambda>p. fst p \<noteq> k) kvs"
  have split: "takeWhile (\<lambda>p. fst p = k) kvs = filter (\<lambda>p. fst p = k) kvs"
      "dropWhile (\<lambda>p. fst p = k) kvs = ?rest"
    using sorted_split [of k kvs] "2.prems" by simp_all
  have "sorted (map fst ?rest)"
    using "2.prems" sorted_filter [of fst kvs "\<lambda>p. fst p \<noteq> k"] by simp
  then have IH: "set (reduce_runs f ?rest) = (\<lambda>j. (j, f j (vals_of j ?rest))) ` fst ` set ?rest"
      "distinct (map fst (reduce_runs f ?rest))"
    using "2.IH" split(2) by simp_all
  have other: "vals_of j ?rest = vals_of j ((k, v) # kvs)" if "j \<noteq> k" for j
    using that by (auto simp: vals_of_def intro: arg_cong [where f = "map snd"] filter_cong)
  have "(\<lambda>j. (j, f j (vals_of j ?rest))) ` fst ` set ?rest =
      (\<lambda>j. (j, f j (vals_of j ((k, v) # kvs)))) ` fst ` set ?rest"
    using other by (intro image_cong) auto
  moreover have "fst ` set ((k, v) # kvs) = insert k (fst ` set ?rest)" by force
  moreover have "vals_of k ((k, v) # kvs) = v # map snd (filter (\<lambda>p. fst p = k) kvs)"
    by (simp add: vals_of_def)
  moreover have "k \<notin> fst ` set (reduce_runs f ?rest)"
    using IH(1) by (auto simp: image_image)
  ultimately show ?case
    using IH by (simp add: split)
qed

lemma vals_of_mset: "mset xs = mset ys \<Longrightarrow> mset (vals_of k xs) = mset (vals_of k ys)"
  by (simp add: vals_of_def)

lemma reduce_sorted:
  assumes "sort_ok srt" and "order_free f"
  shows "set (reduce_runs f (srt kvs)) = (\<lambda>k. (k, f k (vals_of k kvs))) ` fst ` set kvs"
    and "distinct (map fst (reduce_runs f (srt kvs)))"
proof -
  have m: "mset (srt kvs) = mset kvs" and s: "sorted (map fst (srt kvs))"
    using assms(1) by (auto simp: sort_ok_def)
  have eqs: "f k (vals_of k (srt kvs)) = f k (vals_of k kvs)" "set (srt kvs) = set kvs" for k
    using assms(2) vals_of_mset [OF m] mset_eq_setD [OF m] unfolding order_free_def by blast+
  show "set (reduce_runs f (srt kvs)) = (\<lambda>k. (k, f k (vals_of k kvs))) ` fst ` set kvs"
    by (simp only: conjunct1 [OF reduce_runs_set [OF s]] eqs)
  show "distinct (map fst (reduce_runs f (srt kvs)))"
    by (rule conjunct2 [OF reduce_runs_set [OF s]])
qed

section \<open>Partitioning\<close>

lemma put_partition_spec:
  "length parts = n \<Longrightarrow> 0 < n \<Longrightarrow>
   length (put_partition parts n kvs) = n \<and>
   (\<forall>r<n. put_partition parts n kvs ! r = parts ! r @ filter (\<lambda>p. ihash (fst p) mod n = r) kvs)"
proof (induction parts n kvs rule: put_partition.induct)
  case (1 parts n)
  then show ?case by simp
next
  case (2 parts n key v kvs)
  then show ?case by (auto simp: Let_def nth_list_update)
qed

lemma order_free_wc: "order_free wc_Reduce"
  by (auto simp: order_free_def wc_Reduce_def dest: mset_eq_length)

lemma order_free_indexer: "order_free indexer_Reduce"
proof -
  have "sort vs = sort ws" if "mset vs = mset ws" for vs ws :: "string list"
    by (rule properties_for_sort) (simp_all add: that)
  then have "indexer_Reduce k vs = indexer_Reduce k ws" if "mset vs = mset ws" for k vs ws
    unfolding indexer_Reduce_def using that mset_eq_length [OF that] by metis
  then show ?thesis unfolding order_free_def by blast
qed


end
