(* ===== verification/MapReduce_Master.thy ===== *)
theory MapReduce_Master
  imports MapReduce_Worker
begin

text \<open>
  The MapReduce master (\<open>mr/master.go\<close>, \<open>mr/common.go\<close>, \<open>mr/state.go\<close>) and whole jobs.

  Times are seconds; the time at which \<open>schedule\<close> runs is its argument. The recursive call of
  \<open>schedule\<close> after the switch to the reduce phase enters the reduce branch, so it is a call of
  \<open>schedule_reduce\<close>. \<open>mr_sys\<close> adds to the master the tasks it has handed out and the tasks
  that were reported, as history. A run \<open>mr_exec\<close> interleaves scheduling, requests and
  reports of tasks that were handed out; reports of map tasks that arrive after the switch to
  the reduce phase are excluded, since the master handles them wrongly (last section).
\<close>

section \<open>State\<close>

datatype status = IDLE | IN_QUEUE | IN_PROGRESS | COMPLETED | ERR

datatype reply_state = GOT | BARRIER | FIN

record TaskState =
  Status :: status
  ts_WorkerId :: int
  StartTime :: int

record Master =
  nTask :: nat
  nReduce :: nat
  allTask :: "TaskState list"
  m_files :: "string list"
  seq :: int
  freeTaskQueue :: "Task list"
  phase :: string

fun str_contains :: "string \<Rightarrow> string \<Rightarrow> bool" where
  "str_contains s [] = (s = [])"
| "str_contains s (c # cs) = (take (length s) (c # cs) = s \<or> str_contains s cs)"

section \<open>Operations\<close>

definition NewMaster :: "int \<Rightarrow> string list \<Rightarrow> nat \<Rightarrow> Master" where
  "NewMaster now files n =
     \<lparr>nTask = length files, nReduce = n,
      allTask = replicate (length files) \<lparr>Status = IDLE, ts_WorkerId = -1, StartTime = now\<rparr>,
      m_files = files, seq = 0, freeTaskQueue = [], phase = ''map''\<rparr>"

definition Done :: "Master \<Rightarrow> bool" where
  "Done m \<longleftrightarrow> phase m = ''fin''"

definition getTask :: "Master \<Rightarrow> nat \<Rightarrow> Task go" where
  "getTask m i =
     (if str_contains ''map'' (phase m)
      then go_bind (go_idx (m_files m) (int i)) (\<lambda>f.
             Inr \<lparr>task_Done = False, Phase = ''map'', FileName = f, Imap = int i, IReduce = -1,
                  NMap = nTask m, NReduce = nReduce m\<rparr>)
      else Inr \<lparr>task_Done = False, Phase = ''reduce'', FileName = '''', Imap = -1, IReduce = int i,
                NMap = nTask m, NReduce = nReduce m\<rparr>)"

definition ReqTask :: "Master \<Rightarrow> (Master \<times> reply_state \<times> Task option) go" where
  "ReqTask m =
     (if phase m = ''map_barrier'' \<or> phase m = ''reduce_barrier'' then Inr (m, BARRIER, None)
      else if phase m = ''fin'' then Inr (m, FIN, None)
      else if phase m = ''map'' \<or> phase m = ''reduce'' then
        (case freeTaskQueue m of
           [] \<Rightarrow> Inr (m, GOT, None)
         | task # rest \<Rightarrow>
             let i = (if phase m = ''map'' then Imap task else IReduce task)
             in go_bind (go_idx (allTask m) i) (\<lambda>t.
                go_bind (go_upd (allTask m) i (t\<lparr>Status := IN_PROGRESS\<rparr>)) (\<lambda>ts.
                  Inr (m\<lparr>freeTaskQueue := rest, allTask := ts\<rparr>, GOT, Some task))))
      else Inr (m, GOT, None))"

definition WorkerRegister :: "Master \<Rightarrow> Master \<times> int" where
  "WorkerRegister m = (m\<lparr>seq := seq m + 1\<rparr>, seq m)"

definition complete :: "int \<Rightarrow> Master \<Rightarrow> Master go" where
  "complete i m =
     go_bind (go_idx (allTask m) i) (\<lambda>t.
     go_bind (go_upd (allTask m) i (t\<lparr>Status := COMPLETED\<rparr>)) (\<lambda>ts. Inr (m\<lparr>allTask := ts\<rparr>)))"

definition ReportTask :: "Task \<Rightarrow> Master \<Rightarrow> Master go" where
  "ReportTask task m =
     go_bind (if str_contains ''map'' (Phase task) then complete (Imap task) m else Inr m) (\<lambda>m.
       if str_contains ''reduce'' (Phase task) then complete (IReduce task) m else Inr m)"

text \<open>Appending task \<open>i\<close> to the queue and marking it, the step shared by the loops of \<open>schedule\<close>.\<close>

definition enqueue :: "nat \<Rightarrow> Master \<Rightarrow> Master go" where
  "enqueue i m =
     go_bind (getTask m i) (\<lambda>t.
       Inr (m\<lparr>freeTaskQueue := freeTaskQueue m @ [t],
              allTask := (allTask m)[i := (allTask m ! i)\<lparr>Status := IN_QUEUE\<rparr>]\<rparr>))"

definition expired :: "int \<Rightarrow> TaskState \<Rightarrow> bool" where
  "expired now t \<longleftrightarrow> now - StartTime t > 10"

fun map_loop :: "nat list \<Rightarrow> bool \<Rightarrow> Master \<Rightarrow> (bool \<times> Master) go" where
  "map_loop [] barrier m = Inr (barrier, m)"
| "map_loop (i # is) barrier m =
     (case Status (allTask m ! i) of
        IDLE \<Rightarrow> go_bind (enqueue i m) (map_loop is False)
      | IN_QUEUE \<Rightarrow> map_loop is False m
      | _ \<Rightarrow> map_loop is barrier m)"

fun barrier_loop :: "string \<Rightarrow> int \<Rightarrow> nat list \<Rightarrow> bool \<Rightarrow> Master \<Rightarrow> (bool \<times> Master) go" where
  "barrier_loop back now [] allComplete m = Inr (allComplete, m)"
| "barrier_loop back now (i # is) allComplete m =
     (let t = allTask m ! i
      in go_bind
           (if Status t = IN_PROGRESS \<and> expired now t
            then go_bind (enqueue i m) (\<lambda>m. Inr (m\<lparr>phase := back\<rparr>)) else Inr m)
           (barrier_loop back now is (if Status t \<noteq> COMPLETED then False else allComplete)))"

fun reduce_loop :: "int \<Rightarrow> nat list \<Rightarrow> bool \<Rightarrow> Master \<Rightarrow> (bool \<times> Master) go" where
  "reduce_loop now [] barrier m = Inr (barrier, m)"
| "reduce_loop now (i # is) barrier m =
     (let t = allTask m ! i
      in case Status t of
           IDLE \<Rightarrow> go_bind (enqueue i m) (reduce_loop now is False)
         | IN_QUEUE \<Rightarrow> reduce_loop now is False m
         | IN_PROGRESS \<Rightarrow>
             if expired now t then go_bind (enqueue i m) (reduce_loop now is barrier)
             else reduce_loop now is barrier m
         | _ \<Rightarrow> reduce_loop now is barrier m)"

definition schedule_reduce :: "int \<Rightarrow> Master \<Rightarrow> Master go" where
  "schedule_reduce now m =
     go_bind (reduce_loop now [0..<length (allTask m)] True m) (\<lambda>(barrier, m).
       Inr (if barrier then m\<lparr>phase := ''reduce_barrier''\<rparr> else m))"

definition schedule :: "int \<Rightarrow> Master \<Rightarrow> Master go" where
  "schedule now m =
     (if phase m = ''map'' then
        go_bind (map_loop [0..<length (allTask m)] True m) (\<lambda>(barrier, m).
          Inr (if barrier then m\<lparr>phase := ''map_barrier''\<rparr> else m))
      else if phase m = ''map_barrier'' then
        go_bind (barrier_loop ''map'' now [0..<length (allTask m)] True m) (\<lambda>(allComplete, m).
          if allComplete
          then schedule_reduce now
                 (m\<lparr>phase := ''reduce'', freeTaskQueue := [],
                    allTask := replicate (nReduce m) \<lparr>Status = IDLE, ts_WorkerId = -1, StartTime = now\<rparr>\<rparr>)
          else Inr m)
      else if phase m = ''reduce'' then schedule_reduce now m
      else if phase m = ''reduce_barrier'' then
        go_bind (barrier_loop ''reduce'' now [0..<length (allTask m)] True m) (\<lambda>(allComplete, m).
          Inr (if allComplete then m\<lparr>phase := ''fin''\<rparr> else m))
      else Inr m)"

text \<open>What the loop of a worker does with a reply: stop, wait, or do the task and report it.\<close>

datatype work = Stop | Wait | DoMap Task | DoReduce Task

definition worker_run :: "reply_state \<Rightarrow> Task option \<Rightarrow> work go" where
  "worker_run state task =
     (if state = FIN then Inr Stop
      else if state = BARRIER then Inr Wait
      else case task of
             None \<Rightarrow> Inl NilDereference
           | Some t \<Rightarrow>
               if state = GOT \<and> Phase t = ''map'' then Inr (DoMap t)
               else if state = GOT \<and> Phase t = ''reduce'' then Inr (DoReduce t)
               else Inr Wait)"

section \<open>Whole jobs\<close>

text \<open>Map tasks run in the given order, with repetitions when tasks are handed out twice.\<close>

fun run_maps ::
  "(string \<Rightarrow> string \<Rightarrow> KeyValue list) \<Rightarrow> (string \<rightharpoonup> string) \<Rightarrow> Master \<Rightarrow> nat list \<Rightarrow>
   (int \<times> int \<rightharpoonup> KeyValue list) \<Rightarrow> (int \<times> int \<rightharpoonup> KeyValue list) go" where
  "run_maps mapf inputs m [] fs = Inr fs"
| "run_maps mapf inputs m (i # is) fs =
     go_bind (getTask m i) (\<lambda>t.
     go_bind (doMapTask mapf inputs t fs) (run_maps mapf inputs m is))"

fun run_reduces ::
  "(KeyValue list \<Rightarrow> KeyValue list) \<Rightarrow> (string \<Rightarrow> string list \<Rightarrow> string) \<Rightarrow> Master \<Rightarrow> nat list \<Rightarrow>
   (int \<times> int \<rightharpoonup> KeyValue list) \<Rightarrow> KeyValue list list go" where
  "run_reduces srt reducef m [] fs = Inr []"
| "run_reduces srt reducef m (r # rs) fs =
     go_bind (getTask m r) (\<lambda>t.
     go_bind (doReduceTask srt reducef t fs) (\<lambda>out.
     go_bind (run_reduces srt reducef m rs fs) (\<lambda>outs. Inr (out # outs))))"

lemma contains_map [simp]:
  "str_contains ''map'' ''map''" "str_contains ''map'' ''map_barrier''"
  "\<not> str_contains ''map'' ''reduce''" "\<not> str_contains ''map'' ''reduce_barrier''"
  "str_contains ''reduce'' ''reduce''" "\<not> str_contains ''reduce'' ''map''"
  by simp_all

definition inter_of ::
  "(string \<Rightarrow> string \<Rightarrow> KeyValue list) \<Rightarrow> (string \<rightharpoonup> string) \<Rightarrow> string list \<Rightarrow> nat \<Rightarrow> KeyValue list" where
  "inter_of mapf inputs files i = mapf (files ! i) (the (inputs (files ! i)))"

lemma fold_put:
  "fold (\<lambda>i fs. fs((x, int i) \<mapsto> g i)) rs fs (y, int r) =
     (if y = x \<and> r \<in> set rs then Some (g r) else fs (y, int r))"
  by (induction rs arbitrary: fs) auto

lemma doMapTask_files:
  assumes "getTask m i = Inr t" and "str_contains ''map'' (phase m)" and "i < length (m_files m)"
    and "inputs (m_files m ! i) \<noteq> None" and "0 < nReduce m"
  shows "\<exists>fs'. doMapTask mapf inputs t fs = Inr fs' \<and>
    (\<forall>y r. r < nReduce m \<longrightarrow> fs' (y, int r) =
       (if y = int i then Some (filter (\<lambda>p. ihash (fst p) mod nReduce m = r) (inter_of mapf inputs (m_files m) i))
        else fs (y, int r)))"
proof -
  obtain content where c: "inputs (m_files m ! i) = Some content" using assms(4) by auto
  have t: "t = \<lparr>task_Done = False, Phase = ''map'', FileName = m_files m ! i, Imap = int i, IReduce = -1,
      NMap = nTask m, NReduce = nReduce m\<rparr>"
    using assms(1-3) by (simp add: getTask_def go_idx_Inr)
  have "put_partition (replicate (nReduce m) []) (nReduce m) (mapf (m_files m ! i) content) ! r =
      filter (\<lambda>p. ihash (fst p) mod nReduce m = r) (mapf (m_files m ! i) content)" if "r < nReduce m" for r
    using put_partition_spec [of "replicate (nReduce m) []" "nReduce m"] assms(5) that by simp
  then show ?thesis
    using assms(5) c by (auto simp: doMapTask_def t Let_def fold_put inter_of_def)
qed

lemma run_maps_files:
  assumes "str_contains ''map'' (phase m)" and "\<forall>f\<in>set (m_files m). inputs f \<noteq> None" and "0 < nReduce m"
    and "set is \<subseteq> {..<length (m_files m)}"
  shows "\<exists>fs'. run_maps mapf inputs m is fs = Inr fs' \<and>
    (\<forall>i r. r < nReduce m \<longrightarrow> fs' (int i, int r) =
       (if i \<in> set is then Some (filter (\<lambda>p. ihash (fst p) mod nReduce m = r) (inter_of mapf inputs (m_files m) i))
        else fs (int i, int r)))"
  using assms(4)
proof (induction "is" arbitrary: fs)
  case Nil
  then show ?case by simp
next
  case (Cons i "is")
  have i: "i < length (m_files m)" "inputs (m_files m ! i) \<noteq> None"
    using Cons.prems assms(2) by auto
  then obtain t where t: "getTask m i = Inr t"
    using assms(1) by (simp add: getTask_def go_idx_Inr)
  obtain fs1 where one: "doMapTask mapf inputs t fs = Inr fs1"
      "\<forall>y r. r < nReduce m \<longrightarrow> fs1 (y, int r) =
       (if y = int i then Some (filter (\<lambda>p. ihash (fst p) mod nReduce m = r) (inter_of mapf inputs (m_files m) i))
        else fs (y, int r))"
    using doMapTask_files [where inputs = inputs, OF t assms(1) i assms(3)] by blast
  obtain fs' where run: "run_maps mapf inputs m is fs1 = Inr fs'"
      and all: "\<forall>j r. r < nReduce m \<longrightarrow> fs' (int j, int r) =
       (if j \<in> set is then Some (filter (\<lambda>p. ihash (fst p) mod nReduce m = r) (inter_of mapf inputs (m_files m) j))
        else fs1 (int j, int r))"
    using Cons.IH [of fs1] Cons.prems by auto
  have "run_maps mapf inputs m (i # is) fs = Inr fs'"
    using t one(1) run by simp
  then show ?case
    using one(2) all by auto
qed

lemma read_inter_ok:
  "(\<And>i. i \<in> set is \<Longrightarrow> fs (int i, r) = Some (g i)) \<Longrightarrow> read_inter fs r is = Inr (concat (map g is))"
  by (induction "is") auto

lemma seq_inter_concat:
  "\<forall>f\<in>set files. inputs f \<noteq> None \<Longrightarrow>
   seq_inter mapf inputs files = Inr (concat (map (\<lambda>f. mapf f (the (inputs f))) files))"
  by (induction files) auto

lemma seq_inter_ok:
  assumes "\<forall>f\<in>set files. inputs f \<noteq> None"
  shows "seq_inter mapf inputs files = Inr (concat (map (inter_of mapf inputs files) [0..<length files]))"
proof -
  have "map (\<lambda>f. mapf f (the (inputs f))) files = map (inter_of mapf inputs files) [0..<length files]"
    by (rule nth_equalityI) (simp_all add: inter_of_def)
  then show ?thesis
    using seq_inter_concat [OF assms] by metis
qed

text \<open>The output of a job, as a set of lines without repetitions.\<close>

lemma distinct_keys_mset_eq:
  assumes "distinct (map fst xs)" and "distinct (map fst ys)" and "set xs = set ys"
  shows "mset xs = mset ys"
  using assms by (simp add: distinct_map set_eq_iff_mset_eq_distinct [symmetric])

lemma outputs_partition:
  fixes n :: nat
  assumes out: "\<And>r. r < n \<Longrightarrow> set (outs r) = (\<lambda>k. (k, F k)) ` {k \<in> K. h k = r}"
      "\<And>r. r < n \<Longrightarrow> distinct (map fst (outs r))" and "\<And>k. h k < n"
  shows "set (concat (map outs [0..<n])) = (\<lambda>k. (k, F k)) ` K"
    and "distinct (map fst (concat (map outs [0..<n])))"
proof -
  have "set (concat (map outs [0..<n])) = (\<Union>r<n. set (outs r))"
    by (simp add: atLeast0LessThan)
  also have "\<dots> = (\<Union>r<n. (\<lambda>k. (k, F k)) ` {k \<in> K. h k = r})"
    using out(1) by simp
  also have "\<dots> = (\<lambda>k. (k, F k)) ` (\<Union>r<n. {k \<in> K. h k = r})"
    by blast
  also have "(\<Union>r<n. {k \<in> K. h k = r}) = K"
    using assms(3) by blast
  finally show "set (concat (map outs [0..<n])) = (\<lambda>k. (k, F k)) ` K" .
  have "distinct (map fst (concat (map outs [0..<j])))" if "j \<le> n" for j
    using that
  proof (induction j)
    case (Suc j)
    have keys: "h k = r" if "r < n" "k \<in> fst ` set (outs r)" for k r
      using out(1) [OF that(1)] that(2) by auto
    have "k \<notin> fst ` set (outs j)" if "r < j" "k \<in> fst ` set (outs r)" for k r
      using keys [of r k] keys [of j k] that Suc.prems by auto
    then have "(\<Union>r<j. fst ` set (outs r)) \<inter> fst ` set (outs j) = {}"
      by blast
    then have "fst ` set (concat (map outs [0..<j])) \<inter> fst ` set (outs j) = {}"
      by (simp add: image_UN atLeast0LessThan)
    then show ?case
      using Suc out(2) [of j] by simp
  qed simp
  then show "distinct (map fst (concat (map outs [0..<n])))" by blast
qed

lemma vals_of_filter:
  "h k = r \<Longrightarrow> vals_of k (filter (\<lambda>p. h (fst p) = r) kvs) = vals_of k kvs"
  by (auto simp: vals_of_def intro!: arg_cong [where f = "map snd"] filter_cong)

definition bucket_of :: "nat \<Rightarrow> nat \<Rightarrow> KeyValue list \<Rightarrow> KeyValue list" where
  "bucket_of n r kvs = filter (\<lambda>p. ihash (fst p) mod n = r) kvs"

lemma run_reduces_ok:
  assumes "\<And>r. r \<in> set rs \<Longrightarrow> read_inter fs (int r) [0..<nTask m] = Inr (g r)" and "phase m = ''reduce''"
  shows "run_reduces srt reducef m rs fs = Inr (map (\<lambda>r. reduce_runs reducef (srt (g r))) rs)"
  using assms(1) by (induction rs) (simp_all add: getTask_def assms(2) doReduceTask_def)

lemma bucket_output:
  assumes "sort_ok srt" and "order_free f"
  shows "set (reduce_runs f (srt (bucket_of n r kvs))) =
      (\<lambda>k. (k, f k (vals_of k kvs))) ` {k \<in> fst ` set kvs. ihash k mod n = r}"
proof -
  have "set (reduce_runs f (srt (bucket_of n r kvs))) =
      (\<lambda>k. (k, f k (vals_of k (bucket_of n r kvs)))) ` fst ` set (bucket_of n r kvs)"
    by (rule reduce_sorted(1) [OF assms])
  also have "fst ` set (bucket_of n r kvs) = {k \<in> fst ` set kvs. ihash k mod n = r}"
    by (auto simp: bucket_of_def)
  also have "(\<lambda>k. (k, f k (vals_of k (bucket_of n r kvs)))) ` {k \<in> fst ` set kvs. ihash k mod n = r} =
      (\<lambda>k. (k, f k (vals_of k kvs))) ` {k \<in> fst ` set kvs. ihash k mod n = r}"
    by (rule image_cong) (auto simp: bucket_of_def vals_of_filter [where h = "\<lambda>k. ihash k mod n"])
  finally show ?thesis .
qed

lemma bucket_concat: "concat (map (\<lambda>i. bucket_of n r (g i)) is) = bucket_of n r (concat (map g is))"
  by (induction "is") (simp_all add: bucket_of_def)

lemma outputs_mset:
  assumes "sort_ok srt" and "sort_ok srt'" and "order_free f" and "0 < n"
  shows "mset (concat (map (\<lambda>r. reduce_runs f (srt (bucket_of n r kvs))) [0..<n])) = mset (reduce_runs f (srt' kvs))"
proof (rule distinct_keys_mset_eq)
  note outs = outputs_partition [where h = "\<lambda>k. ihash k mod n" and outs = "\<lambda>r. reduce_runs f (srt (bucket_of n r kvs))",
      OF bucket_output [OF assms(1,3)] reduce_sorted(2) [OF assms(1,3)] mod_less_divisor [OF assms(4)]]
  show "distinct (map fst (concat (map (\<lambda>r. reduce_runs f (srt (bucket_of n r kvs))) [0..<n])))"
      "distinct (map fst (reduce_runs f (srt' kvs)))"
      "set (concat (map (\<lambda>r. reduce_runs f (srt (bucket_of n r kvs))) [0..<n])) = set (reduce_runs f (srt' kvs))"
    using outs reduce_sorted [OF assms(2,3)] by auto
qed

definition reduce_phase :: "Master \<Rightarrow> Master" where
  "reduce_phase m = m\<lparr>phase := ''reduce''\<rparr>"


lemma sort_ok_sort_key: "sort_ok (sort_key fst)"
  by (simp add: sort_ok_def)


section \<open>Word counting\<close>

lemma FieldsFunc_words:
  "concat (FieldsFunc sep s) = filter (\<lambda>c. \<not> sep c) s \<and>
   (\<forall>w\<in>set (FieldsFunc sep s). w \<noteq> [] \<and> (\<forall>c\<in>set w. \<not> sep c))"
proof (induction sep s rule: FieldsFunc.induct)
  case (1 sep s)
  have split: "filter (\<lambda>c. \<not> sep c) s = filter (\<lambda>c. \<not> sep c) (dropWhile sep s)" for s
    by (induction s) auto
  show ?case
  proof (cases "dropWhile sep s")
    case Nil
    have "FieldsFunc sep s = []" by (subst FieldsFunc.simps) (simp only: Nil list.case)
    then show ?thesis using split [of s] Nil by simp
  next
    case (Cons c cs)
    have c: "\<not> sep c" using Cons by (metis dropWhile_eq_Cons_conv)
    have tail: "filter (\<lambda>x. \<not> sep x) t =
        takeWhile (\<lambda>x. \<not> sep x) t @ filter (\<lambda>x. \<not> sep x) (dropWhile (\<lambda>x. \<not> sep x) t)" for t
      by (induction t) auto
    let ?w = "takeWhile (\<lambda>x. \<not> sep x) (c # cs)" and ?t = "dropWhile (\<lambda>x. \<not> sep x) (c # cs)"
    have eq: "FieldsFunc sep s = ?w # FieldsFunc sep ?t"
      by (subst FieldsFunc.simps) (simp only: Cons list.case)
    have "concat (FieldsFunc sep s) = filter (\<lambda>x. \<not> sep x) (c # cs)"
      by (simp only: eq concat.simps tail [of "c # cs"] conjunct1 [OF 1 [OF Cons]])
    moreover have "?w \<noteq> []" and "\<And>x. x \<in> set ?w \<Longrightarrow> \<not> sep x"
      using c by (auto dest: set_takeWhileD)
    moreover have "filter (\<lambda>x. \<not> sep x) s = filter (\<lambda>x. \<not> sep x) (c # cs)"
      using split [of s] by (simp only: Cons)
    moreover note conjunct2 [OF 1 [OF Cons]]
    ultimately show ?thesis
      unfolding eq list.set by (metis insert_iff)
  qed
qed

definition all_words :: "(string \<rightharpoonup> string) \<Rightarrow> string list \<Rightarrow> string list" where
  "all_words inputs files =
     concat (map (\<lambda>f. FieldsFunc (\<lambda>c. \<not> isLetter c) (the (inputs f))) files)"

lemma vals_of_words: "length (vals_of w (map (\<lambda>w. (w, ''1'')) ws)) = count_list ws w"
  by (induction ws) (auto simp: vals_of_def)

lemma wc_inter: "concat (map (\<lambda>f. wc_Map f (the (inputs f))) files) = map (\<lambda>w. (w, ''1'')) (all_words inputs files)"
  by (induction files) (simp_all add: wc_Map_def all_words_def)

text \<open>
  C31. The word count application counts words: its output has one line for every word that
  occurs in the input files, with the decimal number of its occurrences in all of them.
\<close>

theorem wc_counts_words:
  assumes "sort_ok srt" and "\<forall>f\<in>set files. inputs f \<noteq> None"
  shows "\<exists>out. mrsequential srt wc_Map wc_Reduce inputs files = Inr out \<and> distinct (map fst out) \<and>
    set out = {(w, itoa (count_list (all_words inputs files) w)) | w. w \<in> set (all_words inputs files)}"
proof -
  let ?ws = "all_words inputs files"
  have "mrsequential srt wc_Map wc_Reduce inputs files = Inr (reduce_runs wc_Reduce (srt (map (\<lambda>w. (w, ''1'')) ?ws)))"
    using assms(2) by (simp add: mrsequential_def seq_inter_concat wc_inter)
  moreover note reduce_sorted [OF assms(1) order_free_wc, of "map (\<lambda>w. (w, ''1'')) ?ws"]
  ultimately show ?thesis
    by (auto simp: wc_Reduce_def vals_of_words image_image)
qed

theorem wc_counts_words_witness:
  "\<exists>out. mrsequential (sort_key fst) wc_Map wc_Reduce [''a'' \<mapsto> ''to be, or not to be''] [''a''] = Inr out \<and>
    distinct (map fst out) \<and>
    set out = {(w, itoa (count_list [''to'', ''be'', ''or'', ''not'', ''to'', ''be''] w)) | w.
      w \<in> set [''to'', ''be'', ''or'', ''not'', ''to'', ''be'']}"
proof -
  have "all_words [''a'' \<mapsto> ''to be, or not to be''] [''a''] = [''to'', ''be'', ''or'', ''not'', ''to'', ''be'']"
    by code_simp
  then show ?thesis
    using wc_counts_words [OF sort_ok_sort_key, of "[''a'']" "[''a'' \<mapsto> ''to be, or not to be'']"] by simp
qed

section \<open>Runs of the master\<close>

record mr_sys =
  mst :: Master
  handed :: "Task set"
  reported :: "Task set"

datatype mr_event = Schedule int | Request | Report Task | Register

definition map_task :: "string list \<Rightarrow> nat \<Rightarrow> nat \<Rightarrow> Task" where
  "map_task files n i =
     \<lparr>task_Done = False, Phase = ''map'', FileName = files ! i, Imap = int i, IReduce = -1,
      NMap = length files, NReduce = n\<rparr>"

definition reduce_task :: "string list \<Rightarrow> nat \<Rightarrow> nat \<Rightarrow> Task" where
  "reduce_task files n i =
     \<lparr>task_Done = False, Phase = ''reduce'', FileName = '''', Imap = -1, IReduce = int i,
      NMap = length files, NReduce = n\<rparr>"

definition mapping_phase :: "Master \<Rightarrow> bool" where
  "mapping_phase m \<longleftrightarrow> phase m = ''map'' \<or> phase m = ''map_barrier''"

fun mr_enabled :: "mr_sys \<Rightarrow> mr_event \<Rightarrow> bool" where
  "mr_enabled s (Report t) \<longleftrightarrow> t \<in> handed s \<and> (Phase t = ''map'' \<longrightarrow> mapping_phase (mst s))"
| "mr_enabled s _ \<longleftrightarrow> True"

fun mr_step :: "mr_sys \<Rightarrow> mr_event \<Rightarrow> mr_sys go" where
  "mr_step s (Schedule now) = go_bind (schedule now (mst s)) (\<lambda>m. Inr (s\<lparr>mst := m\<rparr>))"
| "mr_step s Request =
     go_bind (ReqTask (mst s)) (\<lambda>(m, state, task).
       Inr (s\<lparr>mst := m, handed := (case task of None \<Rightarrow> handed s | Some t \<Rightarrow> insert t (handed s))\<rparr>))"
| "mr_step s (Report t) =
     go_bind (ReportTask t (mst s)) (\<lambda>m. Inr (s\<lparr>mst := m, reported := insert t (reported s)\<rparr>))"
| "mr_step s Register = Inr (s\<lparr>mst := fst (WorkerRegister (mst s))\<rparr>)"

definition mr_exec :: "mr_sys \<Rightarrow> mr_event \<Rightarrow> mr_sys option" where
  "mr_exec s e =
     (if mr_enabled s e then case mr_step s e of Inl _ \<Rightarrow> None | Inr t \<Rightarrow> Some t else None)"

definition mr_init :: "int \<Rightarrow> string list \<Rightarrow> nat \<Rightarrow> mr_sys" where
  "mr_init now files n = \<lparr>mst = NewMaster now files n, handed = {}, reported = {}\<rparr>"

text \<open>The tasks of the phase: their number, and the task with number \<open>i\<close>.\<close>

definition cur_len :: "string list \<Rightarrow> nat \<Rightarrow> Master \<Rightarrow> nat" where
  "cur_len files n m = (if mapping_phase m then length files else n)"

definition cur_task :: "string list \<Rightarrow> nat \<Rightarrow> Master \<Rightarrow> nat \<Rightarrow> Task" where
  "cur_task files n m i = (if mapping_phase m then map_task files n i else reduce_task files n i)"

definition phases :: "string list" where
  "phases = [''map'', ''map_barrier'', ''reduce'', ''reduce_barrier'', ''fin'']"

definition master_inv :: "string list \<Rightarrow> nat \<Rightarrow> Task set \<Rightarrow> Master \<Rightarrow> bool" where
  "master_inv files n done_tasks m \<longleftrightarrow>
     nTask m = length files \<and> nReduce m = n \<and> m_files m = files \<and> phase m \<in> set phases \<and>
     length (allTask m) = cur_len files n m \<and>
     set (freeTaskQueue m) \<subseteq> cur_task files n m ` {..<cur_len files n m} \<and>
     (\<forall>i<length (allTask m). Status (allTask m ! i) = COMPLETED \<longrightarrow> cur_task files n m i \<in> done_tasks)"

definition mr_inv :: "string list \<Rightarrow> nat \<Rightarrow> mr_sys \<Rightarrow> bool" where
  "mr_inv files n s \<longleftrightarrow>
     master_inv files n (reported s) (mst s) \<and>
     handed s \<subseteq> map_task files n ` {..<length files} \<union>
       (if mapping_phase (mst s) then {} else reduce_task files n ` {..<n}) \<and>
     (\<not> mapping_phase (mst s) \<longrightarrow> map_task files n ` {..<length files} \<subseteq> reported s) \<and>
     (Done (mst s) \<longrightarrow> reduce_task files n ` {..<n} \<subseteq> reported s)"

lemma getTask_cur:
  assumes "master_inv files n D m" and "i < length (allTask m)"
  shows "getTask m i = Inr (cur_task files n m i)"
  using assms
  by (auto simp: master_inv_def getTask_def cur_task_def cur_len_def mapping_phase_def map_task_def
      reduce_task_def phases_def go_simps split: if_splits)

lemma enqueue_inv:
  assumes "master_inv files n D m" and "i < length (allTask m)"
  shows "\<exists>m'. enqueue i m = Inr m' \<and> master_inv files n D m' \<and> phase m' = phase m \<and>
    length (allTask m') = length (allTask m)"
proof -
  let ?m = "m\<lparr>freeTaskQueue := freeTaskQueue m @ [cur_task files n m i],
    allTask := (allTask m)[i := (allTask m ! i)\<lparr>Status := IN_QUEUE\<rparr>]\<rparr>"
  have same: "cur_task files n ?m = cur_task files n m" "cur_len files n ?m = cur_len files n m"
    by (simp_all add: fun_eq_iff cur_task_def cur_len_def mapping_phase_def)
  have "enqueue i m = Inr ?m"
    by (simp add: enqueue_def getTask_cur [OF assms])
  moreover have "master_inv files n D ?m"
    using assms unfolding master_inv_def same by (auto simp: nth_list_update)
  ultimately show ?thesis by simp
qed

lemma master_inv_phase:
  assumes "master_inv files n D m" and "p \<in> set phases" and "mapping_phase (m\<lparr>phase := p\<rparr>) = mapping_phase m"
  shows "master_inv files n D (m\<lparr>phase := p\<rparr>)"
proof -
  have "cur_task files n (m\<lparr>phase := p\<rparr>) = cur_task files n m" "cur_len files n (m\<lparr>phase := p\<rparr>) = cur_len files n m"
    using assms(3) by (simp_all add: fun_eq_iff cur_task_def cur_len_def)
  then show ?thesis using assms(1,2) unfolding master_inv_def by simp
qed

lemma map_loop_inv:
  "master_inv files n D m \<Longrightarrow> set is \<subseteq> {..<length (allTask m)} \<Longrightarrow>
   \<exists>b m'. map_loop is b0 m = Inr (b, m') \<and> master_inv files n D m' \<and> phase m' = phase m"
proof (induction "is" arbitrary: b0 m)
  case Nil
  then show ?case by simp
next
  case (Cons i "is")
  obtain m1 where m1: "enqueue i m = Inr m1" "master_inv files n D m1" "phase m1 = phase m"
      "length (allTask m1) = length (allTask m)"
    using enqueue_inv [OF Cons.prems(1), of i] Cons.prems(2) by auto
  show ?case
    using Cons.IH [of m1 False] Cons.IH [of m False] Cons.IH [of m b0] Cons.prems m1
    by (cases "Status (allTask m ! i)") simp_all
qed

lemma reduce_loop_inv:
  "master_inv files n D m \<Longrightarrow> set is \<subseteq> {..<length (allTask m)} \<Longrightarrow>
   \<exists>b m'. reduce_loop now is b0 m = Inr (b, m') \<and> master_inv files n D m' \<and> phase m' = phase m"
proof (induction "is" arbitrary: b0 m)
  case Nil
  then show ?case by simp
next
  case (Cons i "is")
  obtain m1 where m1: "enqueue i m = Inr m1" "master_inv files n D m1" "phase m1 = phase m"
      "length (allTask m1) = length (allTask m)"
    using enqueue_inv [OF Cons.prems(1), of i] Cons.prems(2) by auto
  show ?case
    using Cons.IH [of m1 False] Cons.IH [of m1 b0] Cons.IH [of m False] Cons.IH [of m b0] Cons.prems m1
    by (cases "Status (allTask m ! i)") (simp_all add: Let_def)
qed

lemma barrier_loop_inv:
  "master_inv files n D m \<Longrightarrow> set is \<subseteq> {..<length (allTask m)} \<Longrightarrow> back \<in> set phases \<Longrightarrow>
   (back = ''map'') = mapping_phase m \<Longrightarrow> back \<noteq> ''map_barrier'' \<Longrightarrow> phase m \<noteq> ''fin'' \<Longrightarrow> back \<noteq> ''fin'' \<Longrightarrow>
   \<exists>b m'. barrier_loop back now is b0 m = Inr (b, m') \<and> master_inv files n D m' \<and>
     mapping_phase m' = mapping_phase m \<and> phase m' \<noteq> ''fin''"
proof (induction "is" arbitrary: b0 m)
  case Nil
  then show ?case by simp
next
  case (Cons i "is")
  obtain m1 where m1: "enqueue i m = Inr m1" "master_inv files n D m1" "phase m1 = phase m"
      "length (allTask m1) = length (allTask m)"
    using enqueue_inv [OF Cons.prems(1), of i] Cons.prems(2) by auto
  have map1: "mapping_phase (m1\<lparr>phase := back\<rparr>) = mapping_phase m"
    using Cons.prems(4,5) by (auto simp: mapping_phase_def)
  have m2: "master_inv files n D (m1\<lparr>phase := back\<rparr>)"
    using master_inv_phase [OF m1(2) Cons.prems(3)] map1 m1(3) by (simp add: mapping_phase_def)
  show ?case
    using Cons.IH [of "m1\<lparr>phase := back\<rparr>" False] Cons.IH [of m False] Cons.IH [of m b0] Cons.prems m1 m2 map1
    by (auto simp: Let_def)
qed

lemma barrier_loop_False: "barrier_loop back now is False m = Inr (b, m') \<Longrightarrow> \<not> b"
  by (induction "is" arbitrary: m) (auto simp: Let_def go_bind_Inr_iff split: if_splits)

lemma barrier_loop_True:
  "barrier_loop back now is b0 m = Inr (True, m') \<Longrightarrow>
   m' = m \<and> (\<forall>i\<in>set is. Status (allTask m ! i) = COMPLETED)"
  by (induction "is" arbitrary: b0 m)
    (auto simp: Let_def go_bind_Inr_iff dest: barrier_loop_False split: if_splits)

lemma upt_below: "set [0..<k] \<subseteq> {..<k}"
  by auto

lemma schedule_reduce_inv:
  assumes "master_inv files n D m" and "phase m = ''reduce''"
  shows "\<exists>m'. schedule_reduce now m = Inr m' \<and> master_inv files n D m' \<and> \<not> mapping_phase m' \<and> phase m' \<noteq> ''fin''"
proof -
  obtain b m1 where m1: "reduce_loop now [0..<length (allTask m)] True m = Inr (b, m1)"
      "master_inv files n D m1" "phase m1 = ''reduce''"
    using reduce_loop_inv [OF assms(1) upt_below] assms(2) by metis
  have "master_inv files n D (m1\<lparr>phase := ''reduce_barrier''\<rparr>)"
    by (rule master_inv_phase [OF m1(2)]) (simp_all add: phases_def mapping_phase_def m1(3))
  then show ?thesis
    using m1 by (simp add: schedule_reduce_def mapping_phase_def)
qed

lemma all_completed:
  assumes "master_inv files n D m" and "\<forall>i\<in>set [0..<length (allTask m)]. Status (allTask m ! i) = COMPLETED"
  shows "cur_task files n m ` {..<cur_len files n m} \<subseteq> D"
  using assms by (auto simp: master_inv_def)

lemma schedule_map_barrier:
  assumes "master_inv files n D m" and "phase m = ''map_barrier''"
  shows "\<exists>m'. schedule now m = Inr m' \<and> master_inv files n D m' \<and>
    (mapping_phase m' \<longrightarrow> mapping_phase m) \<and>
    (mapping_phase m \<and> \<not> mapping_phase m' \<longrightarrow> map_task files n ` {..<length files} \<subseteq> D) \<and>
    (Done m' \<and> \<not> Done m \<longrightarrow> reduce_task files n ` {..<n} \<subseteq> D)"
proof -
  have mp: "mapping_phase m" using assms(2) by (simp add: mapping_phase_def)
  obtain b m1 where m1: "barrier_loop ''map'' now [0..<length (allTask m)] True m = Inr (b, m1)"
      "master_inv files n D m1" "mapping_phase m1" "phase m1 \<noteq> ''fin''"
    using barrier_loop_inv [OF assms(1) upt_below, of "''map''" now True] assms(2) mp
    by (auto simp: phases_def)
  show ?thesis
  proof (cases b)
    case True
    let ?m2 = "m1\<lparr>phase := ''reduce'', freeTaskQueue := [],
      allTask := replicate (nReduce m1) \<lparr>Status = IDLE, ts_WorkerId = -1, StartTime = now\<rparr>\<rparr>"
    have "m1 = m" and "\<forall>i\<in>set [0..<length (allTask m)]. Status (allTask m ! i) = COMPLETED"
      using barrier_loop_True [of "''map''" now _ True m m1] m1(1) True by simp_all
    then have all: "map_task files n ` {..<length files} \<subseteq> D"
      using all_completed [OF assms(1)] mp by (simp add: cur_task_def cur_len_def)
    have "master_inv files n D ?m2"
      using m1(2) by (simp add: master_inv_def phases_def cur_len_def mapping_phase_def)
    then obtain m3 where "schedule_reduce now ?m2 = Inr m3" "master_inv files n D m3"
        "\<not> mapping_phase m3" "phase m3 \<noteq> ''fin''"
      using schedule_reduce_inv [of files n D ?m2 now] by auto
    then show ?thesis
      using m1(1) True assms(2) all by (simp add: schedule_def Done_def)
  next
    case False
    then show ?thesis
      using m1 assms(2) mp by (simp add: schedule_def Done_def)
  qed
qed

lemma schedule_reduce_barrier:
  assumes "master_inv files n D m" and "phase m = ''reduce_barrier''"
  shows "\<exists>m'. schedule now m = Inr m' \<and> master_inv files n D m' \<and>
    (mapping_phase m' \<longrightarrow> mapping_phase m) \<and>
    (mapping_phase m \<and> \<not> mapping_phase m' \<longrightarrow> map_task files n ` {..<length files} \<subseteq> D) \<and>
    (Done m' \<and> \<not> Done m \<longrightarrow> reduce_task files n ` {..<n} \<subseteq> D)"
proof -
  have mp: "\<not> mapping_phase m" using assms(2) by (simp add: mapping_phase_def)
  obtain b m1 where m1: "barrier_loop ''reduce'' now [0..<length (allTask m)] True m = Inr (b, m1)"
      "master_inv files n D m1" "\<not> mapping_phase m1" "phase m1 \<noteq> ''fin''"
    using barrier_loop_inv [OF assms(1) upt_below, of "''reduce''" now True] assms(2) mp
    by (auto simp: phases_def)
  have fin: "master_inv files n D (m1\<lparr>phase := ''fin''\<rparr>)"
    by (rule master_inv_phase [OF m1(2)]) (use m1(3) in \<open>simp_all add: phases_def mapping_phase_def\<close>)
  have "reduce_task files n ` {..<n} \<subseteq> D" if b
  proof -
    have "\<forall>i\<in>set [0..<length (allTask m)]. Status (allTask m ! i) = COMPLETED"
      using barrier_loop_True [of "''reduce''" now _ True m m1] m1(1) that by simp
    then show ?thesis
      using all_completed [OF assms(1)] mp by (simp add: cur_task_def cur_len_def)
  qed
  then show ?thesis
    using m1 assms(2) mp fin by (simp add: schedule_def Done_def mapping_phase_def)
qed

lemma schedule_inv:
  assumes "master_inv files n D m"
  shows "\<exists>m'. schedule now m = Inr m' \<and> master_inv files n D m' \<and>
    (mapping_phase m' \<longrightarrow> mapping_phase m) \<and>
    (mapping_phase m \<and> \<not> mapping_phase m' \<longrightarrow> map_task files n ` {..<length files} \<subseteq> D) \<and>
    (Done m' \<and> \<not> Done m \<longrightarrow> reduce_task files n ` {..<n} \<subseteq> D)"
proof -
  have ph: "phase m \<in> {''map'', ''map_barrier'', ''reduce'', ''reduce_barrier'', ''fin''}"
    using assms by (simp add: master_inv_def phases_def)
  consider "phase m = ''map''" | "phase m = ''map_barrier''" | "phase m = ''reduce''"
    | "phase m = ''reduce_barrier''" | "phase m = ''fin''"
    using ph by blast
  then show ?thesis
  proof cases
    case 1
    obtain b m1 where m1: "map_loop [0..<length (allTask m)] True m = Inr (b, m1)"
        "master_inv files n D m1" "phase m1 = ''map''"
      using map_loop_inv [OF assms upt_below] 1 by metis
    have "master_inv files n D (m1\<lparr>phase := ''map_barrier''\<rparr>)"
      by (rule master_inv_phase [OF m1(2)]) (simp_all add: phases_def mapping_phase_def m1(3))
    then show ?thesis
      using m1 1 by (simp add: schedule_def mapping_phase_def Done_def)
  next
    case 2
    show ?thesis
      by (rule schedule_map_barrier [OF assms 2])
  next
    case 3
    then show ?thesis
      using schedule_reduce_inv [OF assms 3, of now] by (auto simp: schedule_def mapping_phase_def Done_def)
  next
    case 4
    show ?thesis
      by (rule schedule_reduce_barrier [OF assms 4])
  next
    case 5
    then show ?thesis
      using assms by (simp add: schedule_def)
  qed
qed

lemma complete_inv:
  assumes "master_inv files n D m" and "i < length (allTask m)"
  shows "\<exists>m'. complete (int i) m = Inr m' \<and> phase m' = phase m \<and>
    master_inv files n (insert (cur_task files n m i) D) m'"
proof -
  let ?m = "m\<lparr>allTask := (allTask m)[i := (allTask m ! i)\<lparr>Status := COMPLETED\<rparr>]\<rparr>"
  have same: "cur_task files n ?m = cur_task files n m" "cur_len files n ?m = cur_len files n m"
    by (simp_all add: fun_eq_iff cur_task_def cur_len_def mapping_phase_def)
  have "complete (int i) m = Inr ?m"
    using assms(2) by (simp add: complete_def go_simps)
  moreover have "master_inv files n (insert (cur_task files n m i) D) ?m"
    using assms unfolding master_inv_def same by (auto simp: nth_list_update)
  ultimately show ?thesis by simp
qed

lemma ReportTask_cur:
  assumes "i < length (allTask m)"
  shows "ReportTask (cur_task files n m i) m = complete (int i) m"
  by (auto simp: ReportTask_def cur_task_def map_task_def reduce_task_def go_bind_assoc complete_def
      go_simps assms)

lemma ReqTask_inv:
  assumes "master_inv files n D m"
  shows "\<exists>m' st t. ReqTask m = Inr (m', st, t) \<and> master_inv files n D m' \<and> phase m' = phase m \<and>
    (\<forall>task. t = Some task \<longrightarrow> task \<in> cur_task files n m ` {..<cur_len files n m})"
proof (cases "(phase m = ''map'' \<or> phase m = ''reduce'') \<and> freeTaskQueue m \<noteq> []")
  case False
  then show ?thesis
    using assms by (auto simp: ReqTask_def)
next
  case True
  then obtain task rest where q: "freeTaskQueue m = task # rest" by (cases "freeTaskQueue m") auto
  then obtain i where i: "i < cur_len files n m" "task = cur_task files n m i"
    using assms by (auto simp: master_inv_def)
  have len: "i < length (allTask m)" using assms i by (simp add: master_inv_def)
  let ?m = "m\<lparr>freeTaskQueue := rest, allTask := (allTask m)[i := (allTask m ! i)\<lparr>Status := IN_PROGRESS\<rparr>]\<rparr>"
  have same: "cur_task files n ?m = cur_task files n m" "cur_len files n ?m = cur_len files n m"
    by (simp_all add: fun_eq_iff cur_task_def cur_len_def mapping_phase_def)
  have "ReqTask m = Inr (?m, GOT, Some task)"
    using True q len i(2)
    by (auto simp: ReqTask_def cur_task_def map_task_def reduce_task_def mapping_phase_def go_simps Let_def)
  moreover have "master_inv files n D ?m"
    using assms q len unfolding master_inv_def same by (auto simp: nth_list_update split: if_splits)
  ultimately show ?thesis using i by auto
qed

lemma mr_inv_master: "mr_inv files n s \<Longrightarrow> master_inv files n (reported s) (mst s)"
  by (simp add: mr_inv_def)

lemma mr_step_inv:
  assumes "mr_inv files n s" and "mr_enabled s e"
  shows "\<exists>s'. mr_step s e = Inr s' \<and> mr_inv files n s'"
proof (cases e)
  case (Schedule now)
  obtain m' where "schedule now (mst s) = Inr m'" "master_inv files n (reported s) m'"
      "mapping_phase m' \<longrightarrow> mapping_phase (mst s)"
      "mapping_phase (mst s) \<and> \<not> mapping_phase m' \<longrightarrow> map_task files n ` {..<length files} \<subseteq> reported s"
      "Done m' \<and> \<not> Done (mst s) \<longrightarrow> reduce_task files n ` {..<n} \<subseteq> reported s"
    using schedule_inv [OF mr_inv_master [OF assms(1)], of now] by (elim exE conjE) (rule that)
  moreover have "handed s \<subseteq> map_task files n ` {..<length files} \<union>
      (if mapping_phase (mst s) then {} else reduce_task files n ` {..<n})"
      "\<not> mapping_phase (mst s) \<longrightarrow> map_task files n ` {..<length files} \<subseteq> reported s"
      "Done (mst s) \<longrightarrow> reduce_task files n ` {..<n} \<subseteq> reported s"
    using assms(1) by (simp_all add: mr_inv_def)
  ultimately show ?thesis
    unfolding Schedule
    by (cases "mapping_phase (mst s)"; cases "mapping_phase m'"; cases "Done (mst s)"; cases "Done m'")
      (simp_all add: mr_inv_def le_supI1)
next
  case Request
  obtain m' st t where m': "ReqTask (mst s) = Inr (m', st, t)" "master_inv files n (reported s) m'"
      "phase m' = phase (mst s)"
      "\<And>task. t = Some task \<Longrightarrow> task \<in> cur_task files n (mst s) ` {..<cur_len files n (mst s)}"
    using ReqTask_inv [OF mr_inv_master [OF assms(1)]] by blast
  have "mapping_phase m' = mapping_phase (mst s)" "Done m' = Done (mst s)"
    using m'(3) by (simp_all add: mapping_phase_def Done_def)
  then show ?thesis
    using assms(1) Request m'
    by (cases t) (auto simp: mr_inv_def cur_task_def cur_len_def split: if_splits)
next
  case (Report task)
  have "task \<in> cur_task files n (mst s) ` {..<cur_len files n (mst s)}"
    using assms Report
    by (auto simp: mr_inv_def cur_task_def cur_len_def map_task_def reduce_task_def split: if_splits)
  then obtain i where i: "i < length (allTask (mst s))" "task = cur_task files n (mst s) i"
    using assms(1) by (auto simp: mr_inv_def master_inv_def)
  obtain m' where m': "complete (int i) (mst s) = Inr m'" "phase m' = phase (mst s)"
      "master_inv files n (insert task (reported s)) m'"
    using complete_inv [OF mr_inv_master [OF assms(1)] i(1)] i(2) by blast
  have "mapping_phase m' = mapping_phase (mst s)" "Done m' = Done (mst s)"
    using m'(2) by (simp_all add: mapping_phase_def Done_def)
  moreover have "mr_step s e = Inr (s\<lparr>mst := m', reported := insert task (reported s)\<rparr>)"
    by (simp add: Report i(2) ReportTask_cur [OF i(1)] m'(1))
  ultimately show ?thesis
    using assms(1) m'(3) by (auto simp: mr_inv_def)
next
  case Register
  have "master_inv files n D ((mst s)\<lparr>seq := x\<rparr>) = master_inv files n D (mst s)" for D x
    by (auto simp: master_inv_def cur_task_def cur_len_def mapping_phase_def)
  then show ?thesis
    using assms(1) Register by (simp add: mr_inv_def WorkerRegister_def mapping_phase_def Done_def)
qed

lemma mr_inv_init: "mr_inv files n (mr_init now files n)"
  by (simp add: mr_inv_def mr_init_def NewMaster_def master_inv_def phases_def cur_len_def
      mapping_phase_def Done_def)

interpretation mr_job: invariant_system "\<lambda>s. s = mr_init now files n" mr_exec "mr_inv files n"
  for now files n
proof unfold_locales
  show "mr_inv files n s" if "s = mr_init now files n" for s
    using that mr_inv_init by simp
  show "mr_inv files n t" if "mr_inv files n s" "mr_exec s e = Some t" for s e t
    using that mr_step_inv [of files n s e] by (auto simp: mr_exec_def split: if_splits sum.splits)
qed

section \<open>Properties of the master\<close>


definition demo_job :: "mr_event list" where
  "demo_job =
     [Register, Schedule 0, Request, Report (map_task [''a''] 1 0), Schedule 1, Schedule 2,
      Request, Report (reduce_task [''a''] 1 0), Schedule 3, Schedule 4]"


lemma map_loop_completed:
  "\<forall>i\<in>set is. Status (allTask m ! i) = COMPLETED \<Longrightarrow> map_loop is b m = Inr (b, m)"
  by (induction "is") auto

lemma reduce_loop_completed:
  "\<forall>i\<in>set is. Status (allTask m ! i) = COMPLETED \<Longrightarrow> reduce_loop now is b m = Inr (b, m)"
  by (induction "is") (auto simp: Let_def)

lemma barrier_loop_completed:
  "\<forall>i\<in>set is. Status (allTask m ! i) = COMPLETED \<Longrightarrow> barrier_loop back now is b m = Inr (b, m)"
  by (induction "is") (auto simp: Let_def)

lemma reduce_loop_idle:
  assumes "phase m = ''reduce''" and "distinct is" and "set is \<subseteq> {..<length (allTask m)}"
    and "\<forall>i\<in>set is. Status (allTask m ! i) = IDLE"
  shows "\<exists>m'. reduce_loop now is b m = Inr (b \<and> is = [], m') \<and> phase m' = ''reduce'' \<and>
    freeTaskQueue m' = freeTaskQueue m @ map (\<lambda>i. \<lparr>task_Done = False, Phase = ''reduce'', FileName = '''',
      Imap = -1, IReduce = int i, NMap = nTask m, NReduce = nReduce m\<rparr>) is"
  using assms
proof (induction "is" arbitrary: b m)
  case Nil
  then show ?case by simp
next
  case (Cons i "is")
  let ?t = "\<lparr>task_Done = False, Phase = ''reduce'', FileName = '''',
      Imap = -1, IReduce = int i, NMap = nTask m, NReduce = nReduce m\<rparr>"
  let ?m = "m\<lparr>freeTaskQueue := freeTaskQueue m @ [?t],
    allTask := (allTask m)[i := (allTask m ! i)\<lparr>Status := IN_QUEUE\<rparr>]\<rparr>"
  have "enqueue i m = Inr ?m"
    using Cons.prems(1) by (simp add: enqueue_def getTask_def)
  moreover have "\<forall>j\<in>set is. Status (allTask ?m ! j) = IDLE"
    using Cons.prems by (auto simp: nth_list_update)
  ultimately show ?case
    using Cons.IH [of ?m False] Cons.prems by auto
qed



section \<open>Failures of the master\<close>

fun mr_run :: "mr_event list \<Rightarrow> mr_sys \<Rightarrow> mr_sys go" where
  "mr_run [] s = Inr s"
| "mr_run (e # es) s = go_bind (mr_step s e) (mr_run es)"

text \<open>
  A map task that was handed out twice is reported a second time during the reduce phase:
  \<open>ReportTask\<close> marks the reduce task with the same number as completed. The job ends although
  the reduce task was never handed out.
\<close>

theorem late_map_report_completes_reduce_task:
  "(case mr_run [Schedule 0, Request, Schedule 1, Schedule 11, Request, Report (map_task [''a''] 1 0),
      Schedule 12, Schedule 13, Report (map_task [''a''] 1 0), Schedule 14, Schedule 15] (mr_init 0 [''a''] 1)
    of Inl _ \<Rightarrow> False
     | Inr s \<Rightarrow> Done (mst s) \<and> handed s = {map_task [''a''] 1 0})"
  by code_simp

text \<open>With more files than reduce tasks the same late report panics in the master.\<close>

theorem late_map_report_panics:
  "ReportTask (map_task [''a'', ''b''] 1 1)
     ((NewMaster 0 [''a'', ''b''] 1)\<lparr>phase := ''reduce'',
        allTask := [\<lparr>Status = IDLE, ts_WorkerId = -1, StartTime = 0\<rparr>]\<rparr>) = Inl IndexOutOfRange"
  by code_simp

text \<open>
  A worker that asks while the queue is empty gets the state \<open>GOT\<close> (the zero value) and no task,
  and its loop then dereferences the nil task.
\<close>

theorem empty_queue_panics_worker:
  assumes "phase m = ''map'' \<or> phase m = ''reduce''" and "freeTaskQueue m = []"
  shows "ReqTask m = Inr (m, GOT, None) \<and> worker_run GOT None = Inl NilDereference"
  using assms by (auto simp: ReqTask_def worker_run_def)

text \<open>
  A reduce task that times out in the reduce phase goes back to the queue, but the phase still
  becomes the reduce barrier, where no queued task is handed out and none is rescheduled.
  Unless the first worker answers after all, the job never ends.
\<close>

theorem requeued_reduce_task_stuck:
  "(case mr_run [Schedule 0, Request, Report (map_task [''a''] 1 0), Schedule 1, Schedule 2, Request, Schedule 13]
      (mr_init 0 [''a''] 1)
    of Inl _ \<Rightarrow> False
     | Inr s \<Rightarrow> phase (mst s) = ''reduce_barrier'' \<and> map Status (allTask (mst s)) = [IN_QUEUE] \<and>
         ReqTask (mst s) = Inr (mst s, BARRIER, None) \<and> schedule 100 (mst s) = Inr (mst s))"
  by code_simp

end
