(* ===== verification/MapReduce_Apps.thy ===== *)
theory MapReduce_Apps
  imports MapReduce_Master "HOL-Library.Sublist"
begin

text \<open>
  Jobs whose workers crash: the applications \<open>mrapps/crash.go\<close>, \<open>nocrash.go\<close>, \<open>mtiming.go\<close> and
  \<open>rtiming.go\<close>, and the worker (\<open>mr/worker.go\<close>) as a process that registers, asks for tasks, does them and
  reports them, beside the master of \<open>MapReduce_Master\<close>.

  An application that can exit returns \<open>go_error + 'a\<close>, with its random numbers as an argument. The output file
  \<open>mr-out-r\<close> is the list of the lines written so far: it is created empty, in place, and a line is
  added after every call of the reduce function, so that a crash leaves the lines before it. \<open>fmt.Sscanf\<close> is modelled
  for names without white space.
\<close>

section \<open>Applications\<close>

definition maybeCrash :: "int \<Rightarrow> unit go" where
  "maybeCrash rr = (if rr < 330 then Inl ProcessExit else Inr ())"

definition crash_Map :: "int \<Rightarrow> string \<Rightarrow> string \<Rightarrow> KeyValue list go" where
  "crash_Map rr filename contents =
     go_bind (maybeCrash rr) (\<lambda>_.
       Inr [(''a'', filename), (''b'', itoa (length filename)), (''c'', itoa (length contents)), (''d'', ''xyzzy'')])"

definition crash_Reduce :: "int \<Rightarrow> string \<Rightarrow> string list \<Rightarrow> string go" where
  "crash_Reduce rr key vals = go_bind (maybeCrash rr) (\<lambda>_. Inr (join_strings '' '' (sort vals)))"

text \<open>In \<open>nocrash.go\<close> the test that guards the exit is \<open>false && ...\<close>, so the functions are total.\<close>

definition nocrash_Map :: "string \<Rightarrow> string \<Rightarrow> KeyValue list" where
  "nocrash_Map filename contents =
     [(''a'', filename), (''b'', itoa (length filename)), (''c'', itoa (length contents)), (''d'', ''xyzzy'')]"

definition nocrash_Reduce :: "string \<Rightarrow> string list \<Rightarrow> string" where
  "nocrash_Reduce key vals = join_strings '' '' (sort vals)"

text \<open>
  The timing applications count the workers that run at the same time, by files named after process ids. \<open>names\<close> is
  what the directory holds when it is read, \<open>alive\<close> what signal 0 answers.
\<close>

definition worker_file :: "string \<Rightarrow> int \<Rightarrow> string" where
  "worker_file ph pid = ''mr-worker-'' @ ph @ ''-'' @ Itoa pid"

definition is_digit :: "char \<Rightarrow> bool" where
  "is_digit c \<longleftrightarrow> 48 \<le> (of_char c :: nat) \<and> (of_char c :: nat) \<le> 57"

definition scan_sign :: "string \<Rightarrow> bool \<times> string" where
  "scan_sign s =
     (case s of [] \<Rightarrow> (False, [])
      | c # cs \<Rightarrow> if c = CHR ''-'' then (True, cs) else if c = CHR ''+'' then (False, cs) else (False, s))"

definition scan_int :: "string \<Rightarrow> int option" where
  "scan_int s =
     (let (neg, t) = scan_sign s; ds = takeWhile is_digit t;
          v = int (foldl (\<lambda>a c. 10 * a + (of_char c - 48)) 0 ds); z = (if neg then - v else v)
      in if ds \<noteq> [] \<and> - (2 ^ 63) \<le> z \<and> z < 2 ^ 63 then Some z else None)"

definition scan_worker :: "string \<Rightarrow> string \<Rightarrow> int option" where
  "scan_worker ph name =
     (let pat = ''mr-worker-'' @ ph @ ''-''
      in if take (length pat) name = pat then scan_int (drop (length pat) name) else None)"

fun count_workers :: "(int \<Rightarrow> bool) \<Rightarrow> string \<Rightarrow> string list \<Rightarrow> nat" where
  "count_workers alive ph [] = 0"
| "count_workers alive ph (name # names) =
     (case scan_worker ph name of
        None \<Rightarrow> count_workers alive ph names
      | Some xpid \<Rightarrow> (if alive xpid then 1 else 0) + count_workers alive ph names)"

text \<open>
  \<open>nparallel\<close> over the set of file names. \<open>others\<close> is what other processes make of the directory during the
  sleep, and \<open>order\<close> the order in which it is listed.
\<close>

definition nparallel ::
  "(int \<Rightarrow> bool) \<Rightarrow> (string set \<Rightarrow> string list) \<Rightarrow> (string set \<Rightarrow> string set) \<Rightarrow> string \<Rightarrow> int \<Rightarrow> string set \<Rightarrow>
   (nat \<times> string set) go" where
  "nparallel alive order others ph pid dir =
     (let myfilename = worker_file ph pid;
          dir = insert myfilename dir;
          ret = count_workers alive ph (order dir);
          dir = others dir
      in if myfilename \<in> dir then Inr (ret, dir - {myfilename}) else Inl ProcessExit)"

text \<open>\<open>n\<close> is the result of \<open>nparallel\<close> and \<open>ts\<close> the formatted time.\<close>

definition mtiming_Map :: "string \<Rightarrow> int \<Rightarrow> nat \<Rightarrow> string \<Rightarrow> string \<Rightarrow> KeyValue list" where
  "mtiming_Map ts pid n filename contents = [(''times-'' @ Itoa pid, ts), (''parallel-'' @ Itoa pid, itoa n)]"

definition mtiming_Reduce :: "string \<Rightarrow> string list \<Rightarrow> string" where
  "mtiming_Reduce key vals = join_strings '' '' (sort vals)"

definition rtiming_Map :: "string \<Rightarrow> string \<Rightarrow> KeyValue list" where
  "rtiming_Map filename contents =
     [(''a'', ''1''), (''b'', ''1''), (''c'', ''1''), (''d'', ''1''), (''e'', ''1''),
      (''f'', ''1''), (''g'', ''1''), (''h'', ''1''), (''i'', ''1''), (''j'', ''1'')]"

definition rtiming_Reduce :: "nat \<Rightarrow> string \<Rightarrow> string list \<Rightarrow> string" where
  "rtiming_Reduce n key vals = itoa n"

section \<open>Attempts\<close>

definition map_attempt ::
  "(string \<Rightarrow> string \<Rightarrow> KeyValue list go) \<Rightarrow> (string \<rightharpoonup> string) \<Rightarrow> Task \<Rightarrow>
   (int \<times> int \<rightharpoonup> KeyValue list) \<Rightarrow> (int \<times> int \<rightharpoonup> KeyValue list) go" where
  "map_attempt mapf inputs task fs =
     (case inputs (FileName task) of
        None \<Rightarrow> Inl ProcessExit
      | Some content \<Rightarrow>
          go_bind (mapf (FileName task) content) (\<lambda>inter. doMapTask (\<lambda>_ _. inter) inputs task fs))"

text \<open>The reduce function has the number of its call as an argument, for its random numbers.\<close>

function reduce_write ::
  "(nat \<Rightarrow> string \<Rightarrow> string list \<Rightarrow> string go) \<Rightarrow> nat \<Rightarrow> KeyValue list \<Rightarrow> KeyValue list \<times> unit go" where
  "reduce_write reducef i [] = ([], Inr ())"
| "reduce_write reducef i ((k, v) # kvs) =
     (case reducef i k (v # map snd (takeWhile (\<lambda>p. fst p = k) kvs)) of
        Inl e \<Rightarrow> ([], Inl e)
      | Inr out \<Rightarrow> apfst ((#) (k, out)) (reduce_write reducef (Suc i) (dropWhile (\<lambda>p. fst p = k) kvs)))"
  by pat_completeness auto

termination
  by (relation "measure (\<lambda>(_, _, kvs). length kvs)") (auto simp: le_imp_less_Suc length_dropWhile_le)

definition reduce_attempt ::
  "(KeyValue list \<Rightarrow> KeyValue list) \<Rightarrow> (nat \<Rightarrow> string \<Rightarrow> string list \<Rightarrow> string go) \<Rightarrow> Task \<Rightarrow>
   (int \<times> int \<rightharpoonup> KeyValue list) \<Rightarrow> KeyValue list \<times> unit go" where
  "reduce_attempt srt reducef task fs =
     (case read_inter fs (IReduce task) [0..<NMap task] of
        Inl e \<Rightarrow> ([], Inl e)
      | Inr intermediate \<Rightarrow> reduce_write reducef 0 (srt intermediate))"

section \<open>Workers beside the master\<close>

datatype worker_at = Asking | DoingMap Task | DoingReduce Task | Reporting Task | Gone

record Worker =
  workerId :: int
  w_at :: worker_at

text \<open>
  A job: the master with its history, the intermediate and output files and the worker processes. \<open>jb_cut\<close>
  records, for the theorems, the output files whose last writer crashed.
\<close>

record job =
  jb_sys :: mr_sys
  jb_inter :: "int \<times> int \<rightharpoonup> KeyValue list"
  jb_out :: "int \<rightharpoonup> KeyValue list"
  jb_workers :: "nat \<rightharpoonup> Worker"
  jb_cut :: "int set"

definition job_init :: "int \<Rightarrow> string list \<Rightarrow> nat \<Rightarrow> job" where
  "job_init now files n =
     \<lparr>jb_sys = mr_init now files n, jb_inter = Map.empty, jb_out = Map.empty, jb_workers = Map.empty, jb_cut = {}\<rparr>"

definition set_worker :: "nat \<Rightarrow> Worker \<Rightarrow> worker_at \<Rightarrow> job \<Rightarrow> job" where
  "set_worker w wk p s = s\<lparr>jb_workers := (jb_workers s)(w \<mapsto> wk\<lparr>w_at := p\<rparr>)\<rparr>"

text \<open>\<open>MakeWorker\<close>: a new process registers and enters its loop.\<close>

definition NewWorker :: Worker where
  "NewWorker = \<lparr>workerId = 0, w_at = Asking\<rparr>"

definition worker_register :: "Master \<Rightarrow> Worker \<Rightarrow> Worker" where
  "worker_register m wk = wk\<lparr>workerId := snd (WorkerRegister m)\<rparr>"

definition MakeWorker :: "nat \<Rightarrow> job \<Rightarrow> job option" where
  "MakeWorker w s =
     (if jb_workers s w \<noteq> None then None
      else map_option (\<lambda>sys. set_worker w (worker_register (mst (jb_sys s)) NewWorker) Asking (s\<lparr>jb_sys := sys\<rparr>))
        (mr_exec (jb_sys s) Register))"

definition next_work :: "work go \<Rightarrow> worker_at" where
  "next_work r =
     (case r of Inl _ \<Rightarrow> Gone | Inr Stop \<Rightarrow> Gone | Inr Wait \<Rightarrow> Asking | Inr (DoMap t) \<Rightarrow> DoingMap t
      | Inr (DoReduce t) \<Rightarrow> DoingReduce t)"

definition worker_ask :: "nat \<Rightarrow> Worker \<Rightarrow> job \<Rightarrow> job option" where
  "worker_ask w wk s =
     (case ReqTask (mst (jb_sys s)) of
        Inl _ \<Rightarrow> None
      | Inr (m, state, task) \<Rightarrow>
          map_option (\<lambda>sys. set_worker w wk (next_work (worker_run state task)) (s\<lparr>jb_sys := sys\<rparr>))
            (mr_exec (jb_sys s) Request))"

definition worker_map ::
  "(string \<Rightarrow> string \<Rightarrow> KeyValue list go) \<Rightarrow> (string \<rightharpoonup> string) \<Rightarrow> nat \<Rightarrow> Worker \<Rightarrow> Task \<Rightarrow> job \<Rightarrow> job" where
  "worker_map mapf inputs w wk t s =
     (case map_attempt mapf inputs t (jb_inter s) of
        Inl _ \<Rightarrow> set_worker w wk Gone s
      | Inr fs \<Rightarrow> set_worker w wk (Reporting t) (s\<lparr>jb_inter := fs\<rparr>))"

definition worker_reduce ::
  "(KeyValue list \<Rightarrow> KeyValue list) \<Rightarrow> (nat \<Rightarrow> string \<Rightarrow> string list \<Rightarrow> string go) \<Rightarrow> nat \<Rightarrow> Worker \<Rightarrow> Task \<Rightarrow> job \<Rightarrow> job" where
  "worker_reduce srt reducef w wk t s =
     (case reduce_attempt srt reducef t (jb_inter s) of
        (ls, Inl _) \<Rightarrow> set_worker w wk Gone
          (s\<lparr>jb_out := (jb_out s)(IReduce t \<mapsto> ls), jb_cut := insert (IReduce t) (jb_cut s)\<rparr>)
      | (ls, Inr _) \<Rightarrow> set_worker w wk (Reporting t)
          (s\<lparr>jb_out := (jb_out s)(IReduce t \<mapsto> ls), jb_cut := jb_cut s - {IReduce t}\<rparr>))"

definition worker_report :: "nat \<Rightarrow> Worker \<Rightarrow> Task \<Rightarrow> job \<Rightarrow> job option" where
  "worker_report w wk t s =
     map_option (\<lambda>sys. set_worker w wk Asking (s\<lparr>jb_sys := sys\<rparr>)) (mr_exec (jb_sys s) (Report t))"

text \<open>
  \<open>JWork w r\<close>: the worker does its task with the random numbers \<open>r\<close>. \<open>JExit w\<close>: a call of the worker to the
  master fails, before or after the master has handled it, and \<open>log.Fatal\<close> ends the process.
\<close>

datatype 'r job_event = JSchedule int | JStart nat | JAsk nat | JWork nat 'r | JReport nat | JExit nat

fun job_step ::
  "(KeyValue list \<Rightarrow> KeyValue list) \<Rightarrow> ('r \<Rightarrow> string \<Rightarrow> string \<Rightarrow> KeyValue list go) \<Rightarrow>
   ('r \<Rightarrow> nat \<Rightarrow> string \<Rightarrow> string list \<Rightarrow> string go) \<Rightarrow> (string \<rightharpoonup> string) \<Rightarrow> job \<Rightarrow> 'r job_event \<Rightarrow> job option" where
  "job_step srt mapf reducef inputs s (JSchedule now) =
     map_option (\<lambda>sys. s\<lparr>jb_sys := sys\<rparr>) (mr_exec (jb_sys s) (Schedule now))"
| "job_step srt mapf reducef inputs s (JStart w) = MakeWorker w s"
| "job_step srt mapf reducef inputs s (JAsk w) =
     (case jb_workers s w of
        Some wk \<Rightarrow> if w_at wk = Asking then worker_ask w wk s else None
      | None \<Rightarrow> None)"
| "job_step srt mapf reducef inputs s (JWork w r) =
     (case jb_workers s w of
        Some wk \<Rightarrow>
          (case w_at wk of
             DoingMap t \<Rightarrow> Some (worker_map (mapf r) inputs w wk t s)
           | DoingReduce t \<Rightarrow> Some (worker_reduce srt (reducef r) w wk t s)
           | _ \<Rightarrow> None)
      | None \<Rightarrow> None)"
| "job_step srt mapf reducef inputs s (JReport w) =
     (case jb_workers s w of
        Some wk \<Rightarrow>
          (case w_at wk of
             Reporting t \<Rightarrow> worker_report w wk t s
           | _ \<Rightarrow> None)
      | None \<Rightarrow> None)"
| "job_step srt mapf reducef inputs s (JExit w) = map_option (\<lambda>wk. set_worker w wk Gone s) (jb_workers s w)"


section \<open>Applications that crash\<close>

text \<open>
  What the proofs use of an application: whenever a call of its map or reduce function returns, the result is that of
  functions that do not depend on the random numbers.
\<close>

lemma mr_exec_frame:
  "mr_exec s e = Some s' \<Longrightarrow>
   handed s \<subseteq> handed s' \<and> reported s' = (case e of Report t \<Rightarrow> insert t (reported s) | _ \<Rightarrow> reported s)"
  by (cases e) (auto simp: mr_exec_def go_bind_Inr_iff split: if_splits sum.splits option.splits)

lemma mr_exec_inv: "mr_inv files n s \<Longrightarrow> mr_exec s e = Some s' \<Longrightarrow> mr_inv files n s'"
  by (rule mr_job.inv_step)

lemma mr_exec_Request:
  "ReqTask (mst s) = Inr (m, st, Some t) \<Longrightarrow> mr_exec s Request = Some s' \<Longrightarrow> t \<in> handed s'"
  by (auto simp: mr_exec_def)

lemma next_work_task:
  "next_work (worker_run st task) = DoingMap t \<Longrightarrow> task = Some t \<and> Phase t = ''map''"
  "next_work (worker_run st task) = DoingReduce t \<Longrightarrow> task = Some t \<and> Phase t = ''reduce''"
  "next_work (worker_run st task) \<noteq> Reporting t"
  by (auto simp: next_work_def worker_run_def split: if_splits option.splits)

lemma ran_set_worker: "wk' \<in> ran (jb_workers (set_worker w wk p s)) \<Longrightarrow> wk' = wk\<lparr>w_at := p\<rparr> \<or> wk' \<in> ran (jb_workers s)"
  by (auto simp: set_worker_def ran_def split: if_splits)

lemma set_worker_simps [simp]:
  "jb_sys (set_worker w wk p s) = jb_sys s" "jb_inter (set_worker w wk p s) = jb_inter s"
  "jb_out (set_worker w wk p s) = jb_out s" "jb_cut (set_worker w wk p s) = jb_cut s"
  by (simp_all add: set_worker_def)

lemma map_task_inj: "map_task files n i = map_task files n j \<longleftrightarrow> i = j"
  by (auto simp: map_task_def)

lemma reduce_task_inj: "reduce_task files n i = reduce_task files n j \<longleftrightarrow> i = j"
  by (auto simp: reduce_task_def)

lemma tasks_differ: "map_task files n i \<noteq> reduce_task files n j" "reduce_task files n j \<noteq> map_task files n i"
  by (simp_all add: map_task_def reduce_task_def)

lemma read_all_inter:
  assumes "\<And>i. i < length files \<Longrightarrow> fs (int i, int r) = Some (bucket_of n r (g i))"
  shows "read_inter fs (int r) [0..<length files] = Inr (bucket_of n r (concat (map g [0..<length files])))"
  using read_inter_ok [of "[0..<length files]" fs "int r" "\<lambda>i. bucket_of n r (g i)"] assms
  by (simp add: bucket_concat)

locale crashing_app =
  fixes mapf :: "'r \<Rightarrow> string \<Rightarrow> string \<Rightarrow> KeyValue list go"
    and reducef :: "'r \<Rightarrow> nat \<Rightarrow> string \<Rightarrow> string list \<Rightarrow> string go"
    and map0 :: "string \<Rightarrow> string \<Rightarrow> KeyValue list"
    and reduce0 :: "string \<Rightarrow> string list \<Rightarrow> string"
  assumes map_ends: "mapf r f c = Inr kvs \<Longrightarrow> kvs = map0 f c"
    and reduce_ends: "reducef r i k vs = Inr v \<Longrightarrow> v = reduce0 k vs"
begin

lemma reduce_write_prefix:
  "prefix (fst (reduce_write (reducef r) i kvs)) (reduce_runs reduce0 kvs) \<and>
   (snd (reduce_write (reducef r) i kvs) = Inr () \<longrightarrow>
      fst (reduce_write (reducef r) i kvs) = reduce_runs reduce0 kvs)"
  by (induction "reducef r" i kvs rule: reduce_write.induct) (auto split: sum.splits dest: reduce_ends)

lemma map_attempt_files:
  assumes "map_attempt (mapf r) inputs (map_task files n i) fs = Inr fs'" and "i < length files" and "q < n"
  shows "fs' (y, int q) =
    (if y = int i then Some (bucket_of n q (inter_of map0 inputs files i)) else fs (y, int q))"
proof -
  obtain c kvs where c: "inputs (files ! i) = Some c" and kvs: "mapf r (files ! i) c = Inr kvs"
    and run: "doMapTask (\<lambda>_ _. kvs) inputs (map_task files n i) fs = Inr fs'"
    using assms(1) by (auto simp: map_attempt_def map_task_def go_bind_Inr_iff split: option.splits)
  have "getTask (NewMaster 0 files n) i = Inr (map_task files n i)"
    using assms(2) by (simp add: getTask_def NewMaster_def map_task_def go_simps)
  from doMapTask_files [OF this, of inputs "\<lambda>_ _. kvs" fs] show ?thesis
    using assms(2,3) c run map_ends [OF kvs] by (simp add: NewMaster_def inter_of_def bucket_of_def)
qed

text \<open>All pairs of a job, the lines of a reduce task, and the files that hold what a task promises.\<close>

definition all_inter :: "string list \<Rightarrow> (string \<rightharpoonup> string) \<Rightarrow> KeyValue list" where
  "all_inter files inputs = concat (map (inter_of map0 inputs files) [0..<length files])"

definition task_lines ::
  "(KeyValue list \<Rightarrow> KeyValue list) \<Rightarrow> string list \<Rightarrow> nat \<Rightarrow> (string \<rightharpoonup> string) \<Rightarrow> nat \<Rightarrow> KeyValue list" where
  "task_lines srt files n inputs r = reduce_runs reduce0 (srt (bucket_of n r (all_inter files inputs)))"

definition task_kept ::
  "(KeyValue list \<Rightarrow> KeyValue list) \<Rightarrow> string list \<Rightarrow> nat \<Rightarrow> (string \<rightharpoonup> string) \<Rightarrow> job \<Rightarrow> Task \<Rightarrow> bool" where
  "task_kept srt files n inputs s t \<longleftrightarrow>
     (\<forall>i<length files. t = map_task files n i \<longrightarrow>
        (\<forall>r<n. jb_inter s (int i, int r) = Some (bucket_of n r (inter_of map0 inputs files i)))) \<and>
     (\<forall>r<n. t = reduce_task files n r \<longrightarrow>
        int r \<in> jb_cut s \<or> jb_out s (int r) = Some (task_lines srt files n inputs r))"

definition worker_ok ::
  "(KeyValue list \<Rightarrow> KeyValue list) \<Rightarrow> string list \<Rightarrow> nat \<Rightarrow> (string \<rightharpoonup> string) \<Rightarrow> job \<Rightarrow> worker_at \<Rightarrow> bool" where
  "worker_ok srt files n inputs s p \<longleftrightarrow>
     (case p of
        DoingMap t \<Rightarrow> t \<in> handed (jb_sys s) \<and> Phase t = ''map''
      | DoingReduce t \<Rightarrow> t \<in> handed (jb_sys s) \<and> Phase t = ''reduce''
      | Reporting t \<Rightarrow> t \<in> handed (jb_sys s) \<and> task_kept srt files n inputs s t
      | _ \<Rightarrow> True)"

definition job_inv ::
  "(KeyValue list \<Rightarrow> KeyValue list) \<Rightarrow> string list \<Rightarrow> nat \<Rightarrow> (string \<rightharpoonup> string) \<Rightarrow> job \<Rightarrow> bool" where
  "job_inv srt files n inputs s \<longleftrightarrow>
     mr_inv files n (jb_sys s) \<and>
     (\<forall>t\<in>reported (jb_sys s). task_kept srt files n inputs s t) \<and>
     (\<forall>wk\<in>ran (jb_workers s). worker_ok srt files n inputs s (w_at wk)) \<and>
     (\<forall>r<n. \<forall>ls. jb_out s (int r) = Some ls \<longrightarrow> prefix ls (task_lines srt files n inputs r))"

lemma task_kept_cong:
  "jb_inter s' = jb_inter s \<Longrightarrow> jb_out s' = jb_out s \<Longrightarrow> jb_cut s' = jb_cut s \<Longrightarrow>
   task_kept srt files n inputs s' t = task_kept srt files n inputs s t"
  by (simp add: task_kept_def)

text \<open>One step of a worker, or of the master, that keeps the promises of every task keeps the invariant.\<close>

lemma job_inv_step:
  assumes inv: "job_inv srt files n inputs s"
    and sys: "mr_inv files n (jb_sys s')" "handed (jb_sys s) \<subseteq> handed (jb_sys s')"
    and rep: "\<And>t. t \<in> reported (jb_sys s') \<Longrightarrow> t \<notin> reported (jb_sys s) \<Longrightarrow> task_kept srt files n inputs s' t"
    and kept: "\<And>t. task_kept srt files n inputs s t \<Longrightarrow> task_kept srt files n inputs s' t"
    and out: "\<And>r ls. r < n \<Longrightarrow> jb_out s' (int r) = Some ls \<Longrightarrow> prefix ls (task_lines srt files n inputs r)"
    and wks: "\<And>wk. wk \<in> ran (jb_workers s') \<Longrightarrow> wk \<in> ran (jb_workers s) \<or> worker_ok srt files n inputs s' (w_at wk)"
  shows "job_inv srt files n inputs s'"
proof -
  have "worker_ok srt files n inputs s' p" if "worker_ok srt files n inputs s p" for p
    using that sys(2) kept by (cases p) (auto simp: worker_ok_def)
  then have "worker_ok srt files n inputs s' (w_at wk)" if "wk \<in> ran (jb_workers s')" for wk
    using wks [OF that] inv unfolding job_inv_def by blast
  then show ?thesis
    using inv sys(1) rep kept out unfolding job_inv_def by blast
qed

text \<open>The master schedules, registers, hands out a task, or takes a report.\<close>

lemma job_inv_master:
  assumes "job_inv srt files n inputs s" and "mr_exec (jb_sys s) e = Some sys"
    and "\<And>t. e = Report t \<Longrightarrow> task_kept srt files n inputs s t"
    and "jb_sys s' = sys" "jb_inter s' = jb_inter s" "jb_out s' = jb_out s" "jb_cut s' = jb_cut s"
    and "\<And>wk. wk \<in> ran (jb_workers s') \<Longrightarrow> wk \<in> ran (jb_workers s) \<or> worker_ok srt files n inputs s' (w_at wk)"
  shows "job_inv srt files n inputs s'"
proof (rule job_inv_step [OF assms(1)])
  note kept = task_kept_cong [OF assms(5,6,7)]
  show "mr_inv files n (jb_sys s')"
    using mr_exec_inv [OF _ assms(2)] assms(1,4) by (simp add: job_inv_def)
  show "handed (jb_sys s) \<subseteq> handed (jb_sys s')" using mr_exec_frame [OF assms(2)] assms(4) by simp
  show "task_kept srt files n inputs s' t" if "t \<in> reported (jb_sys s')" "t \<notin> reported (jb_sys s)" for t
    using that mr_exec_frame [OF assms(2)] assms(3,4) by (cases e) (auto simp: kept)
  show "prefix ls (task_lines srt files n inputs r)" if "r < n" "jb_out s' (int r) = Some ls" for r ls
    using that assms(1,6) by (simp add: job_inv_def)
qed (simp_all add: task_kept_cong [OF assms(5,6,7)] assms(8))

lemma worker_ask_inv:
  assumes "job_inv srt files n inputs s" and "worker_ask w wk s = Some s'"
  shows "job_inv srt files n inputs s'"
proof -
  obtain m st task sys where req: "ReqTask (mst (jb_sys s)) = Inr (m, st, task)"
    and sys: "mr_exec (jb_sys s) Request = Some sys"
    and s': "s' = set_worker w wk (next_work (worker_run st task)) (s\<lparr>jb_sys := sys\<rparr>)"
    using assms(2) by (auto simp: worker_ask_def split: sum.splits)
  have "worker_ok srt files n inputs s' (next_work (worker_run st task))"
  proof (cases "next_work (worker_run st task)")
    case (DoingMap t)
    then show ?thesis using next_work_task(1) [OF DoingMap] mr_exec_Request [OF _ sys] req
      by (auto simp: worker_ok_def s')
  next
    case (DoingReduce t)
    then show ?thesis using next_work_task(2) [OF DoingReduce] mr_exec_Request [OF _ sys] req
      by (auto simp: worker_ok_def s')
  qed (simp_all add: worker_ok_def next_work_task(3))
  then show ?thesis
    by (intro job_inv_master [OF assms(1) sys]) (auto simp: s' dest: ran_set_worker)
qed

text \<open>A worker does its task.\<close>

lemma handed_task:
  assumes "job_inv srt files n inputs s" and "t \<in> handed (jb_sys s)"
  shows "Phase t = ''map'' \<Longrightarrow> \<exists>i<length files. t = map_task files n i"
    and "Phase t = ''reduce'' \<Longrightarrow> \<exists>r<n. t = reduce_task files n r \<and>
      (\<forall>i<length files. jb_inter s (int i, int r) = Some (bucket_of n r (inter_of map0 inputs files i)))"
proof -
  note inv = assms(1) [unfolded job_inv_def mr_inv_def]
  show "Phase t = ''map'' \<Longrightarrow> \<exists>i<length files. t = map_task files n i"
    using inv assms(2) by (auto simp: reduce_task_def split: if_splits)
  assume "Phase t = ''reduce''"
  then obtain r where r: "r < n" "t = reduce_task files n r" "\<not> mapping_phase (mst (jb_sys s))"
    using inv assms(2) by (auto simp: map_task_def split: if_splits)
  then have "task_kept srt files n inputs s (map_task files n i)" if "i < length files" for i
    using inv that by blast
  then show "\<exists>r<n. t = reduce_task files n r \<and>
      (\<forall>i<length files. jb_inter s (int i, int r) = Some (bucket_of n r (inter_of map0 inputs files i)))"
    using r by (auto simp: task_kept_def)
qed

lemma worker_map_inv:
  assumes "job_inv srt files n inputs s" and "jb_workers s w = Some wk" and "w_at wk = DoingMap t"
  shows "job_inv srt files n inputs (worker_map (mapf r) inputs w wk t s)"
proof (cases "map_attempt (mapf r) inputs t (jb_inter s)")
  case (Inl e)
  then show ?thesis
    by (intro job_inv_step [OF assms(1)])
      (use assms(1) in \<open>auto simp: worker_map_def worker_ok_def job_inv_def task_kept_def dest!: ran_set_worker\<close>)
next
  case (Inr fs)
  have t: "t \<in> handed (jb_sys s)" "Phase t = ''map''"
    using assms by (auto simp: job_inv_def worker_ok_def ran_def)
  obtain i where i: "i < length files" "t = map_task files n i" using handed_task(1) [OF assms(1) t] by blast
  let ?s = "worker_map (mapf r) inputs w wk t s"
  have s: "?s = set_worker w wk (Reporting t) (s\<lparr>jb_inter := fs\<rparr>)" by (simp add: worker_map_def Inr)
  have files: "fs (y, int q) =
      (if y = int i then Some (bucket_of n q (inter_of map0 inputs files i)) else jb_inter s (y, int q))" if "q < n" for y q
    using map_attempt_files [OF _ i(1) that] Inr i(2) by simp
  have kept: "task_kept srt files n inputs ?s t'" if "task_kept srt files n inputs s t' \<or> t' = t" for t'
    using that files unfolding s by (auto simp: task_kept_def i(2) map_task_inj tasks_differ)
  show ?thesis
  proof (rule job_inv_step [OF assms(1)])
    show "wk' \<in> ran (jb_workers s) \<or> worker_ok srt files n inputs ?s (w_at wk')" if "wk' \<in> ran (jb_workers ?s)" for wk'
      using that t(1) kept unfolding s by (auto simp: worker_ok_def dest!: ran_set_worker)
  qed (use assms(1) kept in \<open>auto simp: s job_inv_def\<close>)
qed

lemma worker_reduce_inv:
  assumes "job_inv srt files n inputs s" and "jb_workers s w = Some wk" and "w_at wk = DoingReduce t"
  shows "job_inv srt files n inputs (worker_reduce srt (reducef r) w wk t s)"
proof -
  have t: "t \<in> handed (jb_sys s)" "Phase t = ''reduce''"
    using assms by (auto simp: job_inv_def worker_ok_def ran_def)
  obtain i where i: "i < n" "t = reduce_task files n i"
      "\<And>j. j < length files \<Longrightarrow> jb_inter s (int j, int i) = Some (bucket_of n i (inter_of map0 inputs files j))"
    using handed_task(2) [OF assms(1) t] by blast
  then have number: "IReduce t = int i" by (simp add: reduce_task_def)
  let ?s = "worker_reduce srt (reducef r) w wk t s"
  obtain ls res where run: "reduce_attempt srt (reducef r) t (jb_inter s) = (ls, res)" by fastforce
  have "reduce_write (reducef r) 0 (srt (bucket_of n i (all_inter files inputs))) = (ls, res)"
    using run read_all_inter [of files "jb_inter s" i n "inter_of map0 inputs files", OF i(3)]
    by (simp add: reduce_attempt_def i(2) reduce_task_def all_inter_def)
  then have lines: "prefix ls (task_lines srt files n inputs i)"
      "res = Inr () \<Longrightarrow> ls = task_lines srt files n inputs i"
    using reduce_write_prefix [of r 0 "srt (bucket_of n i (all_inter files inputs))"] by (auto simp: task_lines_def)
  define p where "p = (case res of Inl _ \<Rightarrow> Gone | Inr _ \<Rightarrow> Reporting t)"
  define s1 where "s1 = s\<lparr>jb_out := (jb_out s)(int i \<mapsto> ls),
    jb_cut := (case res of Inl _ \<Rightarrow> insert (int i) (jb_cut s) | Inr _ \<Rightarrow> jb_cut s - {int i})\<rparr>"
  have s: "?s = set_worker w wk p s1"
    by (cases res) (simp_all add: worker_reduce_def run p_def s1_def number)
  have out: "prefix ls' (task_lines srt files n inputs q)" if "q < n" "jb_out ?s (int q) = Some ls'" for q ls'
    using that lines(1) assms(1) by (auto simp: s s1_def job_inv_def split: if_splits)
  have kept: "task_kept srt files n inputs ?s t'"
    if "task_kept srt files n inputs s t' \<or> t' = t" for t'
    using that lines(2) unfolding s by (cases res) (auto simp: task_kept_def s1_def i(2) reduce_task_inj tasks_differ)
  show ?thesis
  proof (rule job_inv_step [OF assms(1)])
    show "wk' \<in> ran (jb_workers s) \<or> worker_ok srt files n inputs ?s (w_at wk')" if "wk' \<in> ran (jb_workers ?s)" for wk'
      using that t(1) kept unfolding s p_def s1_def by (auto simp: worker_ok_def dest!: ran_set_worker split: sum.splits)
  qed (use assms(1) kept out in \<open>auto simp: s s1_def job_inv_def\<close>)
qed

lemma job_step_inv:
  assumes "job_inv srt files n inputs s" and "job_step srt mapf reducef inputs s e = Some s'"
  shows "job_inv srt files n inputs s'"
proof (cases e)
  case (JSchedule now)
  then obtain sys where "mr_exec (jb_sys s) (Schedule now) = Some sys" "s' = s\<lparr>jb_sys := sys\<rparr>"
    using assms(2) by auto
  then show ?thesis by (intro job_inv_master [OF assms(1)]) auto
next
  case (JStart w)
  then obtain sys where sys: "mr_exec (jb_sys s) Register = Some sys"
      and s': "s' = set_worker w (worker_register (mst (jb_sys s)) NewWorker) Asking (s\<lparr>jb_sys := sys\<rparr>)"
    using assms(2) by (auto simp: MakeWorker_def split: if_splits)
  then show ?thesis
    by (intro job_inv_master [OF assms(1) sys]) (auto simp: s' worker_ok_def dest!: ran_set_worker)
next
  case (JAsk w)
  then show ?thesis using assms worker_ask_inv by (auto split: option.splits if_splits)
next
  case (JWork w r)
  then show ?thesis
    using assms worker_map_inv worker_reduce_inv by (auto split: option.splits worker_at.splits)
next
  case (JReport w)
  then obtain wk t sys where wk: "jb_workers s w = Some wk" "w_at wk = Reporting t"
      and sys: "mr_exec (jb_sys s) (Report t) = Some sys" and s': "s' = set_worker w wk Asking (s\<lparr>jb_sys := sys\<rparr>)"
    using assms(2) by (auto simp: worker_report_def split: option.splits worker_at.splits)
  have "task_kept srt files n inputs s t"
    using assms(1) wk by (auto simp: job_inv_def worker_ok_def ran_def)
  then show ?thesis
    by (intro job_inv_master [OF assms(1) sys]) (auto simp: s' worker_ok_def dest!: ran_set_worker)
next
  case (JExit w)
  then obtain wk where "s' = set_worker w wk Gone s" using assms(2) by auto
  then show ?thesis
    by (intro job_inv_step [OF assms(1)])
      (use assms(1) in \<open>auto simp: worker_ok_def job_inv_def task_kept_def dest!: ran_set_worker\<close>)
qed

lemma job_inv_init: "job_inv srt files n inputs (job_init now files n)"
  using mr_inv_init by (simp add: job_inv_def job_init_def mr_init_def)

lemma job_output:
  assumes "job_inv srt files n inputs s" and "Done (mst (jb_sys s))" and "jb_cut s = {}"
    and "sort_ok srt" and "sort_ok srt'" and "order_free reduce0" and "0 < n" and "\<forall>f\<in>set files. inputs f \<noteq> None"
  shows "(\<forall>r<n. jb_out s (int r) \<noteq> None) \<and> (\<exists>out. mrsequential srt' map0 reduce0 inputs files = Inr out \<and>
    mset (concat (map (\<lambda>r. the (jb_out s (int r))) [0..<n])) = mset out)"
proof -
  have "reduce_task files n ` {..<n} \<subseteq> reported (jb_sys s)" "\<forall>t\<in>reported (jb_sys s). task_kept srt files n inputs s t"
    using assms(1,2) by (simp_all add: job_inv_def mr_inv_def)
  then have "task_kept srt files n inputs s (reduce_task files n r)" if "r < n" for r
    using that by blast
  then have lines: "jb_out s (int r) = Some (task_lines srt files n inputs r)" if "r < n" for r
    using assms(3) that by (simp add: task_kept_def reduce_task_inj)
  then have "mset (concat (map (\<lambda>r. the (jb_out s (int r))) [0..<n])) =
      mset (concat (map (\<lambda>r. reduce_runs reduce0 (srt (bucket_of n r (all_inter files inputs)))) [0..<n]))"
    by (intro arg_cong [where f = "\<lambda>xs. mset (concat xs)"] map_cong) (simp_all add: task_lines_def)
  moreover have "mrsequential srt' map0 reduce0 inputs files = Inr (reduce_runs reduce0 (srt' (all_inter files inputs)))"
    by (simp add: mrsequential_def seq_inter_ok [OF assms(8)] all_inter_def)
  ultimately show ?thesis
    using lines unfolding outputs_mset [OF assms(4-7)] by simp
qed

end

sublocale crashing_app \<subseteq> jobs: invariant_system "\<lambda>s. s = job_init now files n" "job_step srt mapf reducef inputs"
  "job_inv srt files n inputs" for now srt files n inputs
  by unfold_locales (auto intro: job_inv_init job_step_inv)

interpretation crash_app: crashing_app "\<lambda>d. crash_Map (d 0)" "\<lambda>d i. crash_Reduce (d i)" nocrash_Map nocrash_Reduce
  by unfold_locales
    (auto simp: crash_Map_def nocrash_Map_def crash_Reduce_def nocrash_Reduce_def maybeCrash_def split: if_splits)

lemma order_free_nocrash: "order_free nocrash_Reduce"
proof -
  have "sort vs = sort ws" if "mset vs = mset ws" for vs ws :: "string list"
    by (rule properties_for_sort) (simp_all add: that)
  then show ?thesis unfolding order_free_def nocrash_Reduce_def by metis
qed


text \<open>
  A job on one file with one reduce task: the first worker crashes in the map task, the second does it after the
  task was handed out again, and a third one crashes after two lines of the reduce task, which is then
  done by the second.
\<close>

definition crash_at :: "nat \<Rightarrow> nat \<Rightarrow> int" where
  "crash_at i j = (if i = j then 0 else 700)"

definition crash_events :: "(nat \<Rightarrow> int) job_event list" where
  "crash_events =
     [JStart 0, JStart 1, JStart 2, JSchedule 0, JAsk 0, JWork 0 (crash_at 0), JSchedule 1, JSchedule 11,
      JAsk 1, JWork 1 (crash_at 9), JReport 1, JSchedule 12, JSchedule 13,
      JAsk 2, JWork 2 (crash_at 2), JSchedule 14, JSchedule 24, JAsk 1, JWork 1 (crash_at 9), JReport 1,
      JSchedule 25, JSchedule 26]"

definition crash_inputs :: "string \<rightharpoonup> string" where
  "crash_inputs = [''f'' \<mapsto> ''hello'']"

definition crash_lines :: "KeyValue list" where
  "crash_lines = [(''a'', ''f''), (''b'', ''1''), (''c'', ''5''), (''d'', ''xyzzy'')]"

lemmas job_run_simps = job_init_def mr_init_def NewMaster_def MakeWorker_def worker_ask_def worker_map_def
  worker_report_def NewWorker_def worker_register_def worker_reduce_def set_worker_def next_work_def worker_run_def map_attempt_def reduce_attempt_def mr_exec_def
  WorkerRegister_def schedule_def schedule_reduce_def enqueue_def getTask_def go_simps Let_def expired_def ReqTask_def
  ReportTask_def complete_def Done_def mapping_phase_def doMapTask_def crash_Map_def crash_Reduce_def maybeCrash_def
  crash_at_def crash_inputs_def crash_lines_def

lemma itoa_small: "itoa (length ''f'') = ''1''" "itoa (length ''hello'') = ''5''"
  by code_simp+

lemmas itoa_sizes = itoa_small [simplified]

lemma crash_run_ends:
  "\<exists>s. run_events (job_step (sort_key fst) (\<lambda>d. crash_Map (d 0)) (\<lambda>d i. crash_Reduce (d i)) crash_inputs)
      (job_init 0 [''f''] 1) crash_events = Some s \<and>
     Done (mst (jb_sys s)) \<and> jb_cut s = {} \<and> jb_out s 0 = Some crash_lines"
  by (simp add: crash_events_def job_run_simps itoa_sizes)


text \<open>
  The condition on the last writer is needed, because \<open>doReduceTask\<close> creates the output file in place: a
  worker that was given up can start its reduce task after another one has done it and the job is done, and crash.
\<close>

theorem late_crash_truncates_output:
  "\<exists>s. run_events (job_step (sort_key fst) (\<lambda>d. crash_Map (d 0)) (\<lambda>d i. crash_Reduce (d i)) crash_inputs)
      (job_init 0 [''f''] 1)
      [JStart 0, JStart 1, JSchedule 0, JAsk 0, JWork 0 (crash_at 9), JReport 0, JSchedule 1, JSchedule 2,
       JAsk 0, JSchedule 3, JSchedule 13, JAsk 1, JWork 1 (crash_at 9), JReport 1, JSchedule 14, JSchedule 15,
       JWork 0 (crash_at 2)] = Some s \<and>
     Done (mst (jb_sys s)) \<and> jb_out s 0 = Some (take 2 crash_lines)"
  by (simp add: job_run_simps itoa_sizes)

section \<open>Counting workers\<close>

lemma scan_int_Itoa:
  assumes "0 \<le> pid" and "pid < 2 ^ 63"
  shows "scan_int (Itoa pid) = Some pid"
proof -
  have digits: "takeWhile is_digit (itoa k) = itoa k" for k
    using itoa_digits by (simp add: takeWhile_eq_all_conv is_digit_def)
  have "itoa k \<noteq> []" for k by (subst itoa.simps) simp
  moreover have "scan_sign (itoa k) = (False, itoa k)" for k
    using itoa_digits [of "hd (itoa k)" k] by (cases "itoa k") (auto simp: scan_sign_def)
  ultimately show ?thesis
    using assms by (simp add: scan_int_def Itoa_def digits itoa_value)
qed

lemma scan_worker_file: "0 \<le> pid \<Longrightarrow> pid < 2 ^ 63 \<Longrightarrow> scan_worker ph (worker_file ph pid) = Some pid"
  by (simp add: scan_worker_def worker_file_def Let_def scan_int_Itoa)

lemma count_workers_length:
  "count_workers alive ph names =
     length (filter (\<lambda>nm. case scan_worker ph nm of None \<Rightarrow> False | Some p \<Rightarrow> alive p) names)"
  by (induction names) (auto split: option.splits)

text \<open>
  \<open>nparallel\<close> counts the workers of the phase that are running: when the files of the phase are those of the
  processes \<open>P\<close>, its result is the number of processes among \<open>P\<close> and itself that are alive; and
  it leaves the files of the others alone.
\<close>

theorem nparallel_counts_running:
  assumes "P \<subseteq> {0..<2 ^ 63}" and "pid \<in> {0..<2 ^ 63}"
    and "\<And>nm. nm \<in> dir \<Longrightarrow> scan_worker ph nm \<noteq> None \<Longrightarrow> nm \<in> worker_file ph ` P" and "worker_file ph ` P \<subseteq> dir"
    and "set (order (insert (worker_file ph pid) dir)) = insert (worker_file ph pid) dir"
    and "distinct (order (insert (worker_file ph pid) dir))"
    and "worker_file ph pid \<in> others (insert (worker_file ph pid) dir)"
  shows "nparallel alive order others ph pid dir =
    Inr (card {p \<in> insert pid P. alive p}, others (insert (worker_file ph pid) dir) - {worker_file ph pid})"
proof -
  let ?dir = "insert (worker_file ph pid) dir"
  let ?live = "\<lambda>nm. case scan_worker ph nm of None \<Rightarrow> False | Some p \<Rightarrow> alive p"
  have scan: "scan_worker ph (worker_file ph p) = Some p" if "p \<in> insert pid P" for p
    using that assms(1,2) by (intro scan_worker_file) auto
  have "count_workers alive ph (order ?dir) = card (set (filter ?live (order ?dir)))"
    using assms(6) by (simp add: count_workers_length distinct_card del: set_filter)
  also have "set (filter ?live (order ?dir)) = worker_file ph ` {p \<in> insert pid P. alive p}"
  proof -
    have "nm \<in> worker_file ph ` {p \<in> insert pid P. alive p}" if "nm \<in> ?dir" "?live nm" for nm
    proof -
      have "nm \<in> worker_file ph ` insert pid P" using that assms(3) by (auto split: option.splits)
      then show ?thesis using that(2) scan by auto
    qed
    then show ?thesis using assms(4,5) scan by auto
  qed
  also have "card \<dots> = card {p \<in> insert pid P. alive p}"
    by (intro card_image inj_onI) (metis (no_types, lifting) mem_Collect_eq option.inject scan)
  finally show ?thesis using assms(7) by (simp add: nparallel_def Let_def)
qed

end
