(* ===== verification/Porcupine_Bitset.thy ===== *)
theory Porcupine_Bitset
  imports Prelude "HOL-Library.Word"
begin

text \<open>
  The bit set of the linearizability checker (\<open>porcupine/bitset.go\<close>): a slice of 64-bit words,
  bit \<open>p\<close> of the set is bit \<open>p mod 64\<close> of word \<open>p div 64\<close>. An index past the last word is a
  panic. The contract \<open>finite_bitset\<close> is what the checker relies on; \<open>bs\<close> interprets it on
  the operations of the code.
\<close>

unbundle bit_operations_syntax

section \<open>Operations\<close>

type_synonym bitset = "64 word list"

definition newBitset :: "nat \<Rightarrow> bitset" where
  "newBitset bits =
     (let extra = (if bits mod 64 \<noteq> 0 then 1 else 0); chunks = bits div 64 + extra
      in replicate chunks 0)"

definition bitset_clone :: "bitset \<Rightarrow> bitset" where
  "bitset_clone b = map (\<lambda>i. b ! i) [0..<length b]"

definition bitsetIndex :: "nat \<Rightarrow> nat \<times> nat" where
  "bitsetIndex pos = (pos div 64, pos mod 64)"

definition bitset_set :: "bitset \<Rightarrow> nat \<Rightarrow> bitset go" where
  "bitset_set b pos =
     (let (major, minor) = bitsetIndex pos
      in go_bind (go_idx b (int major)) (\<lambda>w. go_upd b (int major) (w OR push_bit minor 1)))"

definition bitset_clear :: "bitset \<Rightarrow> nat \<Rightarrow> bitset go" where
  "bitset_clear b pos =
     (let (major, minor) = bitsetIndex pos
      in go_bind (go_idx b (int major)) (\<lambda>w. go_upd b (int major) (w AND NOT (push_bit minor 1))))"

definition bitset_get :: "bitset \<Rightarrow> nat \<Rightarrow> bool go" where
  "bitset_get b pos =
     (let (major, minor) = bitsetIndex pos
      in go_bind (go_idx b (int major)) (\<lambda>w. Inr (w AND push_bit minor 1 \<noteq> 0)))"

definition OnesCount64 :: "64 word \<Rightarrow> nat" where
  "OnesCount64 w = length (filter (bit w) [0..<64])"

definition popcnt :: "bitset \<Rightarrow> nat" where
  "popcnt b = foldl (\<lambda>total v. total + OnesCount64 v) 0 b"

definition bitset_hash :: "bitset \<Rightarrow> 64 word" where
  "bitset_hash b = foldl (\<lambda>hash v. hash XOR v) (of_nat (popcnt b)) b"

fun equals_loop :: "bitset \<Rightarrow> bitset \<Rightarrow> nat list \<Rightarrow> bool" where
  "equals_loop b b2 [] = True"
| "equals_loop b b2 (i # is) = (if b ! i \<noteq> b2 ! i then False else equals_loop b b2 is)"

definition bitset_equals :: "bitset \<Rightarrow> bitset \<Rightarrow> bool" where
  "bitset_equals b b2 = (if length b \<noteq> length b2 then False else equals_loop b b2 [0..<length b])"

section \<open>The set of a bit set\<close>

definition bits :: "bitset \<Rightarrow> nat set" where
  "bits b = {p. p < 64 * length b \<and> bit (b ! (p div 64)) (p mod 64)}"

locale finite_bitset =
  fixes capacity :: "'b \<Rightarrow> nat"
    and elems :: "'b \<Rightarrow> nat set"
    and add :: "'b \<Rightarrow> nat \<Rightarrow> 'b go"
    and del :: "'b \<Rightarrow> nat \<Rightarrow> 'b go"
    and mem :: "'b \<Rightarrow> nat \<Rightarrow> bool go"
    and eqv :: "'b \<Rightarrow> 'b \<Rightarrow> bool"
  assumes add_ok: "p < capacity b \<Longrightarrow>
      \<exists>b'. add b p = Inr b' \<and> capacity b' = capacity b \<and> elems b' = insert p (elems b)"
    and del_ok: "p < capacity b \<Longrightarrow>
      \<exists>b'. del b p = Inr b' \<and> capacity b' = capacity b \<and> elems b' = elems b - {p}"
    and mem_ok: "p < capacity b \<Longrightarrow> mem b p = Inr (p \<in> elems b)"
    and eqv_ok: "eqv b c \<longleftrightarrow> capacity b = capacity c \<and> elems b = elems c"
begin

lemma add_del:
  assumes "p < capacity b" and "p \<notin> elems b"
  shows "\<exists>b' b''. add b p = Inr b' \<and> del b' p = Inr b'' \<and> eqv b'' b"
proof -
  obtain b' where b': "add b p = Inr b'" "capacity b' = capacity b" "elems b' = insert p (elems b)"
    using add_ok [OF assms(1)] by blast
  then obtain b'' where b'': "del b' p = Inr b''" "capacity b'' = capacity b" "elems b'' = elems b' - {p}"
    using del_ok [of p b'] assms(1) by auto
  have "eqv b'' b" using b' b'' assms(2) by (simp add: eqv_ok)
  then show ?thesis using b'(1) b''(1) by blast
qed

end

lemma index_lt: "p < 64 * length b \<Longrightarrow> p div 64 < length (b :: bitset)"
  by (simp add: less_mult_imp_div_less mult.commute)

lemma bit_upd:
  assumes "p < 64 * length b"
  shows "bits (b[p div 64 := w]) =
    {q. q < 64 * length b \<and> (if q div 64 = p div 64 then bit w (q mod 64) else q \<in> bits b)}"
  using index_lt [OF assms] by (auto simp: bits_def nth_list_update split: if_splits)

lemma split_eq: "q div 64 = p div 64 \<Longrightarrow> (q mod 64 = p mod 64) = (q = (p :: nat))"
  by (metis div_mult_mod_eq)

lemma bitset_set_ok:
  assumes "p < 64 * length b"
  shows "\<exists>b'. bitset_set b p = Inr b' \<and> length b' = length b \<and> bits b' = insert p (bits b)"
proof -
  let ?w = "b ! (p div 64) OR push_bit (p mod 64) 1"
  have "bitset_set b p = Inr (b[p div 64 := ?w])"
    using index_lt [OF assms] by (simp add: bitset_set_def bitsetIndex_def go_simps del: of_nat_div)
  moreover have "bit ?w (q mod 64) = (bit (b ! (p div 64)) (q mod 64) \<or> q mod 64 = p mod 64)" for q
    by (auto simp: bit_simps)
  then have "bits (b[p div 64 := ?w]) = insert p (bits b)"
    unfolding bit_upd [OF assms] using assms split_eq [of _ p]
    by (simp add: bits_def set_eq_iff) metis
  ultimately show ?thesis by simp
qed

lemma bitset_clear_ok:
  assumes "p < 64 * length b"
  shows "\<exists>b'. bitset_clear b p = Inr b' \<and> length b' = length b \<and> bits b' = bits b - {p}"
proof -
  let ?w = "b ! (p div 64) AND NOT (push_bit (p mod 64) 1)"
  have "bitset_clear b p = Inr (b[p div 64 := ?w])"
    using index_lt [OF assms] by (simp add: bitset_clear_def bitsetIndex_def go_simps del: of_nat_div)
  moreover have "bit ?w (q mod 64) = (bit (b ! (p div 64)) (q mod 64) \<and> q mod 64 \<noteq> p mod 64)" for q
    by (auto simp: bit_simps)
  then have "bits (b[p div 64 := ?w]) = bits b - {p}"
    unfolding bit_upd [OF assms] using assms split_eq [of _ p]
    by (simp add: bits_def set_eq_iff) metis
  ultimately show ?thesis by simp
qed

lemma bitset_get_ok:
  assumes "p < 64 * length b"
  shows "bitset_get b p = Inr (p \<in> bits b)"
proof -
  have "(b ! (p div 64) AND push_bit (p mod 64) 1 \<noteq> 0) = bit (b ! (p div 64)) (p mod 64)"
    by (simp add: bit_iff_and_push_bit_not_eq_0)
  then show ?thesis
    using index_lt [OF assms] assms
    by (simp add: bitset_get_def bitsetIndex_def go_simps bits_def del: of_nat_div push_bit_of_1)
qed

lemma equals_loop_iff: "equals_loop b c is \<longleftrightarrow> (\<forall>i\<in>set is. b ! i = c ! i)"
  by (induction "is") auto

lemma bitset_equals_eq: "bitset_equals b c \<longleftrightarrow> b = c"
  by (auto simp: bitset_equals_def equals_loop_iff intro: nth_equalityI)

lemma bits_inject: "length b = length c \<Longrightarrow> bits b = bits c \<Longrightarrow> b = c"
proof (rule nth_equalityI)
  fix i assume len: "length b = length c" and eq: "bits b = bits c" and i: "i < length b"
  show "b ! i = c ! i"
  proof (rule bit_word_eqI)
    fix k assume "k < LENGTH(64)"
    then have k: "(64 * i + k) div 64 = i" "(64 * i + k) mod 64 = k" "64 * i + k < 64 * length b"
      using i by simp_all
    then show "bit (b ! i) k = bit (c ! i) k"
      using arg_cong [OF eq, where f = "\<lambda>S. 64 * i + k \<in> S"] len by (simp add: bits_def)
  qed
qed simp

interpretation bs: finite_bitset "\<lambda>b. 64 * length b" bits bitset_set bitset_clear bitset_get bitset_equals
proof unfold_locales
  show "\<exists>b'. bitset_set b p = Inr b' \<and> 64 * length b' = 64 * length b \<and> bits b' = insert p (bits b)"
    if "p < 64 * length b" for p b
    using bitset_set_ok [OF that] by auto
  show "\<exists>b'. bitset_clear b p = Inr b' \<and> 64 * length b' = 64 * length b \<and> bits b' = bits b - {p}"
    if "p < 64 * length b" for p b
    using bitset_clear_ok [OF that] by auto
  show "bitset_equals b c \<longleftrightarrow> 64 * length b = 64 * length c \<and> bits b = bits c" for b c
    by (auto simp: bitset_equals_eq intro: bits_inject)
qed (rule bitset_get_ok)

lemma clone_eq [simp]: "bitset_clone b = b"
  by (simp add: bitset_clone_def map_nth)

lemma newBitset_props:
  "bits (newBitset n) = {}" "n \<le> 64 * length (newBitset n)"
proof -
  show "bits (newBitset n) = {}"
    by (auto simp: bits_def newBitset_def Let_def less_mult_imp_div_less mult.commute)
  show "n \<le> 64 * length (newBitset n)"
    by (simp add: newBitset_def Let_def) presburger
qed

section \<open>Counting and hashing\<close>

lemma foldl_plus: "foldl (\<lambda>total v. total + f v) k xs = k + sum_list (map f xs)" for k :: nat
  by (induction xs arbitrary: k) simp_all

lemma bits_Cons: "bits (w # b) = {p. p < 64 \<and> bit w p} \<union> (+) 64 ` bits b"
proof (intro set_eqI iffI)
  fix p assume p: "p \<in> bits (w # b)"
  show "p \<in> {p. p < 64 \<and> bit w p} \<union> (+) 64 ` bits b"
  proof (cases "p < 64")
    case True
    then show ?thesis using p by (simp add: bits_def)
  next
    case False
    then have "p = 64 + (p - 64)" "p div 64 = Suc ((p - 64) div 64)" "p mod 64 = (p - 64) mod 64"
      by (simp_all add: le_div_geq le_mod_geq)
    then have "p - 64 \<in> bits b" using p False by (auto simp: bits_def)
    then show ?thesis using \<open>p = 64 + (p - 64)\<close> by blast
  qed
qed (auto simp: bits_def div_add_self1)

lemma card_bits: "card (bits b) = sum_list (map OnesCount64 b)"
proof (induction b)
  case Nil
  then show ?case by (simp add: bits_def)
next
  case (Cons w b)
  have "set (filter (bit w) [0..<64]) = {p. p < 64 \<and> bit w p}" by auto
  then have "card {p. p < 64 \<and> bit w p} = OnesCount64 w"
    using distinct_card [of "filter (bit w) [0..<64]"] by (simp add: OnesCount64_def)
  moreover have "card ((+) 64 ` bits b) = card (bits b)"
    by (simp add: card_image)
  moreover have "finite (bits b)" by (simp add: bits_def)
  ultimately show ?case
    unfolding bits_Cons by (subst card_Un_disjoint) (auto simp: Cons.IH)
qed

text \<open>
  C38. The bit set implements finite sets. Within its capacity \<open>set\<close>, \<open>clear\<close> and \<open>get\<close> are
  insertion, removal and membership and keep the capacity, \<open>equals\<close> decides equality of the
  sets, \<open>popcnt\<close> is the cardinality, a fresh bit set is empty and has room for the requested
  number of bits, and equal sets have equal hashes.
\<close>

theorem bitset_implements_set:
  assumes "p < 64 * length b"
  shows "(\<exists>b'. bitset_set b p = Inr b' \<and> length b' = length b \<and> bits b' = insert p (bits b)) \<and>
    (\<exists>b'. bitset_clear b p = Inr b' \<and> length b' = length b \<and> bits b' = bits b - {p}) \<and>
    bitset_get b p = Inr (p \<in> bits b) \<and>
    (length c = length b \<longrightarrow> bitset_equals b c = (bits b = bits c)) \<and>
    (bitset_equals b c \<longrightarrow> bitset_hash b = bitset_hash c) \<and>
    popcnt b = card (bits b) \<and>
    bits (newBitset n) = {} \<and> n \<le> 64 * length (newBitset n)"
proof (intro conjI impI)
  show "bitset_equals b c = (bits b = bits c)" if "length c = length b"
    using that by (simp add: bs.eqv_ok)
  show "bitset_hash b = bitset_hash c" if "bitset_equals b c"
    using that by (simp add: bitset_equals_eq)
  show "popcnt b = card (bits b)"
    by (simp add: popcnt_def foldl_plus card_bits)
qed (use assms in \<open>simp_all add: bitset_set_ok bitset_clear_ok bitset_get_ok newBitset_props\<close>)

theorem bitset_implements_set_witness:
  "bitset_get [5, 1] 64 = Inr True \<and> popcnt [5, 1] = card (bits [5, 1]) \<and> popcnt [5, 1] = 3"
proof -
  have "popcnt [5, 1] = 3" and "bitset_get [5, 1] 64 = Inr True" by code_simp+
  then show ?thesis
    using bitset_implements_set [of 64 "[5, 1]" "[5, 1]" 0] by simp
qed

text \<open>An index beyond the last word is a panic.\<close>

lemma bitset_out_of_range:
  "64 * length b \<le> p \<Longrightarrow>
   bitset_set b p = Inl IndexOutOfRange \<and> bitset_clear b p = Inl IndexOutOfRange \<and>
   bitset_get b p = Inl IndexOutOfRange"
proof -
  assume "64 * length b \<le> p"
  then have "\<not> p div 64 < length b" by (simp add: div_less_iff_less_mult)
  then show ?thesis
    by (simp add: bitset_set_def bitset_clear_def bitset_get_def bitsetIndex_def go_idx_def del: of_nat_div)
qed

end
