(* ===== verification/Porcupine_Checker.thy ===== *)
theory Porcupine_Checker
  imports Porcupine_Bitset "HOL-Library.While_Combinator"
begin

text \<open>
  The linearizability checker (\<open>porcupine/checker.go\<close>, \<open>porcupine/model.go\<close>): its data and
  operations.

  The history is a doubly linked list of nodes in a heap: an address is an index into a list of
  nodes, a pointer is an optional address, allocation appends. Following a nil pointer is
  \<open>NilDereference\<close>. The value of a node is an \<open>interface{}\<close>, the type variable \<open>'v\<close>; only the
  head node has none. \<open>uint(entry.id)\<close> is \<open>nat\<close>: the ids of entries are not negative.
  A Go map from hashes to slices is a function that is empty where the key is missing. Loops
  that follow pointers are \<open>while_option\<close>, where \<open>None\<close> is a loop that does not end. The value
  of the flag \<open>kill\<close> that the loop reads in iteration \<open>k\<close> is \<open>kill k\<close>. The pointers in
  \<open>longest\<close> are the sequences they point to.
\<close>

section \<open>Histories and models\<close>

datatype entryKind = callEntry | returnEntry

record 'v entry =
  e_kind :: entryKind
  e_value :: 'v
  e_id :: int
  e_time :: int
  e_clientId :: int

record 'v Operation =
  op_ClientId :: int
  op_Input :: 'v
  op_Call :: int
  op_Output :: 'v
  op_Return :: int

datatype EventKind = CallEvent | ReturnEvent

record 'v Event =
  ev_ClientId :: int
  ev_Kind :: EventKind
  ev_Value :: 'v
  ev_Id :: int

record ('s, 'v) Model =
  m_Partition :: "('v Operation list \<Rightarrow> 'v Operation list list) option"
  m_PartitionEvent :: "('v Event list \<Rightarrow> 'v Event list list) option"
  m_Init :: 's
  m_Step :: "'s \<Rightarrow> 'v \<Rightarrow> 'v \<Rightarrow> bool \<times> 's"
  m_Equal :: "('s \<Rightarrow> 's \<Rightarrow> bool) option"

definition NoPartition :: "'v Operation list \<Rightarrow> 'v Operation list list" where
  "NoPartition history = [history]"

definition NoPartitionEvent :: "'v Event list \<Rightarrow> 'v Event list list" where
  "NoPartitionEvent history = [history]"

definition ShallowEqual :: "'s \<Rightarrow> 's \<Rightarrow> bool" where
  "ShallowEqual state1 state2 \<longleftrightarrow> state1 = state2"

definition fillDefault :: "('s, 'v) Model \<Rightarrow> ('s, 'v) Model" where
  "fillDefault model =
     (let model = (if m_Partition model = None then model\<lparr>m_Partition := Some NoPartition\<rparr> else model);
          model = (if m_PartitionEvent model = None
                   then model\<lparr>m_PartitionEvent := Some NoPartitionEvent\<rparr> else model)
      in if m_Equal model = None then model\<lparr>m_Equal := Some ShallowEqual\<rparr> else model)"

definition model_equal :: "('s, 'v) Model \<Rightarrow> 's \<Rightarrow> 's \<Rightarrow> bool go" where
  "model_equal model s t = (case m_Equal model of None \<Rightarrow> Inl NilDereference | Some f \<Rightarrow> Inr (f s t))"

section \<open>Entries\<close>

fun op_entries :: "nat \<Rightarrow> 'v Operation list \<Rightarrow> 'v entry list" where
  "op_entries i [] = []"
| "op_entries i (elem # history) =
     \<lparr>e_kind = callEntry, e_value = op_Input elem, e_id = int i, e_time = op_Call elem,
      e_clientId = op_ClientId elem\<rparr> #
     \<lparr>e_kind = returnEntry, e_value = op_Output elem, e_id = int i, e_time = op_Return elem,
      e_clientId = op_ClientId elem\<rparr> #
     op_entries (Suc i) history"

text \<open>\<open>sort.Sort\<close> by time is not stable, so it is a parameter \<open>srt\<close>.\<close>

definition makeEntries :: "('v entry list \<Rightarrow> 'v entry list) \<Rightarrow> 'v Operation list \<Rightarrow> 'v entry list" where
  "makeEntries srt history = srt (op_entries 0 history)"

fun renumber_loop :: "(int \<rightharpoonup> int) \<Rightarrow> int \<Rightarrow> 'v Event list \<Rightarrow> 'v Event list" where
  "renumber_loop m i [] = []"
| "renumber_loop m i (v # events) =
     (case m (ev_Id v) of
        Some r \<Rightarrow> v\<lparr>ev_Id := r\<rparr> # renumber_loop m i events
      | None \<Rightarrow> v\<lparr>ev_Id := i\<rparr> # renumber_loop (m(ev_Id v \<mapsto> i)) (i + 1) events)"

definition renumber :: "'v Event list \<Rightarrow> 'v Event list" where
  "renumber events = renumber_loop Map.empty 0 events"

definition convertEntries :: "'v Event list \<Rightarrow> 'v entry list" where
  "convertEntries events =
     map (\<lambda>(i, elem). \<lparr>e_kind = (if ev_Kind elem = ReturnEvent then returnEntry else callEntry),
          e_value = ev_Value elem, e_id = ev_Id elem, e_time = int i, e_clientId = ev_ClientId elem\<rparr>)
       (zip [0..<length events] events)"

section \<open>The linked list\<close>

record 'v node =
  n_value :: "'v option"
  n_match :: "nat option"
  n_id :: int
  n_next :: "nat option"
  n_prev :: "nat option"

type_synonym 'v heap = "'v node list"

definition load :: "'v heap \<Rightarrow> nat option \<Rightarrow> 'v node go" where
  "load h p = (case p of None \<Rightarrow> Inl NilDereference
     | Some a \<Rightarrow> if a < length h then Inr (h ! a) else Inl NilDereference)"

definition set_next :: "nat option \<Rightarrow> nat option \<Rightarrow> 'v heap \<Rightarrow> 'v heap go" where
  "set_next p q h = (case p of None \<Rightarrow> Inl NilDereference
     | Some a \<Rightarrow> if a < length h then Inr (h[a := (h ! a)\<lparr>n_next := q\<rparr>]) else Inl NilDereference)"

definition set_prev :: "nat option \<Rightarrow> nat option \<Rightarrow> 'v heap \<Rightarrow> 'v heap go" where
  "set_prev p q h = (case p of None \<Rightarrow> Inl NilDereference
     | Some a \<Rightarrow> if a < length h then Inr (h[a := (h ! a)\<lparr>n_prev := q\<rparr>]) else Inl NilDereference)"

definition insertBefore :: "nat \<Rightarrow> nat option \<Rightarrow> 'v heap \<Rightarrow> 'v heap go" where
  "insertBefore n mark h =
     (if mark = None then Inr h
      else
        go_bind (load h mark) (\<lambda>m.
          let beforeMark = n_prev m
          in go_bind (set_prev mark (Some n) h) (\<lambda>h.
             go_bind (set_next (Some n) mark h) (\<lambda>h.
               if beforeMark = None then Inr h
               else go_bind (set_prev (Some n) beforeMark h) (set_next beforeMark (Some n))))))"

definition node_length :: "'v heap \<Rightarrow> nat option \<Rightarrow> nat option" where
  "node_length h n =
     map_option snd (while_option (\<lambda>(n, l). n \<noteq> None) (\<lambda>(n, l). (n_next (h ! the n), l + 1)) (n, 0))"

fun linked_loop ::
  "'v entry list \<Rightarrow> nat option \<Rightarrow> (int \<rightharpoonup> nat) \<Rightarrow> 'v heap \<Rightarrow> ('v heap \<times> nat option) go" where
  "linked_loop [] root mtch h = Inr (h, root)"
| "linked_loop (elem # rest) root mtch h =
     (let a = length h;
          mtch' = (if e_kind elem = returnEntry then mtch(e_id elem \<mapsto> a) else mtch);
          nd = \<lparr>n_value = Some (e_value elem),
                n_match = (if e_kind elem = returnEntry then None else mtch (e_id elem)),
                n_id = e_id elem, n_next = None, n_prev = None\<rparr>
      in go_bind (insertBefore a root (h @ [nd])) (linked_loop rest (Some a) mtch'))"

definition makeLinkedEntries :: "'v entry list \<Rightarrow> ('v heap \<times> nat option) go" where
  "makeLinkedEntries entries = linked_loop (rev entries) None Map.empty []"

definition lift :: "nat \<Rightarrow> 'v heap \<Rightarrow> 'v heap go" where
  "lift entry h =
     go_bind (load h (Some entry)) (\<lambda>e.
     go_bind (set_next (n_prev e) (n_next e) h) (\<lambda>h.
     go_bind (set_prev (n_next e) (n_prev e) h) (\<lambda>h.
     go_bind (load h (n_match e)) (\<lambda>m.
     go_bind (set_next (n_prev m) (n_next m) h) (\<lambda>h.
       if n_next m \<noteq> None then set_prev (n_next m) (n_prev m) h else Inr h)))))"

definition unlift :: "nat \<Rightarrow> 'v heap \<Rightarrow> 'v heap go" where
  "unlift entry h =
     go_bind (load h (Some entry)) (\<lambda>e.
     go_bind (load h (n_match e)) (\<lambda>m.
     go_bind (set_next (n_prev m) (n_match e) h) (\<lambda>h.
     go_bind (if n_next m \<noteq> None then set_prev (n_next m) (n_match e) h else Inr h) (\<lambda>h.
     go_bind (set_next (n_prev e) (Some entry) h) (set_prev (n_next e) (Some entry))))))"

section \<open>The search\<close>

type_synonym 's cache = "64 word \<Rightarrow> (bitset \<times> 's) list"

fun cacheContains_loop :: "('s, 'v) Model \<Rightarrow> (bitset \<times> 's) list \<Rightarrow> bitset \<times> 's \<Rightarrow> bool go" where
  "cacheContains_loop model [] entry = Inr False"
| "cacheContains_loop model (elem # elems) entry =
     go_bind (if bitset_equals (fst entry) (fst elem) then model_equal model (snd entry) (snd elem) else Inr False)
       (\<lambda>hit. if hit then Inr True else cacheContains_loop model elems entry)"

definition cacheContains :: "('s, 'v) Model \<Rightarrow> 's cache \<Rightarrow> bitset \<times> 's \<Rightarrow> bool go" where
  "cacheContains model cache entry = cacheContains_loop model (cache (bitset_hash (fst entry))) entry"

record ('s, 'v) check =
  c_heap :: "'v heap"
  c_entry :: "nat option"
  c_state :: 's
  c_linearized :: bitset
  c_cache :: "'s cache"
  c_calls :: "(nat \<times> 's) list"
  c_longest :: "int list option list"
  c_iter :: nat
  c_failed :: bool

fun longest_loop :: "int list \<Rightarrow> int list \<Rightarrow> int list option list \<Rightarrow> int list option list go" where
  "longest_loop seq [] longest = Inr longest"
| "longest_loop seq (i # ids) longest =
     go_bind (go_idx longest i) (\<lambda>old.
     go_bind (if (case old of None \<Rightarrow> True | Some l \<Rightarrow> length seq > length l)
              then go_upd longest i (Some seq) else Inr longest)
       (longest_loop seq ids))"

definition call_ids :: "'v heap \<Rightarrow> (nat \<times> 's) list \<Rightarrow> int list" where
  "call_ids h calls = map (\<lambda>(a, _). n_id (h ! a)) calls"

text \<open>The two branches of the loop body: a call entry, and a return entry.\<close>

definition check_call :: "('s, 'v) Model \<Rightarrow> nat \<Rightarrow> nat \<Rightarrow> ('s, 'v) check \<Rightarrow> ('s, 'v) check go" where
  "check_call model headEntry entry c =
     go_bind (load (c_heap c) (Some entry)) (\<lambda>e.
     go_bind (load (c_heap c) (n_match e)) (\<lambda>matching.
     go_bind (case (n_value e, n_value matching) of
                (Some x, Some y) \<Rightarrow> Inr (m_Step model (c_state c) x y)
              | _ \<Rightarrow> Inl TypeAssertion) (\<lambda>(ok, newState).
       if ok then
         go_bind (bitset_set (bitset_clone (c_linearized c)) (nat (n_id e))) (\<lambda>newLinearized.
         go_bind (cacheContains model (c_cache c) (newLinearized, newState)) (\<lambda>hit.
           if \<not> hit then
             let hash = bitset_hash newLinearized
             in go_bind (bitset_set (c_linearized c) (nat (n_id e))) (\<lambda>linearized.
                go_bind (lift entry (c_heap c)) (\<lambda>h.
                go_bind (load h (Some headEntry)) (\<lambda>head.
                  Inr (c\<lparr>c_cache := (c_cache c)(hash := c_cache c hash @ [(newLinearized, newState)]),
                         c_calls := c_calls c @ [(entry, c_state c)], c_state := newState,
                         c_linearized := linearized, c_heap := h, c_entry := n_next head\<rparr>))))
           else Inr (c\<lparr>c_entry := n_next e\<rparr>)))
       else Inr (c\<lparr>c_entry := n_next e\<rparr>))))"

definition check_return :: "bool \<Rightarrow> ('s, 'v) check \<Rightarrow> ('s, 'v) check go" where
  "check_return computePartial c =
     (if c_calls c = [] then Inr (c\<lparr>c_failed := True\<rparr>)
      else
        go_bind (if computePartial
                 then longest_loop (call_ids (c_heap c) (c_calls c)) (call_ids (c_heap c) (c_calls c)) (c_longest c)
                 else Inr (c_longest c)) (\<lambda>longest.
          let (entry, state) = last (c_calls c)
          in go_bind (load (c_heap c) (Some entry)) (\<lambda>e.
             go_bind (bitset_clear (c_linearized c) (nat (n_id e))) (\<lambda>linearized.
             go_bind (unlift entry (c_heap c)) (\<lambda>h.
             go_bind (load h (Some entry)) (\<lambda>e.
               Inr (c\<lparr>c_longest := longest, c_state := state, c_linearized := linearized,
                      c_calls := butlast (c_calls c), c_heap := h, c_entry := n_next e\<rparr>)))))))"

definition check_step ::
  "('s, 'v) Model \<Rightarrow> bool \<Rightarrow> (nat \<Rightarrow> bool) \<Rightarrow> nat \<Rightarrow> ('s, 'v) check \<Rightarrow> ('s, 'v) check go" where
  "check_step model computePartial kill headEntry c =
     (if kill (c_iter c) then Inr (c\<lparr>c_failed := True\<rparr>)
      else
        go_bind (load (c_heap c) (c_entry c)) (\<lambda>e.
        go_bind (if n_match e \<noteq> None then check_call model headEntry (the (c_entry c)) c
                 else check_return computePartial c) (\<lambda>c.
          Inr (c\<lparr>c_iter := Suc (c_iter c)\<rparr>))))"

definition check_running :: "nat \<Rightarrow> ('s, 'v) check \<Rightarrow> bool" where
  "check_running headEntry c \<longleftrightarrow> \<not> c_failed c \<and> n_next (c_heap c ! headEntry) \<noteq> None"

definition check_loop ::
  "('s, 'v) Model \<Rightarrow> bool \<Rightarrow> (nat \<Rightarrow> bool) \<Rightarrow> nat \<Rightarrow> ('s, 'v) check \<Rightarrow> ('s, 'v) check go option" where
  "check_loop model computePartial kill headEntry c =
     while_option (\<lambda>r. case r of Inl _ \<Rightarrow> False | Inr c \<Rightarrow> check_running headEntry c)
       (\<lambda>r. go_bind r (check_step model computePartial kill headEntry)) (Inr c)"

definition check_result :: "nat \<Rightarrow> ('s, 'v) check \<Rightarrow> bool \<times> int list option list" where
  "check_result n c =
     (if c_failed c then (False, c_longest c)
      else (True, replicate n (Some (call_ids (c_heap c) (c_calls c)))))"

definition check_start :: "('s, 'v) Model \<Rightarrow> nat \<Rightarrow> nat option \<Rightarrow> 'v heap \<Rightarrow> ('s, 'v) check go" where
  "check_start model n entry h =
     go_bind (insertBefore (length h) entry
         (h @ [\<lparr>n_value = None, n_match = None, n_id = -1, n_next = None, n_prev = None\<rparr>])) (\<lambda>h.
       Inr \<lparr>c_heap = h, c_entry = entry, c_state = m_Init model, c_linearized = newBitset n,
            c_cache = (\<lambda>_. []), c_calls = [], c_longest = replicate n None, c_iter = 0, c_failed = False\<rparr>)"

definition checkSingle ::
  "('s, 'v) Model \<Rightarrow> 'v entry list \<Rightarrow> bool \<Rightarrow> (nat \<Rightarrow> bool) \<Rightarrow> (bool \<times> int list option list) go option" where
  "checkSingle model history computePartial kill =
     (case makeLinkedEntries history of
        Inl e \<Rightarrow> Some (Inl e)
      | Inr (h, entry) \<Rightarrow>
          (case node_length h entry of
             None \<Rightarrow> None
           | Some l \<Rightarrow>
               (case check_start model (l div 2) entry h of
                  Inl e \<Rightarrow> Some (Inl e)
                | Inr c \<Rightarrow>
                    map_option (\<lambda>r. go_bind r (\<lambda>c. Inr (check_result (l div 2) c)))
                      (check_loop model computePartial kill (length h) c))))"

section \<open>All partitions\<close>

datatype CheckResult = Unknown | Ok | Illegal

text \<open>
  The select loop of \<open>checkParallel\<close> over what it receives: the result of a partition, or the
  timeout. The result of a partition that never answers is \<open>None\<close>, and waiting for it or for
  anything when nothing is left to come blocks for ever. A panic in a goroutine ends the
  process. The flag \<open>kill\<close> is set only when the loop is left, so the results it has read are
  those of searches that were not killed.
\<close>

datatype arrival = Result "bool go option" | Timeout

fun parallel_loop :: "bool \<Rightarrow> nat \<Rightarrow> nat \<Rightarrow> bool \<Rightarrow> arrival list \<Rightarrow> CheckResult go option" where
  "parallel_loop computeInfo parts cnt ok [] = None"
| "parallel_loop computeInfo parts cnt ok (Timeout # as) = Some (Inr (if \<not> ok then Illegal else Unknown))"
| "parallel_loop computeInfo parts cnt ok (Result r # as) =
     (case r of
        None \<Rightarrow> None
      | Some (Inl e) \<Rightarrow> Some (Inl e)
      | Some (Inr result) \<Rightarrow>
          let cnt = Suc cnt; ok = (ok \<and> result)
          in if \<not> ok \<and> \<not> computeInfo then Some (Inr Illegal)
             else if cnt \<ge> parts then Some (Inr (if \<not> ok then Illegal else Ok))
             else parallel_loop computeInfo parts cnt ok as)"

definition single_result :: "('s, 'v) Model \<Rightarrow> bool \<Rightarrow> 'v entry list \<Rightarrow> bool go option" where
  "single_result model computeInfo entries =
     map_option (\<lambda>r. go_bind r (\<lambda>(ok, _). Inr ok)) (checkSingle model entries computeInfo (\<lambda>_. False))"

text \<open>
  \<open>arrivals\<close> is what the select loop receives, in order: \<open>Some i\<close> the result of partition \<open>i\<close>,
  \<open>None\<close> the timeout, which cannot come when the timeout is 0.
\<close>

definition checkParallel ::
  "('s, 'v) Model \<Rightarrow> 'v entry list list \<Rightarrow> bool \<Rightarrow> nat option list \<Rightarrow> CheckResult go option" where
  "checkParallel model history computeInfo arrivals =
     parallel_loop computeInfo (length history) 0 True
       (map (\<lambda>a. case a of None \<Rightarrow> Timeout | Some i \<Rightarrow> Result (single_result model computeInfo (history ! i)))
          arrivals)"

definition checkEvents ::
  "('s, 'v) Model \<Rightarrow> 'v Event list \<Rightarrow> bool \<Rightarrow> nat option list \<Rightarrow> CheckResult go option" where
  "checkEvents model history verbose arrivals =
     (let model = fillDefault model
      in case m_PartitionEvent model of
           None \<Rightarrow> Some (Inl NilDereference)
         | Some part \<Rightarrow>
             checkParallel model (map (\<lambda>sub. convertEntries (renumber sub)) (part history)) verbose arrivals)"

definition checkOperations ::
  "('v entry list \<Rightarrow> 'v entry list) \<Rightarrow> ('s, 'v) Model \<Rightarrow> 'v Operation list \<Rightarrow> bool \<Rightarrow> nat option list \<Rightarrow>
   CheckResult go option" where
  "checkOperations srt model history verbose arrivals =
     (let model = fillDefault model
      in case m_Partition model of
           None \<Rightarrow> Some (Inl NilDereference)
         | Some part \<Rightarrow> checkParallel model (map (makeEntries srt) (part history)) verbose arrivals)"

definition CheckOperations ::
  "('v entry list \<Rightarrow> 'v entry list) \<Rightarrow> ('s, 'v) Model \<Rightarrow> 'v Operation list \<Rightarrow> nat list \<Rightarrow> bool go option" where
  "CheckOperations srt model history order =
     map_option (\<lambda>r. go_bind r (\<lambda>res. Inr (res = Ok))) (checkOperations srt model history False (map Some order))"

definition CheckOperationsTimeout ::
  "('v entry list \<Rightarrow> 'v entry list) \<Rightarrow> ('s, 'v) Model \<Rightarrow> 'v Operation list \<Rightarrow> nat option list \<Rightarrow>
   CheckResult go option" where
  "CheckOperationsTimeout srt model history arrivals = checkOperations srt model history False arrivals"

definition CheckEvents :: "('s, 'v) Model \<Rightarrow> 'v Event list \<Rightarrow> nat list \<Rightarrow> bool go option" where
  "CheckEvents model history order =
     map_option (\<lambda>r. go_bind r (\<lambda>res. Inr (res = Ok))) (checkEvents model history False (map Some order))"

definition CheckEventsTimeout ::
  "('s, 'v) Model \<Rightarrow> 'v Event list \<Rightarrow> nat option list \<Rightarrow> CheckResult go option" where
  "CheckEventsTimeout model history arrivals = checkEvents model history False arrivals"

end
