(* ===== verification/Porcupine_Links.thy ===== *)
theory Porcupine_Links
  imports Porcupine_Checker
begin

text \<open>
  The doubly linked list of the checker. \<open>links h as\<close> says that the nodes at the addresses
  \<open>as\<close> form a doubly linked list in that order. Unlinking a node and linking it back in
  restores the heap exactly, because the pointers of the removed node are kept: this is why
  \<open>unlift\<close> undoes \<open>lift\<close>.
\<close>

section \<open>Linked lists\<close>

definition linked :: "'v heap \<Rightarrow> nat \<Rightarrow> nat \<Rightarrow> bool" where
  "linked h a b \<longleftrightarrow> n_next (h ! a) = Some b \<and> n_prev (h ! b) = Some a"

definition links :: "'v heap \<Rightarrow> nat list \<Rightarrow> bool" where
  "links h as \<longleftrightarrow> as \<noteq> [] \<and> distinct as \<and> set as \<subseteq> {..<length h} \<and>
     successively (linked h) as \<and> n_next (h ! last as) = None"

definition node_data :: "'v node \<Rightarrow> 'v option \<times> nat option \<times> int" where
  "node_data e = (n_value e, n_match e, n_id e)"

definition unlink :: "nat \<Rightarrow> 'v heap \<Rightarrow> 'v heap" where
  "unlink a h =
     (let e = h ! a; p = the (n_prev e); h = h[p := (h ! p)\<lparr>n_next := n_next e\<rparr>]
      in case n_next e of None \<Rightarrow> h | Some q \<Rightarrow> h[q := (h ! q)\<lparr>n_prev := Some p\<rparr>])"

definition relink :: "nat \<Rightarrow> 'v heap \<Rightarrow> 'v heap" where
  "relink a h =
     (let e = h ! a; p = the (n_prev e); h = h[p := (h ! p)\<lparr>n_next := Some a\<rparr>]
      in case n_next e of None \<Rightarrow> h | Some q \<Rightarrow> h[q := (h ! q)\<lparr>n_prev := Some a\<rparr>])"

lemma successively_mono_on:
  assumes "successively P xs" and "\<And>x y. x \<in> set (butlast xs) \<Longrightarrow> y \<in> set (tl xs) \<Longrightarrow> P x y \<Longrightarrow> Q x y"
  shows "successively Q xs"
  using assms
proof (induction P xs rule: successively.induct)
  case (3 P x y xs)
  have "successively Q (y # xs)"
    using "3.prems" by (intro "3.IH") (auto split: if_splits dest: list.set_sel(2) [rotated])
  then show ?case
    using "3.prems" by simp
qed auto

lemma links_middle:
  assumes "links h (xs @ a # ys)" and "xs \<noteq> []"
  shows "n_prev (h ! a) = Some (last xs)" and "n_next (h ! last xs) = Some a"
    and "n_next (h ! a) = (case ys of [] \<Rightarrow> None | q # _ \<Rightarrow> Some q)"
    and "ys \<noteq> [] \<Longrightarrow> n_prev (h ! hd ys) = Some a"
  using assms by (auto simp: links_def successively_append_iff successively_Cons linked_def split: list.splits)

lemma links_bounds:
  assumes "links h (xs @ a # ys)" and "xs \<noteq> []"
  shows "last xs < length h" and "ys \<noteq> [] \<Longrightarrow> hd ys < length h"
proof -
  have "last xs \<in> set xs" using assms(2) by simp
  then show "last xs < length h" using assms(1) by (auto simp: links_def)
  show "ys \<noteq> [] \<Longrightarrow> hd ys < length h" using assms(1) by (cases ys) (auto simp: links_def)
qed

lemma links_unlink:
  assumes l: "links h (xs @ a # ys)" and ne: "xs \<noteq> []"
  shows "links (unlink a h) (xs @ ys)"
proof -
  let ?p = "last xs"
  note mid = links_middle [OF assms]
  have d: "distinct (xs @ a # ys)" and len: "set (xs @ a # ys) \<subseteq> {..<length h}"
    and s: "successively (linked h) xs" "successively (linked h) ys" and e: "n_next (h ! last (a # ys)) = None"
    using l ne by (auto simp: links_def successively_append_iff successively_Cons)
  have in_xs: "?p \<in> set xs" using ne by simp
  then have p: "?p \<in> set xs" "?p \<notin> set ys" "?p < length h" using d len by auto
  have pb: "?p \<notin> set (butlast xs)"
    using d ne by (metis append_butlast_last_id distinct_append distinct_butlast not_distinct_conv_prefix
        disjoint_insert(1) list.set(2) list.simps(15))
  show ?thesis
  proof (cases ys)
    case Nil
    have u: "unlink a h = h[?p := (h ! ?p)\<lparr>n_next := None\<rparr>]"
      by (simp add: unlink_def mid Nil Let_def)
    have "successively (linked (unlink a h)) xs"
      by (rule successively_mono_on [OF s(1)]) (use pb p in \<open>auto simp: u linked_def nth_list_update\<close>)
    then show ?thesis
      using Nil ne d len p by (auto simp: links_def u)
  next
    case (Cons q zs)
    have u: "unlink a h = h[?p := (h ! ?p)\<lparr>n_next := Some q\<rparr>, q := (h ! q)\<lparr>n_prev := Some ?p\<rparr>]"
      using p Cons by (auto simp: unlink_def mid nth_list_update Let_def)
    have q: "q \<notin> set xs" "q \<notin> set zs" "q < length h" using d len Cons by auto
    have py: "?p \<notin> set (butlast ys)" using p by (auto dest: in_set_butlastD)
    have "successively (linked (unlink a h)) xs"
      by (rule successively_mono_on [OF s(1)])
        (use pb p q in \<open>auto simp: u linked_def nth_list_update dest: list.set_sel(2) [rotated]\<close>)
    moreover have "successively (linked (unlink a h)) ys"
      by (rule successively_mono_on [OF s(2)])
        (use p q py Cons in \<open>auto simp: u linked_def nth_list_update simp del: butlast.simps\<close>)
    moreover have "linked (unlink a h) ?p q"
      using p q Cons by (auto simp: u linked_def nth_list_update)
    moreover have "ys \<noteq> []" using Cons by simp
    then have "last ys \<in> set ys" by (rule last_in_set)
    then have "last ys \<noteq> ?p" using p(2) by auto
    then have "n_next (unlink a h ! last ys) = None"
      using e q Cons by (simp add: u nth_list_update del: last.simps) (simp split: if_splits)
    ultimately show ?thesis
      using d len ne Cons by (auto simp: links_def successively_append_iff u)
  qed
qed

lemma unlink_length [simp]: "length (unlink a h) = length h"
  by (simp add: unlink_def Let_def split: option.splits)

lemma node_data_update [simp]:
  "node_data (e\<lparr>n_next := p\<rparr>) = node_data e" "node_data (e\<lparr>n_prev := p\<rparr>) = node_data e"
  by (simp_all add: node_data_def)

lemma map_upd_same: "f x = f (xs ! i) \<Longrightarrow> map f (xs[i := x]) = map f xs"
  by (cases "i < length xs") (simp_all add: map_update list_update_same_conv list_update_beyond)

lemma unlink_data [simp]: "map node_data (unlink a h) = map node_data h"
  by (simp add: unlink_def Let_def map_upd_same split: option.splits)

lemma unlink_other:
  assumes "links h (xs @ a # ys)" and "xs \<noteq> []" and "b \<noteq> last xs" and "ys \<noteq> [] \<Longrightarrow> b \<noteq> hd ys"
  shows "unlink a h ! b = h ! b"
  using links_middle [OF assms(1,2)] assms(3,4)
  by (auto simp: unlink_def Let_def nth_list_update_neq split: list.splits)

lemma unlink_self:
  assumes "links h (xs @ a # ys)" and "xs \<noteq> []"
  shows "unlink a h ! a = h ! a"
proof (rule unlink_other [OF assms])
  have "last xs \<in> set xs" using assms(2) by simp
  then show "a \<noteq> last xs" "ys \<noteq> [] \<Longrightarrow> a \<noteq> hd ys"
    using assms(1) by (auto simp: links_def)
qed

lemma relink_unlink:
  assumes l: "links h (xs @ a # ys)" and ne: "xs \<noteq> []"
  shows "relink a (unlink a h) = h"
proof -
  note mid = links_middle [OF assms] and self = unlink_self [OF assms]
  have "last xs \<in> set xs" using ne by simp
  then have p: "last xs < length h" "last xs \<noteq> a" "ys \<noteq> [] \<Longrightarrow> last xs \<noteq> hd ys"
    using l by (auto simp: links_def)
  show ?thesis
  proof (cases ys)
    case Nil
    then show ?thesis
      using mid p by (simp add: relink_def self) (simp add: unlink_def Let_def list_update_same_conv)
  next
    case (Cons q zs)
    then have "q < length h" using l by (simp add: links_def)
    then show ?thesis
      using mid p Cons
      by (simp add: relink_def self) (auto simp: unlink_def Let_def intro!: nth_equalityI simp: nth_list_update)
  qed
qed

section \<open>Lifting\<close>

lemma load_Some: "a < length h \<Longrightarrow> load h (Some a) = Inr (h ! a)"
  by (simp add: load_def)

text \<open>One half of \<open>lift\<close> and of \<open>unlift\<close>: the node \<open>a\<close> with its pointers \<open>e\<close>.\<close>

lemma unlink_steps:
  assumes "links h (xs @ a # ys)" and "xs \<noteq> []"
  shows "go_bind (set_next (n_prev (h ! a)) (n_next (h ! a)) h) (\<lambda>h'.
      if n_next (h ! a) \<noteq> None then set_prev (n_next (h ! a)) (n_prev (h ! a)) h' else Inr h') = Inr (unlink a h)"
proof -
  note mid = links_middle [OF assms]
  note links_bounds [OF assms]
  then show ?thesis
    by (auto simp: set_next_def set_prev_def unlink_def Let_def mid split: list.splits)
qed

lemma relink_steps:
  assumes "links h (xs @ a # ys)" and "xs \<noteq> []"
  shows "go_bind (set_next (n_prev (h ! a)) (Some a) (unlink a h)) (\<lambda>h'.
      if n_next (h ! a) \<noteq> None then set_prev (n_next (h ! a)) (Some a) h' else Inr h') = Inr h"
proof -
  note mid = links_middle [OF assms]
  note links_bounds [OF assms]
  then have "go_bind (set_next (n_prev (h ! a)) (Some a) (unlink a h)) (\<lambda>h'.
      if n_next (h ! a) \<noteq> None then set_prev (n_next (h ! a)) (Some a) h' else Inr h') = Inr (relink a (unlink a h))"
    by (auto simp: set_next_def set_prev_def relink_def Let_def mid unlink_self [OF assms] split: list.splits)
  then show ?thesis by (simp add: relink_unlink [OF assms])
qed

lemma lift_links:
  assumes l: "links h (xs @ a # ys @ m # zs)" and ne: "xs \<noteq> []" and m: "n_match (h ! a) = Some m"
  shows "lift a h = Inr (unlink m (unlink a h)) \<and> links (unlink m (unlink a h)) (xs @ ys @ zs) \<and>
    unlift a (unlink m (unlink a h)) = Inr h"
proof -
  let ?h1 = "unlink a h"
  have l1: "links ?h1 ((xs @ ys) @ m # zs)"
    using links_unlink [of h xs a "ys @ m # zs"] l ne by simp
  have ne1: "xs @ ys \<noteq> []" using ne by simp
  have l2: "links (unlink m ?h1) (xs @ ys @ zs)"
    using links_unlink [OF l1 ne1] by simp
  have bounds: "a < length h" "m < length h" using l by (auto simp: links_def)
  have nxt: "n_next (h ! a) \<noteq> None"
    using links_middle(3) [of h xs a "ys @ m # zs"] l ne by (simp split: list.splits)
  have step1: "go_bind (set_next (n_prev (h ! a)) (n_next (h ! a)) h)
      (set_prev (n_next (h ! a)) (n_prev (h ! a))) = Inr ?h1"
    using unlink_steps [of h xs a "ys @ m # zs"] l ne nxt by simp
  have lift: "lift a h = Inr (unlink m ?h1)"
  proof -
    have "lift a h = go_bind (go_bind (set_next (n_prev (h ! a)) (n_next (h ! a)) h)
        (set_prev (n_next (h ! a)) (n_prev (h ! a)))) (\<lambda>h'.
        go_bind (load h' (Some m)) (\<lambda>m. go_bind (set_next (n_prev m) (n_next m) h') (\<lambda>h.
          if n_next m \<noteq> None then set_prev (n_next m) (n_prev m) h else Inr h)))"
      using bounds m by (simp add: lift_def load_Some go_bind_assoc)
    then show ?thesis
      using bounds by (simp only: step1 go_bind.simps load_Some unlink_length unlink_steps [OF l1 ne1])
  qed
  have a_notin: "a \<notin> set (xs @ ys @ m # zs)" using l by (auto simp: links_def)
  have "unlink m ?h1 ! a = ?h1 ! a"
    by (rule unlink_other [OF l1 ne1]) (use a_notin ne1 in \<open>auto simp: last_append split: if_splits\<close>)
  then have ea: "unlink m ?h1 ! a = h ! a"
    using unlink_self [of h xs a "ys @ m # zs"] l ne by simp
  have em: "unlink m ?h1 ! m = ?h1 ! m" by (rule unlink_self [OF l1 ne1])
  have undo: "go_bind (set_next (n_prev (h ! a)) (Some a) ?h1) (set_prev (n_next (h ! a)) (Some a)) = Inr h"
    using relink_steps [of h xs a "ys @ m # zs"] l ne nxt by simp
  have "unlift a (unlink m ?h1) = Inr h"
  proof -
    have "unlift a (unlink m ?h1) = go_bind (go_bind (set_next (n_prev (?h1 ! m)) (Some m) (unlink m ?h1)) (\<lambda>h'.
        if n_next (?h1 ! m) \<noteq> None then set_prev (n_next (?h1 ! m)) (Some m) h' else Inr h')) (\<lambda>h'.
        go_bind (set_next (n_prev (h ! a)) (Some a) h') (set_prev (n_next (h ! a)) (Some a)))"
      using bounds m by (simp add: unlift_def load_Some ea em go_bind_assoc cong: if_cong)
    then show ?thesis
      by (simp only: relink_steps [OF l1 ne1] go_bind.simps undo)
  qed
  then show ?thesis using lift l2 by simp
qed

section \<open>Building the list\<close>

definition ret_at :: "'v entry list \<Rightarrow> int \<rightharpoonup> nat" where
  "ret_at zs i =
     (let ks = filter (\<lambda>k. e_kind (zs ! k) = returnEntry \<and> e_id (zs ! k) = i) [0..<length zs]
      in if ks = [] then None else Some (last ks))"

definition node_of :: "'v entry list \<Rightarrow> nat \<Rightarrow> 'v option \<times> nat option \<times> int" where
  "node_of zs k =
     (Some (e_value (zs ! k)),
      if e_kind (zs ! k) = returnEntry then None else ret_at (take k zs) (e_id (zs ! k)), e_id (zs ! k))"

text \<open>The heap that holds the entries \<open>zs\<close>, the last entry of the history first.\<close>

definition built :: "'v entry list \<Rightarrow> 'v heap \<Rightarrow> nat option \<Rightarrow> bool" where
  "built zs h root \<longleftrightarrow>
     map node_data h = map (node_of zs) [0..<length zs] \<and>
     (if zs = [] then root = None
      else root = Some (length zs - 1) \<and> links h (rev [0..<length zs]) \<and> n_prev (h ! (length zs - 1)) = None)"

lemma ret_at_snoc:
  "ret_at (zs @ [e]) = (if e_kind e = returnEntry then (ret_at zs)(e_id e \<mapsto> length zs) else ret_at zs)"
proof
  fix i
  have "filter (\<lambda>k. e_kind ((zs @ [e]) ! k) = returnEntry \<and> e_id ((zs @ [e]) ! k) = i) [0..<length zs] =
      filter (\<lambda>k. e_kind (zs ! k) = returnEntry \<and> e_id (zs ! k) = i) [0..<length zs]"
    by (rule filter_cong) (auto simp: nth_append)
  then show "ret_at (zs @ [e]) i =
      (if e_kind e = returnEntry then (ret_at zs)(e_id e \<mapsto> length zs) else ret_at zs) i"
    by (auto simp: ret_at_def Let_def)
qed

lemma built_length: "built zs h root \<Longrightarrow> length h = length zs"
  by (metis built_def length_map length_upt diff_zero)

lemma insert_first:
  assumes l: "links h as" and hd: "n_prev (h ! hd as) = None" and nd: "n_next nd = None" "n_prev nd = None"
  shows "\<exists>h'. insertBefore (length h) (Some (hd as)) (h @ [nd]) = Inr h' \<and> links h' (length h # as) \<and>
    map node_data h' = map node_data h @ [node_data nd] \<and> n_prev (h' ! length h) = None"
proof -
  obtain a bs where as: "as = a # bs" using l by (cases as) (auto simp: links_def)
  have a: "a < length h" "a \<notin> set bs" "set bs \<subseteq> {..<length h}" using l as by (auto simp: links_def)
  let ?h = "h[a := (h ! a)\<lparr>n_prev := Some (length h)\<rparr>] @ [nd\<lparr>n_next := Some a\<rparr>]"
  have run: "insertBefore (length h) (Some (hd as)) (h @ [nd]) = Inr ?h"
    using a hd as by (simp add: insertBefore_def load_def set_prev_def set_next_def nth_append list_update_append)
  have s: "successively (linked h) as" and e: "n_next (h ! last as) = None"
    using l by (auto simp: links_def)
  have "successively (linked ?h) as"
  proof (rule successively_mono_on [OF s])
    fix x y assume xy: "x \<in> set (butlast as)" "y \<in> set (tl as)" "linked h x y"
    have "x \<in> set as" by (rule in_set_butlastD [OF xy(1)])
    then have "x < length h" using a as by auto
    moreover have "y < length h" "y \<noteq> a" using xy(2) a as by auto
    ultimately show "linked ?h x y" using xy(3) a(1) by (auto simp: linked_def nth_append nth_list_update)
  qed
  moreover have "last as < length h"
    using a as by (auto split: if_splits) (metis last_in_set lessThan_iff subsetD)
  then have "n_next (?h ! last as) = None"
    using e a(1) by (auto simp: nth_append nth_list_update)
  moreover have "linked ?h (length h) a"
    using a by (simp add: linked_def nth_append)
  moreover have "distinct (length h # as)" using l a as by (auto simp: links_def)
  ultimately have "links ?h (length h # as)"
    using a as by (auto simp: links_def less_Suc_eq simp del: last.simps) (simp split: if_splits)
  moreover have "map node_data ?h = map node_data h @ [node_data nd]"
    by (simp add: map_upd_same)
  ultimately show ?thesis using run nd by (simp add: nth_append)
qed

lemma built_snoc:
  assumes b: "built zs h root"
    and nd: "node_data nd = node_of (zs @ [e]) (length zs)" "n_next nd = None" "n_prev nd = None"
  shows "\<exists>h'. insertBefore (length h) root (h @ [nd]) = Inr h' \<and> built (zs @ [e]) h' (Some (length h))"
proof -
  have len: "length h = length zs" by (rule built_length [OF b])
  have data: "map (node_of (zs @ [e])) [0..<length (zs @ [e])] = map node_data h @ [node_data nd]"
    using b nd(1) by (auto simp: built_def node_of_def nth_append)
  show ?thesis
  proof (cases "zs = []")
    case True
    then have "h = []" using len by simp
    then show ?thesis
      using b nd data True by (simp add: built_def insertBefore_def links_def)
  next
    case False
    then have l: "links h (rev [0..<length zs])" "n_prev (h ! hd (rev [0..<length zs])) = None"
      "root = Some (hd (rev [0..<length zs]))"
      using b by (auto simp: built_def hd_rev)
    obtain h' where "insertBefore (length h) root (h @ [nd]) = Inr h'" "links h' (length h # rev [0..<length zs])"
        "map node_data h' = map node_data h @ [node_data nd]" "n_prev (h' ! length h) = None"
      using insert_first [OF l(1,2) nd(2,3)] l(3) by blast
    then show ?thesis
      using data len by (auto simp: built_def)
  qed
qed

lemma node_of_snoc:
  "node_of (zs @ [e]) (length zs) =
     (Some (e_value e), if e_kind e = returnEntry then None else ret_at zs (e_id e), e_id e)"
  by (simp add: node_of_def cong: if_cong)

lemma linked_loop_built:
  "built zs h root \<Longrightarrow>
   \<exists>h' root'. linked_loop rest root (ret_at zs) h = Inr (h', root') \<and> built (zs @ rest) h' root'"
proof (induction rest arbitrary: zs h root)
  case Nil
  then show ?case by simp
next
  case (Cons e rest)
  let ?nd = "\<lparr>n_value = Some (e_value e), n_match = (if e_kind e = returnEntry then None else ret_at zs (e_id e)),
      n_id = e_id e, n_next = None, n_prev = None\<rparr>"
  obtain h' where h': "insertBefore (length h) root (h @ [?nd]) = Inr h'" "built (zs @ [e]) h' (Some (length h))"
    using built_snoc [OF Cons.prems, of ?nd e] by (auto simp: node_data_def node_of_snoc)
  have "ret_at (zs @ [e]) = (if e_kind e = returnEntry then (ret_at zs)(e_id e \<mapsto> length h) else ret_at zs)"
    using ret_at_snoc [of zs e] built_length [OF Cons.prems] by simp
  then show ?case
    using Cons.IH [OF h'(2)] h'(1) by (auto simp: Let_def)
qed

lemma makeLinkedEntries_built:
  fixes entries :: "'v entry list"
  shows "\<exists>h root. makeLinkedEntries entries = Inr (h, root) \<and> built (rev entries) h root"
proof -
  have "ret_at ([] :: 'v entry list) = Map.empty" by (simp add: ret_at_def fun_eq_iff)
  moreover have "built ([] :: 'v entry list) [] None" by (simp add: built_def)
  ultimately show ?thesis
    using linked_loop_built [of "[]" "[]" None "rev entries"] by (simp add: makeLinkedEntries_def)
qed

lemma walk_length:
  "as \<noteq> [] \<Longrightarrow> successively (linked h) as \<Longrightarrow> n_next (h ! last as) = None \<Longrightarrow>
   while_option (\<lambda>(n, l). n \<noteq> None) (\<lambda>(n, l). (n_next (h ! the n), l + 1)) (Some (hd as), l) =
     Some (None, l + length as)"
proof (induction as arbitrary: l)
  case (Cons a as)
  then show ?case
    by (subst while_option_unfold, cases as)
      (auto simp: while_option_unfold [of _ _ "(None, _)"] linked_def)
qed simp

lemma node_length_built: "built zs h root \<Longrightarrow> node_length h root = Some (length zs)"
proof (cases "zs = []")
  case True
  then show "built zs h root \<Longrightarrow> node_length h root = Some (length zs)"
    by (simp add: built_def node_length_def while_option_unfold)
next
  case False
  assume "built zs h root"
  then have "links h (rev [0..<length zs])" "root = Some (hd (rev [0..<length zs]))"
    using False by (auto simp: built_def hd_rev)
  then show ?thesis
    using walk_length [of "rev [0..<length zs]" h 0] by (simp add: links_def node_length_def)
qed

end
