(* ===== verification/Porcupine_Search.thy ===== *)
theory Porcupine_Search
  imports Porcupine_Links
begin

text \<open>
  Correctness of \<open>checkSingle\<close>: on a well-formed history the search ends, does not panic, and
  answers true exactly when the history is linearizable; the sequence it returns is a
  linearization.

  A history of \<open>n\<close> operations is well formed when every operation has one call and one later
  return. Addresses count from the end of the history, so an entry that comes earlier has a
  larger address. \<open>completes\<close> is the search space: a set of linearized operations and a state
  from which the remaining operations can be linearized. The invariant \<open>check_inv\<close> says where
  the search stands: the stack of calls is a path of the search space, everything before the
  current entry failed, and what is in the cache is on the path or failed.
\<close>

section \<open>Histories\<close>

definition ekey :: "'v entry \<Rightarrow> entryKind \<times> int" where
  "ekey e = (e_kind e, e_id e)"

definition epos :: "'v entry list \<Rightarrow> entryKind \<Rightarrow> int \<Rightarrow> nat" where
  "epos entries k i = length (takeWhile (\<lambda>e. ekey e \<noteq> (k, i)) entries)"

definition ids :: "nat \<Rightarrow> int set" where
  "ids n = int ` {..<n}"

definition wf_history :: "'v entry list \<Rightarrow> nat \<Rightarrow> bool" where
  "wf_history entries n \<longleftrightarrow>
     distinct (map ekey entries) \<and> set (map ekey entries) = {callEntry, returnEntry} \<times> ids n \<and>
     (\<forall>i\<in>ids n. epos entries callEntry i < epos entries returnEntry i)"

definition op_in :: "'v entry list \<Rightarrow> int \<Rightarrow> 'v" where
  "op_in entries i = e_value (entries ! epos entries callEntry i)"

definition op_out :: "'v entry list \<Rightarrow> int \<Rightarrow> 'v" where
  "op_out entries i = e_value (entries ! epos entries returnEntry i)"

definition precedes :: "'v entry list \<Rightarrow> int \<Rightarrow> int \<Rightarrow> bool" where
  "precedes entries i j \<longleftrightarrow> epos entries returnEntry i < epos entries callEntry j"

fun legal :: "('s, 'v) Model \<Rightarrow> 'v entry list \<Rightarrow> 's \<Rightarrow> int list \<Rightarrow> bool" where
  "legal model entries st [] = True"
| "legal model entries st (i # is) =
     (case m_Step model st (op_in entries i) (op_out entries i) of
        (ok, st') \<Rightarrow> ok \<and> legal model entries st' is)"

definition is_linearization :: "('s, 'v) Model \<Rightarrow> 'v entry list \<Rightarrow> nat \<Rightarrow> int list \<Rightarrow> bool" where
  "is_linearization model entries n order \<longleftrightarrow>
     distinct order \<and> set order = ids n \<and> sorted_wrt (\<lambda>i j. \<not> precedes entries j i) order \<and>
     legal model entries (m_Init model) order"

definition linearizable :: "('s, 'v) Model \<Rightarrow> 'v entry list \<Rightarrow> nat \<Rightarrow> bool" where
  "linearizable model entries n \<longleftrightarrow> (\<exists>order. is_linearization model entries n order)"

section \<open>Addresses\<close>

definition addr :: "'v entry list \<Rightarrow> entryKind \<Rightarrow> int \<Rightarrow> nat" where
  "addr entries k i = length entries - 1 - epos entries k i"

definition nid :: "'v entry list \<Rightarrow> nat \<Rightarrow> int" where
  "nid entries a = e_id (rev entries ! a)"

definition is_ret :: "'v entry list \<Rightarrow> nat \<Rightarrow> bool" where
  "is_ret entries a \<longleftrightarrow> e_kind (rev entries ! a) = returnEntry"

definition rem :: "'v entry list \<Rightarrow> int set \<Rightarrow> nat list" where
  "rem entries L = filter (\<lambda>a. nid entries a \<notin> L) (rev [0..<length entries])"

lemma epos_ok:
  assumes "wf_history entries n" and "i \<in> ids n"
  shows "epos entries k i < length entries \<and> ekey (entries ! epos entries k i) = (k, i)"
proof -
  have "(k, i) \<in> set (map ekey entries)"
    using assms by (cases k) (auto simp: wf_history_def)
  then obtain e where "e \<in> set entries" "ekey e = (k, i)" by auto
  then have "epos entries k i < length entries"
    unfolding epos_def by (induction entries) auto
  then show ?thesis
    using nth_length_takeWhile [of "\<lambda>e. ekey e \<noteq> (k, i)" entries] by (simp add: epos_def)
qed

lemma epos_unique:
  assumes "wf_history entries n" and "p < length entries" and "ekey (entries ! p) = (k, i)"
  shows "i \<in> ids n \<and> p = epos entries k i"
proof -
  have "(k, i) \<in> set (map ekey entries)"
    using assms(2,3) by (metis length_map nth_map nth_mem)
  then have i: "i \<in> ids n" using assms(1) by (auto simp: wf_history_def)
  have "map ekey entries ! p = map ekey entries ! epos entries k i"
    using epos_ok [OF assms(1) i, of k] assms(2,3) by simp
  moreover have "distinct (map ekey entries)" using assms(1) by (simp add: wf_history_def)
  ultimately have "p = epos entries k i"
    using nth_eq_iff_index_eq [of "map ekey entries" p "epos entries k i"] assms(2)
      epos_ok [OF assms(1) i, of k] by (metis length_map)
  then show ?thesis using i by simp
qed

lemma history_length:
  assumes "wf_history entries n"
  shows "length entries = 2 * n"
proof -
  have "length entries = card (set (map ekey entries))"
    using assms distinct_card [of "map ekey entries"] by (simp add: wf_history_def)
  also have "\<dots> = card ({callEntry, returnEntry} \<times> ids n)"
    using assms by (simp add: wf_history_def)
  also have "\<dots> = 2 * n"
    by (simp add: card_cartesian_product ids_def card_image)
  finally show ?thesis .
qed

lemma addr_ok:
  assumes "wf_history entries n" and "i \<in> ids n"
  shows "addr entries k i < length entries" and "ekey (rev entries ! addr entries k i) = (k, i)"
    and "rev entries ! addr entries k i = entries ! epos entries k i"
  using epos_ok [OF assms, of k] by (auto simp: addr_def rev_nth Suc_diff_Suc)

lemma addr_unique:
  assumes "wf_history entries n" and "a < length entries" and "ekey (rev entries ! a) = (k, i)"
  shows "i \<in> ids n \<and> a = addr entries k i"
  using epos_unique [OF assms(1), of "length entries - Suc a" k i] assms(2,3)
  by (auto simp: addr_def rev_nth)

lemma addr_cases:
  assumes "wf_history entries n" and "a < length entries"
  shows "nid entries a \<in> ids n"
    and "a = addr entries (if is_ret entries a then returnEntry else callEntry) (nid entries a)"
  using addr_unique [OF assms, of "e_kind (rev entries ! a)" "nid entries a"]
  by (cases "e_kind (rev entries ! a)"; auto simp: ekey_def nid_def is_ret_def)+

lemma addr_order:
  assumes "wf_history entries n" and "i \<in> ids n" and "j \<in> ids n"
  shows "precedes entries i j \<longleftrightarrow> addr entries callEntry j < addr entries returnEntry i"
    and "addr entries returnEntry i < addr entries callEntry i"
proof -
  have "epos entries returnEntry i < length entries" "epos entries callEntry i < length entries"
      "epos entries callEntry j < length entries" "epos entries callEntry i < epos entries returnEntry i"
    using epos_ok [OF assms(1,2)] epos_ok [OF assms(1,3)] assms(1,2) by (auto simp: wf_history_def)
  then show "precedes entries i j \<longleftrightarrow> addr entries callEntry j < addr entries returnEntry i"
      "addr entries returnEntry i < addr entries callEntry i"
    by (auto simp: precedes_def addr_def)
qed

lemma addr_node:
  assumes wf: "wf_history entries n" and i: "i \<in> ids n"
  shows "node_of (rev entries) (addr entries callEntry i) =
      (Some (op_in entries i), Some (addr entries returnEntry i), i)"
    and "node_of (rev entries) (addr entries returnEntry i) = (Some (op_out entries i), None, i)"
proof -
  let ?c = "addr entries callEntry i" and ?r = "addr entries returnEntry i" and ?zs = "rev entries"
  note c = addr_ok [OF wf i, of callEntry] and r = addr_ok [OF wf i, of returnEntry]
  have less: "?r < ?c" by (rule addr_order(2) [OF wf i i])
  have "filter (\<lambda>k. e_kind (take ?c ?zs ! k) = returnEntry \<and> e_id (take ?c ?zs ! k) = i) [0..<?c] =
      filter (\<lambda>k. k = ?r) [0..<?c]"
  proof (rule filter_cong)
    fix k assume "k \<in> set [0..<?c]"
    then have k: "k < ?c" "k < length entries" using c(1) by auto
    show "(e_kind (take ?c ?zs ! k) = returnEntry \<and> e_id (take ?c ?zs ! k) = i) = (k = ?r)"
      using addr_unique [OF wf k(2), of returnEntry i] r(2) k(1) by (auto simp: ekey_def)
  qed simp
  moreover have "filter (\<lambda>k. k = ?r) [0..<?c] = [?r]"
  proof -
    have "[0..<?c] = [0..<?r] @ ?r # [Suc ?r..<?c]"
      using less upt_add_eq_append [of 0 ?r "?c - ?r"] upt_conv_Cons [of ?r ?c] by simp
    then show ?thesis by (auto simp: filter_empty_conv)
  qed
  ultimately have "ret_at (take ?c ?zs) i = Some ?r"
    using c(1) by (simp add: ret_at_def Let_def min_def)
  then show "node_of ?zs ?c = (Some (op_in entries i), Some ?r, i)"
    using c by (simp add: node_of_def ekey_def op_in_def)
  show "node_of ?zs ?r = (Some (op_out entries i), None, i)"
    using r by (simp add: node_of_def ekey_def op_out_def)
qed

section \<open>The search space\<close>

inductive completes :: "('s, 'v) Model \<Rightarrow> 'v entry list \<Rightarrow> nat \<Rightarrow> int set \<Rightarrow> 's \<Rightarrow> bool"
  for model entries n where
  completes_all: "ids n \<subseteq> L \<Longrightarrow> completes model entries n L st"
| completes_step:
    "i \<in> ids n - L \<Longrightarrow> \<forall>j\<in>ids n - L. \<not> precedes entries j i \<Longrightarrow>
     m_Step model st (op_in entries i) (op_out entries i) = (True, st') \<Longrightarrow>
     completes model entries n (insert i L) st' \<Longrightarrow> completes model entries n L st"

lemma completes_order:
  "completes model entries n L st \<Longrightarrow>
   \<exists>order. distinct order \<and> set order = ids n - L \<and> sorted_wrt (\<lambda>i j. \<not> precedes entries j i) order \<and>
     legal model entries st order"
proof (induction rule: completes.induct)
  case (completes_all L st)
  then show ?case by (intro exI [of _ "[]"]) auto
next
  case (completes_step i L st st')
  then obtain order where "distinct order" "set order = ids n - insert i L"
      "sorted_wrt (\<lambda>i j. \<not> precedes entries j i) order" "legal model entries st' order"
    by blast
  then show ?case
    using completes_step.hyps by (intro exI [of _ "i # order"]) auto
qed

lemma order_completes:
  assumes wf: "wf_history entries n"
  shows "distinct order \<Longrightarrow> set order = ids n - L \<Longrightarrow> sorted_wrt (\<lambda>i j. \<not> precedes entries j i) order \<Longrightarrow>
    legal model entries st order \<Longrightarrow> completes model entries n L st"
proof (induction order arbitrary: L st)
  case Nil
  then show ?case by (auto intro: completes_all)
next
  case (Cons i order)
  obtain st' where st': "m_Step model st (op_in entries i) (op_out entries i) = (True, st')"
      "legal model entries st' order"
    using Cons.prems(4) by (auto split: prod.splits)
  have i: "i \<in> ids n - L" and rest: "set order = ids n - insert i L"
    using Cons.prems(1,2) by auto
  have "\<not> precedes entries i i"
    using addr_order [OF wf, of i i] i by auto
  then have "\<forall>j\<in>ids n - L. \<not> precedes entries j i"
    using Cons.prems(2,3) by auto
  then show ?case
    using Cons.IH [OF _ rest _ st'(2)] Cons.prems(1,3) by (intro completes_step [OF i _ st'(1)]) auto
qed

lemma linearizable_iff_completes:
  assumes "wf_history entries n"
  shows "linearizable model entries n \<longleftrightarrow> completes model entries n {} (m_Init model)"
  using completes_order [of model entries n "{}"] order_completes [OF assms, of _ "{}" model]
  unfolding linearizable_def is_linearization_def by (metis Diff_empty)

lemma rem_set: "a \<in> set (rem entries L) \<longleftrightarrow> a < length entries \<and> nid entries a \<notin> L"
  by (auto simp: rem_def)

lemma rem_sorted: "sorted_wrt (>) (rem entries L)"
  by (simp add: rem_def sorted_wrt_filter sorted_wrt_rev)

lemma rem_addr:
  assumes "wf_history entries n" and "i \<in> ids n"
  shows "addr entries k i \<in> set (rem entries L) \<longleftrightarrow> i \<notin> L"
  using addr_ok [OF assms, of k] by (auto simp: rem_set nid_def ekey_def)

lemma rem_empty:
  assumes "wf_history entries n"
  shows "rem entries L = [] \<longleftrightarrow> ids n \<subseteq> L"
proof
  assume "rem entries L = []"
  then have "i \<in> L" if "i \<in> ids n" for i
    using rem_addr [OF assms that, of callEntry L] by auto
  then show "ids n \<subseteq> L" by blast
next
  assume "ids n \<subseteq> L"
  then have "a \<notin> set (rem entries L)" for a
    using addr_cases(1) [OF assms, of a] by (auto simp: rem_set)
  then show "rem entries L = []" by (metis last_in_set)
qed

lemma call_addr:
  assumes "wf_history entries n" and "a \<in> set (rem entries L)" and "\<not> is_ret entries a"
  shows "nid entries a \<in> ids n - L" and "a = addr entries callEntry (nid entries a)"
  using addr_cases [OF assms(1), of a] assms(2,3) by (auto simp: rem_set)

lemma rem_split:
  assumes wf: "wf_history entries n" and a: "a \<in> set (rem entries L)" and call: "\<not> is_ret entries a"
  shows "\<exists>xs ys zs. rem entries L = xs @ a # ys @ addr entries returnEntry (nid entries a) # zs \<and>
    rem entries (insert (nid entries a) L) = xs @ ys @ zs"
proof -
  let ?i = "nid entries a" and ?m = "addr entries returnEntry (nid entries a)"
  note i = call_addr [OF wf a call]
  have m: "?m \<in> set (rem entries L)" "?m < a"
    using rem_addr [OF wf, of ?i returnEntry L] addr_order(2) [OF wf, of ?i ?i] i by auto
  obtain xs rest where 1: "rem entries L = xs @ a # rest"
    using split_list [OF a] by blast
  have srt: "sorted_wrt (>) (xs @ a # rest)" using rem_sorted [of entries L] 1 by simp
  have "?m \<in> set rest" using m 1 srt by (auto simp: sorted_wrt_append)
  then obtain ys zs where 2: "rest = ys @ ?m # zs"
    using split_list by metis
  have other: "nid entries b \<noteq> ?i" if "b \<in> set (xs @ ys @ zs)" for b
  proof
    assume eq: "nid entries b = ?i"
    have "b \<in> set (rem entries L)" using that 1 2 by auto
    then have "b = a \<or> b = ?m"
      using addr_cases(2) [OF wf, of b] eq i(2) by (auto simp: rem_set split: if_splits)
    then show False using that srt 2 by (auto simp: sorted_wrt_append)
  qed
  have "rem entries (insert ?i L) = filter (\<lambda>b. nid entries b \<noteq> ?i) (rem entries L)"
    by (auto simp: rem_def intro: filter_cong)
  also have "\<dots> = xs @ ys @ zs"
    using other addr_ok(2) [OF wf, of ?i returnEntry] i(1)
    by (simp add: 1 2 filter_id_conv) (auto simp: nid_def ekey_def)
  finally show ?thesis using 1 2 by auto
qed

section \<open>Scanning\<close>

text \<open>The operation called at \<open>a\<close> cannot be the next one, and nothing before \<open>a\<close> can.\<close>

definition op_fails :: "('s, 'v) Model \<Rightarrow> 'v entry list \<Rightarrow> nat \<Rightarrow> int set \<Rightarrow> 's \<Rightarrow> int \<Rightarrow> bool" where
  "op_fails model entries n L st i \<longleftrightarrow>
     (\<forall>st'. m_Step model st (op_in entries i) (op_out entries i) = (True, st') \<longrightarrow>
        \<not> completes model entries n (insert i L) st')"

definition scanned :: "('s, 'v) Model \<Rightarrow> 'v entry list \<Rightarrow> nat \<Rightarrow> int set \<Rightarrow> 's \<Rightarrow> nat \<Rightarrow> bool" where
  "scanned model entries n L st a \<longleftrightarrow>
     (\<forall>b\<in>set (rem entries L). a < b \<longrightarrow> \<not> is_ret entries b \<and> op_fails model entries n L st (nid entries b))"

lemma scanned_return:
  assumes wf: "wf_history entries n" and a: "a \<in> set (rem entries L)" and ret: "is_ret entries a"
    and sc: "scanned model entries n L st a"
  shows "\<not> completes model entries n L st"
proof
  assume "completes model entries n L st"
  then show False
  proof (cases rule: completes.cases)
    case completes_all
    then show False using a rem_empty [OF wf, of L] by simp
  next
    case 2: (completes_step i st')
    have j: "nid entries a \<in> ids n - L" "a = addr entries returnEntry (nid entries a)"
      using addr_cases [OF wf, of a] a ret by (auto simp: rem_set)
    then have "\<not> addr entries callEntry i < a"
      using 2(1,2) addr_order(1) [OF wf, of "nid entries a" i] by auto
    moreover have "addr entries callEntry i \<noteq> a"
      using addr_ok(2) [OF wf, of i callEntry] 2(1) ret by (auto simp: is_ret_def ekey_def)
    moreover have "addr entries callEntry i \<in> set (rem entries L)"
      using rem_addr [OF wf, of i callEntry L] 2(1) by auto
    moreover have "nid entries (addr entries callEntry i) = i"
      using addr_ok(2) [OF wf, of i callEntry] 2(1) by (auto simp: nid_def ekey_def)
    ultimately have "op_fails model entries n L st i"
      using sc by (auto simp: scanned_def)
    then show False using 2(3,4) by (auto simp: op_fails_def)
  qed
qed

lemma scanned_call:
  assumes wf: "wf_history entries n" and "a \<in> set (rem entries L)" and "\<not> is_ret entries a"
    and sc: "scanned model entries n L st a"
  shows "\<forall>j\<in>ids n - L. \<not> precedes entries j (nid entries a)"
proof
  fix j assume j: "j \<in> ids n - L"
  note i = call_addr [OF assms(1-3)]
  have "addr entries returnEntry j \<in> set (rem entries L)" "is_ret entries (addr entries returnEntry j)"
    using rem_addr [OF wf, of j returnEntry L] addr_ok(2) [OF wf, of j returnEntry] j
    by (auto simp: is_ret_def ekey_def)
  then have "\<not> a < addr entries returnEntry j"
    using sc by (auto simp: scanned_def)
  then show "\<not> precedes entries j (nid entries a)"
    using addr_order(1) [OF wf, of j "nid entries a"] j i by auto
qed

lemma scanned_first: "rem entries L = a # as \<Longrightarrow> scanned model entries n L st a"
  using rem_sorted [of entries L] by (auto simp: scanned_def)

lemma scanned_next:
  assumes "rem entries L = xs @ a # b # ys" and "scanned model entries n L st a" and "\<not> is_ret entries a"
    and "op_fails model entries n L st (nid entries a)"
  shows "scanned model entries n L st b"
proof -
  have "sorted_wrt (>) (xs @ a # b # ys)" using rem_sorted [of entries L] assms(1) by simp
  then have "c = a \<or> a < c" if "c \<in> set (rem entries L)" "b < c" for c
    using that assms(1) by (auto simp: sorted_wrt_append)
  then show ?thesis using assms(2-4) by (auto simp: scanned_def)
qed

section \<open>Paths of the search\<close>

fun run_ops :: "('s, 'v) Model \<Rightarrow> 'v entry list \<Rightarrow> 's \<Rightarrow> int list \<Rightarrow> 's option" where
  "run_ops model entries st [] = Some st"
| "run_ops model entries st (i # is) =
     (case m_Step model st (op_in entries i) (op_out entries i) of
        (ok, st') \<Rightarrow> if ok then run_ops model entries st' is else None)"

lemma run_ops_snoc:
  "run_ops model entries st (xs @ [i]) =
     (case run_ops model entries st xs of
        None \<Rightarrow> None
      | Some s \<Rightarrow> (case m_Step model s (op_in entries i) (op_out entries i) of
                    (ok, st') \<Rightarrow> if ok then Some st' else None))"
  by (induction xs arbitrary: st) (auto split: prod.splits)

lemma run_ops_legal: "run_ops model entries st xs \<noteq> None \<Longrightarrow> legal model entries st xs"
  by (induction xs arbitrary: st) (auto split: prod.splits if_splits)

inductive path ::
  "('s, 'v) Model \<Rightarrow> 'v entry list \<Rightarrow> nat \<Rightarrow> 'v heap \<Rightarrow> (nat \<times> 's) list \<Rightarrow> int set \<Rightarrow> 's \<Rightarrow> 'v heap \<Rightarrow>
   (int set \<times> 's) set \<Rightarrow> bool"
  for model entries n h0 where
  path_nil: "path model entries n h0 [] {} (m_Init model) h0 {}"
| path_snoc:
    "path model entries n h0 calls L st h S \<Longrightarrow> a \<in> set (rem entries L) \<Longrightarrow> \<not> is_ret entries a \<Longrightarrow>
     scanned model entries n L st a \<Longrightarrow>
     m_Step model st (op_in entries (nid entries a)) (op_out entries (nid entries a)) = (True, st') \<Longrightarrow>
     path model entries n h0 (calls @ [(a, st)]) (insert (nid entries a) L) st'
       (unlink (addr entries returnEntry (nid entries a)) (unlink a h))
       (insert (insert (nid entries a) L, st') S)"

definition ready :: "'v entry list \<Rightarrow> 'v heap \<Rightarrow> bool" where
  "ready entries h0 \<longleftrightarrow>
     map node_data h0 = map (node_of (rev entries)) [0..<length entries] @ [(None, None, -1)] \<and>
     links h0 (length entries # rem entries {})"

lemma ready_length: "ready entries h0 \<Longrightarrow> length h0 = Suc (length entries)"
proof -
  assume "ready entries h0"
  then have "length (map node_data h0) = length (map (node_of (rev entries)) [0..<length entries] @ [(None, None, -1)])"
    by (simp only: ready_def)
  then show ?thesis by simp
qed

lemma data_at:
  assumes "ready entries h0" and "map node_data h = map node_data h0" and "a < length entries"
  shows "node_data (h ! a) = node_of (rev entries) a"
proof -
  have "map node_data h = map (node_of (rev entries)) [0..<length entries] @ [(None, None, -1)]"
    using assms(1,2) by (simp add: ready_def)
  then have "map node_data h ! a = node_of (rev entries) a"
    using assms(3) by (simp add: nth_append)
  moreover have "length h = Suc (length entries)"
    using assms(2) ready_length [OF assms(1)] by (metis length_map)
  ultimately show ?thesis using assms(3) by simp
qed

lemma path_heap:
  assumes wf: "wf_history entries n" and rd: "ready entries h0"
  shows "path model entries n h0 calls L st h S \<Longrightarrow>
    map node_data h = map node_data h0 \<and> links h (length entries # rem entries L)"
proof (induction rule: path.induct)
  case path_nil
  then show ?case using rd by (simp add: ready_def)
next
  case (path_snoc calls L st h S a st')
  let ?m = "addr entries returnEntry (nid entries a)"
  obtain xs ys zs where sp: "rem entries L = xs @ a # ys @ ?m # zs"
      "rem entries (insert (nid entries a) L) = xs @ ys @ zs"
    using rem_split [OF wf path_snoc.hyps(2,3)] by blast
  have i: "nid entries a \<in> ids n" "a = addr entries callEntry (nid entries a)"
    using call_addr [OF wf path_snoc.hyps(2,3)] by auto
  have "node_data (h ! a) = node_of (rev entries) a"
    using data_at [OF rd] path_snoc.IH path_snoc.hyps(2) by (simp add: rem_set)
  then have "n_match (h ! a) = Some ?m"
    using addr_node(1) [OF wf i(1)] i(2) by (simp add: node_data_def)
  then show ?case
    using lift_links [of h "length entries # xs" a ys ?m zs] path_snoc.IH sp by simp
qed

lemma path_props:
  assumes wf: "wf_history entries n"
  shows "path model entries n h0 calls L st h S \<Longrightarrow>
    L \<subseteq> ids n \<and> (\<forall>(L', s)\<in>S. L' \<subseteq> L) \<and>
    (completes model entries n L st \<longrightarrow> completes model entries n {} (m_Init model)) \<and>
    set (map (\<lambda>c. nid entries (fst c)) calls) = L \<and> distinct (map (\<lambda>c. nid entries (fst c)) calls) \<and>
    run_ops model entries (m_Init model) (map (\<lambda>c. nid entries (fst c)) calls) = Some st \<and>
    sorted_wrt (\<lambda>i j. \<not> precedes entries j i) (map (\<lambda>c. nid entries (fst c)) calls) \<and>
    (\<forall>k\<in>L. \<forall>j\<in>ids n - L. \<not> precedes entries j k)"
proof (induction rule: path.induct)
  case path_nil
  then show ?case by simp
next
  case (path_snoc calls L st h S a st')
  note i = call_addr(1) [OF wf path_snoc.hyps(2,3)]
  note first = scanned_call [OF wf path_snoc.hyps(2-4)]
  have "completes model entries n L st" if "completes model entries n (insert (nid entries a) L) st'"
    by (rule completes_step [OF i first path_snoc.hyps(5) that])
  moreover have "run_ops model entries (m_Init model) (map (\<lambda>c. nid entries (fst c)) (calls @ [(a, st)])) = Some st'"
    using path_snoc.IH path_snoc.hyps(5) by (simp add: run_ops_snoc comp_def)
  moreover have "\<forall>k\<in>insert (nid entries a) L. \<forall>j\<in>ids n - insert (nid entries a) L. \<not> precedes entries j k"
    using path_snoc.IH first by blast
  moreover have "sorted_wrt (\<lambda>i j. \<not> precedes entries j i) (map (\<lambda>c. nid entries (fst c)) (calls @ [(a, st)]))"
    using path_snoc.IH i by (auto simp: sorted_wrt_append)
  ultimately show ?case
    using path_snoc.IH i by auto
qed

text \<open>The configurations that the search can reach are finitely many.\<close>

definition space :: "('s, 'v) Model \<Rightarrow> 'v entry list \<Rightarrow> nat \<Rightarrow> (int set \<times> 's) set" where
  "space model entries n =
     (\<lambda>xs. (set xs, the (run_ops model entries (m_Init model) xs))) ` {xs. set xs \<subseteq> ids n \<and> distinct xs}"

lemma finite_space: "finite (space model entries n)"
  by (simp add: space_def ids_def finite_subset_distinct)

lemma path_in_space:
  assumes "wf_history entries n" and "path model entries n h0 calls L st h S"
  shows "(L, st) \<in> space model entries n"
proof -
  let ?xs = "map (\<lambda>c. nid entries (fst c)) calls"
  have "set ?xs = L" "L \<subseteq> ids n" "distinct ?xs" "run_ops model entries (m_Init model) ?xs = Some st"
    using path_props [OF assms] by auto
  then show ?thesis
    unfolding space_def by (intro image_eqI [of _ _ ?xs]) auto
qed

lemma path_complete:
  assumes "wf_history entries n" and "path model entries n h0 calls L st h S" and "rem entries L = []"
  shows "is_linearization model entries n (map (\<lambda>c. nid entries (fst c)) calls)"
proof -
  note props = path_props [OF assms(1,2)]
  have "L = ids n" using props rem_empty [OF assms(1), of L] assms(3) by auto
  moreover have "legal model entries (m_Init model) (map (\<lambda>c. nid entries (fst c)) calls)"
    by (rule run_ops_legal) (simp add: props)
  ultimately show ?thesis using props by (auto simp: is_linearization_def)
qed

text \<open>
  A partial linearization: operations the model can execute, in an order that respects real time,
  with every operation that returned before one of them was called. The entries of
  \<open>longest\<close> are partial linearizations that contain their operation.
\<close>

definition partial_lin :: "('s, 'v) Model \<Rightarrow> 'v entry list \<Rightarrow> nat \<Rightarrow> int list \<Rightarrow> bool" where
  "partial_lin model entries n seq \<longleftrightarrow>
     distinct seq \<and> set seq \<subseteq> ids n \<and> sorted_wrt (\<lambda>i j. \<not> precedes entries j i) seq \<and>
     (\<forall>k\<in>set seq. \<forall>j\<in>ids n - set seq. \<not> precedes entries j k) \<and> legal model entries (m_Init model) seq"

definition longest_good :: "('s, 'v) Model \<Rightarrow> 'v entry list \<Rightarrow> nat \<Rightarrow> int list option list \<Rightarrow> bool" where
  "longest_good model entries n longest \<longleftrightarrow> length longest = n \<and>
     (\<forall>i<n. \<forall>seq. longest ! i = Some seq \<longrightarrow> int i \<in> set seq \<and> partial_lin model entries n seq)"

lemma path_partial:
  assumes "wf_history entries n" and "path model entries n h0 calls L st h S"
  shows "partial_lin model entries n (map (\<lambda>c. nid entries (fst c)) calls)"
proof -
  let ?seq = "map (\<lambda>c. nid entries (fst c)) calls"
  note props = path_props [OF assms]
  have L: "set ?seq = L" using props by blast
  moreover have "legal model entries (m_Init model) ?seq" by (rule run_ops_legal) (simp add: props)
  ultimately show ?thesis using props unfolding partial_lin_def L by blast
qed

section \<open>The invariant of the loop\<close>

definition eq_model :: "('s, 'v) Model \<Rightarrow> bool" where
  "eq_model model \<longleftrightarrow> (\<exists>eq. m_Equal model = Some eq \<and> (\<forall>s t. eq s t \<longleftrightarrow> s = t))"

definition cache_ok ::
  "('s, 'v) Model \<Rightarrow> 'v entry list \<Rightarrow> nat \<Rightarrow> (int set \<times> 's) set \<Rightarrow> 's cache \<Rightarrow> bool" where
  "cache_ok model entries n S cache \<longleftrightarrow>
     (\<forall>hash b s. (b, s) \<in> set (cache hash) \<longrightarrow>
        length b = length (newBitset n) \<and>
        (\<exists>L. L \<subseteq> ids n \<and> bits b = nat ` L \<and> ((L, s) \<in> S \<or> \<not> completes model entries n L s)))"

definition check_inv ::
  "('s, 'v) Model \<Rightarrow> 'v entry list \<Rightarrow> nat \<Rightarrow> 'v heap \<Rightarrow> (nat \<Rightarrow> bool) \<Rightarrow> ('s, 'v) check \<Rightarrow> bool" where
  "check_inv model entries n h0 kill c \<longleftrightarrow>
     (\<exists>L S. path model entries n h0 (c_calls c) L (c_state c) (c_heap c) S \<and>
        bits (c_linearized c) = nat ` L \<and> length (c_linearized c) = length (newBitset n) \<and>
        (case c_entry c of
           None \<Rightarrow> rem entries L = []
         | Some a \<Rightarrow> a \<in> set (rem entries L) \<and> scanned model entries n L (c_state c) a) \<and>
        cache_ok model entries n S (c_cache c)) \<and>
     longest_good model entries n (c_longest c) \<and>
     (c_failed c \<longrightarrow> (\<exists>k. kill k) \<or> \<not> completes model entries n {} (m_Init model))"

definition uncached :: "('s, 'v) Model \<Rightarrow> 'v entry list \<Rightarrow> nat \<Rightarrow> 's cache \<Rightarrow> (int set \<times> 's) set" where
  "uncached model entries n cache =
     {(L, s) \<in> space model entries n.
        \<forall>b. length b = length (newBitset n) \<and> bits b = nat ` L \<longrightarrow> (b, s) \<notin> set (cache (bitset_hash b))}"

definition weight :: "('s, 'v) check \<Rightarrow> nat" where
  "weight c = sum_list (map (\<lambda>(a, _). Suc a) (c_calls c)) + (case c_entry c of None \<Rightarrow> 0 | Some a \<Rightarrow> Suc a)"

definition check_rel ::
  "('s, 'v) Model \<Rightarrow> 'v entry list \<Rightarrow> nat \<Rightarrow> (('s, 'v) check \<times> ('s, 'v) check) set" where
  "check_rel model entries n =
     inv_image (less_than <*lex*> finite_psubset <*lex*> less_than)
       (\<lambda>c. (if c_failed c then 0 else 1 :: nat, uncached model entries n (c_cache c), weight c))"

lemma wf_check_rel: "wf (check_rel model entries n)"
  by (simp add: check_rel_def wf_lex_prod wf_finite_psubset)

lemma finite_uncached: "finite (uncached model entries n cache)"
  by (rule finite_subset [OF _ finite_space [of model entries n]]) (auto simp: uncached_def)

lemma cacheContains_iff:
  assumes "eq_model model"
  shows "cacheContains model cache (b, s) = Inr ((b, s) \<in> set (cache (bitset_hash b)))"
proof -
  obtain eq where eq: "m_Equal model = Some eq" "\<And>s t. eq s t \<longleftrightarrow> s = t"
    using assms by (auto simp: eq_model_def)
  have "cacheContains_loop model xs (b, s) = Inr ((b, s) \<in> set xs)" for xs
    by (induction xs) (auto simp: bitset_equals_eq model_equal_def eq)
  then show ?thesis by (simp add: cacheContains_def)
qed

lemma links_next:
  assumes "links h (as @ a # bs)"
  shows "a < length h" and "n_next (h ! a) = (case bs of [] \<Rightarrow> None | b # _ \<Rightarrow> Some b)"
  using assms by (auto simp: links_def successively_append_iff successively_Cons linked_def split: list.splits)

lemma nat_image_insert:
  assumes "L \<subseteq> ids n"
  shows "i \<in> ids n \<Longrightarrow> nat i \<in> nat ` L \<longleftrightarrow> i \<in> L"
  using assms by (fastforce simp: ids_def)

lemma nat_image_eq: "L \<subseteq> ids n \<Longrightarrow> M \<subseteq> ids n \<Longrightarrow> nat ` L = nat ` M \<Longrightarrow> L = M"
  by (intro set_eqI) (metis nat_image_insert subsetD)

lemma id_capacity: "i \<in> ids n \<Longrightarrow> nat i < 64 * length (newBitset n)"
  using newBitset_props(2) [of n] by (auto simp: ids_def)

text \<open>The call at \<open>a\<close> is skipped: its operation cannot come next.\<close>

lemma skip_ok:
  assumes wf: "wf_history entries n" and rd: "ready entries h0"
    and p: "path model entries n h0 calls L st h S"
    and a: "a \<in> set (rem entries L)" "scanned model entries n L st a" "\<not> is_ret entries a"
    and f: "op_fails model entries n L st (nid entries a)"
  shows "\<exists>b. n_next (h ! a) = Some b \<and> b \<in> set (rem entries L) \<and> b < a \<and> scanned model entries n L st b"
proof -
  obtain xs ys m zs where sp: "rem entries L = xs @ a # ys @ m # zs"
    using rem_split [OF wf a(1,3)] by blast
  obtain b bs where b: "ys @ m # zs = b # bs" by (cases ys) auto
  have "links h ((length entries # xs) @ a # b # bs)"
    using path_heap [OF wf rd p] sp b by simp
  then have "n_next (h ! a) = Some b" using links_next(2) by fastforce
  moreover have "scanned model entries n L st b"
    by (rule scanned_next [OF _ a(2,3) f]) (use sp b in simp)
  moreover have "b < a" using rem_sorted [of entries L] sp b by (auto simp: sorted_wrt_append)
  ultimately show ?thesis using sp b by auto
qed

lemma path_last:
  assumes "path model entries n h0 calls L st h S" and "calls \<noteq> []"
  shows "\<exists>cs L' s h' S' a. calls = cs @ [(a, s)] \<and> path model entries n h0 cs L' s h' S' \<and>
    a \<in> set (rem entries L') \<and> \<not> is_ret entries a \<and> scanned model entries n L' s a \<and>
    m_Step model s (op_in entries (nid entries a)) (op_out entries (nid entries a)) = (True, st) \<and>
    L = insert (nid entries a) L' \<and> h = unlink (addr entries returnEntry (nid entries a)) (unlink a h') \<and>
    S = insert (L, st) S'"
  using assms by (cases rule: path.cases) auto

lemma path_lift:
  assumes wf: "wf_history entries n" and rd: "ready entries h0"
    and p: "path model entries n h0 calls L st h S"
    and a: "a \<in> set (rem entries L)" "\<not> is_ret entries a"
  shows "lift a h = Inr (unlink (addr entries returnEntry (nid entries a)) (unlink a h))"
    and "unlift a (unlink (addr entries returnEntry (nid entries a)) (unlink a h)) = Inr h"
    and "n_value (h ! a) = Some (op_in entries (nid entries a))"
    and "n_match (h ! a) = Some (addr entries returnEntry (nid entries a))"
    and "n_id (h ! a) = nid entries a"
    and "addr entries returnEntry (nid entries a) < length h"
    and "n_value (h ! addr entries returnEntry (nid entries a)) = Some (op_out entries (nid entries a))"
proof -
  let ?m = "addr entries returnEntry (nid entries a)"
  obtain xs ys zs where sp: "rem entries L = xs @ a # ys @ ?m # zs"
    using rem_split [OF wf a] by blast
  have i: "nid entries a \<in> ids n" "a = addr entries callEntry (nid entries a)"
    using call_addr [OF wf a] by auto
  note heap = path_heap [OF wf rd p]
  have "a < length entries" "?m < length entries"
    using a(1) addr_ok(1) [OF wf i(1)] by (auto simp: rem_set)
  then have "node_data (h ! a) = node_of (rev entries) a" "node_data (h ! ?m) = node_of (rev entries) ?m"
    using data_at [OF rd] heap by auto
  then show val: "n_value (h ! a) = Some (op_in entries (nid entries a))" "n_match (h ! a) = Some ?m"
      "n_id (h ! a) = nid entries a" "n_value (h ! ?m) = Some (op_out entries (nid entries a))"
    using addr_node [OF wf i(1)] i(2) by (auto simp: node_data_def)
  show "lift a h = Inr (unlink ?m (unlink a h))" "unlift a (unlink ?m (unlink a h)) = Inr h"
    using lift_links [of h "length entries # xs" a ys ?m zs] heap sp val(2) by simp_all
  have "length h = Suc (length entries)"
    using heap ready_length [OF rd] by (metis length_map)
  then show "?m < length h" using \<open>?m < length entries\<close> by simp
qed

section \<open>The steps of the loop\<close>

lemma path_calls: "path model entries n h0 calls L st h S \<Longrightarrow> \<forall>c\<in>set calls. fst c < length entries"
  by (induction rule: path.induct) (auto simp: rem_set)

lemma path_call_ids:
  assumes wf: "wf_history entries n" and rd: "ready entries h0" and p: "path model entries n h0 calls L st h S"
  shows "call_ids h calls = map (\<lambda>c. nid entries (fst c)) calls"
proof -
  have "n_id (h ! a) = nid entries a" if "a < length entries" for a
    using data_at [OF rd _ that] path_heap [OF wf rd p] by (simp add: node_data_def node_of_def nid_def)
  then show ?thesis
    using path_calls [OF p] by (auto simp: call_ids_def)
qed

lemma longest_loop_ok:
  "\<forall>i\<in>set is. 0 \<le> i \<and> i < int (length longest) \<Longrightarrow>
   \<exists>l. longest_loop seq is longest = Inr l \<and> length l = length longest \<and>
     (\<forall>k<length l. l ! k = longest ! k \<or> l ! k = Some seq \<and> int k \<in> set is)"
proof (induction "is" arbitrary: longest)
  case (Cons i "is")
  let ?new = "if (case longest ! nat i of None \<Rightarrow> True | Some l \<Rightarrow> length seq > length l)
    then longest[nat i := Some seq] else longest"
  have "\<forall>i\<in>set is. 0 \<le> i \<and> i < int (length ?new)" using Cons.prems by simp
  from Cons.IH [OF this] obtain l where l: "longest_loop seq is ?new = Inr l" "length l = length ?new"
      "\<forall>k<length l. l ! k = ?new ! k \<or> l ! k = Some seq \<and> int k \<in> set is" by blast
  have "longest_loop seq (i # is) longest = Inr l"
    using l(1) Cons.prems by (auto simp: go_simps split: option.splits if_splits)
  moreover have "l ! k = longest ! k \<or> l ! k = Some seq \<and> int k \<in> set (i # is)" if "k < length l" for k
    using l(2,3) that Cons.prems by (cases "k = nat i") (auto split: if_splits)
  ultimately show ?case using l(2) by (auto split: if_splits)
qed simp

text \<open>The invariant spelled out for a running search.\<close>

definition check_at ::
  "('s, 'v) Model \<Rightarrow> 'v entry list \<Rightarrow> nat \<Rightarrow> 'v heap \<Rightarrow> int set \<Rightarrow> (int set \<times> 's) set \<Rightarrow> ('s, 'v) check \<Rightarrow> bool" where
  "check_at model entries n h0 L S c \<longleftrightarrow>
     path model entries n h0 (c_calls c) L (c_state c) (c_heap c) S \<and>
     bits (c_linearized c) = nat ` L \<and> length (c_linearized c) = length (newBitset n) \<and>
     cache_ok model entries n S (c_cache c) \<and> longest_good model entries n (c_longest c)"

lemma check_inv_at:
  "check_inv model entries n h0 kill c \<longleftrightarrow>
     (\<exists>L S. check_at model entries n h0 L S c \<and>
        (case c_entry c of
           None \<Rightarrow> rem entries L = []
         | Some a \<Rightarrow> a \<in> set (rem entries L) \<and> scanned model entries n L (c_state c) a)) \<and>
     (c_failed c \<longrightarrow> (\<exists>k. kill k) \<or> \<not> completes model entries n {} (m_Init model))"
  by (auto simp: check_inv_def check_at_def)

lemma check_at_entry [simp]:
  "check_at model entries n h0 L S (c\<lparr>c_entry := e\<rparr>) = check_at model entries n h0 L S c"
  by (simp add: check_at_def)

lemma skip_inv:
  assumes wf: "wf_history entries n" and rd: "ready entries h0" and at: "check_at model entries n h0 L S c"
    and a: "c_entry c = Some a" "a \<in> set (rem entries L)" "scanned model entries n L (c_state c) a" "\<not> is_ret entries a"
    and f: "op_fails model entries n L (c_state c) (nid entries a)" and nf: "\<not> c_failed c"
  shows "check_inv model entries n h0 kill (c\<lparr>c_entry := n_next (c_heap c ! a)\<rparr>) \<and>
    (c\<lparr>c_entry := n_next (c_heap c ! a)\<rparr>, c) \<in> check_rel model entries n"
proof -
  have p: "path model entries n h0 (c_calls c) L (c_state c) (c_heap c) S"
    using at by (simp add: check_at_def)
  obtain b where b: "n_next (c_heap c ! a) = Some b" "b \<in> set (rem entries L)" "b < a"
      "scanned model entries n L (c_state c) b"
    using skip_ok [OF wf rd p a(2-4) f] by blast
  have "check_inv model entries n h0 kill (c\<lparr>c_entry := Some b\<rparr>)"
    unfolding check_inv_at using at b(2,4) nf by auto
  moreover have "(c\<lparr>c_entry := Some b\<rparr>, c) \<in> check_rel model entries n"
    using b(3) a(1) by (simp add: check_rel_def weight_def)
  ultimately show ?thesis by (simp add: b(1))
qed

lemma cache_okD:
  assumes "cache_ok model entries n S cache" and "(b, s) \<in> set (cache hash)"
  obtains L where "length b = length (newBitset n)" and "L \<subseteq> ids n" and "bits b = nat ` L"
    and "(L, s) \<in> S \<or> \<not> completes model entries n L s"
proof -
  have "length b = length (newBitset n) \<and>
      (\<exists>L. L \<subseteq> ids n \<and> bits b = nat ` L \<and> ((L, s) \<in> S \<or> \<not> completes model entries n L s))"
    using assms by (simp add: cache_ok_def)
  then show ?thesis by (elim conjE exE) (rule that)
qed

lemma cached_fails:
  assumes wf: "wf_history entries n" and p: "path model entries n h0 calls L st h S"
    and co: "cache_ok model entries n S cache" and i: "i \<in> ids n - L" and b: "bits b = nat ` insert i L"
    and hit: "(b, st') \<in> set (cache (bitset_hash b))"
  shows "\<not> completes model entries n (insert i L) st'"
proof -
  have sub: "L \<subseteq> ids n" "\<forall>(L', s)\<in>S. L' \<subseteq> L" using path_props [OF wf p] by auto
  obtain L' where L': "L' \<subseteq> ids n" "bits b = nat ` L'" "(L', st') \<in> S \<or> \<not> completes model entries n L' st'"
    by (rule cache_okD [OF co hit])
  have "insert i L \<subseteq> ids n" using i sub(1) by blast
  from nat_image_eq [OF L'(1) this] have "L' = insert i L" using L'(2) b by argo
  moreover have "(insert i L, st') \<notin> S" using sub(2) i by auto
  ultimately show ?thesis using L'(3) by blast
qed

lemma push_rel:
  assumes sp: "(M, s) \<in> space model entries n" and M: "M \<subseteq> ids n"
    and b: "length b = length (newBitset n)" "bits b = nat ` M"
    and miss: "(b, s) \<notin> set (cache (bitset_hash b))"
  shows "uncached model entries n (cache(bitset_hash b := cache (bitset_hash b) @ [(b, s)])) \<subset>
    uncached model entries n cache"
proof -
  let ?cache = "cache(bitset_hash b := cache (bitset_hash b) @ [(b, s)])"
  have "uncached model entries n ?cache \<subseteq> uncached model entries n cache"
    by (auto simp: uncached_def)
  moreover have "b' = b" if "length b' = length (newBitset n)" "bits b' = nat ` M" for b'
    by (rule bits_inject) (simp_all add: that b)
  then have "(M, s) \<in> uncached model entries n cache"
    using sp miss by (auto simp: uncached_def)
  moreover have "(M, s) \<notin> uncached model entries n ?cache"
    using b by (auto simp: uncached_def)
  ultimately show ?thesis by blast
qed

lemma cache_ok_push:
  assumes co: "cache_ok model entries n S cache" and M: "M \<subseteq> ids n"
    and b: "length b = length (newBitset n)" "bits b = nat ` M"
  shows "cache_ok model entries n (insert (M, s) S) (cache(x := cache x @ [(b, s)]))"
  unfolding cache_ok_def
proof (intro allI impI)
  fix hash b0 s0
  assume "(b0, s0) \<in> set ((cache(x := cache x @ [(b, s)])) hash)"
  then consider "(b0, s0) = (b, s)" | "(b0, s0) \<in> set (cache hash)"
    by (auto split: if_splits)
  then show "length b0 = length (newBitset n) \<and> (\<exists>L. L \<subseteq> ids n \<and> bits b0 = nat ` L \<and>
      ((L, s0) \<in> insert (M, s) S \<or> \<not> completes model entries n L s0))"
  proof cases
    case 1
    then show ?thesis using M b by (intro conjI exI [of _ M]) simp_all
  next
    case 2
    obtain L where "length b0 = length (newBitset n)" "L \<subseteq> ids n" "bits b0 = nat ` L"
        "(L, s0) \<in> S \<or> \<not> completes model entries n L s0"
      by (rule cache_okD [OF co 2])
    then show ?thesis by (intro conjI exI [of _ L]) simp_all
  qed
qed

lemma check_call_inv:
  assumes wf: "wf_history entries n" and rd: "ready entries h0" and eq: "eq_model model"
    and at: "check_at model entries n h0 L S c" and nf: "\<not> c_failed c"
    and a: "c_entry c = Some a" "a \<in> set (rem entries L)" "scanned model entries n L (c_state c) a" "\<not> is_ret entries a"
  shows "\<exists>c'. check_call model (length entries) a c = Inr c' \<and> check_inv model entries n h0 kill c' \<and>
    (c', c) \<in> check_rel model entries n"
proof -
  let ?i = "nid entries a" and ?h = "c_heap c" and ?st = "c_state c"
  let ?m = "addr entries returnEntry ?i"
  have p: "path model entries n h0 (c_calls c) L ?st ?h S" and lin: "bits (c_linearized c) = nat ` L"
      "length (c_linearized c) = length (newBitset n)" and co: "cache_ok model entries n S (c_cache c)"
    using at by (auto simp: check_at_def)
  note nd = path_lift [OF wf rd p a(2,4)]
  have len: "length ?h = Suc (length entries)" using path_heap [OF wf rd p] ready_length [OF rd] by (metis length_map)
  have al: "a < length ?h" "length entries < length ?h" using a(2) len by (auto simp: rem_set)
  have i: "?i \<in> ids n - L" by (rule call_addr(1) [OF wf a(2,4)])
  obtain ok st' where step: "m_Step model ?st (op_in entries ?i) (op_out entries ?i) = (ok, st')" by fastforce
  obtain b where b: "bitset_set (c_linearized c) (nat ?i) = Inr b" "length b = length (newBitset n)"
      "bits b = nat ` insert ?i L"
    using bitset_set_ok [of "nat ?i" "c_linearized c"] id_capacity [of ?i n] i lin by auto
  note skip = skip_inv [OF wf rd at a _ nf, of kill]
  have run: "check_call model (length entries) a c =
      (if ok \<and> (b, st') \<notin> set (c_cache c (bitset_hash b)) then
         go_bind (load (unlink ?m (unlink a ?h)) (Some (length entries))) (\<lambda>hd.
           Inr (c\<lparr>c_cache := (c_cache c)(bitset_hash b := c_cache c (bitset_hash b) @ [(b, st')]),
                  c_calls := c_calls c @ [(a, ?st)], c_state := st', c_linearized := b,
                  c_heap := unlink ?m (unlink a ?h), c_entry := n_next hd\<rparr>))
       else Inr (c\<lparr>c_entry := n_next (?h ! a)\<rparr>))"
    by (simp add: check_call_def load_Some al nd step b cacheContains_iff [OF eq] Let_def)
  show ?thesis
  proof (cases "ok \<and> (b, st') \<notin> set (c_cache c (bitset_hash b))")
    case False
    have "op_fails model entries n L ?st ?i"
      using False step cached_fails [OF wf p co i b(3), of st'] by (auto simp: op_fails_def)
    from skip [OF this] show ?thesis using run False by simp
  next
    case True
    let ?L = "insert ?i L" and ?h' = "unlink ?m (unlink a ?h)"
    let ?cache = "(c_cache c)(bitset_hash b := c_cache c (bitset_hash b) @ [(b, st')])"
    let ?c = "c\<lparr>c_cache := ?cache, c_calls := c_calls c @ [(a, ?st)], c_state := st', c_linearized := b,
      c_heap := ?h', c_entry := n_next (?h' ! length entries)\<rparr>"
    have p': "path model entries n h0 (c_calls c @ [(a, ?st)]) ?L st' ?h' (insert (?L, st') S)"
      using path_snoc [OF p a(2,4,3)] step True by simp
    note lk = conjunct2 [OF path_heap [OF wf rd p']]
    have entry: "n_next (?h' ! length entries) = (case rem entries ?L of [] \<Rightarrow> None | x # _ \<Rightarrow> Some x)"
      using links_next(2) [of ?h' "[]" "length entries" "rem entries ?L"] lk by simp
    have sub: "?L \<subseteq> ids n" using path_props [OF wf p'] by blast
    have "cache_ok model entries n (insert (?L, st') S) ?cache"
      by (rule cache_ok_push [OF co sub b(2,3)])
    then have "check_at model entries n h0 ?L (insert (?L, st') S) ?c"
      using p' b at by (simp add: check_at_def)
    moreover have "case c_entry ?c of None \<Rightarrow> rem entries ?L = []
        | Some x \<Rightarrow> x \<in> set (rem entries ?L) \<and> scanned model entries n ?L (c_state ?c) x"
      by (cases "rem entries ?L") (simp_all add: entry scanned_first)
    ultimately have "check_inv model entries n h0 kill ?c"
      unfolding check_inv_at using nf by (intro conjI exI) simp_all
    moreover have "(?c, c) \<in> check_rel model entries n"
      using push_rel [OF path_in_space [OF wf p'] sub b(2,3)] True
      by (auto simp: check_rel_def finite_psubset_def finite_uncached)
    ultimately show ?thesis using run True al by (simp add: load_Some)
  qed
qed

lemma cache_ok_pop:
  assumes co: "cache_ok model entries n (insert (M, s) S) cache" and f: "\<not> completes model entries n M s"
  shows "cache_ok model entries n S cache"
  unfolding cache_ok_def
proof (intro allI impI)
  fix hash b0 s0 assume "(b0, s0) \<in> set (cache hash)"
  then obtain L where "length b0 = length (newBitset n)" "L \<subseteq> ids n" "bits b0 = nat ` L"
      "(L, s0) \<in> insert (M, s) S \<or> \<not> completes model entries n L s0"
    by (rule cache_okD [OF co])
  then show "length b0 = length (newBitset n) \<and> (\<exists>L. L \<subseteq> ids n \<and> bits b0 = nat ` L \<and>
      ((L, s0) \<in> S \<or> \<not> completes model entries n L s0))"
    using f by (intro conjI exI [of _ L]) auto
qed

lemma longest_ok:
  assumes wf: "wf_history entries n" and rd: "ready entries h0"
    and p: "path model entries n h0 calls L st h S" and ll: "longest_good model entries n longest"
  shows "\<exists>l. (if computePartial then longest_loop (call_ids h calls) (call_ids h calls) longest
      else Inr longest) = Inr l \<and> longest_good model entries n l"
proof -
  let ?seq = "call_ids h calls"
  have part: "partial_lin model entries n ?seq"
    unfolding path_call_ids [OF wf rd p] by (rule path_partial [OF wf p])
  then have "\<forall>i\<in>set ?seq. 0 \<le> i \<and> i < int (length longest)"
    using ll by (auto simp: ids_def partial_lin_def longest_good_def)
  from longest_loop_ok [OF this, of ?seq] obtain l where l: "longest_loop ?seq ?seq longest = Inr l"
      "length l = length longest" "\<forall>k<length l. l ! k = longest ! k \<or> l ! k = Some ?seq \<and> int k \<in> set ?seq"
    by blast
  have "int i \<in> set seq \<and> partial_lin model entries n seq" if "i < n" "l ! i = Some seq" for i seq
    using l(2,3) ll part that unfolding longest_good_def by (metis option.inject)
  then have "longest_good model entries n l" using l(2) ll by (simp add: longest_good_def)
  then show ?thesis using l(1) ll by auto
qed

lemma pop_inv:
  assumes wf: "wf_history entries n" and rd: "ready entries h0"
    and at: "check_at model entries n h0 L S c" and nf: "\<not> c_failed c"
    and fails: "\<not> completes model entries n L (c_state c)" and ne: "c_calls c \<noteq> []"
  shows "\<exists>c'. check_return computePartial c = Inr c' \<and> check_inv model entries n h0 kill c' \<and>
    (c_entry c \<noteq> None \<longrightarrow> (c', c) \<in> check_rel model entries n)"
proof -
  have p: "path model entries n h0 (c_calls c) L (c_state c) (c_heap c) S" and lin: "bits (c_linearized c) = nat ` L"
      "length (c_linearized c) = length (newBitset n)" and co: "cache_ok model entries n S (c_cache c)"
      and ll: "longest_good model entries n (c_longest c)"
    using at by (auto simp: check_at_def)
  obtain l where l: "(if computePartial then longest_loop (call_ids (c_heap c) (c_calls c))
      (call_ids (c_heap c) (c_calls c)) (c_longest c) else Inr (c_longest c)) = Inr l" "longest_good model entries n l"
    using longest_ok [OF wf rd p ll] by blast
  obtain cs L' s h' S' a where top: "c_calls c = cs @ [(a, s)]" "path model entries n h0 cs L' s h' S'"
      "a \<in> set (rem entries L')" "\<not> is_ret entries a" "scanned model entries n L' s a"
      "m_Step model s (op_in entries (nid entries a)) (op_out entries (nid entries a)) = (True, c_state c)"
      "L = insert (nid entries a) L'"
      "c_heap c = unlink (addr entries returnEntry (nid entries a)) (unlink a h')" "S = insert (L, c_state c) S'"
    using path_last [OF p ne] by blast
  note nd = path_lift [OF wf rd top(2,3,4)]
  have i: "nid entries a \<in> ids n - L'" by (rule call_addr(1) [OF wf top(3,4)])
  have len: "length (c_heap c) = Suc (length entries)" "length h' = Suc (length entries)"
    using path_heap [OF wf rd p] path_heap [OF wf rd top(2)] ready_length [OF rd] by (metis length_map)+
  have al: "a < length entries" using top(3) by (simp add: rem_set)
  have "node_data (c_heap c ! a) = node_data (h' ! a)"
    using data_at [OF rd _ al] path_heap [OF wf rd p] path_heap [OF wf rd top(2)] by metis
  then have id: "n_id (c_heap c ! a) = nid entries a" using nd(5) by (simp add: node_data_def)
  obtain b where b: "bitset_clear (c_linearized c) (nat (nid entries a)) = Inr b"
      "length b = length (newBitset n)" "bits b = nat ` L - {nat (nid entries a)}"
    using bitset_clear_ok [of "nat (nid entries a)" "c_linearized c"] id_capacity [of "nid entries a" n] i lin by auto
  have sub: "L' \<subseteq> ids n" using path_props [OF wf top(2)] by blast
  have "nat (nid entries a) \<notin> nat ` L'" using nat_image_insert [OF sub, of "nid entries a"] i by simp
  then have bits: "bits b = nat ` L'" using b(3) top(7) by auto
  have "op_fails model entries n L' s (nid entries a)"
    using fails top(6,7) by (simp add: op_fails_def)
  from skip_ok [OF wf rd top(2,3,5,4) this] obtain q where q: "n_next (h' ! a) = Some q"
      "q \<in> set (rem entries L')" "q < a" "scanned model entries n L' s q" by blast
  let ?c = "c\<lparr>c_longest := l, c_state := s, c_linearized := b, c_calls := cs, c_heap := h', c_entry := Some q\<rparr>"
  have "check_return computePartial c = Inr ?c"
    using l(1) len al b(1) nd(2) q(1) by (simp add: check_return_def top(1) load_Some id flip: top(8))
  moreover have "cache_ok model entries n S' (c_cache c)"
    by (rule cache_ok_pop [OF co [unfolded top(9)] fails])
  then have "check_at model entries n h0 L' S' ?c"
    using top(2) b(2) bits l(2) by (simp add: check_at_def)
  then have "check_inv model entries n h0 kill ?c"
    unfolding check_inv_at using nf q(2,4) by (intro conjI exI) simp_all
  moreover have "(?c, c) \<in> check_rel model entries n" if "c_entry c \<noteq> None"
    using q(3) that top(1) by (auto simp: check_rel_def weight_def)
  ultimately show ?thesis by blast
qed

lemma check_return_inv:
  assumes wf: "wf_history entries n" and rd: "ready entries h0"
    and at: "check_at model entries n h0 L S c" and nf: "\<not> c_failed c"
    and a: "c_entry c = Some a" "a \<in> set (rem entries L)" "scanned model entries n L (c_state c) a" "is_ret entries a"
  shows "\<exists>c'. check_return computePartial c = Inr c' \<and> check_inv model entries n h0 kill c' \<and>
    (c', c) \<in> check_rel model entries n"
proof -
  have p: "path model entries n h0 (c_calls c) L (c_state c) (c_heap c) S"
    using at by (simp add: check_at_def)
  have fails: "\<not> completes model entries n L (c_state c)"
    by (rule scanned_return [OF wf a(2,4,3)])
  show ?thesis
  proof (cases "c_calls c = []")
    case True
    have "\<not> completes model entries n {} (m_Init model)"
      using p fails True by (cases rule: path.cases) auto
    moreover have "check_at model entries n h0 L S (c\<lparr>c_failed := True\<rparr>)"
      using at by (simp add: check_at_def)
    ultimately have "check_inv model entries n h0 kill (c\<lparr>c_failed := True\<rparr>)"
      unfolding check_inv_at using a by (intro conjI exI) simp_all
    then show ?thesis
      using True nf by (simp add: check_return_def check_rel_def)
  next
    case False
    from pop_inv [OF wf rd at nf fails False] show ?thesis using a(1) by auto
  qed
qed

lemma check_inv_iter [simp]:
  "check_inv model entries n h0 kill (c\<lparr>c_iter := k\<rparr>) = check_inv model entries n h0 kill c"
  by (simp add: check_inv_def cong: option.case_cong)

lemma check_rel_iter [simp]:
  "(c'\<lparr>c_iter := k\<rparr>, c) \<in> check_rel model entries n \<longleftrightarrow> (c', c) \<in> check_rel model entries n"
  by (simp add: check_rel_def weight_def)

lemma check_step_inv:
  assumes wf: "wf_history entries n" and rd: "ready entries h0" and eq: "eq_model model"
    and inv: "check_inv model entries n h0 kill c" and run: "check_running (length entries) c"
  shows "\<exists>c'. check_step model computePartial kill (length entries) c = Inr c' \<and>
    check_inv model entries n h0 kill c' \<and> (c', c) \<in> check_rel model entries n"
proof (cases "kill (c_iter c)")
  case True
  then have "check_inv model entries n h0 kill (c\<lparr>c_failed := True\<rparr>)"
    using inv by (auto simp: check_inv_def cong: option.case_cong)
  then show ?thesis
    using True run by (simp add: check_step_def check_rel_def check_running_def)
next
  case False
  obtain L S where at: "check_at model entries n h0 L S c"
    and entry: "case c_entry c of None \<Rightarrow> rem entries L = []
      | Some a \<Rightarrow> a \<in> set (rem entries L) \<and> scanned model entries n L (c_state c) a"
    using inv unfolding check_inv_at by blast
  have nf: "\<not> c_failed c" using run by (simp add: check_running_def)
  have p: "path model entries n h0 (c_calls c) L (c_state c) (c_heap c) S"
    using at by (simp add: check_at_def)
  note heap = path_heap [OF wf rd p]
  have "rem entries L \<noteq> []"
    using links_next(2) [of "c_heap c" "[]" "length entries" "rem entries L"] heap run
    by (auto simp: check_running_def)
  then obtain a where a: "c_entry c = Some a" "a \<in> set (rem entries L)" "scanned model entries n L (c_state c) a"
    using entry by (auto split: option.splits)
  have al: "a < length entries" using a(2) by (simp add: rem_set)
  have "length (c_heap c) = Suc (length entries)" using heap ready_length [OF rd] by (metis length_map)
  then have ld: "load (c_heap c) (c_entry c) = Inr (c_heap c ! a)"
    using a(1) al by (simp add: load_Some)
  have "n_match (c_heap c ! a) = None" if "is_ret entries a"
    using data_at [OF rd _ al] heap that by (simp add: node_data_def node_of_def is_ret_def)
  moreover have "n_match (c_heap c ! a) \<noteq> None" if "\<not> is_ret entries a"
    using path_lift(4) [OF wf rd p a(2) that] by simp
  ultimately obtain c' where "(if n_match (c_heap c ! a) \<noteq> None then check_call model (length entries) a c
      else check_return computePartial c) = Inr c'" "check_inv model entries n h0 kill c'"
      "(c', c) \<in> check_rel model entries n"
    using check_call_inv [OF wf rd eq at nf a] check_return_inv [OF wf rd at nf a]
    by (cases "is_ret entries a") auto
  then show ?thesis
    using False ld a(1) by (auto simp: check_step_def split: if_splits)
qed

text \<open>The loop ends without a panic, in a state that satisfies the invariant.\<close>

lemma check_loop_ends:
  fixes model :: "('s, 'v) Model"
  assumes wf: "wf_history entries n" and rd: "ready entries h0" and eq: "eq_model model"
    and inv: "check_inv model entries n h0 kill c"
  shows "\<exists>c'. check_loop model computePartial kill (length entries) c = Some (Inr c') \<and>
    check_inv model entries n h0 kill c' \<and> \<not> check_running (length entries) c'"
proof -
  let ?b = "\<lambda>r :: ('s, 'v) check go. case r of Inl _ \<Rightarrow> False | Inr c \<Rightarrow> check_running (length entries) c"
  let ?f = "\<lambda>r. go_bind r (check_step model computePartial kill (length entries))"
  let ?P = "\<lambda>r. \<exists>c. r = Inr c \<and> check_inv model entries n h0 kill c"
  have step: "\<exists>c'. ?f (Inr c) = Inr c' \<and> check_inv model entries n h0 kill c' \<and> (c', c) \<in> check_rel model entries n"
    if "check_inv model entries n h0 kill c" "check_running (length entries) c" for c
    using check_step_inv [OF wf rd eq that] by simp
  have keep: "?P (?f r)" if "?P r" "?b r" for r
    using that step by fastforce
  have "wf {(t, s). (?P s \<and> ?b s) \<and> t = ?f s}"
  proof (rule wf_subset)
    show "wf (inv_image (check_rel model entries n) projr)"
      by (simp add: wf_check_rel)
    show "{(t, s). (?P s \<and> ?b s) \<and> t = ?f s} \<subseteq> inv_image (check_rel model entries n) projr"
      using step by fastforce
  qed
  then obtain r where r: "while_option ?b ?f (Inr c) = Some r"
    using wf_while_option_Some [of ?P ?b ?f "Inr c"] keep inv by blast
  have "?P r"
    using while_option_rule [of ?P ?b ?f "Inr c" r] keep r inv by blast
  moreover have "\<not> ?b r" using while_option_stop [OF r] by simp
  ultimately show ?thesis using r by (auto simp: check_loop_def)
qed

section \<open>Correctness of the checker\<close>

lemma check_start_ready:
  assumes wf: "wf_history entries n" and b: "built (rev entries) h root"
  shows "\<exists>c. check_start model n root h = Inr c \<and> ready entries (c_heap c) \<and>
    check_inv model entries n (c_heap c) kill c \<and> length h = length entries"
proof -
  let ?nd = "\<lparr>n_value = None, n_match = None, n_id = -1, n_next = None, n_prev = None\<rparr>"
  have len: "length h = length entries" using built_length [OF b] by simp
  have all: "rem entries {} = rev [0..<length entries]" by (simp add: rem_def)
  have "\<exists>h'. insertBefore (length h) root (h @ [?nd]) = Inr h' \<and> links h' (length h # rem entries {}) \<and>
      map node_data h' = map node_data h @ [node_data ?nd]"
  proof (cases "entries = []")
    case True
    then show ?thesis using b len by (simp add: built_def insertBefore_def links_def rem_def)
  next
    case False
    then have "links h (rev [0..<length entries])" "n_prev (h ! hd (rev [0..<length entries])) = None"
        "root = Some (hd (rev [0..<length entries]))"
      using b by (auto simp: built_def hd_rev)
    then show ?thesis
      using insert_first [of h "rev [0..<length entries]" ?nd] by (auto simp: all)
  qed
  then obtain h' where h': "insertBefore (length h) root (h @ [?nd]) = Inr h'"
      "links h' (length h # rem entries {})" "map node_data h' = map node_data h @ [node_data ?nd]" by blast
  let ?c = "\<lparr>c_heap = h', c_entry = root, c_state = m_Init model, c_linearized = newBitset n,
    c_cache = (\<lambda>_. []), c_calls = [], c_longest = replicate n None, c_iter = 0, c_failed = False\<rparr>"
  have "ready entries h'"
    using h' b len by (simp add: ready_def built_def node_data_def)
  moreover have "check_at model entries n h' {} {} ?c"
    by (simp add: check_at_def path_nil newBitset_props cache_ok_def longest_good_def)
  moreover have "case root of None \<Rightarrow> rem entries {} = []
      | Some a \<Rightarrow> a \<in> set (rem entries {}) \<and> scanned model entries n {} (m_Init model) a"
  proof (cases "rem entries {}")
    case Nil
    then show ?thesis using b all by (auto simp: built_def split: if_splits)
  next
    case (Cons a as)
    have ne: "entries \<noteq> []" using Cons all by auto
    then have "hd (rem entries {}) = length entries - 1" by (simp add: all hd_rev)
    then have "a = length entries - 1" using Cons by simp
    then have "root = Some a" using b ne by (simp add: built_def)
    then show ?thesis using Cons scanned_first [OF Cons] by simp
  qed
  ultimately have "ready entries (c_heap ?c) \<and> check_inv model entries n (c_heap ?c) kill ?c"
    unfolding check_inv_at by (intro conjI exI) (simp_all cong: option.case_cong)
  moreover have "check_start model n root h = Inr ?c"
    using h'(1) by (simp add: check_start_def)
  ultimately show ?thesis using len by blast
qed

lemma checkSingle_ok:
  assumes "wf_history entries n" and "eq_model model"
  shows "\<exists>ok longest. checkSingle model entries computePartial kill = Some (Inr (ok, longest)) \<and>
    (ok \<longrightarrow> (\<exists>order. is_linearization model entries n order \<and> longest = replicate n (Some order))) \<and>
    (\<not> ok \<and> (\<forall>k. \<not> kill k) \<longrightarrow> \<not> linearizable model entries n) \<and> longest_good model entries n longest"
proof -
  obtain h root where mk: "makeLinkedEntries entries = Inr (h, root)" and b: "built (rev entries) h root"
    using makeLinkedEntries_built by blast
  have half: "node_length h root = Some (2 * n)"
    using node_length_built [OF b] history_length [OF assms(1)] by simp
  obtain c where c: "check_start model n root h = Inr c" "ready entries (c_heap c)"
      "check_inv model entries n (c_heap c) kill c" "length h = length entries"
    using check_start_ready [OF assms(1) b] by blast
  obtain c' where c': "check_loop model computePartial kill (length entries) c = Some (Inr c')"
      "check_inv model entries n (c_heap c) kill c'" "\<not> check_running (length entries) c'"
    using check_loop_ends [OF assms(1) c(2) assms(2) c(3)] by blast
  obtain L S where p: "path model entries n (c_heap c) (c_calls c') L (c_state c') (c_heap c') S"
    using c'(2) by (auto simp: check_inv_def)
  let ?order = "map (\<lambda>c. nid entries (fst c)) (c_calls c')"
  have "is_linearization model entries n ?order" if "\<not> c_failed c'"
  proof (rule path_complete [OF assms(1) p])
    have "n_next (c_heap c' ! length entries) = None" using c'(3) that by (simp add: check_running_def)
    then show "rem entries L = []"
      using links_next(2) [of "c_heap c'" "[]" "length entries" "rem entries L"] path_heap [OF assms(1) c(2) p]
      by (simp split: list.splits)
  qed
  moreover have "\<not> linearizable model entries n" if "c_failed c'" "\<forall>k. \<not> kill k"
    using c'(2) that linearizable_iff_completes [OF assms(1)] by (auto simp: check_inv_def)
  moreover have "longest_good model entries n (c_longest c')" using c'(2) by (simp add: check_inv_def)
  moreover have "longest_good model entries n (replicate n (Some order))" if "is_linearization model entries n order" for order
    using that by (auto simp: longest_good_def partial_lin_def is_linearization_def ids_def)
  moreover have "checkSingle model entries computePartial kill = Some (Inr (check_result n c'))"
    using mk half c c'(1) by (simp add: checkSingle_def)
  ultimately show ?thesis
    using path_call_ids [OF assms(1) c(2) p] by (cases "c_failed c'") (auto simp: check_result_def)
qed

text \<open>A register with inputs \<open>Inl v\<close> for a write and \<open>Inr _\<close> for a read, as an example.\<close>

definition register_model :: "(int, int + int) Model" where
  "register_model = fillDefault
     \<lparr>m_Partition = None, m_PartitionEvent = None, m_Init = 0,
      m_Step = (\<lambda>st x y. case x of Inl v \<Rightarrow> (True, v) | Inr _ \<Rightarrow> (y = Inr st, st)), m_Equal = None\<rparr>"

definition register_entry :: "entryKind \<Rightarrow> int \<Rightarrow> int + int \<Rightarrow> (int + int) entry" where
  "register_entry k i v = \<lparr>e_kind = k, e_value = v, e_id = i, e_time = 0, e_clientId = 0\<rparr>"

definition register_history :: "(int + int) entry list" where
  "register_history =
     [register_entry callEntry 0 (Inl 5), register_entry callEntry 1 (Inr 0),
      register_entry returnEntry 1 (Inr 5), register_entry returnEntry 0 (Inl 0)]"

text \<open>
  C5. The checker decides linearizability. On every well-formed history of \<open>n\<close> operations and for
  every model whose \<open>Equal\<close> is equality, \<open>checkSingle\<close> returns, without a panic. If it
  answers true, the history is linearizable and every entry of \<open>longest\<close> is one and the same
  linearization; if it answers false without having been killed, the history is not
  linearizable.
\<close>

theorem checkSingle_decides_linearizability:
  assumes "wf_history entries n" and "eq_model model"
  shows "\<exists>ok longest. checkSingle model entries computePartial kill = Some (Inr (ok, longest)) \<and>
    (ok \<longrightarrow> (\<exists>order. is_linearization model entries n order \<and> longest = replicate n (Some order))) \<and>
    (\<not> ok \<and> (\<forall>k. \<not> kill k) \<longrightarrow> \<not> linearizable model entries n)"
  using checkSingle_ok [OF assms, of computePartial kill] by blast

theorem checkSingle_decides_linearizability_witness:
  "wf_history register_history 2 \<and> eq_model register_model \<and>
   (\<exists>ok longest. checkSingle register_model register_history True (\<lambda>_. False) = Some (Inr (ok, longest)) \<and>
    (\<not> ok \<longrightarrow> \<not> linearizable register_model register_history 2))"
proof -
  have "wf_history register_history 2"
    by (auto simp: wf_history_def register_history_def register_entry_def ekey_def epos_def ids_def
        numeral_2_eq_2 lessThan_Suc)
  moreover have "eq_model register_model"
    by (simp add: eq_model_def register_model_def fillDefault_def ShallowEqual_def)
  ultimately show ?thesis
    using checkSingle_decides_linearizability [of register_history 2 register_model True "\<lambda>_. False"] by blast
qed

end
