(* ===== verification/Porcupine_Check.thy ===== *)
theory Porcupine_Check
  imports Porcupine_Search KvRaft
begin

text \<open>
  The entry points of the checker (\<open>porcupine/porcupine.go\<close>) on histories of operations and of
  events, and the check of the key/value service (\<open>models/kv.go\<close>).

  For operations the specification is stated on times: an order of the operations that the
  model can execute and in which no operation comes before one that returned before it was
  called. \<open>sort.Sort\<close> is a parameter of which \<open>time_sort\<close> says that it permutes and orders by
  time.
\<close>

section \<open>Entries of operations\<close>

definition time_sort :: "('v entry list \<Rightarrow> 'v entry list) \<Rightarrow> bool" where
  "time_sort srt \<longleftrightarrow> (\<forall>xs. mset (srt xs) = mset xs \<and> sorted (map e_time (srt xs)))"

definition op_entry :: "'v Operation list \<Rightarrow> entryKind \<Rightarrow> nat \<Rightarrow> 'v entry" where
  "op_entry ops k i =
     (if k = callEntry
      then \<lparr>e_kind = callEntry, e_value = op_Input (ops ! i), e_id = int i, e_time = op_Call (ops ! i),
            e_clientId = op_ClientId (ops ! i)\<rparr>
      else \<lparr>e_kind = returnEntry, e_value = op_Output (ops ! i), e_id = int i, e_time = op_Return (ops ! i),
            e_clientId = op_ClientId (ops ! i)\<rparr>)"

definition timed :: "'v Operation list \<Rightarrow> bool" where
  "timed ops \<longleftrightarrow> (\<forall>x\<in>set ops. op_Call x < op_Return x)"

definition no_ties :: "'v Operation list \<Rightarrow> bool" where
  "no_ties ops \<longleftrightarrow> (\<forall>x\<in>set ops. \<forall>y\<in>set ops. op_Return x \<noteq> op_Call y)"

fun legal_ops :: "('s, 'v) Model \<Rightarrow> 'v Operation list \<Rightarrow> 's \<Rightarrow> nat list \<Rightarrow> bool" where
  "legal_ops model ops st [] = True"
| "legal_ops model ops st (i # is) =
     (case m_Step model st (op_Input (ops ! i)) (op_Output (ops ! i)) of
        (ok, st') \<Rightarrow> ok \<and> legal_ops model ops st' is)"

definition ops_linearizable :: "('s, 'v) Model \<Rightarrow> 'v Operation list \<Rightarrow> bool" where
  "ops_linearizable model ops \<longleftrightarrow>
     (\<exists>order. distinct order \<and> set order = {..<length ops} \<and>
        sorted_wrt (\<lambda>i j. \<not> op_Return (ops ! j) < op_Call (ops ! i)) order \<and>
        legal_ops model ops (m_Init model) order)"

lemma op_entries_split:
  "op_entries j ops = concat (map (\<lambda>i.
     [(op_entry ops callEntry i)\<lparr>e_id := int (i + j)\<rparr>, (op_entry ops returnEntry i)\<lparr>e_id := int (i + j)\<rparr>])
       [0..<length ops])"
proof (induction ops arbitrary: j)
  case (Cons x ops)
  have "[0..<length (x # ops)] = 0 # map Suc [0..<length ops]"
    by (simp add: upt_conv_Cons map_Suc_upt del: upt_Suc)
  then show ?case
    by (simp add: Cons.IH comp_def op_entry_def add.assoc)
qed simp

lemma op_entries_set: "set (op_entries 0 ops) = (\<lambda>(k, i). op_entry ops k i) ` ({callEntry, returnEntry} \<times> {..<length ops})"
  by (auto simp: op_entries_split op_entry_def image_iff)

lemma op_entry_key: "ekey (op_entry ops k i) = (k, int i)"
  by (cases k) (simp_all add: op_entry_def ekey_def)

lemma op_entries_distinct: "distinct (map ekey (op_entries 0 ops))"
proof -
  have "length (op_entries j ops) = 2 * length ops" for j
    by (induction j ops rule: op_entries.induct) simp_all
  moreover have "set (map ekey (op_entries 0 ops)) = {callEntry, returnEntry} \<times> ids (length ops)"
    by (auto simp: op_entries_set op_entry_key ids_def image_iff)
  then have "card (set (map ekey (op_entries 0 ops))) = 2 * length ops"
    by (simp add: card_cartesian_product ids_def card_image)
  ultimately show ?thesis by (intro card_distinct) simp
qed

lemma makeEntries_keys:
  assumes "time_sort srt"
  shows "distinct (map ekey (makeEntries srt ops))"
    and "set (map ekey (makeEntries srt ops)) = {callEntry, returnEntry} \<times> ids (length ops)"
proof -
  have m: "mset (makeEntries srt ops) = mset (op_entries 0 ops)"
    using assms by (simp add: time_sort_def makeEntries_def)
  then have "mset (map ekey (makeEntries srt ops)) = mset (map ekey (op_entries 0 ops))"
    by (simp add: mset_map)
  then show "distinct (map ekey (makeEntries srt ops))"
    using op_entries_distinct mset_eq_imp_distinct_iff by blast
  show "set (map ekey (makeEntries srt ops)) = {callEntry, returnEntry} \<times> ids (length ops)"
    using mset_eq_setD [OF m] by (auto simp: op_entries_set op_entry_key ids_def image_iff)
qed

lemma epos_less: "e \<in> set es \<Longrightarrow> ekey e = (k, i) \<Longrightarrow> epos es k i < length es"
  by (induction es) (auto simp: epos_def)

lemma makeEntries_at:
  assumes ts: "time_sort srt" and i: "i < length ops"
  shows "epos (makeEntries srt ops) k (int i) < length (makeEntries srt ops) \<and>
    makeEntries srt ops ! epos (makeEntries srt ops) k (int i) = op_entry ops k i"
proof -
  let ?es = "makeEntries srt ops"
  have "mset ?es = mset (op_entries 0 ops)"
    using ts by (simp add: time_sort_def makeEntries_def)
  then have mem: "set ?es = set (op_entries 0 ops)" by (rule mset_eq_setD)
  have e: "op_entry ops k i \<in> set ?es" using i by (cases k) (auto simp: mem op_entries_set)
  then have lt: "epos ?es k (int i) < length ?es"
    by (rule epos_less) (rule op_entry_key)
  have key: "ekey (?es ! epos ?es k (int i)) = (k, int i)"
    using nth_length_takeWhile [of "\<lambda>e. ekey e \<noteq> (k, int i)" ?es] lt by (simp add: epos_def)
  have "inj_on ekey (set ?es)" using makeEntries_keys(1) [OF ts, of ops] by (simp add: distinct_map)
  then show ?thesis
    using lt e key nth_mem [OF lt] op_entry_key [of ops k i] by (metis inj_onD)
qed

lemma epos_time:
  assumes ts: "time_sort srt" and i: "i < length ops" and j: "j < length ops"
  shows "e_time (op_entry ops k i) < e_time (op_entry ops l j) \<Longrightarrow>
      epos (makeEntries srt ops) k (int i) < epos (makeEntries srt ops) l (int j)"
    and "epos (makeEntries srt ops) k (int i) < epos (makeEntries srt ops) l (int j) \<Longrightarrow>
      e_time (op_entry ops k i) \<le> e_time (op_entry ops l j)"
proof -
  let ?es = "makeEntries srt ops" and ?p = "epos (makeEntries srt ops) k (int i)"
    and ?q = "epos (makeEntries srt ops) l (int j)"
  have srt: "sorted (map e_time ?es)" using ts by (simp add: time_sort_def makeEntries_def)
  have mono: "e_time (?es ! a) \<le> e_time (?es ! b)" if "a \<le> b" "b < length ?es" for a b
    using sorted_nth_mono [OF srt that(1)] that by simp
  note at = makeEntries_at [OF ts i, of k] makeEntries_at [OF ts j, of l]
  show "?p < ?q" if "e_time (op_entry ops k i) < e_time (op_entry ops l j)"
    using mono [of ?q ?p] at that by (cases "?p < ?q") auto
  show "e_time (op_entry ops k i) \<le> e_time (op_entry ops l j)" if "?p < ?q"
    using mono [of ?p ?q] at that by simp
qed

lemma makeEntries_wf:
  assumes "time_sort srt" and "timed ops"
  shows "wf_history (makeEntries srt ops) (length ops)"
  unfolding wf_history_def
proof (intro conjI ballI)
  fix i assume "i \<in> ids (length ops)"
  then obtain k where k: "i = int k" "k < length ops" by (auto simp: ids_def)
  then show "epos (makeEntries srt ops) callEntry i < epos (makeEntries srt ops) returnEntry i"
    using epos_time(1) [OF assms(1) k(2) k(2), of callEntry returnEntry] assms(2)
    by (simp add: op_entry_def timed_def)
qed (simp_all only: makeEntries_keys [OF assms(1)])

section \<open>Linearizability by time\<close>

lemma legal_ops_iff:
  assumes "time_sort srt" and "set order \<subseteq> {..<length ops}"
  shows "legal model (makeEntries srt ops) st (map int order) = legal_ops model ops st order"
  using assms(2)
proof (induction order arbitrary: st)
  case (Cons i order)
  have "i < length ops" using Cons.prems by simp
  then have "op_in (makeEntries srt ops) (int i) = op_Input (ops ! i)"
      "op_out (makeEntries srt ops) (int i) = op_Output (ops ! i)"
    using makeEntries_at [OF assms(1)] by (simp_all add: op_in_def op_out_def op_entry_def)
  then show ?case using Cons by (auto split: prod.splits)
qed simp

lemma precedes_time:
  assumes "time_sort srt" and "no_ties ops" and "i < length ops" and "j < length ops"
  shows "precedes (makeEntries srt ops) (int i) (int j) \<longleftrightarrow> op_Return (ops ! i) < op_Call (ops ! j)"
  using epos_time [OF assms(1,3,4), of returnEntry callEntry] assms
  unfolding precedes_def no_ties_def op_entry_def by (auto simp: order_le_less)

lemma ids_orders: "set xs = ids n \<Longrightarrow> \<exists>ys. xs = map int ys \<and> set ys = {..<n}"
proof -
  assume s: "set xs = ids n"
  have "map (\<lambda>x. int (nat x)) xs = xs"
    by (rule map_idI) (use s in \<open>auto simp: ids_def\<close>)
  then have "xs = map int (map nat xs)" by (simp add: comp_def)
  moreover have "set (map nat xs) = {..<n}" using s by (force simp: ids_def)
  ultimately show ?thesis by blast
qed

lemma sorted_wrt_iff_cong:
  "(\<And>x y. x \<in> set xs \<Longrightarrow> y \<in> set xs \<Longrightarrow> P x y = Q x y) \<Longrightarrow> sorted_wrt P xs = sorted_wrt Q xs"
  by (induction xs) auto

lemma linearizable_by_time:
  assumes ts: "time_sort srt" and nt: "no_ties ops"
  shows "linearizable model (makeEntries srt ops) (length ops) \<longleftrightarrow> ops_linearizable model ops"
proof -
  let ?es = "makeEntries srt ops"
  have order: "is_linearization model ?es (length ops) (map int ys) \<longleftrightarrow>
      distinct ys \<and> set ys = {..<length ops} \<and>
      sorted_wrt (\<lambda>i j. \<not> op_Return (ops ! j) < op_Call (ops ! i)) ys \<and> legal_ops model ops (m_Init model) ys" for ys
  proof (cases "set ys = {..<length ops}")
    case True
    then have "set (map int ys) = ids (length ops)" by (simp add: ids_def)
    moreover have "sorted_wrt (\<lambda>i j. \<not> precedes ?es (int j) (int i)) ys =
        sorted_wrt (\<lambda>i j. \<not> op_Return (ops ! j) < op_Call (ops ! i)) ys"
      by (rule sorted_wrt_iff_cong) (use True precedes_time [OF ts nt] in simp)
    ultimately show ?thesis
      using True legal_ops_iff [OF ts, of ys ops model] by (simp add: is_linearization_def sorted_wrt_map distinct_map)
  next
    case False
    then have "set (map int ys) \<noteq> ids (length ops)" by (auto simp: ids_def dest: inj_image_eq_iff [THEN iffD1, rotated])
    then show ?thesis using False by (simp add: is_linearization_def)
  qed
  show ?thesis
    unfolding linearizable_def ops_linearizable_def
    using order ids_orders [of _ "length ops"] by (metis is_linearization_def)
qed

section \<open>All partitions\<close>

lemma single_result_ok:
  assumes "wf_history entries n" and "eq_model model"
  shows "single_result model computeInfo entries = Some (Inr (linearizable model entries n))"
  using checkSingle_ok [OF assms, of computeInfo "\<lambda>_. False"]
  by (auto simp: single_result_def linearizable_def)

lemma parallel_loop_ok:
  "is \<noteq> [] \<Longrightarrow> cnt + length is = parts \<Longrightarrow> ok \<or> computeInfo \<Longrightarrow>
   parallel_loop computeInfo parts cnt ok (map (\<lambda>i. Result (Some (Inr (f i)))) is) =
     Some (Inr (if ok \<and> (\<forall>i\<in>set is. f i) then Ok else Illegal))"
proof (induction "is" arbitrary: cnt ok)
  case (Cons i "is")
  then show ?case
    by (cases "is = []") (auto simp: Let_def)
qed simp

lemma fillDefault_simps [simp]:
  "m_Init (fillDefault model) = m_Init model" "m_Step (fillDefault model) = m_Step model"
  by (simp_all add: fillDefault_def Let_def)

lemma legal_ops_fillDefault: "legal_ops (fillDefault model) ops st order = legal_ops model ops st order"
  by (induction order arbitrary: st) (auto split: prod.splits)

lemma ops_linearizable_fillDefault [simp]:
  "ops_linearizable (fillDefault model) ops = ops_linearizable model ops"
  by (simp add: ops_linearizable_def legal_ops_fillDefault)

lemma checkParallel_ok:
  assumes "\<forall>p\<in>set ps. single_result model computeInfo (g p) = Some (Inr (P p))"
    and "ps \<noteq> []" and "distinct order" and "set order = {..<length ps}"
  shows "checkParallel model (map g ps) computeInfo (map Some order) =
    Some (Inr (if \<forall>p\<in>set ps. P p then Ok else Illegal))"
proof -
  have len: "length order = length ps"
    using distinct_card [OF assms(3)] assms(4) by simp
  have eq: "map (\<lambda>i. Result (single_result model computeInfo (map g ps ! i))) order =
      map (\<lambda>i. Result (Some (Inr (P (ps ! i))))) order"
    using assms(1,4) by simp
  have all: "(\<forall>i\<in>set order. P (ps ! i)) \<longleftrightarrow> (\<forall>p\<in>set ps. P p)"
    unfolding assms(4) by (auto simp: all_set_conv_all_nth)
  have "order \<noteq> []" using len assms(2) by auto
  then have "parallel_loop computeInfo (length ps) 0 True (map (\<lambda>i. Result (Some (Inr (P (ps ! i))))) order) =
      Some (Inr (if \<forall>i\<in>set order. P (ps ! i) then Ok else Illegal))"
    using parallel_loop_ok [of order 0 "length ps" True computeInfo "\<lambda>i. P (ps ! i)"] len by simp
  then show ?thesis
    by (simp add: checkParallel_def comp_def eq all)
qed

definition arrived :: "(nat \<Rightarrow> bool) \<Rightarrow> nat option \<Rightarrow> arrival" where
  "arrived f a = (case a of None \<Rightarrow> Timeout | Some i \<Rightarrow> Result (Some (Inr (f i))))"

lemma parallel_loop_arrived:
  "parallel_loop computeInfo parts cnt ok (map (arrived f) (Some i # as)) =
     (if \<not> (ok \<and> f i) \<and> \<not> computeInfo then Some (Inr Illegal)
      else if Suc cnt \<ge> parts then Some (Inr (if \<not> (ok \<and> f i) then Illegal else Ok))
      else parallel_loop computeInfo parts (Suc cnt) (ok \<and> f i) (map (arrived f) as))"
  by (simp add: arrived_def Let_def)

text \<open>
  With a timeout: \<open>seen\<close> are the partitions whose results the loop has read. A loop that is left
  by the timeout answers \<open>Unknown\<close> unless it has read a failure.
\<close>

lemma parallel_loop_sound:
  assumes "parallel_loop computeInfo parts cnt ok (map (arrived f) as) = Some (Inr r)"
    and "set (map Some seen @ as) \<subseteq> insert None (Some ` {..<parts})"
    and "distinct (map Some seen @ filter (\<lambda>a. a \<noteq> None) as)"
    and "cnt = length seen" and "ok \<longleftrightarrow> (\<forall>i\<in>set seen. f i)"
  shows "(r = Ok \<longrightarrow> (\<forall>i<parts. f i)) \<and> (r = Illegal \<longrightarrow> (\<exists>i<parts. \<not> f i)) \<and> (r = Unknown \<longrightarrow> None \<in> set as)"
  using assms
proof (induction as arbitrary: cnt ok seen)
  case (Cons a as)
  show ?case
  proof (cases a)
    case None
    then show ?thesis using Cons.prems by (auto simp: arrived_def split: if_splits)
  next
    case (Some i)
    let ?seen = "seen @ [i]" and ?ok = "ok \<and> f i"
    have i: "i < parts" "set ?seen \<subseteq> {..<parts}" "distinct ?seen"
      using Cons.prems(2,3) Some by (auto simp: distinct_map)
    have fail: "\<exists>i<parts. \<not> f i" if "\<not> ?ok" using that Cons.prems(5) i by auto
    have complete: "\<forall>i<parts. f i" if "Suc cnt \<ge> parts" ?ok
    proof -
      have "card (set ?seen) \<ge> parts" using distinct_card [OF i(3)] that(1) Cons.prems(4) by simp
      then have "set ?seen = {..<parts}" using i(2) card_mono [of "{..<parts}" "set ?seen"]
        by (intro card_subset_eq) auto
      then show ?thesis using that(2) Cons.prems(5) by auto
    qed
    note step = parallel_loop_arrived [of computeInfo parts cnt ok f i as, folded Some]
    show ?thesis
    proof (cases "(\<not> ?ok \<and> \<not> computeInfo) \<or> Suc cnt \<ge> parts")
      case True
      then show ?thesis using Cons.prems(1) step fail complete by (auto split: if_splits)
    next
      case False
      then have run: "parallel_loop computeInfo parts (Suc cnt) ?ok (map (arrived f) as) = Some (Inr r)"
        using Cons.prems(1) step by auto
      have sub: "set (map Some ?seen @ as) \<subseteq> insert None (Some ` {..<parts})"
        using Cons.prems(2) Some by auto
      have dist: "distinct (map Some ?seen @ filter (\<lambda>a. a \<noteq> None) as)"
        using Cons.prems(3) Some by auto
      have now: "Suc cnt = length ?seen" "?ok \<longleftrightarrow> (\<forall>i\<in>set ?seen. f i)"
        using Cons.prems(4,5) by auto
      show ?thesis using Cons.IH [OF run sub dist now] by (simp only: list.set insert_iff) blast
    qed
  qed
qed simp

lemma parallel_loop_timeout: "None \<in> set as \<Longrightarrow> \<exists>r. parallel_loop computeInfo parts cnt ok (map (arrived f) as) = Some (Inr r)"
proof (induction as arbitrary: cnt ok)
  case (Cons a as)
  show ?case
  proof (cases a)
    case None
    then show ?thesis by (simp add: arrived_def)
  next
    case (Some i)
    then have "None \<in> set as" using Cons.prems by simp
    then obtain r where "parallel_loop computeInfo parts (Suc cnt) (ok \<and> f i) (map (arrived f) as) = Some (Inr r)"
      using Cons.IH by blast
    then show ?thesis unfolding Some parallel_loop_arrived by metis
  qed
qed simp

text \<open>The partitions of a history of operations, as entries, and what a search on each of them answers.\<close>

lemma operations_single:
  assumes "time_sort srt" and "eq_model (fillDefault model)" and "timed p" and "no_ties p"
  shows "single_result (fillDefault model) verbose (makeEntries srt p) = Some (Inr (ops_linearizable model p))"
  using single_result_ok [OF makeEntries_wf [OF assms(1,3)] assms(2)]
    linearizable_by_time [OF assms(1,4), of "fillDefault model"] by simp

lemma checkOperations_ok:
  assumes "time_sort srt" and "eq_model (fillDefault model)"
    and "m_Partition (fillDefault model) = Some part" and "part history \<noteq> []"
    and "\<forall>p\<in>set (part history). timed p \<and> no_ties p"
    and "distinct order" and "set order = {..<length (part history)}"
  shows "checkOperations srt model history verbose (map Some order) =
    Some (Inr (if \<forall>p\<in>set (part history). ops_linearizable model p then Ok else Illegal))"
proof -
  have "\<forall>p\<in>set (part history).
      single_result (fillDefault model) verbose (makeEntries srt p) = Some (Inr (ops_linearizable model p))"
    using operations_single [OF assms(1,2)] assms(5) by simp
  from checkParallel_ok [OF this assms(4,6,7)] show ?thesis
    using assms(3) by (simp add: checkOperations_def)
qed

text \<open>
  C35. Checking operations: when no operation returns at the time of a call, \<open>checkOperations\<close>
  returns, whatever the order in which the partitions are finished, and answers \<open>Ok\<close> exactly
  when every partition is linearizable with respect to the times of the calls and returns.
\<close>

theorem checkOperations_correct:
  assumes "time_sort srt" and "eq_model (fillDefault model)"
    and "m_Partition (fillDefault model) = Some part" and "part history \<noteq> []"
    and "\<forall>p\<in>set (part history). timed p \<and> no_ties p"
    and "distinct order" and "set order = {..<length (part history)}"
  shows "checkOperations srt model history verbose (map Some order) =
    Some (Inr (if \<forall>p\<in>set (part history). ops_linearizable model p then Ok else Illegal))"
  by (rule checkOperations_ok [OF assms])

definition example_ops :: "(int + int) Operation list" where
  "example_ops =
     [\<lparr>op_ClientId = 0, op_Input = Inl 5, op_Call = 0, op_Output = Inl 0, op_Return = 10\<rparr>,
      \<lparr>op_ClientId = 1, op_Input = Inr 0, op_Call = 2, op_Output = Inr 5, op_Return = 7\<rparr>]"

lemma insort_time_sort: "time_sort (sort_key e_time)"
  by (simp add: time_sort_def)

lemma register_model_eq: "eq_model (fillDefault register_model)"
    "m_Partition (fillDefault register_model) = Some NoPartition"
  by (simp_all add: eq_model_def register_model_def fillDefault_def ShallowEqual_def)

theorem checkOperations_correct_witness:
  "checkOperations (sort_key e_time) register_model example_ops True (map Some [0]) =
    Some (Inr (if \<forall>p\<in>set (NoPartition example_ops). ops_linearizable register_model p then Ok else Illegal))"
  by (rule checkOperations_correct [OF insort_time_sort register_model_eq])
    (auto simp: NoPartition_def example_ops_def timed_def no_ties_def)



section \<open>The key/value model\<close>

text \<open>Values are inputs and outputs of the service; other pairs do not occur in a history.\<close>

fun kv_step :: "string \<Rightarrow> KvInput + string \<Rightarrow> KvInput + string \<Rightarrow> bool \<times> string" where
  "kv_step st (Inl inp) (Inr out) = KvModel_Step st inp out"
| "kv_step st _ _ = (False, st)"

definition kv_key :: "(KvInput + string) Operation \<Rightarrow> string" where
  "kv_key x = (case op_Input x of Inl inp \<Rightarrow> ki_Key inp | Inr _ \<Rightarrow> '''')"

definition KvModel :: "(string, KvInput + string) Model" where
  "KvModel = \<lparr>m_Partition = Some (KvModel_Partition kv_key), m_PartitionEvent = None,
              m_Init = KvModel_Init, m_Step = kv_step, m_Equal = None\<rparr>"

lemma KvModel_group_ok:
  "distinct (map fst m) \<Longrightarrow>
   distinct (map fst (KvModel_group key vs m)) \<and>
   fst ` set (KvModel_group key vs m) = fst ` set m \<union> key ` set vs \<and>
   (\<forall>k. (case map_of (KvModel_group key vs m) k of None \<Rightarrow> [] | Some xs \<Rightarrow> xs) =
        (case map_of m k of None \<Rightarrow> [] | Some xs \<Rightarrow> xs) @ filter (\<lambda>v. key v = k) vs)"
proof (induction key vs m rule: KvModel_group.induct)
  case (1 key m)
  then show ?case by simp
next
  case (2 key v vs m)
  let ?f = "\<lambda>(k, xs). if k = key v then (k, xs @ [v]) else (k, xs)"
  let ?m = "if key v \<in> fst ` set m then map ?f m else m @ [(key v, [v])]"
  have keys: "map fst (map ?f m) = map fst m" by auto
  have upd: "map_of (map ?f m) k = map_option (\<lambda>xs. if k = key v then xs @ [v] else xs) (map_of m k)" for k
    by (induction m) auto
  have names: "map fst ?m = (if key v \<in> fst ` set m then map fst m else map fst m @ [key v])"
    using keys by (cases "key v \<in> fst ` set m") (simp_all only: if_True if_False, simp)
  have "distinct (map fst ?m)" unfolding names using "2.prems" by simp
  moreover have "set (map fst ?m) = insert (key v) (fst ` set m)"
    unfolding names by auto
  then have "fst ` set ?m = insert (key v) (fst ` set m)"
    by (simp only: set_map)
  moreover have "(case map_of ?m k of None \<Rightarrow> [] | Some xs \<Rightarrow> xs) =
      (case map_of m k of None \<Rightarrow> [] | Some xs \<Rightarrow> xs) @ (if key v = k then [v] else [])" for k
  proof (cases "key v \<in> fst ` set m")
    case True
    then have "map_of m (key v) \<noteq> None" by (simp add: map_of_eq_None_iff)
    then show ?thesis using True upd [of k] by (auto split: option.splits)
  next
    case False
    then have "map_of m (key v) = None" by (simp add: map_of_eq_None_iff)
    then show ?thesis using False by (auto simp: map_add_def split: option.splits)
  qed
  ultimately show ?case
    using "2.IH" by auto
qed

lemma KvModel_Partition_eq:
  "KvModel_Partition key history =
     map (\<lambda>k. filter (\<lambda>v. key v = k) history) (sorted_list_of_set (key ` set history))"
proof -
  let ?m = "KvModel_group key history []"
  note ok = KvModel_group_ok [of "[]" key history]
  have "sorted_list_of_set (set (map fst ?m)) = sort (remdups (map fst ?m))"
    by (rule sorted_list_of_set_sort_remdups)
  then have "sort (map fst ?m) = sorted_list_of_set (key ` set history)"
    using ok by (simp add: distinct_remdups_id)
  moreover have "the (map_of ?m k) = filter (\<lambda>v. key v = k) history" if "k \<in> key ` set history" for k
  proof -
    have "k \<in> fst ` set ?m" using ok that by simp
    then have "map_of ?m k \<noteq> None" by (simp add: map_of_eq_None_iff)
    then show ?thesis using ok by (force split: option.splits)
  qed
  ultimately show ?thesis
    by (simp add: KvModel_Partition_def Let_def)
qed

lemma KvModel_eq: "eq_model (fillDefault KvModel)"
    "m_Partition (fillDefault KvModel) = Some (KvModel_Partition kv_key)"
  by (simp_all add: eq_model_def KvModel_def fillDefault_def ShallowEqual_def)

text \<open>
  The entry point of the tests of the key/value services: the check of a history, for operations
  of any number of keys.
\<close>

lemma kv_history_check_ok:
  assumes "time_sort srt" and "timed history" and "no_ties history" and "history \<noteq> []"
    and "distinct order" and "set order = {..<card (kv_key ` set history)}"
  shows "CheckOperations srt KvModel history order =
    Some (Inr (\<forall>k\<in>kv_key ` set history. ops_linearizable KvModel (filter (\<lambda>x. kv_key x = k) history)))"
proof -
  let ?ks = "sorted_list_of_set (kv_key ` set history)"
  have len: "length (KvModel_Partition kv_key history) = card (kv_key ` set history)"
    by (simp add: KvModel_Partition_eq)
  have ne: "KvModel_Partition kv_key history \<noteq> []"
    using len assms(4) by (metis card_eq_0_iff finite_imageI image_is_empty length_0_conv list.set_finite set_empty)
  have parts: "\<forall>p\<in>set (KvModel_Partition kv_key history). timed p \<and> no_ties p"
    using assms(2,3) by (auto simp: KvModel_Partition_eq timed_def no_ties_def)
  have "checkOperations srt KvModel history False (map Some order) =
      Some (Inr (if \<forall>p\<in>set (KvModel_Partition kv_key history). ops_linearizable KvModel p then Ok else Illegal))"
    by (rule checkOperations_ok [OF assms(1) KvModel_eq ne parts assms(5)]) (simp add: len assms(6))
  then show ?thesis
    by (simp add: CheckOperations_def KvModel_Partition_eq)
qed

text \<open>
  Checking the key/value service: \<open>CheckOperations\<close> with \<open>KvModel\<close> returns on every history with
  at least one operation, in whatever order its partitions finish, and answers true exactly when
  for every key the operations on that key are linearizable.
\<close>

theorem kv_history_check:
  assumes "time_sort srt" and "timed history" and "no_ties history" and "history \<noteq> []"
    and "distinct order" and "set order = {..<card (kv_key ` set history)}"
  shows "CheckOperations srt KvModel history order =
    Some (Inr (\<forall>k\<in>kv_key ` set history. ops_linearizable KvModel (filter (\<lambda>x. kv_key x = k) history)))"
  by (rule kv_history_check_ok [OF assms])

definition example_kv_ops :: "(KvInput + string) Operation list" where
  "example_kv_ops =
     [\<lparr>op_ClientId = 0, op_Input = Inl \<lparr>ki_Op = 1, ki_Key = ''a'', ki_Value = ''x''\<rparr>, op_Call = 0,
       op_Output = Inr '''', op_Return = 10\<rparr>,
      \<lparr>op_ClientId = 1, op_Input = Inl \<lparr>ki_Op = 0, ki_Key = ''a'', ki_Value = ''''\<rparr>, op_Call = 2,
       op_Output = Inr ''x'', op_Return = 7\<rparr>,
      \<lparr>op_ClientId = 1, op_Input = Inl \<lparr>ki_Op = 2, ki_Key = ''b'', ki_Value = ''y''\<rparr>, op_Call = 8,
       op_Output = Inr '''', op_Return = 9\<rparr>]"

theorem kv_history_check_witness:
  "CheckOperations (sort_key e_time) KvModel example_kv_ops [1, 0] =
    Some (Inr (\<forall>k\<in>kv_key ` set example_kv_ops.
      ops_linearizable KvModel (filter (\<lambda>x. kv_key x = k) example_kv_ops)))"
proof (rule kv_history_check [OF insort_time_sort])
  show "timed example_kv_ops" "no_ties example_kv_ops" "example_kv_ops \<noteq> []" "distinct [1, 0::nat]"
    by (simp_all add: timed_def no_ties_def example_kv_ops_def)
  have "kv_key ` set example_kv_ops = {''a'', ''b''}" by (simp add: example_kv_ops_def kv_key_def)
  then have "card (kv_key ` set example_kv_ops) = 2" by simp
  moreover have "set [1, 0::nat] = {..<2}" by (auto simp: less_2_cases_iff)
  ultimately show "set [1, 0::nat] = {..<card (kv_key ` set example_kv_ops)}" by (simp only:)
qed

text \<open>
  An empty history has no partitions, so no result ever arrives and the check waits for ever.
\<close>

lemma kv_empty_history_blocks: "CheckOperations srt KvModel [] [] = None"
proof -
  have "KvModel_Partition kv_key [] = []" by (simp add: KvModel_Partition_eq)
  then show ?thesis
    by (simp add: CheckOperations_def checkOperations_def KvModel_eq(2) checkParallel_def)
qed

end
