(* ===== verification/Porcupine_Events.thy ===== *)
theory Porcupine_Events
  imports Porcupine_Check
begin

text \<open>
  Histories of events (\<open>renumber\<close>, \<open>convertEntries\<close> and \<open>checkEvents\<close> of \<open>porcupine/checker.go\<close>).

  The specification of a history of events is stated on the ids the caller chose and on the
  places of the events. \<open>renumber\<close> maps these ids to \<open>0, 1, \<dots>\<close>, on which the search works; its
  result is the same, because the mapping is injective.
\<close>

section \<open>Renumbering\<close>

definition ev_ids :: "'v Event list \<Rightarrow> int set" where
  "ev_ids events = ev_Id ` set events"

definition dense :: "(int \<Rightarrow> int) \<Rightarrow> int set \<Rightarrow> bool" where
  "dense f A \<longleftrightarrow> inj_on f A \<and> f ` A = ids (card A)"

lemma ids_Suc: "ids (Suc n) = insert (int n) (ids n)"
  by (simp add: ids_def lessThan_Suc)

lemma dense_insert:
  assumes "dense f A" and "finite A" and "x \<notin> A"
  shows "dense (f(x := int (card A))) (insert x A)"
proof -
  let ?g = "f(x := int (card A))"
  have same: "?g ` A = f ` A" "inj_on ?g A = inj_on f A"
    using assms(3) by (auto intro!: image_cong inj_on_cong)
  have "int (card A) \<notin> f ` A" using assms(1) by (auto simp: dense_def ids_def)
  then show ?thesis
    using assms same by (simp add: dense_def ids_Suc)
qed

lemma renumber_loop_ok:
  assumes "dense f A" and "finite A" and "m = (\<lambda>x. if x \<in> A then Some (f x) else None)" and "i = int (card A)"
  shows "\<exists>g. renumber_loop m i events = map (\<lambda>v. v\<lparr>ev_Id := g (ev_Id v)\<rparr>) events \<and>
    (\<forall>x\<in>A. g x = f x) \<and> dense g (A \<union> ev_ids events)"
  using assms
proof (induction events arbitrary: f A m i)
  case Nil
  then show ?case by (auto simp: ev_ids_def)
next
  case (Cons v events)
  show ?case
  proof (cases "ev_Id v \<in> A")
    case True
    then have "A \<union> ev_ids (v # events) = A \<union> ev_ids events" by (auto simp: ev_ids_def)
    moreover obtain g where g: "renumber_loop m i events = map (\<lambda>v. v\<lparr>ev_Id := g (ev_Id v)\<rparr>) events"
        "\<forall>x\<in>A. g x = f x" "dense g (A \<union> ev_ids events)"
      using Cons.IH [OF Cons.prems] by blast
    moreover have "renumber_loop m i (v # events) = map (\<lambda>v. v\<lparr>ev_Id := g (ev_Id v)\<rparr>) (v # events)"
      using g(1,2) True Cons.prems(3) by simp
    ultimately show ?thesis by (intro exI [of _ g]) (simp only: simp_thms)
  next
    case False
    let ?f = "f(ev_Id v := i)" and ?A = "insert (ev_Id v) A"
    have "dense ?f ?A" "finite ?A"
      using dense_insert [OF Cons.prems(1,2) False] Cons.prems(2,4) by simp_all
    moreover have "m(ev_Id v \<mapsto> i) = (\<lambda>x. if x \<in> ?A then Some (?f x) else None)"
      using Cons.prems(3) by auto
    moreover have "i + 1 = int (card ?A)" using Cons.prems(2,4) False by simp
    ultimately obtain g where g: "renumber_loop (m(ev_Id v \<mapsto> i)) (i + 1) events = map (\<lambda>v. v\<lparr>ev_Id := g (ev_Id v)\<rparr>) events"
        "\<forall>x\<in>?A. g x = ?f x" "dense g (?A \<union> ev_ids events)"
      using Cons.IH by blast
    have "m (ev_Id v) = None" using False Cons.prems(3) by simp
    then have "renumber_loop m i (v # events) = map (\<lambda>v. v\<lparr>ev_Id := g (ev_Id v)\<rparr>) (v # events)"
      using g(1,2) by simp
    moreover have "\<forall>x\<in>A. g x = f x" using g(2) False by auto
    moreover have "?A \<union> ev_ids events = A \<union> ev_ids (v # events)" by (auto simp: ev_ids_def)
    ultimately show ?thesis using g(3) by (intro exI [of _ g]) (simp only: simp_thms)
  qed
qed

lemma renumber_dense:
  "\<exists>f. renumber events = map (\<lambda>v. v\<lparr>ev_Id := f (ev_Id v)\<rparr>) events \<and> dense f (ev_ids events)"
proof -
  have "dense (\<lambda>x. x) {}" by (simp add: dense_def ids_def)
  from renumber_loop_ok [OF this, of Map.empty 0 events] show ?thesis
    by (auto simp: renumber_def)
qed

section \<open>The specification on events\<close>

definition ev_key :: "'v Event \<Rightarrow> EventKind \<times> int" where
  "ev_key v = (ev_Kind v, ev_Id v)"

definition ev_pos :: "'v Event list \<Rightarrow> EventKind \<Rightarrow> int \<Rightarrow> nat" where
  "ev_pos events k i = length (takeWhile (\<lambda>v. ev_key v \<noteq> (k, i)) events)"

text \<open>Every id has one call and, after it, one return.\<close>

definition ev_wf :: "'v Event list \<Rightarrow> bool" where
  "ev_wf events \<longleftrightarrow>
     distinct (map ev_key events) \<and> set (map ev_key events) = {CallEvent, ReturnEvent} \<times> ev_ids events \<and>
     (\<forall>i\<in>ev_ids events. ev_pos events CallEvent i < ev_pos events ReturnEvent i)"

fun legal_events :: "('s, 'v) Model \<Rightarrow> 'v Event list \<Rightarrow> 's \<Rightarrow> int list \<Rightarrow> bool" where
  "legal_events model events st [] = True"
| "legal_events model events st (i # is) =
     (case m_Step model st (ev_Value (events ! ev_pos events CallEvent i))
             (ev_Value (events ! ev_pos events ReturnEvent i)) of
        (ok, st') \<Rightarrow> ok \<and> legal_events model events st' is)"

definition ev_linearizable :: "('s, 'v) Model \<Rightarrow> 'v Event list \<Rightarrow> bool" where
  "ev_linearizable model events \<longleftrightarrow>
     (\<exists>order. distinct order \<and> set order = ev_ids events \<and>
        sorted_wrt (\<lambda>i j. \<not> ev_pos events ReturnEvent j < ev_pos events CallEvent i) order \<and>
        legal_events model events (m_Init model) order)"

section \<open>Entries of events\<close>

fun kind_of :: "EventKind \<Rightarrow> entryKind" where
  "kind_of CallEvent = callEntry"
| "kind_of ReturnEvent = returnEntry"

definition renamed :: "(int \<Rightarrow> int) \<Rightarrow> 'v Event list \<Rightarrow> 'v entry list" where
  "renamed f events = convertEntries (map (\<lambda>v. v\<lparr>ev_Id := f (ev_Id v)\<rparr>) events)"

lemma renamed_nth:
  "p < length events \<Longrightarrow>
   e_value (renamed f events ! p) = ev_Value (events ! p) \<and>
   ekey (renamed f events ! p) = (kind_of (ev_Kind (events ! p)), f (ev_Id (events ! p)))"
  by (cases "ev_Kind (events ! p)") (simp_all add: renamed_def convertEntries_def ekey_def)

lemma renamed_length [simp]: "length (renamed f events) = length events"
  by (simp add: renamed_def convertEntries_def)

lemma renamed_keys: "map ekey (renamed f events) = map (map_prod kind_of f) (map ev_key events)"
  by (rule nth_equalityI) (simp_all add: renamed_nth ev_key_def)

lemma kind_of_inj: "inj kind_of"
  by (rule injI) (metis entryKind.distinct(1) kind_of.elims)

lemma takeWhile_length_cong: "map P xs = map Q ys \<Longrightarrow> length (takeWhile P xs) = length (takeWhile Q ys)"
  by (induction xs arbitrary: ys) (auto simp: Cons_eq_map_conv)

lemma ev_pos_less: "v \<in> set events \<Longrightarrow> ev_key v = (k, i) \<Longrightarrow> ev_pos events k i < length events"
  by (induction events) (auto simp: ev_pos_def)

lemma ev_pos_in:
  assumes "ev_wf events" and "i \<in> ev_ids events"
  shows "ev_pos events k i < length events"
proof -
  have "(k, i) \<in> set (map ev_key events)"
    using assms by (cases k) (simp_all only: ev_wf_def, auto)
  then obtain v where "v \<in> set events" "ev_key v = (k, i)" by auto
  then show ?thesis by (rule ev_pos_less)
qed

lemma epos_renamed:
  assumes "dense f (ev_ids events)" and i: "i \<in> ev_ids events"
  shows "epos (renamed f events) (kind_of k) (f i) = ev_pos events k i"
  unfolding epos_def ev_pos_def
proof (rule takeWhile_length_cong, rule nth_equalityI)
  fix p assume "p < length (map (\<lambda>e. ekey e \<noteq> (kind_of k, f i)) (renamed f events))"
  then have p: "p < length events" by simp
  then have "ev_Id (events ! p) \<in> ev_ids events" by (simp add: ev_ids_def)
  then have "f (ev_Id (events ! p)) = f i \<longleftrightarrow> ev_Id (events ! p) = i"
    using assms by (auto simp: dense_def inj_on_def)
  then show "map (\<lambda>e. ekey e \<noteq> (kind_of k, f i)) (renamed f events) ! p = map (\<lambda>v. ev_key v \<noteq> (k, i)) events ! p"
    using p renamed_nth [OF p, of f] kind_of_inj by (simp add: ev_key_def inj_eq)
qed simp

lemmas epos_renamed_kinds =
  epos_renamed [where k = CallEvent, simplified] epos_renamed [where k = ReturnEvent, simplified]

lemma renamed_wf:
  assumes d: "dense f (ev_ids events)" and w: "ev_wf events"
  shows "wf_history (renamed f events) (card (ev_ids events))"
proof -
  let ?K = "{CallEvent, ReturnEvent} \<times> ev_ids events"
  have "inj_on kind_of {CallEvent, ReturnEvent}" using kind_of_inj by (rule inj_on_subset) simp
  then have "inj_on (map_prod kind_of f) ?K"
    using d by (intro map_prod_inj_on) (simp_all add: dense_def)
  moreover have "map_prod kind_of f ` ?K = {callEntry, returnEntry} \<times> ids (card (ev_ids events))"
    using d by (simp add: dense_def map_prod_surj_on [of kind_of _ "{callEntry, returnEntry}" f])
  ultimately have "distinct (map ekey (renamed f events))"
      "set (map ekey (renamed f events)) = {callEntry, returnEntry} \<times> ids (card (ev_ids events))"
    using w unfolding renamed_keys ev_wf_def distinct_map [of "map_prod kind_of f"] set_map [of "map_prod kind_of f"]
    by (simp_all only: simp_thms)
  moreover have "epos (renamed f events) callEntry j < epos (renamed f events) returnEntry j"
    if "j \<in> ids (card (ev_ids events))" for j
  proof -
    have "j \<in> f ` ev_ids events" using d that by (simp add: dense_def)
    then obtain i where "i \<in> ev_ids events" "j = f i" by blast
    then show ?thesis
      using w epos_renamed_kinds [OF d, of i] by (simp add: ev_wf_def)
  qed
  ultimately show ?thesis by (simp add: wf_history_def)
qed

lemma renamed_legal:
  assumes d: "dense f (ev_ids events)" and w: "ev_wf events"
  shows "set order \<subseteq> ev_ids events \<Longrightarrow>
    legal model (renamed f events) st (map f order) = legal_events model events st order"
proof (induction order arbitrary: st)
  case (Cons i order)
  then have i: "i \<in> ev_ids events" by simp
  have "op_in (renamed f events) (f i) = ev_Value (events ! ev_pos events CallEvent i)"
    "op_out (renamed f events) (f i) = ev_Value (events ! ev_pos events ReturnEvent i)"
    using epos_renamed_kinds [OF d i] renamed_nth [OF ev_pos_in [OF w i]]
    by (simp_all add: op_in_def op_out_def)
  then show ?case using Cons by (auto split: prod.splits)
qed simp

lemma renamed_order:
  assumes d: "dense f (ev_ids events)" and "set order \<subseteq> ev_ids events"
  shows "sorted_wrt (\<lambda>i j. \<not> precedes (renamed f events) j i) (map f order) \<longleftrightarrow>
    sorted_wrt (\<lambda>i j. \<not> ev_pos events ReturnEvent j < ev_pos events CallEvent i) order"
proof -
  have "precedes (renamed f events) (f j) (f i) \<longleftrightarrow> ev_pos events ReturnEvent j < ev_pos events CallEvent i"
    if "i \<in> set order" "j \<in> set order" for i j
    using epos_renamed_kinds [OF d] that assms(2) by (simp add: precedes_def subset_eq)
  then show ?thesis
    unfolding sorted_wrt_map by (intro sorted_wrt_iff_cong) simp
qed

lemma renamed_is_linearization:
  assumes d: "dense f (ev_ids events)" and w: "ev_wf events" and o: "set order \<subseteq> ev_ids events"
  shows "is_linearization model (renamed f events) (card (ev_ids events)) (map f order) \<longleftrightarrow>
      distinct order \<and> set order = ev_ids events \<and>
      sorted_wrt (\<lambda>i j. \<not> ev_pos events ReturnEvent j < ev_pos events CallEvent i) order \<and>
      legal_events model events (m_Init model) order"
proof -
  have inj: "inj_on f (ev_ids events)" and img: "ids (card (ev_ids events)) = f ` ev_ids events"
    using d by (simp_all add: dense_def)
  have "set (map f order) = ids (card (ev_ids events)) \<longleftrightarrow> set order = ev_ids events"
    using inj_on_image_eq_iff [OF inj o subset_refl] img by simp
  moreover have "distinct (map f order) \<longleftrightarrow> distinct order"
    using inj_on_subset [OF inj o] by (simp add: distinct_map)
  ultimately show ?thesis
    unfolding is_linearization_def renamed_legal [OF d w o] renamed_order [OF d o] by (simp only: simp_thms)
qed

lemma renamed_linearizable:
  assumes d: "dense f (ev_ids events)" and w: "ev_wf events"
  shows "linearizable model (renamed f events) (card (ev_ids events)) \<longleftrightarrow> ev_linearizable model events"
proof -
  have "\<exists>order. js = map f order \<and> set order \<subseteq> ev_ids events"
    if "set js = ids (card (ev_ids events))" for js
  proof -
    have "set js \<subseteq> f ` ev_ids events" using that d by (simp add: dense_def)
    then have "js \<in> lists (f ` ev_ids events)" by (auto simp: lists_eq_set)
    then show ?thesis unfolding lists_image by (auto simp: lists_eq_set)
  qed
  then show ?thesis
    unfolding linearizable_def ev_linearizable_def
    using renamed_is_linearization [OF d w] by (metis is_linearization_def order_refl)
qed

lemma events_single:
  assumes "eq_model model" and "ev_wf events"
  shows "single_result model computeInfo (convertEntries (renumber events)) =
    Some (Inr (ev_linearizable model events))"
proof -
  obtain f where f: "renumber events = map (\<lambda>v. v\<lparr>ev_Id := f (ev_Id v)\<rparr>) events" "dense f (ev_ids events)"
    using renumber_dense by blast
  then have "convertEntries (renumber events) = renamed f events" by (simp add: renamed_def)
  then show ?thesis
    using single_result_ok [OF renamed_wf [OF f(2) assms(2)] assms(1)]
      renamed_linearizable [OF f(2) assms(2)] by simp
qed

lemma legal_events_fillDefault:
  "legal_events (fillDefault model) events st order = legal_events model events st order"
  by (induction order arbitrary: st) (auto split: prod.splits)

lemma ev_linearizable_fillDefault [simp]:
  "ev_linearizable (fillDefault model) events = ev_linearizable model events"
  by (simp add: ev_linearizable_def legal_events_fillDefault)

text \<open>
  Checking events: whatever ids the calls and returns carry, \<open>checkEvents\<close> returns and answers
  \<open>Ok\<close> exactly when every partition is linearizable with respect to the places of the calls and
  returns in the history. In particular the renumbering of the ids does not change the answer.
\<close>

theorem checkEvents_correct:
  assumes "eq_model (fillDefault model)"
    and "m_PartitionEvent (fillDefault model) = Some part" and "part history \<noteq> []"
    and "\<forall>p\<in>set (part history). ev_wf p"
    and "distinct order" and "set order = {..<length (part history)}"
  shows "checkEvents model history verbose (map Some order) =
    Some (Inr (if \<forall>p\<in>set (part history). ev_linearizable model p then Ok else Illegal))"
proof -
  have "\<forall>p\<in>set (part history).
      single_result (fillDefault model) verbose (convertEntries (renumber p)) = Some (Inr (ev_linearizable model p))"
    using events_single [OF assms(1)] assms(4) by simp
  from checkParallel_ok [OF this assms(3,5,6)] show ?thesis
    using assms(2) by (simp add: checkEvents_def)
qed

definition example_events :: "(int + int) Event list" where
  "example_events =
     [\<lparr>ev_ClientId = 0, ev_Kind = CallEvent, ev_Value = Inl 5, ev_Id = 17\<rparr>,
      \<lparr>ev_ClientId = 1, ev_Kind = CallEvent, ev_Value = Inr 0, ev_Id = 4\<rparr>,
      \<lparr>ev_ClientId = 1, ev_Kind = ReturnEvent, ev_Value = Inr 5, ev_Id = 4\<rparr>,
      \<lparr>ev_ClientId = 0, ev_Kind = ReturnEvent, ev_Value = Inl 0, ev_Id = 17\<rparr>]"

theorem checkEvents_correct_witness:
  "checkEvents register_model example_events False (map Some [0]) =
    Some (Inr (if \<forall>p\<in>set (NoPartitionEvent example_events). ev_linearizable register_model p then Ok else Illegal))"
proof (rule checkEvents_correct [OF register_model_eq(1)])
  show "m_PartitionEvent (fillDefault register_model) = Some NoPartitionEvent"
    by (simp add: register_model_def fillDefault_def)
  have "ev_wf example_events"
    by (auto simp: ev_wf_def example_events_def ev_key_def ev_ids_def ev_pos_def)
  then show "\<forall>p\<in>set (NoPartitionEvent example_events). ev_wf p"
    by (simp add: NoPartitionEvent_def)
qed (auto simp: NoPartitionEvent_def)

end
