(* ===== verification/Kv_Linearizable.thy ===== *)
theory Kv_Linearizable
  imports Porcupine_Check
begin

text \<open>
  The key/value server of \<open>kvraft/server.go\<close> seen from its clients: the histories of requests
  and answers that the tests hand to the linearizability checker.

  \<open>kv_event\<close> are the atomic actions of a server: starting a request, registering and leaving the
  channel of a request, and one round of the apply loop. They come in any order; the events of
  \<open>Deliver\<close> are the committed log, which the Raft peer hands out. A call of a client is answered
  by one of its copies in the log; \<open>served\<close> says how a recorded history belongs to a run.
\<close>

section \<open>Runs of a server\<close>

datatype kv_event =
    Request Op
  | Register Op
  | Leave Op
  | Select Op arm
  | Deliver int Op

fun kv_event_step ::
  "(Op raft_gob list \<Rightarrow> int) \<Rightarrow> KVServer \<Rightarrow> kv_event \<Rightarrow> (KVServer \<times> (int \<times> NotifyMsg) option) go" where
  "kv_event_step bytes kv (Request x) = go_bind (waitForRaft_start x kv) (\<lambda>(kv, _). Inr (kv, None))"
| "kv_event_step bytes kv (Register x) = Inr (waitForRaft_register x kv, None)"
| "kv_event_step bytes kv (Leave x) = Inr (waitForRaft_leave x kv, None)"
| "kv_event_step bytes kv (Select x a) = Inr (fst (waitForRaft_select x a kv), None)"
| "kv_event_step bytes kv (Deliver i x) = WaitApplyCh bytes kv True (ICmd x) i"

fun kv_run ::
  "(Op raft_gob list \<Rightarrow> int) \<Rightarrow> KVServer \<Rightarrow> kv_event list \<Rightarrow> (KVServer \<times> (int \<times> NotifyMsg) option list) go" where
  "kv_run bytes kv [] = Inr (kv, [])"
| "kv_run bytes kv (e # es) =
     go_bind (kv_event_step bytes kv e) (\<lambda>(kv, out).
     go_bind (kv_run bytes kv es) (\<lambda>(kv, outs). Inr (kv, out # outs)))"

fun delivered :: "kv_event list \<Rightarrow> Op list" where
  "delivered [] = []"
| "delivered (Deliver i x # es) = x # delivered es"
| "delivered (_ # es) = delivered es"

lemma delivered_append [simp]: "delivered (es @ fs) = delivered es @ delivered fs"
  by (induction es rule: delivered.induct) simp_all

lemma delivered_set: "x \<in> set (delivered es) \<longleftrightarrow> (\<exists>p i. p < length es \<and> es ! p = Deliver i x)"
proof (induction es rule: delivered.induct)
  case (2 i y es)
  then show ?case by (auto simp: less_Suc_eq_0_disj)
qed (auto simp: less_Suc_eq_0_disj)

definition data_at :: "KVServer \<Rightarrow> kv_event list \<Rightarrow> nat \<Rightarrow> string \<rightharpoonup> string" where
  "data_at kv es n = kv_data (fold kv_applyOp (delivered (take n es)) kv)"

lemma saveSnapshot_keeps: "saveSnapshot bytes index kv = Inr kv' \<Longrightarrow>
   kv_data kv' = kv_data kv \<and> kv_lastApplied kv' = kv_lastApplied kv"
  by (auto simp: saveSnapshot_def go_bind_Inr_iff split: if_splits)

lemma notify_kv_keeps:
  "notify_kv x kv = Inr (kv', out) \<Longrightarrow> kv_data kv' = kv_data kv \<and> kv_lastApplied kv' = kv_lastApplied kv \<and>
   (\<forall>m. out = Some m \<longrightarrow> snd m = \<lparr>nm_Err = OK, nm_Value = str_at (kv_data kv') (Key x)\<rparr>)"
  by (auto simp: notify_kv_def split: option.splits chan.splits)

text \<open>Only the apply loop changes the data and the client table, as \<open>kv_applyOp\<close> does.\<close>

lemma kv_event_step_keeps:
  assumes "kv_event_step bytes kv e = Inr (kv', out)"
  shows "kv_data kv' = kv_data (fold kv_applyOp (delivered [e]) kv) \<and>
    kv_lastApplied kv' = kv_lastApplied (fold kv_applyOp (delivered [e]) kv) \<and>
    (\<forall>m. out = Some m \<longrightarrow> (\<exists>i x. e = Deliver i x \<and>
       snd m = \<lparr>nm_Err = OK, nm_Value = str_at (kv_data kv') (Key x)\<rparr>))"
proof (cases e)
  case (Deliver i x)
  then obtain kv1 where "saveSnapshot bytes i (kv_applyOp x kv) = Inr kv1" "notify_kv x kv1 = Inr (kv', out)"
    using assms by (auto simp: go_bind_Inr_iff)
  then show ?thesis
    using saveSnapshot_keeps [of bytes i "kv_applyOp x kv" kv1] notify_kv_keeps [of x kv1 kv' out] Deliver by auto
qed (use assms in \<open>auto simp: go_bind_Inr_iff waitForRaft_start_def waitForRaft_register_def waitForRaft_leave_def
      waitForRaft_select_def removeCh_def split: arm.splits\<close>)

lemma kv_run_answers:
  "kv_run bytes kv es = Inr (kv', outs) \<Longrightarrow> p < length es \<Longrightarrow> outs ! p = Some m \<Longrightarrow>
   \<exists>i x. es ! p = Deliver i x \<and> snd m = \<lparr>nm_Err = OK, nm_Value = str_at (data_at kv es (Suc p)) (Key x)\<rparr>"
proof (induction es arbitrary: kv p outs)
  case (Cons e es)
  obtain kv1 out1 outs1 where s: "kv_event_step bytes kv e = Inr (kv1, out1)"
      "kv_run bytes kv1 es = Inr (kv', outs1)" "outs = out1 # outs1"
    using Cons.prems(1) by (auto simp: go_bind_Inr_iff)
  note keeps = kv_event_step_keeps [OF s(1)]
  show ?case
  proof (cases p)
    case 0
    then have "out1 = Some m" using s(3) Cons.prems(3) by simp
    then show ?thesis using keeps 0 by (auto simp: data_at_def)
  next
    case (Suc q)
    have "data_at kv (e # es) (Suc p) = kv_data (fold kv_applyOp (delivered ([e] @ take p es)) kv)"
      by (simp add: data_at_def)
    also have "\<dots> = kv_data (fold kv_applyOp (delivered (take p es)) (fold kv_applyOp (delivered [e]) kv))"
      by (simp only: delivered_append fold_append comp_apply)
    also have "\<dots> = data_at kv1 es p"
      using kv_fold_frame [of kv1 "fold kv_applyOp (delivered [e]) kv"] keeps by (simp add: data_at_def)
    finally show ?thesis
      using Cons.IH [OF s(2), of q] Cons.prems(2,3) s(3) Suc by auto
  qed
qed simp

section \<open>The data along a run\<close>

definition same_call :: "Op \<Rightarrow> Op \<Rightarrow> bool" where
  "same_call x y \<longleftrightarrow> ClientId x = ClientId y \<and> MsgId x = MsgId y"

text \<open>The copies of a call differ in their request ids only.\<close>

definition same_command :: "Op \<Rightarrow> Op \<Rightarrow> bool" where
  "same_command x y \<longleftrightarrow> same_call x y \<and> Method x = Method y \<and> Key x = Key y \<and> Value x = Value y"

definition copy_before :: "kv_event list \<Rightarrow> nat \<Rightarrow> Op \<Rightarrow> bool" where
  "copy_before es n x \<longleftrightarrow> (\<exists>q<n. \<exists>i y. es ! q = Deliver i y \<and> is_update y \<and> same_call x y)"

lemma data_step:
  assumes "kv_lastApplied kv = Map.empty" and "sequential ClientId MsgId (filter is_update (delivered es))"
    and "n < length es" and "es ! n = Deliver j y"
  shows "data_at kv es (Suc n) =
    (if is_update y \<and> \<not> copy_before es n y then kv_effect y (data_at kv es n) else data_at kv es n)"
proof -
  let ?xs = "delivered (take n es)" and ?ys = "delivered (drop (Suc n) es)"
  let ?st = "fold kv_applyOp (delivered (take n es)) kv"
  have "es = take n es @ Deliver j y # drop (Suc n) es"
    using assms(3,4) id_take_nth_drop by metis
  then have split: "delivered es = ?xs @ y # ?ys"
    by (metis delivered.simps(2) delivered_append)
  have after: "data_at kv es (Suc n) = kv_data (kv_applyOp y ?st)" "data_at kv es n = kv_data ?st"
    using assms(3,4) by (simp_all add: data_at_def take_Suc_conv_app_nth)
  show ?thesis
  proof (cases "is_update y")
    case True
    have "kv_lastApplied ?st (ClientId y) = Some (MsgId y) \<longleftrightarrow>
        (\<exists>x\<in>set ?xs. is_update x \<and> ClientId x = ClientId y \<and> MsgId x = MsgId y)"
      by (rule kv_dedup.applied_iff_before) (use assms(1,2) split True in simp_all)
    also have "\<dots> \<longleftrightarrow> copy_before es n y"
      using assms(3) by (fastforce simp: Bex_def delivered_set copy_before_def same_call_def)
    finally show ?thesis
      using True after kv_dedup.apply_dup [OF True, of ?st] kv_dedup.apply_new [OF True, of ?st] by auto
  next
    case False
    then show ?thesis using after kv_dedup.apply_read [OF False, of ?st] by simp
  qed
qed

lemma data_step_other:
  assumes "n < length es" and "\<forall>j y. es ! n \<noteq> Deliver j y"
  shows "data_at kv es (Suc n) = data_at kv es n"
proof -
  have "delivered [es ! n] = []" using assms(2) by (cases "es ! n") simp_all
  then show ?thesis using assms(1) by (simp add: data_at_def take_Suc_conv_app_nth)
qed

section \<open>Recorded calls\<close>

type_synonym kv_call = "Op \<times> (KvInput + string) Operation"

text \<open>
  \<open>calls\<close> are the recorded calls with their operations, \<open>tm\<close> the times of the events. Every call
  has its own id, and its return is later than an answer to one of its copies; a Get returns
  the value of that answer. Every command in the log is a copy of a recorded call, applied after
  the call was made.
\<close>

definition answered :: "(nat \<Rightarrow> int) \<Rightarrow> kv_event list \<Rightarrow> (int \<times> NotifyMsg) option list \<Rightarrow> kv_call \<Rightarrow> nat \<Rightarrow> bool" where
  "answered tm es outs = (\<lambda>(x, h) p.
     p < length es \<and> tm p < op_Return h \<and>
     (case es ! p of Deliver _ y \<Rightarrow> same_call x y | _ \<Rightarrow> False) \<and>
     (case outs ! p of None \<Rightarrow> False
      | Some (_, m) \<Rightarrow> (case op_Output h of Inl _ \<Rightarrow> False | Inr v \<Rightarrow> Method x = ''Get'' \<longrightarrow> v = nm_Value m)))"

definition served ::
  "(nat \<Rightarrow> int) \<Rightarrow> kv_event list \<Rightarrow> (int \<times> NotifyMsg) option list \<Rightarrow> kv_call list \<Rightarrow> bool" where
  "served tm es outs calls \<longleftrightarrow>
     distinct (map (\<lambda>(x, _). (ClientId x, MsgId x)) calls) \<and>
     (\<forall>(x, h)\<in>set calls. Method x \<in> {''Get'', ''Put'', ''Append''} \<and> op_Input h = Inl (kv_input x) \<and>
        (\<exists>p<length es. answered tm es outs (x, h) p)) \<and>
     (\<forall>p<length es. \<forall>i y. es ! p = Deliver i y \<longrightarrow>
        (\<exists>(x, h)\<in>set calls. same_command x y \<and> op_Call h < tm p))"

lemma served_copy:
  assumes "served tm es outs calls" and "(x, h) \<in> set calls"
    and "p < length es" and "es ! p = Deliver i y" and "same_call x y"
  shows "same_command x y \<and> op_Call h < tm p"
proof -
  obtain x' h' where c: "(x', h') \<in> set calls" "same_command x' y" "op_Call h' < tm p"
    using assms(1,3,4) unfolding served_def by blast
  then have "(ClientId x', MsgId x') = (ClientId x, MsgId x)"
    using assms(5) by (auto simp: same_command_def same_call_def)
  moreover have "inj_on (\<lambda>(x, _). (ClientId x, MsgId x)) (set calls)"
    using assms(1) by (simp only: served_def distinct_map simp_thms)
  ultimately have "(x', h') = (x, h)"
    using assms(2) c(1) by (metis (mono_tags, lifting) case_prod_conv inj_onD)
  then show ?thesis using c by simp
qed

section \<open>Linearization points\<close>

text \<open>
  A Get takes effect with the copy that answered it, a write with its first copy in the log.
\<close>

definition lin_point :: "(nat \<Rightarrow> int) \<Rightarrow> kv_event list \<Rightarrow> KVServer \<Rightarrow> kv_call \<Rightarrow> nat \<Rightarrow> bool" where
  "lin_point tm es kv = (\<lambda>(x, h) p.
     p < length es \<and> (\<exists>i y. es ! p = Deliver i y \<and> same_command x y) \<and>
     op_Call h < tm p \<and> tm p < op_Return h \<and> (\<exists>v. op_Output h = Inr v) \<and>
     (if Method x = ''Get'' then op_Output h = Inr (str_at (data_at kv es (Suc p)) (Key x))
      else \<not> copy_before es p x))"

lemma lin_point_times:
  "lin_point tm es kv c p \<Longrightarrow> p < length es \<and> op_Call (snd c) < tm p \<and> tm p < op_Return (snd c)"
  by (cases c) (simp add: lin_point_def)

lemma lin_point_ex:
  assumes "served tm es outs calls" and "strict_mono tm" and run: "kv_run bytes kv es = Inr (kv', outs)"
    and c: "(x, h) \<in> set calls"
  shows "\<exists>p. lin_point tm es kv (x, h) p"
proof -
  obtain p where p: "p < length es" and a: "answered tm es outs (x, h) p"
    using assms(1) c unfolding served_def by blast
  obtain i y r m v where y: "es ! p = Deliver i y" "same_call x y" and m: "outs ! p = Some (r, m)"
      and out: "op_Output h = Inr v" "Method x = ''Get'' \<longrightarrow> v = nm_Value m" and ret: "tm p < op_Return h"
    using a by (cases "op_Output h") (auto simp: answered_def split: kv_event.splits option.splits)
  note copy = served_copy [OF assms(1) c p y]
  show ?thesis
  proof (cases "Method x = ''Get''")
    case True
    have "nm_Value m = str_at (data_at kv es (Suc p)) (Key x)"
      using kv_run_answers [OF run p m] y(1) copy by (auto simp: same_command_def)
    then have "lin_point tm es kv (x, h) p"
      using True p y(1) copy out ret by (simp add: lin_point_def)
    then show ?thesis by blast
  next
    case False
    let ?P = "\<lambda>q. q < length es \<and> (\<exists>i y. es ! q = Deliver i y \<and> same_call x y)"
    define q where "q = (LEAST q. ?P q)"
    have "?P p" using p y by blast
    then have q: "?P q" "q \<le> p" "\<And>q'. q' < q \<Longrightarrow> \<not> ?P q'"
      unfolding q_def by (rule LeastI, rule Least_le) (erule not_less_Least)
    then obtain j z where z: "es ! q = Deliver j z" "same_call x z" by blast
    have "tm q < op_Return h"
      using ret q(2) assms(2) by (metis le_less_trans strict_mono_less_eq)
    moreover have "\<not> copy_before es q x"
      using q(1,3) by (auto simp: copy_before_def)
    ultimately have "lin_point tm es kv (x, h) q"
      using served_copy [OF assms(1) c _ z] False q(1) z(1) out(1) by (auto simp: lin_point_def)
    then show ?thesis by blast
  qed
qed

text \<open>Writes of other calls have their point elsewhere, so a command without a point here has no effect.\<close>

lemma write_at_point:
  assumes "served tm es outs calls" and "n < length es" and "es ! n = Deliver j y"
    and "is_update y" and "\<not> copy_before es n y" and points: "\<And>c. c \<in> set calls \<Longrightarrow> lin_point tm es kv c (lp c)"
  shows "\<exists>(x, h)\<in>set calls. same_command x y \<and> lp (x, h) = n"
proof -
  obtain x h where c: "(x, h) \<in> set calls" "same_command x y"
    using assms(1-3) unfolding served_def by blast
  have w: "Method x \<noteq> ''Get''" using c(2) assms(4) by (auto simp: same_command_def is_update_def)
  obtain i z where z: "lp (x, h) < length es" "es ! lp (x, h) = Deliver i z" "same_command x z"
      "\<not> copy_before es (lp (x, h)) x"
    using points [OF c(1)] w by (auto simp: lin_point_def)
  have same: "same_call x y" "same_call y z" "is_update z"
    using c(2) z(3) assms(4) by (auto simp: same_command_def same_call_def is_update_def)
  have "\<not> n < lp (x, h)" using z(4) same(1) assms(3,4) unfolding copy_before_def by blast
  moreover have "\<not> lp (x, h) < n" using assms(5) z(2) same(2,3) unfolding copy_before_def by blast
  ultimately have "lp (x, h) = n" by simp
  then show ?thesis using c by blast
qed

lemma lin_point_unique:
  assumes "served tm es outs calls" and "c \<in> set calls" and "d \<in> set calls"
    and "lin_point tm es kv c p" and "lin_point tm es kv d p"
  shows "c = d"
proof -
  have "(\<lambda>(x, _). (ClientId x, MsgId x)) c = (\<lambda>(x, _). (ClientId x, MsgId x)) d"
    using assms(4,5) by (auto simp: lin_point_def same_command_def same_call_def split: prod.splits)
  moreover have "inj_on (\<lambda>(x, _). (ClientId x, MsgId x)) (set calls)"
    using assms(1) by (simp only: served_def distinct_map simp_thms)
  ultimately show ?thesis using assms(2,3) by (auto dest: inj_onD)
qed

section \<open>The order of a key\<close>

definition point_order :: "(nat \<Rightarrow> nat) \<Rightarrow> nat \<Rightarrow> nat \<Rightarrow> nat list" where
  "point_order pt m n = List.map_filter (\<lambda>p. find (\<lambda>i. pt i = p) [0..<m]) [0..<n]"

lemma map_filter_snoc: "List.map_filter f (xs @ [x]) = List.map_filter f xs @ (case f x of None \<Rightarrow> [] | Some y \<Rightarrow> [y])"
  by (induction xs) (auto simp: map_filter_simps split: option.splits)

lemma find_point: "find (\<lambda>i. pt i = p) [0..<m] = Some i \<Longrightarrow> i < m \<and> pt i = p"
  by (auto simp: find_Some_iff)

lemma point_order_Suc:
  "point_order pt m (Suc n) =
     point_order pt m n @ (case find (\<lambda>i. pt i = n) [0..<m] of None \<Rightarrow> [] | Some i \<Rightarrow> [i])"
  by (simp add: point_order_def map_filter_snoc)

lemma point_order_sorted:
  "sorted_wrt (\<lambda>i j. pt i < pt j) (point_order pt m n) \<and> (\<forall>i\<in>set (point_order pt m n). i < m \<and> pt i < n)"
proof (induction n)
  case 0
  then show ?case by (simp add: point_order_def map_filter_simps)
next
  case (Suc n)
  then show ?case
    by (auto simp: point_order_Suc sorted_wrt_append less_SucI dest!: find_point split: option.splits)
qed

lemma point_order_all:
  assumes "inj_on pt {..<m}"
  shows "set (point_order pt m n) = {i. i < m \<and> pt i < n}"
proof (induction n)
  case 0
  then show ?case by (simp add: point_order_def map_filter_simps)
next
  case (Suc n)
  show ?case
  proof (cases "find (\<lambda>i. pt i = n) [0..<m]")
    case None
    then have "\<forall>i<m. pt i \<noteq> n" by (auto simp: find_None_iff)
    then show ?thesis using Suc None by (auto simp: point_order_Suc less_Suc_eq)
  next
    case (Some i)
    then have i: "i < m" "pt i = n" by (auto dest: find_point)
    have "{j. j < m \<and> pt j < Suc n} = insert i {j. j < m \<and> pt j < n}"
    proof (rule set_eqI)
      fix j
      have "j = i" if "j < m" "pt j = n"
        using inj_onD [OF assms, of j i] that i by simp
      then show "j \<in> {j. j < m \<and> pt j < Suc n} \<longleftrightarrow> j \<in> insert i {j. j < m \<and> pt j < n}"
        using i less_Suc_eq by auto
    qed
    then show ?thesis using Suc Some by (simp add: point_order_Suc)
  qed
qed

lemma point_order_distinct: "distinct (point_order pt m n)"
proof -
  have "sorted_wrt (<) (map pt (point_order pt m n))"
    using point_order_sorted [of pt m n] by (simp add: sorted_wrt_map)
  then show ?thesis by (simp add: strict_sorted_iff distinct_map)
qed

definition exec_ops :: "('s, 'v) Model \<Rightarrow> 'v Operation list \<Rightarrow> 's \<Rightarrow> nat list \<Rightarrow> 's" where
  "exec_ops model ops = foldl (\<lambda>st i. snd (m_Step model st (op_Input (ops ! i)) (op_Output (ops ! i))))"

lemma legal_ops_snoc:
  "legal_ops model ops st (is @ [i]) \<longleftrightarrow> legal_ops model ops st is \<and>
     fst (m_Step model (exec_ops model ops st is) (op_Input (ops ! i)) (op_Output (ops ! i)))"
  by (induction "is" arbitrary: st) (auto simp: exec_ops_def split: prod.splits)

lemma exec_ops_snoc:
  "exec_ops model ops st (is @ [i]) =
     snd (m_Step model (exec_ops model ops st is) (op_Input (ops ! i)) (op_Output (ops ! i)))"
  by (simp add: exec_ops_def)

lemma kv_step_point:
  assumes pt: "lin_point tm es kv (x, h) n" and inp: "op_Input h = Inl (kv_input x)"
    and m: "Method x \<in> {''Get'', ''Put'', ''Append''}"
    and la: "kv_lastApplied kv = Map.empty" and sq: "sequential ClientId MsgId (filter is_update (delivered es))"
  shows "kv_step (str_at (data_at kv es n) (Key x)) (op_Input h) (op_Output h) =
    (True, str_at (data_at kv es (Suc n)) (Key x))"
proof -
  obtain j y v where y: "n < length es" "es ! n = Deliver j y" "same_command x y" "op_Output h = Inr v"
    using pt by (auto simp: lin_point_def)
  note step = data_step [OF la sq y(1,2)]
  show ?thesis
  proof (cases "Method x = ''Get''")
    case True
    then have "\<not> is_update y" using y(3) by (auto simp: same_command_def is_update_def)
    then have "data_at kv es (Suc n) = data_at kv es n" using step by simp
    moreover have "op_Output h = Inr (str_at (data_at kv es (Suc n)) (Key x))"
      using pt True by (simp add: lin_point_def)
    ultimately show ?thesis using True inp by (simp add: KvModel_Step_def kv_input_def)
  next
    case False
    have "\<not> copy_before es n x" using pt False by (simp add: lin_point_def)
    then have "\<not> copy_before es n y"
      using y(3) by (simp add: copy_before_def same_command_def same_call_def)
    moreover have "is_update y" using y(3) m False by (auto simp: same_command_def is_update_def)
    ultimately have "data_at kv es (Suc n) = kv_effect y (data_at kv es n)" using step by simp
    then show ?thesis
      using y(3,4) m False inp by (auto simp: KvModel_Step_def kv_input_def kv_effect_def same_command_def)
  qed
qed

text \<open>The data of a key only changes at the points of the calls on it.\<close>

lemma kv_step_no_point:
  assumes srv: "served tm es outs calls" and n: "n < length es"
    and la: "kv_lastApplied kv = Map.empty" and sq: "sequential ClientId MsgId (filter is_update (delivered es))"
    and points: "\<And>c. c \<in> set calls \<Longrightarrow> lin_point tm es kv c (lp c)"
    and none: "\<And>x h. (x, h) \<in> set calls \<Longrightarrow> Key x = k \<Longrightarrow> lp (x, h) \<noteq> n"
  shows "str_at (data_at kv es (Suc n)) k = str_at (data_at kv es n) k"
proof (cases "\<exists>j y. es ! n = Deliver j y")
  case True
  then obtain j y where y: "es ! n = Deliver j y" by blast
  note step = data_step [OF la sq n y]
  show ?thesis
  proof (cases "is_update y \<and> \<not> copy_before es n y")
    case True
    then obtain x h where "(x, h) \<in> set calls" "same_command x y" "lp (x, h) = n"
      using write_at_point [OF srv n y _ _ points] by blast
    then have "Key y \<noteq> k" using none by (auto simp: same_command_def)
    then show ?thesis using step True by (simp add: kv_effect_def)
  next
    case False
    then show ?thesis using step by (simp only: if_False)
  qed
next
  case False
  then show ?thesis using data_step_other [OF n] by simp
qed

lemma key_legal:
  assumes srv: "served tm es outs calls"
    and la: "kv_lastApplied kv = Map.empty" and sq: "sequential ClientId MsgId (filter is_update (delivered es))"
    and dat: "kv_data kv = Map.empty"
    and points: "\<And>c. c \<in> set calls \<Longrightarrow> lin_point tm es kv c (lp c)"
    and cs: "cs = filter (\<lambda>(x, _). Key x = k) calls"
  shows "n \<le> length es \<Longrightarrow>
    legal_ops KvModel (map snd cs) (m_Init KvModel) (point_order (\<lambda>i. lp (cs ! i)) (length cs) n) \<and>
    exec_ops KvModel (map snd cs) (m_Init KvModel) (point_order (\<lambda>i. lp (cs ! i)) (length cs) n) =
      str_at (data_at kv es n) k"
proof (induction n)
  case 0
  then show ?case
    using dat by (simp add: point_order_def map_filter_simps exec_ops_def data_at_def str_at_def KvModel_def
        KvModel_Init_def)
next
  case (Suc n)
  let ?o = "point_order (\<lambda>i. lp (cs ! i)) (length cs) n"
  show ?case
  proof (cases "find (\<lambda>i. lp (cs ! i) = n) [0..<length cs]")
    case None
    then have no: "\<forall>c\<in>set cs. lp c \<noteq> n"
      by (simp add: find_None_iff all_set_conv_all_nth)
    have "str_at (data_at kv es (Suc n)) k = str_at (data_at kv es n) k"
      by (rule kv_step_no_point [OF srv _ la sq points]) (use Suc.prems no cs in auto)
    then show ?thesis using Suc None by (simp add: point_order_Suc)
  next
    case (Some i)
    then have i: "i < length cs" "lp (cs ! i) = n" by (auto dest: find_point)
    obtain x h where xh: "cs ! i = (x, h)" by (cases "cs ! i")
    then have c: "(x, h) \<in> set calls" "Key x = k" using i(1) cs nth_mem [OF i(1)] by auto
    have "m_Step KvModel (str_at (data_at kv es n) k) (op_Input h) (op_Output h) =
        (True, str_at (data_at kv es (Suc n)) k)"
      using kv_step_point [OF _ _ _ la sq, of tm x h n] points [OF c(1)] srv c i(2) xh
      unfolding served_def by (auto simp: KvModel_def)
    then show ?thesis
      using Suc Some i(1) xh by (simp add: point_order_Suc legal_ops_snoc exec_ops_snoc)
  qed
qed

lemma key_linearizable:
  assumes srv: "served tm es outs calls" and mono: "strict_mono tm"
    and la: "kv_lastApplied kv = Map.empty" and sq: "sequential ClientId MsgId (filter is_update (delivered es))"
    and dat: "kv_data kv = Map.empty" and run: "kv_run bytes kv es = Inr (kv', outs)"
  shows "ops_linearizable KvModel (map snd (filter (\<lambda>(x, _). Key x = k) calls))"
proof -
  let ?cs = "filter (\<lambda>(x, _). Key x = k) calls"
  have "\<forall>c\<in>set calls. \<exists>p. lin_point tm es kv c p"
    using lin_point_ex [OF srv mono run] by fast
  then obtain lp where points: "\<And>c. c \<in> set calls \<Longrightarrow> lin_point tm es kv c (lp c)"
    by (auto dest!: bchoice)
  let ?pt = "\<lambda>i. lp (?cs ! i)" and ?n = "length es" and ?m = "length ?cs"
  let ?o = "point_order ?pt ?m ?n"
  have mem: "?cs ! i \<in> set calls" if "i < ?m" for i using nth_mem [OF that] by simp
  have "distinct calls"
    using srv by (simp only: served_def distinct_map simp_thms)
  then have dist: "distinct ?cs" by simp
  have "inj_on ?pt {..<?m}"
  proof (rule inj_onI)
    fix i j assume ij: "i \<in> {..<?m}" "j \<in> {..<?m}" "?pt i = ?pt j"
    then have "?cs ! i = ?cs ! j"
      using lin_point_unique [OF srv mem mem points [OF mem]] points [OF mem] by (metis lessThan_iff)
    then show "i = j" using ij dist nth_eq_iff_index_eq by blast
  qed
  moreover have "?pt i < ?n" if "i < ?m" for i
    using lin_point_times [OF points [OF mem [OF that]]] by simp
  ultimately have all: "set ?o = {..<?m}" using point_order_all [of ?pt ?m ?n] by auto
  have "\<not> op_Return (map snd ?cs ! j) < op_Call (map snd ?cs ! i)" if "?pt i < ?pt j" "i < ?m" "j < ?m" for i j
  proof -
    have "op_Call (snd (?cs ! i)) < tm (?pt i)" "tm (?pt j) < op_Return (snd (?cs ! j))"
      using lin_point_times [OF points [OF mem]] that(2,3) by simp_all
    moreover have "tm (?pt i) < tm (?pt j)" using mono that(1) by (rule strict_monoD)
    ultimately show ?thesis using that by simp
  qed
  then have "sorted_wrt (\<lambda>i j. \<not> op_Return (map snd ?cs ! j) < op_Call (map snd ?cs ! i)) ?o"
    using point_order_sorted [of ?pt ?m ?n] by (elim conjE sorted_wrt_mono_rel [rotated]) blast
  then show ?thesis
    unfolding ops_linearizable_def
    using point_order_distinct [of ?pt ?m ?n] all key_legal [OF srv la sq dat points refl order_refl, of k] by auto
qed

lemma kv_service_checked:
  assumes srv: "served tm es outs calls" and mono: "strict_mono tm"
    and la: "kv_lastApplied kv = Map.empty" and sq: "sequential ClientId MsgId (filter is_update (delivered es))"
    and dat: "kv_data kv = Map.empty" and run: "kv_run bytes kv es = Inr (kv', outs)"
    and ts: "time_sort srt" and nt: "no_ties (map snd calls)" and ne: "calls \<noteq> []"
    and d: "distinct order" and o: "set order = {..<card (kv_key ` set (map snd calls))}"
  shows "CheckOperations srt KvModel (map snd calls) order = Some (Inr True)"
proof -
  have "\<exists>p. lin_point tm es kv (x, h) p" if "(x, h) \<in> set calls" for x h
    by (rule lin_point_ex [OF srv mono run that])
  then have "timed (map snd calls)" by (fastforce simp: timed_def lin_point_def)
  then have check: "CheckOperations srt KvModel (map snd calls) order =
      Some (Inr (\<forall>k\<in>kv_key ` set (map snd calls).
        ops_linearizable KvModel (filter (\<lambda>x. kv_key x = k) (map snd calls))))"
    by (rule kv_history_check_ok [OF ts _ nt _ d o]) (simp add: ne)
  have "kv_key h = Key x" if "(x, h) \<in> set calls" for x h
    using srv that unfolding served_def by (auto simp: kv_key_def kv_input_def)
  then have "filter (\<lambda>x. kv_key x = k) (map snd calls) = map snd (filter (\<lambda>(x, _). Key x = k) calls)" for k
    by (auto simp: filter_map comp_def intro!: arg_cong [of _ _ "map snd"] filter_cong)
  then show ?thesis
    using check key_linearizable [OF srv mono la sq dat run] by simp
qed

end
