(* ===== verification/Raft_LogMatching.thy ===== *)
theory Raft_LogMatching
  imports Raft_Cluster "HOL-Library.Sublist"
begin

text \<open>
  Log matching, for the executions of \<open>Raft_Cluster\<close> in which no snapshot is taken.

  The proof follows the logs of the leaders. A history \<open>H\<close> gives for every term that has had a
  leader this leader and its log, as far as it has got in that term. A log is \<open>good_log\<close> when
  every prefix of it that ends in an entry of term \<open>T\<close> is a prefix of the log of the leader of \<open>T\<close>.
  All logs are good: those of the peers, those they have saved, and those an AppendEntries
  message was cut from.
\<close>

section \<open>Executions without snapshots\<close>

fun takes_snapshot :: "('c, 'd) event \<Rightarrow> bool" where
  "takes_snapshot (TakeSnapshot _ _ _) = True"
| "takes_snapshot _ = False"

definition cexec_plain :: "nat \<Rightarrow> ('c, 'd) cluster \<Rightarrow> ('c, 'd) event \<Rightarrow> ('c, 'd) cluster option" where
  "cexec_plain n c e = (if takes_snapshot e then None else cexec n c e)"

abbreviation creach_plain :: "nat \<Rightarrow> ('c, 'd) cluster \<Rightarrow> bool" where
  "creach_plain n \<equiv> reachable (\<lambda>c. c = cluster_init n) (cexec_plain n)"

section \<open>Good logs\<close>

type_synonym 'c leader_logs = "int \<rightharpoonup> nat \<times> 'c Log list"

definition genesis :: "'c Log" where
  "genesis = \<lparr>lg_Command = IStr '''', lg_Term = 0\<rparr>"

definition good_log :: "'c leader_logs \<Rightarrow> 'c Log list \<Rightarrow> bool" where
  "good_log H L \<longleftrightarrow> L \<noteq> [] \<and> L ! 0 = genesis \<and>
     (\<forall>p. 0 < p \<and> p < length L \<longrightarrow>
        1 \<le> lg_Term (L ! p) \<and> (\<exists>i M. H (lg_Term (L ! p)) = Some (i, M) \<and> prefix (take (Suc p) L) M))"

definition extends :: "'c leader_logs \<Rightarrow> 'c leader_logs \<Rightarrow> bool" where
  "extends H H' \<longleftrightarrow> (\<forall>T i M. H T = Some (i, M) \<longrightarrow> (\<exists>M'. H' T = Some (i, M') \<and> prefix M M'))"

lemma extends_refl [simp]: "extends H H"
  by (simp add: extends_def)

lemma good_log_genesis: "good_log H [genesis]"
  by (simp add: good_log_def)

lemma good_log_mono: "good_log H L \<Longrightarrow> extends H H' \<Longrightarrow> good_log H' L"
  unfolding good_log_def extends_def by (meson prefix_order.trans)

lemma prefix_take_eq: "prefix (take (Suc p) L) M \<Longrightarrow> p < length L \<Longrightarrow> take (Suc p) L = take (Suc p) M"
  by (auto simp: prefix_def)

text \<open>Two good logs with entries of the same term at one place agree up to that place.\<close>

lemma good_log_agree:
  assumes "good_log H L" and "good_log H M" and "p < length L" and "p < length M"
    and "lg_Term (L ! p) = lg_Term (M ! p)"
  shows "take (Suc p) L = take (Suc p) M"
proof (cases "p = 0")
  case True
  then show ?thesis
    using assms(1,2) by (cases L; cases M) (auto simp: good_log_def)
next
  case False
  then obtain i N j K where N: "H (lg_Term (L ! p)) = Some (i, N)" "prefix (take (Suc p) L) N"
      and K: "H (lg_Term (M ! p)) = Some (j, K)" "prefix (take (Suc p) M) K"
    using assms(1-4) unfolding good_log_def by blast
  then have "N = K" using assms(5) by simp
  then show ?thesis
    using prefix_take_eq [OF N(2) assms(3)] prefix_take_eq [OF K(2) assms(4)] by simp
qed

lemma good_log_snoc:
  assumes "good_log H L" and "1 \<le> T"
    and "\<And>T' j M. T' \<noteq> T \<Longrightarrow> H T' = Some (j, M) \<Longrightarrow> H' T' = Some (j, M)"
    and "H T = Some (i, L)" and "H' T = Some (i, L @ [e])" and "lg_Term e = T"
  shows "good_log H' (L @ [e])"
proof -
  have "extends H H'"
    unfolding extends_def using assms(3-5) by (metis option.inject prefixI prefix_order.refl prod.inject)
  then have g: "good_log H' L" by (rule good_log_mono [OF assms(1)])
  then show ?thesis
    unfolding good_log_def
  proof (intro conjI allI impI)
    fix p assume p: "0 < p \<and> p < length (L @ [e])"
    show "1 \<le> lg_Term ((L @ [e]) ! p)"
      using g p assms(2,6) by (cases "p < length L") (auto simp: good_log_def nth_append)
    show "\<exists>i M. H' (lg_Term ((L @ [e]) ! p)) = Some (i, M) \<and> prefix (take (Suc p) (L @ [e])) M"
      using g p assms(5,6) by (cases "p < length L") (auto simp: good_log_def nth_append take_is_prefix)
  qed (auto simp: good_log_def nth_append)
qed

section \<open>The invariant\<close>

definition saved_good :: "'c leader_logs \<Rightarrow> 'c raft_gob list \<Rightarrow> bool" where
  "saved_good H s \<longleftrightarrow> s = [] \<or>
     (\<exists>ct vf ci st lg. s = [RInt ct, RInt vf, RInt ci, RInt st, RInt 0, RLog lg] \<and> 0 \<le> ct \<and> good_log H lg)"

definition peer_good :: "'c leader_logs \<Rightarrow> ('c, 'd) Raft \<Rightarrow> bool" where
  "peer_good H rf \<longleftrightarrow> good_log H (rlog rf) \<and> lastSnapshotIndex rf = 0 \<and> 0 \<le> currentTerm rf \<and>
     saved_good H (raftstate (persister rf))"

definition ae_good :: "'c leader_logs \<Rightarrow> 'c AppendEntriesArgs \<Rightarrow> bool" where
  "ae_good H args \<longleftrightarrow> (\<exists>L p. good_log H L \<and> p < length L \<and> PrevLogIndex args = int p \<and>
     PrevLogTerm args = lg_Term (L ! p) \<and> Entries args = drop (Suc p) L)"

definition hist_inv :: "nat \<Rightarrow> ('c, 'd) cluster \<Rightarrow> 'c leader_logs \<Rightarrow> bool" where
  "hist_inv n c H \<longleftrightarrow>
     (\<forall>i<n. peer_good H (node c i)) \<and>
     (\<forall>i<n. rf_state (node c i) = LEADER \<longrightarrow> 1 \<le> currentTerm (node c i) \<and>
        H (currentTerm (node c i)) = Some (i, rlog (node c i))) \<and>
     (\<forall>T i M. H T = Some (i, M) \<longrightarrow> i < n \<and> (i, T, int i) \<in> votes c \<and>
        (\<exists>Q. majority n Q \<and> (\<forall>p\<in>Q. (p, T, int i) \<in> votes c))) \<and>
     (\<forall>i el. elects c i = Some el \<longrightarrow> 1 \<le> rva_Term (el_args el) \<and>
        (\<forall>M. H (rva_Term (el_args el)) \<noteq> Some (i, M))) \<and>
     (\<forall>a b args. AEReq a b args \<in> net c \<longrightarrow> ae_good H args) \<and>
     (\<forall>a b args. ISReq a b args \<in> net c \<longrightarrow> LastIncludeIndex args = 0)"

definition log_inv :: "nat \<Rightarrow> ('c, 'd) cluster \<Rightarrow> bool" where
  "log_inv n c \<longleftrightarrow> election_inv n c \<and> (\<exists>H. hist_inv n c H)"

text \<open>The history after a step of peer \<open>i\<close>.\<close>

definition note_leader :: "nat \<Rightarrow> ('c, 'd) cluster \<Rightarrow> 'c leader_logs \<Rightarrow> 'c leader_logs" where
  "note_leader i c H =
     (if rf_state (node c i) = LEADER then H(currentTerm (node c i) \<mapsto> (i, rlog (node c i))) else H)"

lemma peer_good_mono: "peer_good H rf \<Longrightarrow> extends H H' \<Longrightarrow> peer_good H' rf"
  unfolding peer_good_def saved_good_def using good_log_mono by blast

lemma ae_good_mono: "ae_good H args \<Longrightarrow> extends H H' \<Longrightarrow> ae_good H' args"
  unfolding ae_good_def using good_log_mono by blast

lemma hist_inv_init: "hist_inv n (cluster_init n) Map.empty"
  by (auto simp: hist_inv_def cluster_init_def Make_def MakePersister_def ReadRaftState_def
      peer_good_def good_log_def saved_good_def genesis_def)

lemma log_inv_init: "c = cluster_init n \<Longrightarrow> log_inv n c"
  using hist_inv_init election_inv_init by (auto simp: log_inv_def)

text \<open>
  A step of peer \<open>i\<close>. The history may grow by what \<open>i\<close> does as a leader; the entries of the other
  leaders stay.
\<close>

lemma hist_inv_step:
  assumes inv: "hist_inv n c H" and ext: "extends H H'"
    and others: "\<And>T k M. H T = Some (k, M) \<Longrightarrow> k \<noteq> i \<Longrightarrow> H' T = Some (k, M)"
    and new: "\<And>T k M. H' T = Some (k, M) \<Longrightarrow> (\<exists>M. H T = Some (k, M)) \<or>
        k = i \<and> i < n \<and> (i, T, int i) \<in> votes c \<and> (\<exists>Q. majority n Q \<and> (\<forall>p\<in>Q. (p, T, int i) \<in> votes c)) \<and>
        elects c' i = None"
    and nd: "node c' = (node c)(i := rf)" and vt: "votes c \<subseteq> votes c'"
    and rf: "peer_good H' rf"
    and ld: "rf_state rf = LEADER \<Longrightarrow> 1 \<le> currentTerm rf \<and> H' (currentTerm rf) = Some (i, rlog rf)"
    and el: "\<And>k e'. elects c' k = Some e' \<Longrightarrow>
        (\<exists>e. elects c k = Some e \<and> el_args e' = el_args e) \<or>
        k = i \<and> 1 \<le> rva_Term (el_args e') \<and> (\<forall>M. H (rva_Term (el_args e')) \<noteq> Some (i, M))"
    and ae: "\<And>a b args. AEReq a b args \<in> net c' \<Longrightarrow> AEReq a b args \<in> net c \<or> ae_good H' args"
    and inst: "\<And>a b args. ISReq a b args \<in> net c' \<Longrightarrow> ISReq a b args \<in> net c \<or> LastIncludeIndex args = 0"
  shows "hist_inv n c' H'"
  unfolding hist_inv_def
proof (intro conjI allI impI)
  fix k assume "k < n"
  then show "peer_good H' (node c' k)"
    using inv rf nd peer_good_mono [OF _ ext] by (auto simp: hist_inv_def)
next
  fix k assume k: "k < n" "rf_state (node c' k) = LEADER"
  have "1 \<le> currentTerm (node c' k) \<and> H' (currentTerm (node c' k)) = Some (k, rlog (node c' k))"
  proof (cases "k = i")
    case True
    then show ?thesis using ld k nd by simp
  next
    case False
    then show ?thesis using k nd inv others unfolding hist_inv_def by simp
  qed
  then show "1 \<le> currentTerm (node c' k)" "H' (currentTerm (node c' k)) = Some (k, rlog (node c' k))"
    by blast+
next
  fix T k M assume "H' T = Some (k, M)"
  from new [OF this] have "k < n \<and> (k, T, int k) \<in> votes c \<and> (\<exists>Q. majority n Q \<and> (\<forall>p\<in>Q. (p, T, int k) \<in> votes c))"
    using inv unfolding hist_inv_def by blast
  then show "k < n" "(k, T, int k) \<in> votes c'" "\<exists>Q. majority n Q \<and> (\<forall>p\<in>Q. (p, T, int k) \<in> votes c')"
    using vt by blast+
next
  fix k e' assume e': "elects c' k = Some e'"
  have old: "1 \<le> rva_Term (el_args e') \<and> (\<forall>M. H (rva_Term (el_args e')) \<noteq> Some (k, M))"
    using el [OF e'] inv unfolding hist_inv_def by metis
  then show "1 \<le> rva_Term (el_args e')" by blast
  fix M show "H' (rva_Term (el_args e')) \<noteq> Some (k, M)"
    using new [of "rva_Term (el_args e')" k M] old e' by auto
next
  fix a b args assume "AEReq a b args \<in> net c'"
  then show "ae_good H' args"
    using ae inv ae_good_mono [OF _ ext] unfolding hist_inv_def by blast
next
  fix a b args assume "ISReq a b args \<in> net c'"
  then show "LastIncludeIndex args = 0" using inst inv unfolding hist_inv_def by blast
qed

section \<open>Steps that keep the logs\<close>

definition quiet :: "('c, 'd) Raft \<Rightarrow> ('c, 'd) Raft \<Rightarrow> bool" where
  "quiet rf rf' \<longleftrightarrow> rlog rf' = rlog rf \<and> lastSnapshotIndex rf' = lastSnapshotIndex rf \<and>
     currentTerm rf \<le> currentTerm rf' \<and>
     (rf_state rf' = LEADER \<longrightarrow> rf_state rf = LEADER \<and> currentTerm rf' = currentTerm rf) \<and>
     (raftstate (persister rf') = raftstate (persister rf) \<or> raftstate (persister rf') = getPersistData rf')"

lemma quiet_refl [simp]: "quiet rf rf"
  by (simp add: quiet_def)

lemma saved_good_persist [simp]:
  "saved_good H (getPersistData rf) \<longleftrightarrow> lastSnapshotIndex rf = 0 \<and> 0 \<le> currentTerm rf \<and> good_log H (rlog rf)"
  by (auto simp: saved_good_def getPersistData_def)

lemma peer_good_quiet: "peer_good H rf \<Longrightarrow> quiet rf rf' \<Longrightarrow> peer_good H rf'"
  by (auto simp: peer_good_def quiet_def)

lemma hist_inv_quiet:
  assumes inv: "hist_inv n c H" and "i < n" and q: "quiet (node c i) rf"
    and "node c' = (node c)(i := rf)" and "votes c \<subseteq> votes c'"
    and el: "\<And>k e'. elects c' k = Some e' \<Longrightarrow>
        (\<exists>e. elects c k = Some e \<and> el_args e' = el_args e) \<or>
        k = i \<and> 1 \<le> rva_Term (el_args e') \<and> (\<forall>M. H (rva_Term (el_args e')) \<noteq> Some (i, M))"
    and "\<And>a b args. AEReq a b args \<in> net c' \<Longrightarrow> AEReq a b args \<in> net c \<or> ae_good H args"
    and "\<And>a b args. ISReq a b args \<in> net c' \<Longrightarrow> ISReq a b args \<in> net c \<or> LastIncludeIndex args = 0"
  shows "hist_inv n c' H"
proof (rule hist_inv_step [OF inv extends_refl _ _ assms(4,5) _ _ el assms(7,8)])
  have good: "peer_good H (node c i)"
    and lead: "rf_state (node c i) = LEADER \<Longrightarrow> 1 \<le> currentTerm (node c i) \<and>
        H (currentTerm (node c i)) = Some (i, rlog (node c i))"
    using inv assms(2) by (auto simp: hist_inv_def)
  show "peer_good H rf" by (rule peer_good_quiet [OF good q])
  show "1 \<le> currentTerm rf \<and> H (currentTerm rf) = Some (i, rlog rf)" if "rf_state rf = LEADER"
    using lead q that by (auto simp: quiet_def)
qed auto

lemma quiet_ops:
  "AE_send rf j = Inr (rf1, sent) \<Longrightarrow> quiet rf rf1"
  "AE_reply rf j args reply = Inr (rf2, nxt) \<Longrightarrow> quiet rf rf2"
  "SendRequest_reply vargs (rf, res, another) r = (rf3, res', another') \<Longrightarrow> quiet rf rf3"
  "quiet rf (SendRequest_finish rf another)"
  "InstallSnapshot_reply rf j isr = Inr rf4 \<Longrightarrow> quiet rf rf4"
  "quiet rf (Apply_deliver rf msg)"
  "quiet rf (resetElectionTimer rf)"
proof -
  show "AE_send rf j = Inr (rf1, sent) \<Longrightarrow> quiet rf rf1"
    by (drule AE_send_frame) (simp add: quiet_def)
  show "AE_reply rf j args reply = Inr (rf2, nxt) \<Longrightarrow> quiet rf rf2"
    by (auto simp: AE_reply_def go_Inr_iffs Let_def frame_simps quiet_def split: if_splits)
  show "SendRequest_reply vargs (rf, res, another) r = (rf3, res', another') \<Longrightarrow> quiet rf rf3"
    by (cases r) (auto simp: quiet_def split: if_splits)
  show "InstallSnapshot_reply rf j isr = Inr rf4 \<Longrightarrow> quiet rf rf4"
    by (cases isr) (auto simp: InstallSnapshot_reply_def go_Inr_iffs Let_def quiet_def frame_simps split: if_splits)
qed (auto simp: SendRequest_finish_def Apply_deliver_def Let_def quiet_def frame_simps)

lemma quiet_RequestVote:
  assumes "raft_wf rf" and "RequestVote rf args = Inr (rf', reply)"
  shows "quiet rf rf'"
proof -
  have "rlog rf \<noteq> []" using assms(1) by (simp add: raft_wf_def)
  then show ?thesis
    using assms(2)
    by (cases "rva_Term args" "currentTerm rf" rule: linorder_cases)
      (auto simp: RequestVote_def Let_def frame_simps quiet_def split: if_splits)
qed

lemma quiet_InstallSnapshot:
  assumes "InstallSnapshot rf args = Inr (rf', reply)" and "LastIncludeIndex args \<le> lastSnapshotIndex rf"
  shows "quiet rf rf'"
  using assms by (auto simp: InstallSnapshot_def Let_def frame_simps quiet_def split: if_splits)

lemma AE_send_cut:
  assumes "AE_send rf j = Inr (rf', Some args)" and ne: "rlog rf \<noteq> []" and "lastSnapshotIndex rf = 0"
  shows "rf_state rf = LEADER \<and> aea_Term args = currentTerm rf \<and> (\<exists>p < length (rlog rf). PrevLogIndex args = int p \<and>
    PrevLogTerm args = lg_Term (rlog rf ! p) \<and> Entries args = drop (Suc p) (rlog rf))"
proof -
  obtain rf1 where t: "resetAETimer j rf = Inr rf1" and ldr: "rf_state rf1 = LEADER" "aea_Term args = currentTerm rf1"
    and inf: "getAEInfo (resetElectionTimer rf1) j = Inr (PrevLogTerm args, PrevLogIndex args, Entries args)"
    using assms(1) by (auto simp: AE_send_def go_bind_Inr_iff Let_def frame_simps split: if_splits)
  let ?rf = "resetElectionTimer rf1"
  have same: "rlog ?rf = rlog rf" "lastSnapshotIndex ?rf = 0" "lastTerm ?rf = lastTerm rf" "lastIdx ?rf = lastIdx rf"
    using resetAETimer_frame [OF t] assms(3) by (auto simp: frame_simps lastTerm_def lastIdx_def)
  then have ne': "rlog ?rf \<noteq> []" using ne by simp
  define nx where "nx = nextIndex ?rf ! j"
  have nx: "if nx \<le> 0 then PrevLogTerm args = lastTerm rf \<and> PrevLogIndex args = lastIdx rf \<and> Entries args = []
      else PrevLogTerm args = lg_Term (rlog rf ! nat (nx - 1)) \<and> PrevLogIndex args = nx - 1 \<and>
        Entries args = drop (nat nx) (rlog rf) \<and> nx - 1 < int (length (rlog rf))"
    unfolding nx_def using inf same
    by (auto simp: getAEInfo_def go_Inr_iffs lastLogTermIndex_eq [OF ne'] Let_def
        getRealLogIndex_def split: if_splits)
  have "\<exists>p < length (rlog rf). PrevLogIndex args = int p \<and>
    PrevLogTerm args = lg_Term (rlog rf ! p) \<and> Entries args = drop (Suc p) (rlog rf)"
  proof (cases "nx \<le> 0")
    case True
    then show ?thesis
      using nx ne assms(3)
      by (intro exI [of _ "length (rlog rf) - 1"]) (auto simp: lastTerm_def lastIdx_def last_conv_nth Suc_leI)
  next
    case False
    then have "Suc (nat (nx - 1)) = nat nx" by linarith
    then show ?thesis
      using nx False by (intro exI [of _ "nat (nx - 1)"]) (auto simp: nat_less_iff)
  qed
  moreover have "rf_state rf = LEADER" "aea_Term args = currentTerm rf" using resetAETimer_frame [OF t] ldr by auto
  ultimately show ?thesis by blast
qed

lemma ae_good_send:
  assumes "AE_send rf j = Inr (rf', Some args)" and "good_log H (rlog rf)" and "lastSnapshotIndex rf = 0"
  shows "ae_good H args"
  using AE_send_cut [OF assms(1) _ assms(3)] assms(2) unfolding ae_good_def good_log_def by blast

lemma step_send_ae_hist:
  assumes inv: "hist_inv n c H" and "i < n" and "step_send_ae i j c = Some c'"
  shows "hist_inv n c' H"
proof -
  have g: "good_log H (rlog (node c i))" "lastSnapshotIndex (node c i) = 0"
    using inv assms(2) by (auto simp: hist_inv_def peer_good_def)
  obtain rf sent where snd: "AE_send (node c i) j = Inr (rf, sent)"
      and c': "node c' = (node c)(i := rf)" "votes c' = votes c" "elects c' = elects c"
      "\<forall>a b x. AEReq a b x \<in> net c' \<longrightarrow> AEReq a b x \<in> net c \<or> sent = Some x"
      "\<forall>a b x. ISReq a b x \<in> net c' \<longrightarrow> ISReq a b x \<in> net c"
    using assms(3) by (auto simp: step_send_ae_def step_defs split: if_splits sum.splits option.splits)
  show ?thesis
  proof (rule hist_inv_quiet [OF inv assms(2) quiet_ops(1) [OF snd] c'(1)])
    fix a b x assume "AEReq a b x \<in> net c'"
    then show "AEReq a b x \<in> net c \<or> ae_good H x"
      using c'(4) ae_good_send [OF _ g] snd by blast
  qed (use c' in auto)
qed

lemma step_ae_replied_hist:
  assumes inv: "hist_inv n c H" and "i < n" and "step_ae_replied i j reply c = Some c'"
  shows "hist_inv n c' H"
proof -
  obtain rf nxt args where ae: "AE_reply (node c i) j args reply = Inr (rf, nxt)"
    and c': "\<exists>s. c' = set_sender i j s (set_node i rf c)"
    using assms(3) by (auto simp: step_ae_replied_def split: if_splits sum.splits sender.splits)
  show ?thesis
    by (rule hist_inv_quiet [OF inv assms(2) quiet_ops(2) [OF ae]]) (use c' in \<open>auto simp: step_defs\<close>)
qed

lemma step_send_is_hist:
  assumes inv: "hist_inv n c H" and "i < n" and "step_send_is i j c = Some c'"
  shows "hist_inv n c' H"
proof -
  have "LastIncludeIndex (InstallSnapshot_send (node c i)) = 0"
    using inv assms(2) by (simp add: hist_inv_def peer_good_def InstallSnapshot_send_def)
  then show ?thesis
    by (intro hist_inv_quiet [OF inv assms(2) quiet_refl])
      (use assms(3) in \<open>auto simp: step_send_is_def step_defs Let_def split: if_splits\<close>)
qed

lemma step_recv_is_hist:
  assumes inv: "hist_inv n c H" and "i < n" and "step_recv_is i src args c = Some c'"
  shows "hist_inv n c' H"
proof -
  obtain rf reply where ins: "InstallSnapshot (node c i) args = Inr (rf, reply)"
    and req: "ISReq src i args \<in> net c" and c': "c' = send {ISResp i src args reply} (set_node i rf c)"
    using assms(3) by (auto simp: step_recv_is_def split: if_splits sum.splits)
  have "LastIncludeIndex args = 0" "lastSnapshotIndex (node c i) = 0"
    using inv req assms(2) unfolding hist_inv_def peer_good_def by blast+
  then have "quiet (node c i) rf" using quiet_InstallSnapshot [OF ins] by simp
  then show ?thesis
    by (rule hist_inv_quiet [OF inv assms(2)]) (auto simp: c' step_defs)
qed

lemma step_is_done_hist:
  assumes inv: "hist_inv n c H" and "i < n" and "step_is_done i j r c = Some c'"
  shows "hist_inv n c' H"
proof -
  obtain rf where ins: "InstallSnapshot_reply (node c i) j r = Inr rf"
    and c': "c' = set_sender i j SIdle (set_node i rf c)"
    using assms(3) by (auto simp: step_is_done_def split: if_splits sum.splits sender.splits)
  show ?thesis
    by (rule hist_inv_quiet [OF inv assms(2) quiet_ops(5) [OF ins]]) (auto simp: c' step_defs)
qed

lemma step_recv_rv_hist:
  assumes inv: "hist_inv n c H" and e: "election_inv n c" and "i < n" and "step_recv_rv i src args c = Some c'"
  shows "hist_inv n c' H"
proof -
  obtain rf reply where rv: "RequestVote (node c i) args = Inr (rf, reply)"
    and c': "c' = send {RVResp i src args reply} (set_node i rf
            (if VoteGranted reply
             then c\<lparr>votes := insert (i, rva_Term args, CandidateId args) (votes c)\<rparr> else c))"
    using assms(4) by (auto simp: step_recv_rv_def split: if_splits sum.splits)
  show ?thesis
    by (rule hist_inv_quiet [OF inv assms(3) quiet_RequestVote [OF node_wf [OF e assms(3)] rv]])
      (auto simp: c' step_defs split: if_splits)
qed

lemma step_rv_reply_hist:
  assumes inv: "hist_inv n c H" and "i < n" and "step_rv_reply i p r c = Some c'"
  shows "hist_inv n c' H"
proof -
  obtain el rf res another el' where el: "elects c i = Some el"
    and rep: "SendRequest_reply (el_args el) (node c i, el_res el, el_another el) r = (rf, res, another)"
    and el': "el' = el\<lparr>el_pending := remove1 p (el_pending el), el_res := res,
             el_another := another,
             el_voters := (if res = el_res el then el_voters el else p # el_voters el)\<rparr>"
    and c': "c' = set_node i rf (c\<lparr>elects := (elects c)(i := Some el')\<rparr>)"
    using assms(3) by (auto simp: step_rv_reply_def split: option.splits if_splits prod.splits)
  show ?thesis
    by (rule hist_inv_quiet [OF inv assms(2) quiet_ops(3) [OF rep]])
      (use el el' in \<open>auto simp: c' step_defs split: if_splits\<close>)
qed

lemma step_local_hist:
  assumes inv: "hist_inv n c H" and "i < n"
    and "e \<in> {AELost i j, ApplyCollect i, ApplyDeliver i}" and "cstep n c e = Some c'"
  shows "hist_inv n c' H"
proof -
  have "quiet (node c i) (node c' i) \<and> node c' = (node c)(i := node c' i) \<and>
      votes c' = votes c \<and> elects c' = elects c \<and> net c' = net c"
    using assms(3,4) quiet_ops(6)
    by (auto simp: step_defs split: sender.splits list.splits if_splits elim!: res_opt.elims)
  then show ?thesis
    by (intro hist_inv_quiet [OF inv assms(2), of "node c' i"]) auto
qed

section \<open>Steps that change the logs\<close>

lemma step_crash_hist:
  assumes inv: "hist_inv n c H" and "i < n" and "step_crash n i c = Some c'"
  shows "hist_inv n c' H"
proof -
  obtain rf where mk: "Make n i (persister (node c i)) = Inr rf"
    and c': "c' = set_node i rf (c\<lparr>elects := (elects c)(i := None),
        senders := (senders c)(i := (\<lambda>_. SIdle)), applying := (applying c)(i := [])\<rparr>)"
    using assms(3) by (auto simp: step_crash_def elim!: res_opt.elims)
  have "saved_good H (raftstate (persister (node c i)))"
    using inv assms(2) by (simp add: hist_inv_def peer_good_def)
  then have "peer_good H rf" "rf_state rf = FOLLOWER"
    using mk good_log_genesis by (auto simp: saved_good_def Make_def ReadRaftState_def peer_good_def genesis_def)
  then show ?thesis
    by (intro hist_inv_step [OF inv extends_refl, of i c' rf]) (auto simp: c' step_defs split: if_splits)
qed

text \<open>An accepted AppendEntries makes the log of the follower the log the message was cut from.\<close>

lemma ae_log_good:
  assumes "peer_good H rf" and "good_log H L" and "p < length L" and "PrevLogIndex args = int p"
    and "PrevLogTerm args = lg_Term (L ! p)" and "Entries args = drop (Suc p) L" and "ae_accepts rf args"
  shows "ae_log rf args = L"
proof -
  have rf: "good_log H (rlog rf)" "lastSnapshotIndex rf = 0" using assms(1) by (simp_all add: peer_good_def)
  have p: "p < length (rlog rf)"
    using assms(4,7) rf(2) by (simp add: ae_accepts_def lastIdx_def)
  have "lg_Term (rlog rf ! p) = lg_Term (L ! p)"
  proof (cases "p = 0")
    case True
    then show ?thesis using rf(1) assms(2) by (simp add: good_log_def)
  next
    case False
    then show ?thesis using assms(4,5,7) rf(2) by (simp add: ae_accepts_def entryAt_def)
  qed
  then have "take (Suc p) (rlog rf) = take (Suc p) L"
    by (rule good_log_agree [OF rf(1) assms(2) p assms(3)])
  then show ?thesis
    by (simp add: ae_log_def assms(4,6) rf(2))
qed

lemma AppendEntries_good:
  assumes "peer_good H rf" and "ae_good H args" and "AppendEntries rf args = Inr (rf', reply)"
  shows "peer_good H rf' \<and> (rf' = rf \<or> rf_state rf' = FOLLOWER)"
proof -
  have ne: "rlog rf \<noteq> []" using assms(1) by (simp add: peer_good_def good_log_def)
  note eff = AppendEntries_effect [OF ne assms(3)]
  have "good_log H (rlog rf')"
  proof (cases "ae_accepts rf args")
    case True
    obtain L p where "good_log H L" "p < length L" "PrevLogIndex args = int p"
        "PrevLogTerm args = lg_Term (L ! p)" "Entries args = drop (Suc p) L"
      using assms(2) by (auto simp: ae_good_def)
    then show ?thesis using ae_log_good [OF assms(1)] True eff by metis
  next
    case False
    then show ?thesis using eff assms(1) by (simp add: peer_good_def)
  qed
  moreover have "lastSnapshotIndex rf' = 0" "0 \<le> currentTerm rf'"
    using eff assms(1) by (auto simp: peer_good_def vote_frame_def)
  moreover have "rf' = rf \<or> rf_state rf' = FOLLOWER \<and> raftstate (persister rf') = getPersistData rf'"
  proof -
    consider "aea_Term args < currentTerm rf"
      | "currentTerm rf \<le> aea_Term args" "\<not> ae_accepts rf args" | "ae_accepts rf args"
      by linarith
    then show ?thesis
      by cases (use assms(3) ne in \<open>auto simp: AppendEntries_stale AppendEntries_rejected AppendEntries_accepted
          go_bind_Inr_iff AE_commit_def notifyApply_def frame_simps split: if_splits\<close>)
  qed
  ultimately show ?thesis
    using assms(1) by (auto simp: peer_good_def)
qed

lemma step_recv_ae_hist:
  assumes inv: "hist_inv n c H" and "i < n" and "step_recv_ae i src args c = Some c'"
  shows "hist_inv n c' H"
proof -
  obtain rf reply where ae: "AppendEntries (node c i) args = Inr (rf, reply)" and req: "AEReq src i args \<in> net c"
    and c': "c' = send {AEResp i src args reply} (set_node i rf c)"
    using assms(3) by (auto simp: step_recv_ae_def split: if_splits sum.splits)
  have g: "peer_good H (node c i)" "ae_good H args"
    using inv assms(2) req by (auto simp: hist_inv_def)
  note good = AppendEntries_good [OF g ae]
  have lead: "rf_state (node c i) = LEADER \<Longrightarrow> 1 \<le> currentTerm (node c i) \<and>
        H (currentTerm (node c i)) = Some (i, rlog (node c i))"
    using inv assms(2) by (auto simp: hist_inv_def)
  show ?thesis
    by (rule hist_inv_step [OF inv extends_refl, of i c' rf]) (use good lead in \<open>auto simp: c' step_defs\<close>)
qed

lemma step_timeout_hist:
  assumes inv: "hist_inv n c H" and e: "election_inv n c" and "i < n" and "step_timeout n i c = Some c'"
  shows "hist_inv n c' H"
proof (cases "rf_state (node c i) = LEADER")
  case True
  then have "c' = set_node i (resetElectionTimer (node c i)) c"
    using Election_begin_cases [OF node_wf [OF e assms(3)]] assms(4)
    by (auto simp: step_timeout_def split: if_splits)
  then show ?thesis
    by (intro hist_inv_quiet [OF inv assms(3) quiet_ops(7)]) (auto simp: step_defs)
next
  case False
  obtain rf args where beg: "Election_begin (node c i) = Inr (rf, Some args)"
    and t: "rva_Term args = currentTerm (node c i) + 1" and q: "quiet (node c i) rf"
    using False node_log [OF e assms(3)]
    by (auto simp: Election_begin_def Let_def frame_simps quiet_def)
  have net': "net c' = net c \<union> range (\<lambda>p. RVReq i p args) \<inter> net c'"
    and c': "node c' = (node c)(i := rf)" "votes c \<subseteq> votes c'"
      "\<forall>k e'. elects c' k = Some e' \<longrightarrow> elects c k = Some e' \<or> k = i \<and> el_args e' = args"
    using assms(4) beg by (auto simp: step_timeout_def step_defs Let_def split: if_splits)
  have "0 \<le> currentTerm (node c i)"
    using inv assms(3) by (simp add: hist_inv_def peer_good_def)
  moreover have "H (rva_Term args) \<noteq> Some (i, M)" for M
  proof
    assume "H (rva_Term args) = Some (i, M)"
    then have "(i, rva_Term args, int i) \<in> votes c" using inv by (simp add: hist_inv_def)
    then have "rva_Term args \<le> currentTerm (node c i)"
      using e unfolding election_inv_def votes_ok_def by blast
    then show False using t by simp
  qed
  ultimately show ?thesis
    using t by (intro hist_inv_quiet [OF inv assms(3) q c'(1,2)]) (use c'(3) net' in \<open>force+\<close>)
qed

lemma quiet_Election_end:
  assumes "Election_end rf args cnt = Inr rf'" and "raft_wf rf"
  shows "quiet rf (rf'\<lparr>rf_state := FOLLOWER\<rparr>) \<and> (rf_state rf' = LEADER \<and> rf_state rf \<noteq> LEADER \<or> quiet rf rf')"
proof -
  have "rlog rf \<noteq> []" "me rf < peers rf" using assms(2) by (simp_all add: raft_wf_def)
  then show ?thesis
    using assms(1)
    by (auto simp: Election_end_def changeRole_LEADER go_bind_Inr_iff frame_simps quiet_def getPersistData_def
        simp del: changeRole.simps split: if_splits)
qed

text \<open>A won election opens a new term in the history.\<close>

lemma hist_new_term:
  assumes inv: "hist_inv n c H" and e: "election_inv n c" and el: "elects c i = Some el"
    and Q: "majority n Q" "\<And>p. p \<in> Q \<Longrightarrow> (p, rva_Term (el_args el), int i) \<in> votes c"
  shows "H (rva_Term (el_args el)) = None"
proof (rule ccontr)
  assume "H (rva_Term (el_args el)) \<noteq> None"
  then obtain j M where j: "H (rva_Term (el_args el)) = Some (j, M)" by auto
  then obtain R where R: "majority n R" "\<forall>p\<in>R. (p, rva_Term (el_args el), int j) \<in> votes c"
    using inv unfolding hist_inv_def by blast
  have one: "s = s'" if "(p, T, s) \<in> votes c" "(p, T, s') \<in> votes c" for p T s s'
    using e that unfolding election_inv_def votes_unique_def by blast
  have "int i = int j"
    by (rule maj.quorum_winner_unique [where vote = "\<lambda>p s. (p, rva_Term (el_args el), s) \<in> votes c", OF Q(1) R(1)])
      (use Q(2) R(2) one in \<open>blast+\<close>)
  then have "H (rva_Term (el_args el)) = Some (i, M)" using j by simp
  then show False using inv el unfolding hist_inv_def by blast
qed

lemma step_election_done_hist:
  assumes inv: "hist_inv n c H" and e: "election_inv n c" and "i < n" and "step_election_done i c = Some c'"
  shows "hist_inv n c' (note_leader i c' H)"
proof -
  define rf1 where "rf1 = SendRequest_finish (node c i) (el_another (the (elects c i)))"
  obtain el rf where el: "elects c i = Some el"
    and fin: "Election_end rf1 (el_args el) (el_res el) = Inr rf"
    and c': "c' = set_node i rf (c\<lparr>elects := (elects c)(i := None)\<rparr>)"
    using assms(4) by (auto simp: step_election_done_def rf1_def split: option.splits sum.splits)
  have wf1: "raft_wf rf1" and q1: "quiet (node c i) rf1"
    unfolding rf1_def using SendRequest_finish_wf [OF node_wf [OF e assms(3)]] quiet_ops(4) by blast+
  note q2 = quiet_Election_end [OF fin wf1]
  have g1: "peer_good H rf1"
    using inv assms(3) peer_good_quiet [OF _ q1] by (simp add: hist_inv_def)
  have good: "peer_good H rf"
    using peer_good_quiet [OF g1 conjunct1 [OF q2]] by (simp add: peer_good_def)
  have lead: "rf_state (node c i) = LEADER \<Longrightarrow> 1 \<le> currentTerm (node c i) \<and>
        H (currentTerm (node c i)) = Some (i, rlog (node c i))"
    using inv assms(3) by (auto simp: hist_inv_def)
  show ?thesis
  proof (cases "rf_state rf = LEADER \<and> rf_state rf1 \<noteq> LEADER")
    case False
    then have "quiet rf1 rf" using q2 by blast
    then have same: "1 \<le> currentTerm rf \<and> H (currentTerm rf) = Some (i, rlog rf)" if "rf_state rf = LEADER"
      using lead q1 that by (auto simp: quiet_def)
    then have "hist_inv n c' H"
      using good by (intro hist_inv_step [OF inv extends_refl, of i c' rf]) (auto simp: c' step_defs split: if_splits)
    moreover have "note_leader i c' H = H" using same by (auto simp: note_leader_def c' step_defs fun_upd_idem_iff)
    ultimately show ?thesis by simp
  next
    case True
    let ?T = "rva_Term (el_args el)" and ?H = "H(rva_Term (el_args el) \<mapsto> (i, rlog rf))"
    have won: "currentTerm rf = ?T" "int (n div 2) \<le> el_res el"
      using Election_end_cases [OF wf1, of "el_args el" "el_res el"] fin True e assms(3)
      by (auto simp: rf1_def SendRequest_finish_def frame_simps election_inv_def nodes_ok_def split: if_splits)
    have vote: "elect_ok (votes c) i el" "votes_ok n c"
      using e el by (auto simp: election_inv_def elects_ok_def)
    then obtain Q where Q: "majority n Q" "\<forall>p\<in>Q. (p, ?T, int i) \<in> votes c"
      using elect_ok_majority won(2) by blast
    have none: "H ?T = None" by (rule hist_new_term [OF inv e el Q(1)]) (use Q(2) in blast)
    have T: "1 \<le> ?T" using inv el by (auto simp: hist_inv_def)
    have ext: "extends H ?H" using none by (auto simp: extends_def)
    have mine: "(i, ?T, int i) \<in> votes c" using vote(1) by (simp add: elect_ok_def)
    have "hist_inv n c' ?H"
      by (rule hist_inv_step [OF inv ext, of i c' rf])
        (use none won T mine Q assms(3) peer_good_mono [OF good ext] in
          \<open>auto simp: c' step_defs split: if_splits\<close>)
    then show ?thesis using True won(1) by (simp add: note_leader_def c' step_defs)
  qed
qed

lemma step_start_hist:
  assumes inv: "hist_inv n c H" and e: "election_inv n c" and "i < n"
    and "cstep n c (ClientStart i cmd) = Some c'"
  shows "hist_inv n c' (note_leader i c' H)"
proof -
  obtain rf r where st: "Start (node c i) cmd = Inr (rf, r)" and c': "c' = set_node i rf c"
    using assms(4) by (auto elim!: res_opt.elims)
  have ne: "rlog (node c i) \<noteq> []" by (rule node_log [OF e assms(3)])
  have g: "peer_good H (node c i)" using inv assms(3) by (simp add: hist_inv_def)
  show ?thesis
  proof (cases "rf_state (node c i) = LEADER")
    case False
    then have "rf = node c i" using st ne by (simp add: Start_def Let_def)
    then have "hist_inv n c' H"
      by (intro hist_inv_quiet [OF inv assms(3), of rf]) (auto simp: c' step_defs)
    moreover have "note_leader i c' H = H" using False \<open>rf = node c i\<close> by (simp add: note_leader_def c' step_defs)
    ultimately show ?thesis by simp
  next
    case True
    let ?T = "currentTerm (node c i)"
    let ?L = "rlog (node c i) @ [\<lparr>lg_Command = cmd, lg_Term = currentTerm (node c i)\<rparr>]"
    let ?H = "H(currentTerm (node c i) \<mapsto> (i, ?L))"
    have h: "1 \<le> ?T" "H ?T = Some (i, rlog (node c i))" using inv assms(3) True by (auto simp: hist_inv_def)
    have rf: "rlog rf = ?L" "lastSnapshotIndex rf = 0" "currentTerm rf = ?T" "raftstate (persister rf) = getPersistData rf"
        "rf_state rf = LEADER"
      using st ne True g
      by (auto simp: Start_def Let_def go_Inr_iffs frame_simps peer_good_def getPersistData_def)
    have "good_log ?H ?L"
      by (rule good_log_snoc [of H]) (use g h in \<open>auto simp: peer_good_def\<close>)
    then have good: "peer_good ?H rf"
      using rf h(1) by (simp add: peer_good_def)
    have ext: "extends H ?H" using h(2) by (auto simp: extends_def)
    have "hist_inv n c' ?H"
      by (rule hist_inv_step [OF inv ext, of i c' rf])
        (use h rf good in \<open>auto simp: c' step_defs split: if_splits\<close>)
    then show ?thesis using rf by (simp add: note_leader_def c' step_defs)
  qed
qed

lemma cexec_plain_inv:
  assumes "log_inv n c" and "cexec_plain n c e = Some c'"
  shows "log_inv n c'"
proof -
  have ex: "cexec n c e = Some c'" "\<not> takes_snapshot e"
    using assms(2) by (auto simp: cexec_plain_def split: if_splits)
  have a: "actor e < n" "cstep n c e = Some c'"
    using ex(1) by (auto simp: cexec_def split: if_splits)
  have e: "election_inv n c" using assms(1) by (simp add: log_inv_def)
  obtain H where inv: "hist_inv n c H" using assms(1) by (auto simp: log_inv_def)
  have "\<exists>H'. hist_inv n c' H'"
    using a ex(2)
    by (cases e) (auto intro: step_timeout_hist [OF inv e] step_recv_rv_hist [OF inv e] step_rv_reply_hist [OF inv]
        step_election_done_hist [OF inv e] step_send_ae_hist [OF inv] step_recv_ae_hist [OF inv]
        step_ae_replied_hist [OF inv] step_send_is_hist [OF inv] step_recv_is_hist [OF inv]
        step_is_done_hist [OF inv] step_crash_hist [OF inv] step_start_hist [OF inv e]
        simp del: cstep.simps(8,12-15) dest: step_local_hist [OF inv, rotated 2])
  then show ?thesis
    using cexec_inv [OF e ex(1)] by (auto simp: log_inv_def)
qed

interpretation raft_logs: invariant_system "\<lambda>c. c = cluster_init n" "cexec_plain n" "log_inv n" for n
  by unfold_locales (auto intro: log_inv_init cexec_plain_inv)

section \<open>Log matching\<close>

lemma log_matching_reach:
  assumes "creach_plain n c" and "i < n" and "j < n"
    and "p < length (rlog (node c i))" and "p < length (rlog (node c j))"
    and "lg_Term (rlog (node c i) ! p) = lg_Term (rlog (node c j) ! p)"
  shows "take (Suc p) (rlog (node c i)) = take (Suc p) (rlog (node c j))"
proof -
  have "log_inv n c" by (rule raft_logs.inv_reachable [OF assms(1)])
  then obtain H where "hist_inv n c H" by (auto simp: log_inv_def)
  then have "good_log H (rlog (node c i))" "good_log H (rlog (node c j))"
    using assms(2,3) by (simp_all add: hist_inv_def peer_good_def)
  then show ?thesis using good_log_agree assms(4-6) by blast
qed

text \<open>
  C3. Log matching: in every reachable state of a cluster, whatever messages are lost, delayed,
  duplicated or reordered and whatever peers crash and restart, if the logs of two peers hold an
  entry of the same term at the same index then they are identical up to that index. This
  is for executions in which no snapshot is taken.
\<close>

theorem log_matching:
  assumes "creach_plain n c" and "i < n" and "j < n"
    and "p < length (rlog (node c i))" and "p < length (rlog (node c j))"
    and "lg_Term (rlog (node c i) ! p) = lg_Term (rlog (node c j) ! p)"
  shows "take (Suc p) (rlog (node c i)) = take (Suc p) (rlog (node c j))"
  by (rule log_matching_reach [OF assms])

definition replicate_0 :: "(nat, nat) event list" where
  "replicate_0 = elect_0 @ [ClientStart 0 (ICmd 7), SendAE 0 1,
     RecvAE 1 0 \<lparr>aea_Term = 1, LeaderId = 0, PrevLogIndex = 0, PrevLogTerm = 0,
       Entries = [demo_entry 7 1], aea_LeaderCommit = 0\<rparr>]"

lemma replicate_0_run:
  "case run_events (cexec_plain 3) (cluster_init 3) replicate_0 of
     None \<Rightarrow> False
   | Some c \<Rightarrow> length (rlog (node c 0)) = 2 \<and> length (rlog (node c 1)) = 2 \<and>
       lg_Term (rlog (node c 0) ! 1) = lg_Term (rlog (node c 1) ! 1)"
  by code_simp

theorem log_matching_witness:
  "case run_events (cexec_plain 3) (cluster_init 3) replicate_0 of
     None \<Rightarrow> False
   | Some c \<Rightarrow> take (Suc 1) (rlog (node c 0)) = take (Suc 1) (rlog (node c 1))"
proof -
  obtain c where run: "run_events (cexec_plain 3) (cluster_init 3) replicate_0 = Some c"
    and c: "length (rlog (node c 0)) = 2" "length (rlog (node c 1)) = 2"
      "lg_Term (rlog (node c 0) ! 1) = lg_Term (rlog (node c 1) ! 1)"
    using replicate_0_run by (auto split: option.splits)
  have "creach_plain 3 (cluster_init 3)"
    by (rule reachable_init) simp
  then have "creach_plain 3 c"
    using run by (rule run_events_reachable)
  from log_matching [OF this, of 0 1 1] show ?thesis
    using c by (simp add: run)
qed

section \<open>Entries of earlier terms\<close>

text \<open>
  Log matching does not make the applied commands agree, because \<open>LeaderCommit\<close> counts copies of
  entries of earlier terms. The run below is one in which every RPC is answered before the next
  action of its sender: \<open>Elect i vs\<close> is an election whose requests reach the peers \<open>vs\<close>, \<open>Send i j\<close> one
  round of \<open>appendEntriesToPeer\<close>, \<open>Restart i\<close> a crash and \<open>Make\<close> on the persister.

  In a cluster of five: peer 0 leads term 1 and copies its entry 7 to peer 1; peer 4 leads term 2 with an
  entry 9 of its own; peer 0 leads term 3, learns that peer 1 has entry 7, and copies its log with
  an entry of term 3 to peer 2. Now entry 7 is at three peers, so peer 0 commits and applies it.
  But peer 4, whose last term is 2, still wins the election of term 4, overwrites the log of peer 1
  and commits entry 9 at the same index.
\<close>

datatype 'c call = Elect nat "nat list" | Submit nat 'c | Send nat nat | Restart nat

fun ask_votes :: "nat list \<Rightarrow> RequestVoteArgs \<Rightarrow> ('c, 'd) Raft list \<Rightarrow>
    (('c, 'd) Raft list \<times> RequestVoteReply option list) go" where
  "ask_votes [] args ps = Inr (ps, [])"
| "ask_votes (v # vs) args ps =
     go_bind (RequestVote (ps ! v) args) (\<lambda>(rf, reply).
     go_bind (ask_votes vs args (ps[v := rf])) (\<lambda>(ps, replies). Inr (ps, Some reply # replies)))"

fun perform :: "('c, 'd) Raft list \<Rightarrow> 'c call \<Rightarrow> ('c, 'd) Raft list go" where
  "perform ps (Elect i vs) =
     go_bind (Election_begin (ps ! i)) (\<lambda>(rf, sent).
       case sent of
         None \<Rightarrow> Inr (ps[i := rf])
       | Some args \<Rightarrow>
           go_bind (ask_votes vs args (ps[i := rf])) (\<lambda>(ps, replies).
             case SendRequest (ps ! i) args replies of (rf, cnt) \<Rightarrow>
               go_bind (Election_end rf args cnt) (\<lambda>rf. Inr (ps[i := rf]))))"
| "perform ps (Submit i cmd) = go_bind (Start (ps ! i) (ICmd cmd)) (\<lambda>(rf, _). Inr (ps[i := rf]))"
| "perform ps (Send i j) =
     go_bind (AE_send (ps ! i) j) (\<lambda>(rf, sent).
       case sent of
         None \<Rightarrow> Inr (ps[i := rf])
       | Some args \<Rightarrow>
           go_bind (AppendEntries (ps ! j) args) (\<lambda>(peer, reply).
           go_bind (AE_reply rf j args reply) (\<lambda>(rf, _). Inr (ps[j := peer, i := rf]))))"
| "perform ps (Restart i) =
     go_bind (Make (length ps) i (persister (ps ! i))) (\<lambda>rf. Inr (ps[i := rf]))"

definition performs :: "('c, 'd) Raft list \<Rightarrow> 'c call list \<Rightarrow> ('c, 'd) Raft list go" where
  "performs ps cs = foldl (\<lambda>r c. go_bind r (\<lambda>ps. perform ps c)) (Inr ps) cs"

definition old_term_run :: "nat call list" where
  "old_term_run =
     [Elect 0 [1, 2], Submit 0 7, Send 0 1,
      Elect 4 [], Elect 4 [3, 2], Submit 4 9,
      Restart 0, Elect 0 [], Elect 0 [1, 2], Send 0 1, Submit 0 8, Send 0 2, Send 0 2]"

definition old_term_run_end :: "nat call list" where
  "old_term_run_end =
     [Restart 4, Elect 4 [], Elect 4 [3, 1], Submit 4 10, Send 4 3, Send 4 3, Send 4 1, Send 4 1]"

definition applied :: "('c, 'd) Raft list go \<Rightarrow> nat \<Rightarrow> (int \<times> 'c iface) list go" where
  "applied r i = go_bind r (\<lambda>ps. go_bind (Apply_collect (ps ! i)) (\<lambda>ms.
     Inr (map (\<lambda>m. (CommandIndex m, am_Command m)) ms)))"

definition fresh_peers :: "(nat, nat) Raft list" where
  "fresh_peers = map (\<lambda>i. projr (Make 5 i MakePersister)) [0..<5]"

theorem old_term_commit_diverges:
  "applied (performs fresh_peers old_term_run) 0 = Inr [(1, ICmd 7)]"
  "applied (performs fresh_peers (old_term_run @ old_term_run_end)) 4 = Inr [(1, ICmd 9), (2, ICmd 10)]"
  by code_simp+

text \<open>
  Snapshots break log matching: \<open>InstallSnapshot\<close> keeps the entries after the position of the snapshot
  without comparing the term there, so entries that follow a conflicting entry survive.
\<close>

theorem install_snapshot_keeps_conflicting_suffix:
  "case InstallSnapshot (demo_peer 1 FOLLOWER 1 [demo_entry 7 1, demo_entry 8 1])
       \<lparr>isa_Term = 3, isa_LeaderId = 0, LastIncludeIndex = 1, LastIncludeTerm = 2, Data = Some 0, Done = False\<rparr> of
     Inl _ \<Rightarrow> False
   | Inr (rf, _) \<Rightarrow> lastSnapshotTerm rf = 2 \<and> rlog rf = [demo_entry 7 1, demo_entry 8 1]"
  by code_simp

end
