(* ===== verification/Raft_Completeness.thy ===== *)
theory Raft_Completeness
  imports Raft_LogMatching
begin

text \<open>
  Leader completeness: an entry that a leader of term \<open>T\<close> wrote in term \<open>T\<close> and that a majority has acknowledged in term
  \<open>T\<close> is in the log of every later leader.

  This is for the executions of \<open>Raft_Cluster\<close> in which no snapshot is taken or sent, and in which no peer that has
  ceased to lead takes a larger term from an answer to one of its old AppendEntries messages. The
  second restriction is needed: \<open>AE_reply\<close> raises the term and keeps the vote of the old term, so the peer then
  grants a vote in the new term without comparing logs, and an acknowledged entry is lost (last section).

  The invariant is a relation between the state and the history of \<open>Raft_LogMatching\<close>. By log matching,
  it is enough to say at which places a log has entries of term \<open>T\<close> (\<open>has\<close>). \<open>acked\<close> are the acknowledged
  entries, read off the answers in the network, and those of the leader itself. \<open>lost H T' T i\<close> says that the
  leader of \<open>T'\<close> does not have the entry \<open>i\<close> of \<open>T\<close>; a peer that has acknowledged an entry keeps it unless it has met such a leader.
\<close>

section \<open>Executions\<close>

fun stale_raise :: "('c, 'd) cluster \<Rightarrow> ('c, 'd) event \<Rightarrow> bool" where
  "stale_raise c (AEReplied i j reply) \<longleftrightarrow> currentTerm (node c i) < aer_Term reply \<and> rf_state (node c i) \<noteq> LEADER"
| "stale_raise c _ \<longleftrightarrow> False"

fun sends_snapshot :: "('c, 'd) event \<Rightarrow> bool" where
  "sends_snapshot (SendIS _ _) \<longleftrightarrow> True"
| "sends_snapshot (RecvIS _ _ _) \<longleftrightarrow> True"
| "sends_snapshot (ISDone _ _ _) \<longleftrightarrow> True"
| "sends_snapshot _ \<longleftrightarrow> False"

definition cexec_sound :: "nat \<Rightarrow> ('c, 'd) cluster \<Rightarrow> ('c, 'd) event \<Rightarrow> ('c, 'd) cluster option" where
  "cexec_sound n c e = (if stale_raise c e \<or> sends_snapshot e then None else cexec_plain n c e)"

abbreviation creach_sound :: "nat \<Rightarrow> ('c, 'd) cluster \<Rightarrow> bool" where
  "creach_sound n \<equiv> reachable (\<lambda>c. c = cluster_init n) (cexec_sound n)"

section \<open>Entries of a term\<close>

definition has :: "'c Log list \<Rightarrow> int \<Rightarrow> nat \<Rightarrow> bool" where
  "has L T i \<longleftrightarrow> i < length L \<and> lg_Term (L ! i) = T"

definition lost :: "'c leader_logs \<Rightarrow> int \<Rightarrow> int \<Rightarrow> nat \<Rightarrow> bool" where
  "lost H T' T i \<longleftrightarrow> (\<exists>l M. H T' = Some (l, M) \<and> \<not> has M T i)"

definition terms_sorted :: "'c Log list \<Rightarrow> bool" where
  "terms_sorted L \<longleftrightarrow> (\<forall>a b. a \<le> b \<and> b < length L \<longrightarrow> lg_Term (L ! a) \<le> lg_Term (L ! b))"

text \<open>A history grows by entries of the term of their leader.\<close>

definition grows :: "'c leader_logs \<Rightarrow> 'c leader_logs \<Rightarrow> bool" where
  "grows H H' \<longleftrightarrow> (\<forall>T l M. H T = Some (l, M) \<longrightarrow> (\<exists>M'. H' T = Some (l, M') \<and> prefix M M' \<and>
     (\<forall>q. length M \<le> q \<and> q < length M' \<longrightarrow> lg_Term (M' ! q) = T)))"

lemma grows_refl [simp]: "grows H H"
  by (simp add: grows_def)

lemma grows_extends: "grows H H' \<Longrightarrow> extends H H'"
  unfolding grows_def extends_def by blast

lemma has_prefix: "has L T i \<Longrightarrow> prefix L M \<Longrightarrow> has M T i"
  by (auto simp: has_def prefix_def nth_append)

lemma grows_has:
  assumes "grows H H'" and "H T' = Some (l, M)" and "H' T' = Some (l', M')" and "T \<noteq> T'"
  shows "has M' T i \<longleftrightarrow> has M T i"
proof -
  obtain K where K: "H' T' = Some (l, K)" "prefix M K" "\<forall>q. length M \<le> q \<and> q < length K \<longrightarrow> lg_Term (K ! q) = T'"
    using assms(1,2) unfolding grows_def by blast
  then have K': "K = M'" using assms(3) by simp
  then obtain N where N: "M' = M @ N" using K(2) by (auto simp: prefix_def)
  show ?thesis
  proof (cases "i < length M")
    case False
    then show ?thesis using K(3) K' assms(4) by (auto simp: has_def)
  qed (simp add: N has_def nth_append)
qed

lemma lost_grows:
  assumes "grows H H'" and "lost H T' T i" and "T < T'"
  shows "lost H' T' T i"
proof -
  obtain l M where M: "H T' = Some (l, M)" "\<not> has M T i" using assms(2) unfolding lost_def by blast
  then obtain M' where "H' T' = Some (l, M')" using assms(1) unfolding grows_def by blast
  then show ?thesis using grows_has [OF assms(1) M(1)] M(2) assms(3) unfolding lost_def by force
qed

text \<open>A log that has an entry of \<open>T\<close> agrees with the log of the leader of \<open>T\<close> up to there.\<close>

lemma has_agree:
  assumes "good_log H L" and "H T = Some (l, M)" and "has L T k" and "1 \<le> T" and "i \<le> k"
  shows "i < length M \<and> L ! i = M ! i"
proof -
  have k: "k < length L" "lg_Term (L ! k) = T" using assms(3) by (simp_all add: has_def)
  have "k \<noteq> 0" using k(2) assms(1,4) by (auto simp: good_log_def genesis_def)
  then have "prefix (take (Suc k) L) M" using assms(1,2) k by (force simp: good_log_def)
  then obtain N where N: "M = take (Suc k) L @ N" by (auto simp: prefix_def)
  have "i < length (take (Suc k) L)" using k(1) assms(5) by simp
  then show ?thesis using assms(5) by (simp add: N nth_append)
qed

section \<open>Acknowledged entries\<close>

definition dterm :: "('c, 'd) Raft \<Rightarrow> int" where
  "dterm rf = (case saved_vote (raftstate (persister rf)) of None \<Rightarrow> 0 | Some (t, _) \<Rightarrow> t)"

definition ack_msg :: "('c, 'd) cluster \<Rightarrow> nat \<Rightarrow> int \<Rightarrow> nat \<Rightarrow> bool" where
  "ack_msg c p T i \<longleftrightarrow> (\<exists>src args reply. AEResp p src args reply \<in> net c \<and> Success reply \<and> aea_Term args = T \<and>
     int i \<le> PrevLogIndex args + int (length (Entries args)))"

definition acked :: "('c, 'd) cluster \<Rightarrow> 'c leader_logs \<Rightarrow> nat \<Rightarrow> int \<Rightarrow> nat \<Rightarrow> bool" where
  "acked c H p T i \<longleftrightarrow> (\<exists>l M. H T = Some (l, M) \<and> has M T i \<and> (p = l \<or> ack_msg c p T i))"

text \<open>
  What a vote of \<open>p\<close> for the candidate of \<open>args\<close> means: the entries that \<open>p\<close> has acknowledged are in the candidate's log,
  or an earlier leader has lost them.
\<close>

definition covers :: "RequestVoteArgs \<Rightarrow> int \<Rightarrow> nat \<Rightarrow> bool" where
  "covers args T i \<longleftrightarrow> T < LastLogterm args \<or> T = LastLogterm args \<and> int i \<le> LastLogIndex args"

definition utd :: "('c, 'd) cluster \<Rightarrow> 'c leader_logs \<Rightarrow> nat \<Rightarrow> RequestVoteArgs \<Rightarrow> bool" where
  "utd c H p args \<longleftrightarrow> (\<forall>T i. acked c H p T i \<and> T < rva_Term args \<longrightarrow>
     covers args T i \<or> (\<exists>T'. T < T' \<and> T' < rva_Term args \<and> lost H T' T i))"

definition backed :: "('c, 'd) cluster \<Rightarrow> 'c leader_logs \<Rightarrow> nat \<Rightarrow> int \<Rightarrow> 'c Log list \<Rightarrow> bool" where
  "backed c H p T2 M \<longleftrightarrow> T2 \<le> dterm (node c p) \<and> (\<forall>T i. acked c H p T i \<and> T < T2 \<longrightarrow>
     has M T i \<or> (\<exists>T'. T < T' \<and> T' < T2 \<and> lost H T' T i))"

definition kept :: "('c, 'd) cluster \<Rightarrow> 'c leader_logs \<Rightarrow> nat \<Rightarrow> bool" where
  "kept c H p \<longleftrightarrow> (\<forall>T i. acked c H p T i \<longrightarrow> T \<le> dterm (node c p) \<and>
     (has (rlog (node c p)) T i \<or> (\<exists>T'. T < T' \<and> T' \<le> dterm (node c p) \<and> lost H T' T i)))"

section \<open>The invariant\<close>

definition saved_log_ok :: "('c, 'd) Raft \<Rightarrow> bool" where
  "saved_log_ok rf \<longleftrightarrow> raftstate (persister rf) = [] \<and> rlog rf = [genesis] \<or>
     (\<exists>ct vf ci st si. raftstate (persister rf) = [RInt ct, RInt vf, RInt ci, RInt st, RInt si, RLog (rlog rf)])"

definition peer_sorted :: "('c, 'd) Raft \<Rightarrow> bool" where
  "peer_sorted rf \<longleftrightarrow> terms_sorted (rlog rf) \<and> (\<forall>e\<in>set (rlog rf). lg_Term e \<le> dterm rf) \<and>
     dterm rf \<le> currentTerm rf \<and> saved_log_ok rf"

definition cut_of :: "'c leader_logs \<Rightarrow> 'c AppendEntriesArgs \<Rightarrow> bool" where
  "cut_of H args \<longleftrightarrow> (\<exists>l M L p. H (aea_Term args) = Some (l, M) \<and> prefix L M \<and> good_log H L \<and>
     (\<forall>q. length L \<le> q \<and> q < length M \<longrightarrow> lg_Term (M ! q) = aea_Term args) \<and> p < length L \<and>
     PrevLogIndex args = int p \<and> PrevLogTerm args = lg_Term (L ! p) \<and> Entries args = drop (Suc p) L)"

definition voted :: "('c, 'd) cluster \<Rightarrow> 'c leader_logs \<Rightarrow> nat \<Rightarrow> int \<Rightarrow> int \<Rightarrow> bool" where
  "voted c H p t v \<longleftrightarrow> v = -1 \<or> v = int p \<or> H t \<noteq> None \<or>
     (\<exists>s args reply. v = int s \<and> RVResp p s args reply \<in> net c \<and> VoteGranted reply \<and> rva_Term args = t)"

definition vote_ok :: "('c, 'd) cluster \<Rightarrow> 'c leader_logs \<Rightarrow> nat \<Rightarrow> bool" where
  "vote_ok c H p \<longleftrightarrow> voted c H p (currentTerm (node c p)) (voteFor (node c p)) \<and>
     (\<forall>t v. saved_vote (raftstate (persister (node c p))) = Some (t, v) \<longrightarrow> voted c H p t v)"

definition elect_good :: "('c, 'd) cluster \<Rightarrow> 'c leader_logs \<Rightarrow> nat \<Rightarrow> elect_run \<Rightarrow> bool" where
  "elect_good c H i el \<longleftrightarrow> rva_Term (el_args el) \<le> dterm (node c i) \<and>
     (rf_state (node c i) = CANDIDATE \<and> currentTerm (node c i) = rva_Term (el_args el) \<longrightarrow>
        LastLogIndex (el_args el) = lastIdx (node c i) \<and> LastLogterm (el_args el) = lastTerm (node c i)) \<and>
     (\<forall>p\<in>set (el_voters el). \<exists>v. RVResp p i (el_args el) v \<in> net c \<and> VoteGranted v) \<and>
     (H (rva_Term (el_args el)) = None \<longrightarrow> utd c H i (el_args el))"

definition ae_msgs_ok :: "nat \<Rightarrow> ('c, 'd) cluster \<Rightarrow> 'c leader_logs \<Rightarrow> bool" where
  "ae_msgs_ok n c H \<longleftrightarrow> (\<forall>a b args. AEReq a b args \<in> net c \<longrightarrow> cut_of H args) \<and>
     (\<forall>p s args reply. AEResp p s args reply \<in> net c \<longrightarrow> Success reply \<longrightarrow>
        p < n \<and> cut_of H args \<and> aea_Term args \<le> dterm (node c p))"

definition rv_msgs_ok :: "nat \<Rightarrow> ('c, 'd) cluster \<Rightarrow> 'c leader_logs \<Rightarrow> bool" where
  "rv_msgs_ok n c H \<longleftrightarrow>
     (\<forall>s d args. RVReq s d args \<in> net c \<longrightarrow> s < n \<and> rva_Term args \<le> dterm (node c s)) \<and>
     (\<forall>s d d' args args'. RVReq s d args \<in> net c \<longrightarrow> RVReq s d' args' \<in> net c \<longrightarrow> rva_Term args = rva_Term args' \<longrightarrow>
        args = args') \<and>
     (\<forall>p s args reply. RVResp p s args reply \<in> net c \<longrightarrow> p < n \<and> RVReq s p args \<in> net c \<and> rvr_Term reply = 0 \<and>
        (VoteGranted reply \<longrightarrow> rva_Term args \<le> dterm (node c p) \<and>
           (H (rva_Term args) = None \<longrightarrow> utd c H p args)))"

definition comp_inv :: "nat \<Rightarrow> ('c, 'd) cluster \<Rightarrow> 'c leader_logs \<Rightarrow> bool" where
  "comp_inv n c H \<longleftrightarrow>
     (\<forall>p<n. peer_sorted (node c p) \<and> kept c H p \<and> vote_ok c H p) \<and>
     (\<forall>T l M. H T = Some (l, M) \<longrightarrow> 1 \<le> T \<and> good_log H M \<and> terms_sorted M \<and> (\<forall>e\<in>set M. lg_Term e \<le> T) \<and>
        (\<exists>Q. majority n Q \<and> (\<forall>p\<in>Q. backed c H p T M))) \<and>
     ae_msgs_ok n c H \<and> rv_msgs_ok n c H \<and>
     (\<forall>i el. elects c i = Some el \<longrightarrow> i < n \<and> elect_good c H i el)"

section \<open>Leader completeness from the invariant\<close>

text \<open>The first later leader without the entry would have met a peer that has acknowledged it.\<close>

lemma majority_not_lost:
  assumes inv: "comp_inv n c H" and Q: "majority n Q" "\<And>p. p \<in> Q \<Longrightarrow> acked c H p T i" and "T < T'"
  shows "\<not> lost H T' T i"
proof
  assume bad: "lost H T' T i"
  have "\<not> lost H T' T i" if "T < T'" for T' using that
  proof (induction "nat (T' - T)" arbitrary: T' rule: less_induct)
    case (less T')
    show ?case
    proof
      assume "lost H T' T i"
      then obtain l M where M: "H T' = Some (l, M)" "\<not> has M T i" unfolding lost_def by blast
      then obtain R where R: "majority n R" "\<forall>p\<in>R. backed c H p T' M"
        using inv unfolding comp_inv_def by blast
      obtain p where p: "p \<in> Q" "p \<in> R" using majority_meet [OF Q(1) R(1)] by blast
      have "backed c H p T' M" using R(2) p(2) by blast
      then obtain T3 where "T < T3" "T3 < T'" "lost H T3 T i"
        using Q(2) [OF p(1)] less.prems M(2) unfolding backed_def by blast
      moreover have "nat (T3 - T) < nat (T' - T)" using \<open>T3 < T'\<close> \<open>T < T3\<close> by simp
      ultimately show False using less.hyps [of T3] by blast
    qed
  qed
  then show False using bad assms(4) by blast
qed


section \<open>Steps and the invariant\<close>

text \<open>
  A step of peer \<open>i\<close>: the history and the network grow, and new acknowledgements are those of \<open>i\<close> in a term that
  is not below the one it had saved.
\<close>

definition acks_grow ::
  "('c, 'd) cluster \<Rightarrow> 'c leader_logs \<Rightarrow> ('c, 'd) cluster \<Rightarrow> 'c leader_logs \<Rightarrow> nat \<Rightarrow> bool" where
  "acks_grow c H c' H' i \<longleftrightarrow> grows H H' \<and> net c \<subseteq> net c' \<and> (\<forall>p. p \<noteq> i \<longrightarrow> node c' p = node c p) \<and>
     dterm (node c i) \<le> dterm (node c' i) \<and>
     (\<forall>p T j. acked c' H' p T j \<longrightarrow> acked c H p T j \<or> p = i \<and> dterm (node c i) \<le> T)"

lemma acks_growD:
  assumes "acks_grow c H c' H' i"
  shows "grows H H'" and "net c \<subseteq> net c'" and "p \<noteq> i \<Longrightarrow> node c' p = node c p"
    and "dterm (node c p) \<le> dterm (node c' p)"
    and "acked c' H' p T j \<Longrightarrow> T < dterm (node c p) \<or> p \<noteq> i \<Longrightarrow> acked c H p T j"
  using assms unfolding acks_grow_def by (blast, blast, blast, metis order_refl, force)

lemma utd_grow:
  assumes "acks_grow c H c' H' i" and "utd c H p args" and "rva_Term args \<le> dterm (node c p)"
  shows "utd c' H' p args"
  unfolding utd_def
proof (intro allI impI, elim conjE)
  fix T j assume a: "acked c' H' p T j" "T < rva_Term args"
  then have "acked c H p T j" using acks_growD(5) [OF assms(1)] assms(3) by force
  then show "covers args T j \<or> (\<exists>T'>T. T' < rva_Term args \<and> lost H' T' T j)"
    using assms(2) a(2) lost_grows [OF acks_growD(1) [OF assms(1)]] unfolding utd_def by blast
qed

lemma backed_grow:
  assumes "acks_grow c H c' H' i" and "backed c H p T2 M" and "H T2 = Some (l, M)" and "H' T2 = Some (l', M')"
  shows "backed c' H' p T2 M'"
  unfolding backed_def
proof (intro conjI allI impI, goal_cases)
  case 1
  then show ?case using assms(2) acks_growD(4) [OF assms(1), of p] by (simp add: backed_def)
next
  case (2 T j)
  then have "acked c H p T j" using acks_growD(5) [OF assms(1)] assms(2) by (force simp: backed_def)
  then have "has M T j \<or> (\<exists>T'>T. T' < T2 \<and> lost H T' T j)" using assms(2) 2 by (simp add: backed_def)
  then show ?case
    using lost_grows [OF acks_growD(1) [OF assms(1)]] grows_has [OF acks_growD(1) [OF assms(1)] assms(3,4), of T j] 2 by blast
qed

lemma kept_grow:
  assumes "acks_grow c H c' H' i" and "kept c H p" and "p \<noteq> i"
  shows "kept c' H' p"
  using assms(2) acks_growD(3,5) [OF assms(1)] assms(3) lost_grows [OF acks_growD(1) [OF assms(1)]]
  unfolding kept_def by (metis (no_types, lifting))

lemma voted_grow:
  assumes "acks_grow c H c' H' i" and "voted c H p t v"
  shows "voted c' H' p t v"
proof -
  have "H' t \<noteq> None" if "H t \<noteq> None"
    using that acks_growD(1) [OF assms(1)] unfolding grows_def by fastforce
  then show ?thesis using assms(2) acks_growD(2) [OF assms(1)] unfolding voted_def by blast
qed

lemma cut_of_grow:
  assumes "cut_of H args" and "grows H H'"
  shows "cut_of H' args"
proof -
  obtain l M L p where M: "H (aea_Term args) = Some (l, M)" "prefix L M" "good_log H L"
      "\<And>q. length L \<le> q \<Longrightarrow> q < length M \<Longrightarrow> lg_Term (M ! q) = aea_Term args"
    and p: "p < length L" "PrevLogIndex args = int p" "PrevLogTerm args = lg_Term (L ! p)" "Entries args = drop (Suc p) L"
    using assms(1) unfolding cut_of_def by blast
  obtain M' where M': "H' (aea_Term args) = Some (l, M')" "prefix M M'"
      "\<And>q. length M \<le> q \<Longrightarrow> q < length M' \<Longrightarrow> lg_Term (M' ! q) = aea_Term args"
    using assms(2) M(1) unfolding grows_def by blast
  have "lg_Term (M' ! q) = aea_Term args" if "length L \<le> q" "q < length M'" for q
    using that M(4) M'(2,3) by (cases "q < length M") (auto simp: prefix_def nth_append)
  then show ?thesis
    unfolding cut_of_def using M M' p good_log_mono [OF M(3) grows_extends [OF assms(2)]]
    by (intro exI [of _ l] exI [of _ M'] exI [of _ L] exI [of _ p]) (auto intro: prefix_order.trans)
qed

lemma elect_good_grow:
  assumes "acks_grow c H c' H' i" and "elect_good c H k el"
    and "rf_state (node c' k) = CANDIDATE \<Longrightarrow> rf_state (node c k) = CANDIDATE \<and>
      currentTerm (node c' k) = currentTerm (node c k) \<and> rlog (node c' k) = rlog (node c k) \<and>
      lastSnapshotIndex (node c' k) = lastSnapshotIndex (node c k)"
  shows "elect_good c' H' k el"
proof -
  have "H (rva_Term (el_args el)) = None" if "H' (rva_Term (el_args el)) = None"
    using that acks_growD(1) [OF assms(1)] unfolding grows_def by (metis not_None_eq old.prod.exhaust)
  moreover have "rva_Term (el_args el) \<le> dterm (node c' k)"
    using assms(2) acks_growD(4) [OF assms(1), of k] by (simp add: elect_good_def)
  moreover have "utd c' H' k (el_args el)" if "utd c H k (el_args el)"
    using utd_grow [OF assms(1) that] assms(2) by (simp add: elect_good_def)
  moreover have "\<exists>v. RVResp p k (el_args el) v \<in> net c' \<and> VoteGranted v" if "p \<in> set (el_voters el)" for p
    using that assms(2) acks_growD(2) [OF assms(1)] unfolding elect_good_def by blast
  ultimately show ?thesis
    using assms(2,3) by (auto simp: elect_good_def lastIdx_def lastTerm_def)
qed


lemma rv_msgs_step:
  assumes old: "rv_msgs_ok n c H" and gr: "acks_grow c H c' H' i"
    and rv: "\<And>s d args. RVReq s d args \<in> net c' \<Longrightarrow> RVReq s d args \<in> net c \<or>
        s = i \<and> i < n \<and> args = new \<and> dterm (node c i) < rva_Term new \<and> rva_Term new \<le> dterm (node c' i)"
    and rvr: "\<And>p s args reply. RVResp p s args reply \<in> net c' \<Longrightarrow> RVResp p s args reply \<in> net c \<or>
        p = i \<and> i < n \<and> RVReq s i args \<in> net c \<and> rvr_Term reply = 0 \<and>
        (VoteGranted reply \<longrightarrow> rva_Term args \<le> dterm (node c' i) \<and> (H' (rva_Term args) = None \<longrightarrow> utd c' H' i args))"
  shows "rv_msgs_ok n c' H'"
  unfolding rv_msgs_ok_def
proof (intro conjI allI impI, goal_cases)
  note G = acks_growD [OF gr]
  {
    case (1 s d args) then show ?case using rv old unfolding rv_msgs_ok_def by blast
  next
    case (2 s d args) then show ?case using rv old order.trans [OF _ G(4)] unfolding rv_msgs_ok_def by blast
  next
    case (3 s d d' args args')
    then show ?case using rv [of s d args] rv [of s d' args'] old unfolding rv_msgs_ok_def by (metis linorder_not_less)
  next
    case (4 p s args reply) then show ?case using rvr old unfolding rv_msgs_ok_def by blast
  next
    case (5 p s args reply) then show ?case using rvr old G(2) unfolding rv_msgs_ok_def by blast
  next
    case (6 p s args reply) then show ?case using rvr old unfolding rv_msgs_ok_def by blast
  next
    case (7 p s args reply) then show ?case using rvr old order.trans [OF _ G(4)] unfolding rv_msgs_ok_def by blast
  next
    case (8 p s args reply)
    have "H (rva_Term args) = None" using 8(3) G(1) unfolding grows_def by (metis not_None_eq old.prod.exhaust)
    then show ?case
      using 8 rvr [OF 8(1)] old utd_grow [OF gr, of p args] unfolding rv_msgs_ok_def by metis
  }
qed

lemma comp_inv_step:
  assumes inv: "comp_inv n c H" and gr: "acks_grow c H c' H' i"
    and peer: "peer_sorted (node c' i)" "kept c' H' i" "vote_ok c' H' i"
    and hist: "\<And>T l M. H' T = Some (l, M) \<Longrightarrow> 1 \<le> T \<and> good_log H' M \<and> terms_sorted M \<and> (\<forall>e\<in>set M. lg_Term e \<le> T) \<and>
        (H T = None \<longrightarrow> (\<exists>Q. majority n Q \<and> (\<forall>p\<in>Q. backed c' H' p T M)))"
    and ae: "\<And>a b args. AEReq a b args \<in> net c' \<Longrightarrow> AEReq a b args \<in> net c \<or> cut_of H' args"
    and resp: "\<And>p s args reply. AEResp p s args reply \<in> net c' \<Longrightarrow> Success reply \<Longrightarrow> AEResp p s args reply \<in> net c \<or>
        p = i \<and> i < n \<and> cut_of H args \<and> aea_Term args \<le> dterm (node c' i)"
    and rv: "\<And>s d args. RVReq s d args \<in> net c' \<Longrightarrow> RVReq s d args \<in> net c \<or>
        s = i \<and> i < n \<and> args = new \<and> dterm (node c i) < rva_Term new \<and> rva_Term new \<le> dterm (node c' i)"
    and rvr: "\<And>p s args reply. RVResp p s args reply \<in> net c' \<Longrightarrow> RVResp p s args reply \<in> net c \<or>
        p = i \<and> i < n \<and> RVReq s i args \<in> net c \<and> rvr_Term reply = 0 \<and>
        (VoteGranted reply \<longrightarrow> rva_Term args \<le> dterm (node c' i) \<and> (H' (rva_Term args) = None \<longrightarrow> utd c' H' i args))"
    and el: "\<And>k. k \<noteq> i \<Longrightarrow> elects c' k = elects c k" "\<And>el. elects c' i = Some el \<Longrightarrow> i < n \<and> elect_good c' H' i el"
  shows "comp_inv n c' H'"
proof -
  note G = acks_growD [OF gr]
  have old: "ae_msgs_ok n c H" "rv_msgs_ok n c H" "\<And>k el. elects c k = Some el \<Longrightarrow> k < n \<and> elect_good c H k el"
    using inv by (auto simp: comp_inv_def)
  have p: "peer_sorted (node c' p) \<and> kept c' H' p \<and> vote_ok c' H' p" if "p < n" for p
  proof (cases "p = i")
    case False
    have "peer_sorted (node c p)" "kept c H p" "vote_ok c H p" using inv that by (auto simp: comp_inv_def)
    then show ?thesis
      using G(3) [OF False] kept_grow [OF gr _ False] voted_grow [OF gr] by (simp add: vote_ok_def)
  qed (use peer in simp)
  have h: "\<exists>Q. majority n Q \<and> (\<forall>p\<in>Q. backed c' H' p T M)" if "H' T = Some (l, M)" for T l M
  proof (cases "H T")
    case None
    then show ?thesis using hist [OF that] by blast
  next
    case (Some lM)
    then obtain l0 M0 where M0: "H T = Some (l0, M0)" by (cases lM) auto
    then show ?thesis using inv backed_grow [OF gr _ M0 that] unfolding comp_inv_def by meson
  qed
  have sent: "cut_of H args" if "AEReq a b args \<in> net c" for a b args using old(1) that by (simp add: ae_msgs_ok_def)
  have sure: "p < n \<and> cut_of H args \<and> aea_Term args \<le> dterm (node c' p)"
    if "AEResp p s args reply \<in> net c'" "Success reply" for p s args reply
    using resp [OF that] old(1) that(2) G(4) [of p] unfolding ae_msgs_ok_def by (meson order.trans)
  have m: "ae_msgs_ok n c' H'"
    unfolding ae_msgs_ok_def using sent sure ae cut_of_grow [OF _ G(1)] by meson
  have r: "rv_msgs_ok n c' H'" by (rule rv_msgs_step [OF old(2) gr rv rvr])
  have e: "k < n \<and> elect_good c' H' k el" if "elects c' k = Some el" for k el
    using that old(3) [of k el] elect_good_grow [OF gr, of k el] el G(3) [of k] by (cases "k = i") auto
  show ?thesis
    unfolding comp_inv_def using p hist h m r e by blast
qed


section \<open>Steps that keep the logs\<close>

lemma dterm_persist [simp]: "raftstate (persister rf) = getPersistData rf' \<Longrightarrow> dterm rf = currentTerm rf'"
  by (simp add: dterm_def)

lemma quiet_sorted:
  assumes "peer_sorted rf" and "quiet rf rf'"
  shows "peer_sorted rf'" and "dterm rf \<le> dterm rf'"
proof -
  have q: "rlog rf' = rlog rf" "currentTerm rf \<le> currentTerm rf'"
      "raftstate (persister rf') = raftstate (persister rf) \<or> raftstate (persister rf') = getPersistData rf'"
    using assms(2) by (auto simp: quiet_def)
  show d: "dterm rf \<le> dterm rf'"
    using q(2,3) assms(1) by (auto simp: peer_sorted_def dterm_def)
  have "saved_log_ok rf'"
    using q(1,3) assms(1) by (elim disjE) (simp_all add: peer_sorted_def saved_log_ok_def getPersistData_def)
  moreover have "dterm rf' \<le> currentTerm rf'"
    using q(2,3) assms(1) by (auto simp: peer_sorted_def dterm_def)
  ultimately show "peer_sorted rf'"
    using assms(1) q(1) d by (fastforce simp: peer_sorted_def)
qed

lemma acks_grow_quiet:
  assumes "peer_sorted (node c i)" and "quiet (node c i) rf" and "node c' = (node c)(i := rf)" and "net c \<subseteq> net c'"
    and "\<And>p s args reply. AEResp p s args reply \<in> net c' \<Longrightarrow> Success reply \<Longrightarrow> AEResp p s args reply \<in> net c"
  shows "acks_grow c H c' H i" and "acked c' H p T j \<longleftrightarrow> acked c H p T j"
proof -
  have "ack_msg c' p T j \<longleftrightarrow> ack_msg c p T j" for p T j
    using assms(4,5) unfolding ack_msg_def by blast
  then show same: "acked c' H p T j \<longleftrightarrow> acked c H p T j" for p T j by (simp add: acked_def)
  show "acks_grow c H c' H i"
    unfolding acks_grow_def same using quiet_sorted(2) [OF assms(1,2)] assms(3,4) by simp
qed

lemma comp_inv_quiet:
  assumes inv: "comp_inv n c H" and i: "i < n" and q: "quiet (node c i) rf" and nd: "node c' = (node c)(i := rf)"
    and net: "net c \<subseteq> net c'"
    and vote: "voted c' H i (currentTerm rf) (voteFor rf)"
      "saved_vote (raftstate (persister rf)) = saved_vote (raftstate (persister (node c i))) \<or>
       saved_vote (raftstate (persister rf)) = Some (currentTerm rf, voteFor rf)"
    and ae: "\<And>a b args. AEReq a b args \<in> net c' \<Longrightarrow> AEReq a b args \<in> net c \<or> cut_of H args"
    and resp: "\<And>p s args reply. AEResp p s args reply \<in> net c' \<Longrightarrow> Success reply \<Longrightarrow> AEResp p s args reply \<in> net c"
    and rv: "\<And>s d args. RVReq s d args \<in> net c' \<Longrightarrow> RVReq s d args \<in> net c \<or>
        s = i \<and> args = new \<and> dterm (node c i) < rva_Term new \<and> rva_Term new \<le> dterm rf"
    and rvr: "\<And>p s args reply. RVResp p s args reply \<in> net c' \<Longrightarrow> RVResp p s args reply \<in> net c \<or>
        p = i \<and> RVReq s i args \<in> net c \<and> rvr_Term reply = 0 \<and>
        (VoteGranted reply \<longrightarrow> rva_Term args \<le> dterm rf \<and> (H (rva_Term args) = None \<longrightarrow> utd c' H i args))"
    and el: "\<And>k. k \<noteq> i \<Longrightarrow> elects c' k = elects c k" "\<And>el. elects c' i = Some el \<Longrightarrow> elect_good c' H i el"
  shows "comp_inv n c' H"
proof -
  have old: "peer_sorted (node c i)" "kept c H i" "vote_ok c H i" using inv i by (auto simp: comp_inv_def)
  note gr = acks_grow_quiet [OF old(1) q nd net resp]
  have rf: "node c' i = rf" "rlog rf = rlog (node c i)" using nd q by (simp_all add: quiet_def)
  show ?thesis
  proof (rule comp_inv_step [OF inv gr(1), where new = new])
    show "peer_sorted (node c' i)" using quiet_sorted(1) [OF old(1) q] rf by simp
    have "T \<le> dterm rf \<and> (has (rlog rf) T j \<or> (\<exists>T'>T. T' \<le> dterm rf \<and> lost H T' T j))" if "acked c' H i T j" for T j
    proof -
      have "acked c H i T j" using that gr(2) by blast
      then show ?thesis
        using old(2) quiet_sorted(2) [OF old(1) q] rf(2) unfolding kept_def by (metis order.trans)
    qed
    then show "kept c' H i" unfolding kept_def rf(1) by blast
    show "vote_ok c' H i"
      using vote old(3) voted_grow [OF gr(1)] unfolding vote_ok_def rf(1) by auto
    fix T l M assume "H T = Some (l, M)"
    then show "1 \<le> T \<and> good_log H M \<and> terms_sorted M \<and> (\<forall>e\<in>set M. lg_Term e \<le> T) \<and>
        (H T = None \<longrightarrow> (\<exists>Q. majority n Q \<and> (\<forall>p\<in>Q. backed c' H p T M)))"
      using inv unfolding comp_inv_def by (metis option.distinct(1))
  qed (use i rf(1) ae resp rv rvr el in blast)+
qed

text \<open>A step that sends no vote message and leaves the votes and the elections alone.\<close>

lemma comp_inv_calm:
  assumes inv: "comp_inv n c H" and i: "i < n" and q: "quiet (node c i) rf" and nd: "node c' = (node c)(i := rf)"
    and net: "net c \<subseteq> net c'" "\<And>m. m \<in> net c' \<Longrightarrow> m \<in> net c \<or> (\<exists>a b args. m = AEReq a b args \<and> cut_of H args)"
    and vote: "voted c H i (currentTerm rf) (voteFor rf)"
      "saved_vote (raftstate (persister rf)) = saved_vote (raftstate (persister (node c i))) \<or>
       saved_vote (raftstate (persister rf)) = Some (currentTerm rf, voteFor rf)"
    and cand: "rf_state rf = CANDIDATE \<Longrightarrow> rf_state (node c i) = CANDIDATE \<and> currentTerm rf = currentTerm (node c i)"
    and el: "elects c' = elects c"
  shows "comp_inv n c' H"
proof -
  have old: "peer_sorted (node c i)" using inv i by (auto simp: comp_inv_def)
  have resp: "AEResp p s args reply \<in> net c" if "AEResp p s args reply \<in> net c'" for p s args reply using net(2) [OF that] by auto
  note gr = acks_grow_quiet [OF old q nd net(1) resp]
  have "elect_good c' H i el" if "elects c' i = Some el" for el
    by (rule elect_good_grow [OF gr(1)]) (use inv that el nd cand q in \<open>auto simp: comp_inv_def quiet_def\<close>)
  moreover have "AEReq a b args \<in> net c \<or> cut_of H args" if "AEReq a b args \<in> net c'" for a b args
    using net(2) [OF that] by blast
  moreover have "m \<in> net c" if "m \<in> net c'" "\<And>a b args. m \<noteq> AEReq a b args" for m
    using net(2) [OF that(1)] that(2) by blast
  ultimately show ?thesis
    using voted_grow [OF gr(1) vote(1)] el by (intro comp_inv_quiet [OF inv i q nd net(1) _ vote(2)]) auto
qed


lemma comp_peer:
  assumes "comp_inv n c H" and "i < n"
  shows "peer_sorted (node c i)" and "kept c H i" and "vote_ok c H i"
  using assms by (auto simp: comp_inv_def)

lemma step_send_ae_comp:
  assumes inv: "comp_inv n c H" and hi: "hist_inv n c H" and "i < n" and "step_send_ae i j c = Some c'"
  shows "comp_inv n c' H"
proof -
  obtain rf sent where snd: "AE_send (node c i) j = Inr (rf, sent)"
      and c': "node c' = (node c)(i := rf)" "elects c' = elects c" "net c \<subseteq> net c'"
      "\<forall>m\<in>net c'. m \<in> net c \<or> (\<exists>a b args. m = AEReq a b args \<and> sent = Some args)"
    using assms(4) by (auto simp: step_send_ae_def step_defs subset_insertI split: if_splits sum.splits option.splits)
  have g: "good_log H (rlog (node c i))" "lastSnapshotIndex (node c i) = 0"
    using hi assms(3) by (auto simp: hist_inv_def peer_good_def)
  have cut: "cut_of H args" if s: "sent = Some args" for args
  proof -
    have "rlog (node c i) \<noteq> []" using g(1) by (simp add: good_log_def)
    then obtain p where p: "rf_state (node c i) = LEADER" "aea_Term args = currentTerm (node c i)" "p < length (rlog (node c i))"
        "PrevLogIndex args = int p" "PrevLogTerm args = lg_Term (rlog (node c i) ! p)" "Entries args = drop (Suc p) (rlog (node c i))"
      using AE_send_cut [of "node c i" j rf args] snd s g(2) by blast
    then have "H (aea_Term args) = Some (i, rlog (node c i))" using hi assms(3) by (simp add: hist_inv_def)
    then show ?thesis
      unfolding cut_of_def using g(1) p
      by (intro exI [of _ i] exI [of _ "rlog (node c i)"] exI [of _ p]) simp
  qed
  note fr = AE_send_frame [OF snd]
  show ?thesis
  proof (rule comp_inv_calm [OF inv assms(3) quiet_ops(1) [OF snd] c'(1,3)])
    show "voted c H i (currentTerm rf) (voteFor rf)" using comp_peer(3) [OF inv assms(3)] fr by (simp add: vote_ok_def)
  qed (use c' cut fr in auto)
qed

lemma leader_vote:
  assumes "election_inv n c" and "hist_inv n c H" and "i < n" and "rf_state (node c i) = LEADER"
  shows "voteFor (node c i) = int i"
proof -
  have "H (currentTerm (node c i)) = Some (i, rlog (node c i))" using assms(2-4) by (simp add: hist_inv_def)
  then have "(i, currentTerm (node c i), int i) \<in> votes c" using assms(2) unfolding hist_inv_def by blast
  then show ?thesis using assms(1) unfolding election_inv_def votes_ok_def by blast
qed

lemma step_ae_replied_comp:
  assumes inv: "comp_inv n c H" and hi: "hist_inv n c H" and e: "election_inv n c" and "i < n"
    and "step_ae_replied i j reply c = Some c'" and "\<not> stale_raise c (AEReplied i j reply)"
  shows "comp_inv n c' H"
proof -
  obtain rf nxt args where ae: "AE_reply (node c i) j args reply = Inr (rf, nxt)"
    and c': "node c' = (node c)(i := rf)" "net c' = net c" "elects c' = elects c"
    using assms(5) by (auto simp: step_ae_replied_def step_defs split: if_splits sum.splits sender.splits)
  have old: "voted c H i (currentTerm (node c i)) (voteFor (node c i))"
    using comp_peer(3) [OF inv assms(4)] by (simp add: vote_ok_def)
  have fr: "currentTerm rf = currentTerm (node c i) \<and> voteFor rf = voteFor (node c i) \<and> rf_state rf = rf_state (node c i) \<and>
      persister rf = persister (node c i) \<or>
      rf_state (node c i) = LEADER \<and> voteFor rf = voteFor (node c i) \<and> rf_state rf = FOLLOWER \<and>
      raftstate (persister rf) = getPersistData rf"
    using ae assms(6)
    by (auto simp: AE_reply_def go_Inr_iffs Let_def frame_simps getPersistData_def LeaderCommit_def split: if_splits)
  show ?thesis
  proof (rule comp_inv_calm [OF inv assms(4) quiet_ops(2) [OF ae] c'(1)])
    show "voted c H i (currentTerm rf) (voteFor rf)"
      using fr old leader_vote [OF e hi assms(4)] by (auto simp: voted_def)
  qed (use c' fr in auto)
qed


lemma step_rv_reply_comp:
  assumes inv: "comp_inv n c H" and hi: "hist_inv n c H" and "i < n" and "step_rv_reply i p r c = Some c'"
  shows "comp_inv n c' H"
proof -
  obtain el rf res another el' where el: "elects c i = Some el"
    and pend: "\<And>v. r = Some v \<Longrightarrow> RVResp p i (el_args el) v \<in> net c"
    and rep: "SendRequest_reply (el_args el) (node c i, el_res el, el_another el) r = (rf, res, another)"
    and el': "el' = el\<lparr>el_pending := remove1 p (el_pending el), el_res := res,
             el_another := another,
             el_voters := (if res = el_res el then el_voters el else p # el_voters el)\<rparr>"
    and c': "c' = set_node i rf (c\<lparr>elects := (elects c)(i := Some el')\<rparr>)"
    using assms(4) by (auto simp: step_rv_reply_def split: option.splits if_splits prod.splits)
  have pos: "1 \<le> rva_Term (el_args el)" using hi el by (simp add: hist_inv_def)
  have zero: "rvr_Term v = 0" if "r = Some v" for v
    using pend [OF that] inv unfolding comp_inv_def rv_msgs_ok_def by blast
  have same: "rf = node c i" "res = el_res el \<or> (\<exists>v. RVResp p i (el_args el) v \<in> net c \<and> VoteGranted v)"
    using rep zero pend pos by (cases r; auto split: if_splits)+
  have nd: "node c' = (node c)(i := rf)" "net c' = net c" using c' same(1) by (simp_all add: step_defs)
  have g: "elect_good c H i el" using inv el by (simp add: comp_inv_def)
  note old = comp_peer [OF inv assms(3)]
  have "acked c' H q T j \<longleftrightarrow> acked c H q T j" for q T j by (simp add: acked_def ack_msg_def nd)
  then have "elect_good c' H i el'"
    using g same nd by (auto simp: elect_good_def el' utd_def)
  then show ?thesis
    using old(3) same(1)
    by (intro comp_inv_quiet [OF inv assms(3) quiet_refl, of c']) (auto simp: nd c' step_defs vote_ok_def voted_def)
qed

lemma step_local_comp:
  assumes inv: "comp_inv n c H" and "i < n"
    and "e \<in> {AELost i j, ApplyCollect i, ApplyDeliver i}" and "cstep n c e = Some c'"
  shows "comp_inv n c' H"
proof -
  have "quiet (node c i) (node c' i) \<and> node c' = (node c)(i := node c' i) \<and> elects c' = elects c \<and> net c' = net c \<and>
      currentTerm (node c' i) = currentTerm (node c i) \<and> voteFor (node c' i) = voteFor (node c i) \<and>
      rf_state (node c' i) = rf_state (node c i) \<and> persister (node c' i) = persister (node c i)"
    using assms(3,4)
    by (auto simp: step_defs Apply_deliver_def Let_def quiet_def split: sender.splits list.splits if_splits elim!: res_opt.elims)
  then show ?thesis
    using comp_peer(3) [OF inv assms(2)] by (intro comp_inv_calm [OF inv assms(2), of "node c' i"]) (auto simp: vote_ok_def)
qed


section \<open>Elections\<close>

text \<open>
  A candidate, and a voter that compares logs: what the voter has acknowledged and still has is covered by the last
  entry of a log that is at least as up to date.
\<close>

lemma has_last:
  assumes "terms_sorted L" and "has L T i" and "L \<noteq> []"
  shows "T < lg_Term (last L) \<or> T = lg_Term (last L) \<and> i \<le> length L - 1"
proof -
  have "i < length L" using assms(2) by (simp add: has_def)
  then have "i \<le> length L - 1" by linarith
  moreover have "lg_Term (L ! i) \<le> lg_Term (L ! (length L - 1))"
    using assms calculation by (simp add: terms_sorted_def)
  ultimately show ?thesis using assms(2,3) by (auto simp: has_def last_conv_nth)
qed

lemma kept_utd:
  assumes inv: "comp_inv n c H" and hi: "hist_inv n c H" and "p < n" and up: "logUpToDate (node c p) args"
    and "dterm (node c p) \<le> rva_Term args" and "H (rva_Term args) = None"
  shows "utd c H p args"
  unfolding utd_def
proof (intro allI impI, elim conjE)
  fix T i assume a: "acked c H p T i" "T < rva_Term args"
  note old = comp_peer [OF inv assms(3)]
  have ne: "rlog (node c p) \<noteq> []" "lastSnapshotIndex (node c p) = 0"
    using hi assms(3) by (auto simp: hist_inv_def peer_good_def good_log_def)
  consider "has (rlog (node c p)) T i" | T' where "T < T'" "T' \<le> dterm (node c p)" "lost H T' T i"
    using old(2) a(1) unfolding kept_def by blast
  then show "covers args T i \<or> (\<exists>T'>T. T' < rva_Term args \<and> lost H T' T i)"
  proof cases
    case 1
    then have "i < length (rlog (node c p))" by (simp add: has_def)
    then have "int i \<le> lastIdx (node c p)" using ne(2) by (simp add: lastIdx_def)
    then have "T < lastTerm (node c p) \<or> T = lastTerm (node c p) \<and> int i \<le> lastIdx (node c p)"
      using has_last [of "rlog (node c p)" T i] 1 old(1) ne by (auto simp: peer_sorted_def lastTerm_def)
    then show ?thesis using up by (auto simp: logUpToDate_def covers_def)
  next
    case 2
    have "T' \<noteq> rva_Term args" using 2(3) assms(6) by (auto simp: lost_def)
    then have "T' < rva_Term args" using 2(2) assms(5) by simp
    then show ?thesis using 2 by blast
  qed
qed

lemma step_timeout_comp:
  assumes inv: "comp_inv n c H" and hi: "hist_inv n c H" and e: "election_inv n c" and "i < n" and "step_timeout n i c = Some c'"
  shows "comp_inv n c' H"
proof (cases "rf_state (node c i) = LEADER")
  case True
  then have "c' = set_node i (resetElectionTimer (node c i)) c"
    using Election_begin_cases [OF node_wf [OF e assms(4)]] assms(5)
    by (auto simp: step_timeout_def split: if_splits)
  then show ?thesis
    using comp_peer(3) [OF inv assms(4)]
    by (intro comp_inv_calm [OF inv assms(4) quiet_ops(7)]) (auto simp: step_defs frame_simps vote_ok_def)
next
  case False
  have wf: "rlog (node c i) \<noteq> []" "me (node c i) = i" using node_log [OF e assms(4)] e assms(4) by (auto simp: election_inv_defs)
  define args where "args = \<lparr>rva_Term = currentTerm (node c i) + 1, CandidateId = int i,
      LastLogIndex = lastIdx (node c i), LastLogterm = lastTerm (node c i)\<rparr>"
  obtain rf where beg: "Election_begin (node c i) = Inr (rf, Some args)" and q: "quiet (node c i) rf"
    and rf: "currentTerm rf = rva_Term args" "voteFor rf = int i" "raftstate (persister rf) = getPersistData rf"
      "lastIdx rf = lastIdx (node c i)" "lastTerm rf = lastTerm (node c i)"
    using False wf
    by (auto simp: Election_begin_def Let_def frame_simps quiet_def args_def lastIdx_def lastTerm_def getPersistData_def)
  let ?others = "filter (\<lambda>p. p \<noteq> i) [0..<n]"
  have c': "c' = send ((\<lambda>p. RVReq i p args) ` set ?others) (set_node i rf
             (c\<lparr>elects := (elects c)(i := Some \<lparr>el_args = args, el_pending = ?others, el_res = 0,
                   el_another = False, el_voters = []\<rparr>),
                votes := insert (i, rva_Term args, int i) (votes c)\<rparr>))"
    using assms(5) by (simp add: step_timeout_def beg Let_def split: if_splits)
  have nd: "node c' = (node c)(i := rf)" "net c \<subseteq> net c'" by (auto simp: c' step_defs)
  have sorted: "peer_sorted (node c i)" by (rule comp_peer(1) [OF inv assms(4)])
  have d: "dterm rf = rva_Term args" "dterm (node c i) < rva_Term args"
    using rf(1,3) sorted by (simp_all add: peer_sorted_def args_def)
  have "acks_grow c H c' H i"
    by (rule acks_grow_quiet(1) [OF sorted q nd]) (auto simp: c' step_defs)
  moreover have "acked c' H p T j \<longleftrightarrow> acked c H p T j" for p T j
    by (rule acks_grow_quiet(2) [OF sorted q nd]) (auto simp: c' step_defs)
  moreover have "utd c H i args" if "H (rva_Term args) = None"
    by (rule kept_utd [OF inv hi assms(4)]) (use d that in \<open>auto simp: logUpToDate_def args_def\<close>)
  ultimately have "utd c' H i args" if "H (rva_Term args) = None"
    using that by (simp add: utd_def)
  then have "elect_good c' H i el" if "elects c' i = Some el" for el
    using that d rf by (auto simp: elect_good_def c' step_defs args_def)
  then show ?thesis
    by (intro comp_inv_quiet [OF inv assms(4) q nd, where new = args])
      (use rf d in \<open>auto simp: c' step_defs voted_def\<close>)
qed

text \<open>
  A vote is given after comparing the logs, or it repeats an earlier vote of the term for the same request.
\<close>

lemma granted_utd:
  assumes inv: "comp_inv n c H" and hi: "hist_inv n c H" and e: "election_inv n c" and "i < n"
    and req: "RVReq src i args \<in> net c" and "grants (node c i) args" and none: "H (rva_Term args) = None"
  shows "utd c H i args"
proof (cases "voteFor (node c i) = CandidateId args \<and> currentTerm (node c i) = rva_Term args")
  case True
  have src: "CandidateId args = int src" "src \<noteq> i" using e req by (auto simp: election_inv_def rv_net_ok_def)
  have "voted c H i (rva_Term args) (int src)"
    using comp_peer(3) [OF inv assms(4)] True src by (simp add: vote_ok_def)
  then obtain args' reply where r: "RVResp i src args' reply \<in> net c" "VoteGranted reply" "rva_Term args' = rva_Term args"
    using src(2) none unfolding voted_def by auto
  have rv: "rv_msgs_ok n c H" using inv by (simp add: comp_inv_def)
  have "RVReq src i args' \<in> net c" using rv r(1) unfolding rv_msgs_ok_def by blast
  then have "args' = args" using rv req r(3) unfolding rv_msgs_ok_def by blast
  then show ?thesis using rv r none unfolding rv_msgs_ok_def by blast
next
  case False
  then have up: "logUpToDate (node c i) args" "currentTerm (node c i) \<le> rva_Term args"
    using assms(6) by (auto simp: grants_def)
  then show ?thesis
    using kept_utd [OF inv hi assms(4) up(1) _ none] comp_peer(1) [OF inv assms(4)] by (simp add: peer_sorted_def)
qed

lemma step_recv_rv_comp:
  assumes inv: "comp_inv n c H" and hi: "hist_inv n c H" and e: "election_inv n c" and "i < n"
    and "step_recv_rv i src args c = Some c'"
  shows "comp_inv n c' H"
proof -
  obtain rf reply where rv: "RequestVote (node c i) args = Inr (rf, reply)" and req: "RVReq src i args \<in> net c"
    and c': "net c' = insert (RVResp i src args reply) (net c)" "node c' = (node c)(i := rf)" "elects c' = elects c"
    using assms(5) by (auto simp: step_recv_rv_def step_defs split: if_splits sum.splits)
  note out = RequestVote_outcome [OF node_wf [OF e assms(4)], of args, unfolded rv, simplified]
  have q: "quiet (node c i) rf" by (rule quiet_RequestVote [OF node_wf [OF e assms(4)] rv])
  have src: "CandidateId args = int src" using e req by (auto simp: election_inv_def rv_net_ok_def)
  have nd: "net c \<subseteq> net c'" "node c' i = rf" using c' by auto
  note ack = acks_grow_quiet [OF comp_peer(1) [OF inv assms(4)] q c'(2) nd(1)]
  have gr: "acks_grow c H c' H i" by (rule ack(1)) (use c'(1) in auto)
  have same: "acked c' H p T j \<longleftrightarrow> acked c H p T j" for p T j by (rule ack(2)) (use c'(1) in auto)
  have d: "dterm rf = max (currentTerm (node c i)) (rva_Term args)" using out by (auto simp: dterm_def)
  have granted: "utd c' H i args" if "VoteGranted reply" "H (rva_Term args) = None"
    using granted_utd [OF inv hi e assms(4) req] that out by (simp add: utd_def same)
  have vt: "voted c' H i (currentTerm rf) (voteFor rf)"
  proof (cases "VoteGranted reply")
    case True
    then have "currentTerm rf = rva_Term args" "voteFor rf = int src" using out src by (auto simp: grants_def)
    then show ?thesis using True c'(1) by (auto simp: voted_def)
  next
    case False
    have "voted c' H i (currentTerm (node c i)) (voteFor (node c i))"
      using comp_peer(3) [OF inv assms(4)] voted_grow [OF gr] by (simp add: vote_ok_def)
    then show ?thesis using False out by (auto simp: voted_def max_def split: if_splits)
  qed
  have el: "elect_good c' H i el" if "elects c' i = Some el" for el
    by (rule elect_good_grow [OF gr])
      (use inv that c' q out nd(2) in \<open>auto simp: comp_inv_def quiet_def grants_def max_def split: if_splits\<close>)
  show ?thesis
    by (rule comp_inv_quiet [OF inv assms(4) q c'(2) nd(1) vt])
      (use c' out d granted req el in auto)
qed

section \<open>Crashes\<close>

lemma hist_comp:
  assumes "comp_inv n c H" and "H T = Some (l, M)"
  shows "1 \<le> T \<and> good_log H M \<and> terms_sorted M \<and> (\<forall>e\<in>set M. lg_Term e \<le> T)"
  using assms unfolding comp_inv_def by meson

lemma Make_saved:
  assumes "Make n i (persister rf) = Inr rf'" and "saved_log_ok rf"
  shows "persister rf' = persister rf \<and> rlog rf' = rlog rf \<and> saved_log_ok rf' \<and> dterm rf' = dterm rf \<and>
    currentTerm rf' = dterm rf \<and> rf_state rf' = FOLLOWER \<and>
    (voteFor rf' = -1 \<or> saved_vote (raftstate (persister rf)) = Some (currentTerm rf', voteFor rf'))"
  using assms by (auto simp: saved_log_ok_def Make_def ReadRaftState_def dterm_def genesis_def)

lemma step_crash_comp:
  assumes inv: "comp_inv n c H" and "i < n" and "step_crash n i c = Some c'"
  shows "comp_inv n c' H"
proof -
  obtain rf where mk: "Make n i (persister (node c i)) = Inr rf"
    and c': "node c' = (node c)(i := rf)" "net c' = net c" "elects c' = (elects c)(i := None)"
    using assms(3) by (auto simp: step_crash_def step_defs elim!: res_opt.elims)
  note old = comp_peer [OF inv assms(2)]
  have rf: "persister rf = persister (node c i)" "rlog rf = rlog (node c i)" "saved_log_ok rf" "dterm rf = dterm (node c i)"
      "currentTerm rf = dterm (node c i)"
      "voteFor rf = -1 \<or> saved_vote (raftstate (persister (node c i))) = Some (currentTerm rf, voteFor rf)"
    using Make_saved [OF mk] old(1) by (auto simp: peer_sorted_def)
  have same: "acked c' H p T j \<longleftrightarrow> acked c H p T j" for p T j by (simp add: acked_def ack_msg_def c'(2))
  have vt: "voted c' H p t v \<longleftrightarrow> voted c H p t v" for p t v by (simp add: voted_def c'(2))
  show ?thesis
  proof (rule comp_inv_step [OF inv, of c' H i])
    show "acks_grow c H c' H i" unfolding acks_grow_def same using c' rf(4) by simp
    show "peer_sorted (node c' i)" using old(1) rf c'(1) by (simp add: peer_sorted_def)
    show "kept c' H i" using old(2) rf c'(1) by (simp add: kept_def same)
    show "vote_ok c' H i" using old(3) rf(1,6) c'(1) by (auto simp: vote_ok_def vt) (simp add: voted_def)
  qed (use hist_comp [OF inv] c' in auto)
qed

section \<open>Accepted entries\<close>

lemma AppendEntries_facts:
  assumes "rlog rf \<noteq> []" and "AppendEntries rf args = Inr (rf', reply)"
  shows "Success reply \<longleftrightarrow> ae_accepts rf args"
    and "aea_Term args < currentTerm rf \<and> rf' = rf \<or>
      currentTerm rf \<le> aea_Term args \<and> currentTerm rf' = aea_Term args \<and> voteFor rf' = voteFor rf \<and> rf_state rf' = FOLLOWER \<and>
      raftstate (persister rf') = getPersistData rf'"
proof -
  consider "aea_Term args < currentTerm rf"
    | "currentTerm rf \<le> aea_Term args" "\<not> ae_accepts rf args" | "ae_accepts rf args"
    by linarith
  then have "(Success reply \<longleftrightarrow> ae_accepts rf args) \<and> (aea_Term args < currentTerm rf \<and> rf' = rf \<or>
      currentTerm rf \<le> aea_Term args \<and> currentTerm rf' = aea_Term args \<and> voteFor rf' = voteFor rf \<and> rf_state rf' = FOLLOWER \<and>
      raftstate (persister rf') = getPersistData rf')"
  proof cases
    case 3
    then have "currentTerm rf \<le> aea_Term args" by (simp add: ae_accepts_def)
    then show ?thesis
      using assms 3 by (auto simp: AppendEntries_accepted go_bind_Inr_iff AE_commit_def notifyApply_def frame_simps
          ae_reply_of_Success getPersistData_def split: if_splits)
  qed (use assms in \<open>auto simp: AppendEntries_stale AppendEntries_rejected frame_simps ae_reply_of_Success
      getPersistData_def ae_accepts_def\<close>)
  then show "Success reply \<longleftrightarrow> ae_accepts rf args"
    and "aea_Term args < currentTerm rf \<and> rf' = rf \<or>
      currentTerm rf \<le> aea_Term args \<and> currentTerm rf' = aea_Term args \<and> voteFor rf' = voteFor rf \<and> rf_state rf' = FOLLOWER \<and>
      raftstate (persister rf') = getPersistData rf'"
    by blast+
qed

text \<open>
  The new log of the follower. What the peer has acknowledged before is in it, or the leader of the message has lost it:
  a message that would cut off entries of its own term is late and not accepted.
\<close>

lemma accepted_kept:
  assumes inv: "comp_inv n c H" and hi: "hist_inv n c H" and "i < n" and acc: "ae_accepts (node c i) args"
    and M: "H (aea_Term args) = Some (l, M)" "prefix L M"
      "\<And>q. length L \<le> q \<Longrightarrow> q < length M \<Longrightarrow> lg_Term (M ! q) = aea_Term args"
    and p: "p < length L" "PrevLogIndex args = int p" "Entries args = drop (Suc p) L"
    and a: "acked c H i T j"
  shows "T \<le> aea_Term args \<and> (has L T j \<or> (\<exists>T'>T. T' \<le> aea_Term args \<and> lost H T' T j))"
proof -
  note old = comp_peer [OF inv assms(3)]
  have rf: "lastSnapshotIndex (node c i) = 0" "rlog (node c i) \<noteq> []"
    using hi assms(3) by (auto simp: hist_inv_def peer_good_def good_log_def)
  have le: "dterm (node c i) \<le> aea_Term args" using acc old(1) by (simp add: ae_accepts_def peer_sorted_def)
  have k: "T \<le> dterm (node c i)" "has (rlog (node c i)) T j \<or> (\<exists>T'>T. T' \<le> dterm (node c i) \<and> lost H T' T j)"
    using old(2) a unfolding kept_def by blast+
  have short: "has L T j" if "has M T j" "j < length L" using that M(2) by (auto simp: has_def prefix_def nth_append)
  have "has L T j \<or> lost H (aea_Term args) T j \<and> T < aea_Term args" if h: "has (rlog (node c i)) T j"
  proof (cases "T = aea_Term args")
    case True
    have "T < lastTerm (node c i) \<or> T = lastTerm (node c i) \<and> j \<le> length (rlog (node c i)) - 1"
      using has_last [OF _ h rf(2)] old(1) by (simp add: peer_sorted_def lastTerm_def)
    then have "int j \<le> int p + int (length (drop (Suc p) L))"
      using acc True h rf(1) p by (auto simp: ae_accepts_def ae_late_def lastIdx_def has_def)
    then have "j < length L" using p(1) by simp
    moreover have "has M T j" using a M(1) True by (auto simp: acked_def)
    ultimately show ?thesis using short by blast
  next
    case False
    show ?thesis
    proof (cases "has M T j")
      case True
      then have "j < length L" using M(3) [of j] False by (force simp: has_def)
      then show ?thesis using short True by blast
    next
      case False
      then show ?thesis using M(1) k(1) le \<open>T \<noteq> aea_Term args\<close> by (auto simp: lost_def)
    qed
  qed
  then show ?thesis using k le by (meson order.trans order_refl)
qed

lemma terms_sorted_prefix: "terms_sorted M \<Longrightarrow> prefix L M \<Longrightarrow> terms_sorted L"
  unfolding terms_sorted_def prefix_def by (metis length_append nth_append le_less_trans trans_less_add1)

lemma accepted_ae_comp:
  assumes inv: "comp_inv n c H" and hi: "hist_inv n c H" and "i < n" and ae: "AppendEntries (node c i) args = Inr (rf, reply)"
    and c': "net c' = insert (AEResp i src args reply) (net c)" "node c' = (node c)(i := rf)" "elects c' = elects c"
    and cut: "cut_of H args" and acc: "ae_accepts (node c i) args"
  shows "comp_inv n c' H"
proof -
  let ?T = "aea_Term args"
  note old = comp_peer [OF inv assms(3)]
  have g: "peer_good H (node c i)" "rlog (node c i) \<noteq> []"
    using hi assms(3) by (auto simp: hist_inv_def peer_good_def good_log_def)
  note fact = AppendEntries_facts [OF g(2) ae]
  note eff = AppendEntries_effect [OF g(2) ae]
  have nd: "net c \<subseteq> net c'" "node c' i = rf" using c' by auto
  have rf: "currentTerm rf = ?T" "rf_state rf = FOLLOWER" "raftstate (persister rf) = getPersistData rf"
      "currentTerm (node c i) \<le> ?T" "rlog rf = ae_log (node c i) args"
    using fact(2) eff acc by (auto simp: ae_accepts_def)
  obtain l M L p where M: "H ?T = Some (l, M)" "prefix L M" "good_log H L"
      "\<And>q. length L \<le> q \<Longrightarrow> q < length M \<Longrightarrow> lg_Term (M ! q) = ?T"
    and p: "p < length L" "PrevLogIndex args = int p" "PrevLogTerm args = lg_Term (L ! p)" "Entries args = drop (Suc p) L"
    using cut unfolding cut_of_def by blast
  have L: "rlog rf = L" using ae_log_good [OF g(1) M(3) p acc] rf(5) by simp
  have d: "dterm rf = ?T" "dterm (node c i) \<le> ?T" using rf(1,3,4) old(1) by (simp_all add: peer_sorted_def)
  have ack: "acked c H q T j \<or> q = i \<and> T = ?T \<and> has L T j" if a: "acked c' H q T j" for q T j
  proof -
    obtain l' M' where M': "H T = Some (l', M')" "has M' T j" "q = l' \<or> ack_msg c' q T j"
      using a unfolding acked_def by blast
    have "ack_msg c q T j \<or> q = i \<and> T = ?T \<and> j < length L" if "ack_msg c' q T j"
      using that p c'(1) by (auto simp: ack_msg_def)
    then show ?thesis using M' M(1,2) unfolding acked_def by (auto simp: has_def prefix_def nth_append)
  qed
  have "acked c H q T j \<or> q = i \<and> dterm (node c i) \<le> T" if "acked c' H q T j" for q T j
    using ack [OF that] d(2) by auto
  then have gr: "acks_grow c H c' H i" unfolding acks_grow_def using d c'(2) nd by simp
  show ?thesis
  proof (rule comp_inv_step [OF inv gr])
    have "terms_sorted L" "\<forall>e\<in>set L. lg_Term e \<le> ?T"
      using hist_comp [OF inv M(1)] terms_sorted_prefix M(2) set_mono_prefix by blast+
    then show "peer_sorted (node c' i)"
      using rf(1,3) d(1) nd(2) L by (simp add: peer_sorted_def saved_log_ok_def getPersistData_def)
    have "T \<le> ?T \<and> (has L T j \<or> (\<exists>T'>T. T' \<le> ?T \<and> lost H T' T j))" if "acked c' H i T j" for T j
      using ack [OF that] accepted_kept [OF inv hi assms(3) acc M(1,2,4) p(1,2,4), of T j] by auto
    then show "kept c' H i" by (simp add: kept_def nd(2) d(1) L)
    show "vote_ok c' H i" using rf(1,3) M(1) nd(2) by (simp add: vote_ok_def voted_def)
    fix el assume "elects c' i = Some el"
    then have "elect_good c H i el" using inv c'(3) by (simp add: comp_inv_def)
    from elect_good_grow [OF gr this] show "i < n \<and> elect_good c' H i el" using rf(2) nd(2) assms(3) by simp
  qed (use hist_comp [OF inv] c' cut assms(3) d nd(2) in auto)
qed

lemma step_recv_ae_comp:
  assumes inv: "comp_inv n c H" and hi: "hist_inv n c H" and "i < n" and "step_recv_ae i src args c = Some c'"
  shows "comp_inv n c' H"
proof -
  let ?T = "aea_Term args"
  obtain rf reply where ae: "AppendEntries (node c i) args = Inr (rf, reply)" and req: "AEReq src i args \<in> net c"
    and c': "net c' = insert (AEResp i src args reply) (net c)" "node c' = (node c)(i := rf)" "elects c' = elects c"
    using assms(4) by (auto simp: step_recv_ae_def step_defs split: if_splits sum.splits)
  have cut: "cut_of H args" using inv req by (auto simp: comp_inv_def ae_msgs_ok_def)
  then have H: "H ?T \<noteq> None" by (auto simp: cut_of_def)
  note old = comp_peer [OF inv assms(3)]
  have g: "peer_good H (node c i)" "rlog (node c i) \<noteq> []"
    using hi assms(3) by (auto simp: hist_inv_def peer_good_def good_log_def)
  note fact = AppendEntries_facts [OF g(2) ae]
  note eff = AppendEntries_effect [OF g(2) ae]
  have nd: "net c \<subseteq> net c'" "node c' i = rf" using c' by auto
  have grow: "voted c' H i t v" if "voted c H i t v" for t v using that nd(1) unfolding voted_def by blast
  have "voted c' H i ?T v" for v using H by (simp add: voted_def)
  then have vt: "voted c' H i (currentTerm rf) (voteFor rf)"
    using fact(2) old(3) grow by (auto simp: vote_ok_def)
  show ?thesis
  proof (cases "ae_accepts (node c i) args")
    case False
    have q: "quiet (node c i) rf"
      using fact(2) eff False by (auto simp: quiet_def)
    have gr: "acks_grow c H c' H i"
      by (rule acks_grow_quiet(1) [OF old(1) q c'(2) nd(1)]) (use c'(1) fact(1) False in auto)
    have "elect_good c' H i el" if "elects c' i = Some el" for el
      by (rule elect_good_grow [OF gr]) (use inv that c' q fact(2) nd(2) in \<open>auto simp: comp_inv_def quiet_def\<close>)
    then show ?thesis
      by (intro comp_inv_quiet [OF inv assms(3) q c'(2) nd(1) vt]) (use fact False c' in auto)
  qed (use accepted_ae_comp [OF inv hi assms(3) ae c' cut] in blast)
qed

section \<open>Entries of a leader\<close>

lemma terms_sorted_snoc: "terms_sorted L \<Longrightarrow> \<forall>e\<in>set L. lg_Term e \<le> lg_Term x \<Longrightarrow> terms_sorted (L @ [x])"
  by (auto simp: terms_sorted_def nth_append less_Suc_eq)

lemma Start_leader:
  assumes "Start rf cmd = Inr (rf', r)" and "rlog rf \<noteq> []" and "rf_state rf = LEADER"
  shows "rlog rf' = rlog rf @ [\<lparr>lg_Command = cmd, lg_Term = currentTerm rf\<rparr>] \<and> currentTerm rf' = currentTerm rf \<and>
    voteFor rf' = voteFor rf \<and> rf_state rf' = LEADER \<and> raftstate (persister rf') = getPersistData rf'"
  using assms by (auto simp: Start_def Let_def go_Inr_iffs frame_simps getPersistData_def)

lemma ack_msg_short:
  assumes "comp_inv n c H" and "H T = Some (l, L)" and "ack_msg c q T j"
  shows "j < length L"
proof -
  obtain args where args: "cut_of H args" "aea_Term args = T" "int j \<le> PrevLogIndex args + int (length (Entries args))"
    using assms(1,3) unfolding ack_msg_def comp_inv_def ae_msgs_ok_def by blast
  then obtain K p where "prefix K L" "p < length K" "PrevLogIndex args = int p" "Entries args = drop (Suc p) K"
    using assms(2) by (auto simp: cut_of_def)
  then show ?thesis using args(3) prefix_length_le [of K L] by auto
qed

lemma start_acked:
  assumes inv: "comp_inv n c H" and HT: "H T = Some (i, L)" and net: "net c' = net c"
    and a: "acked c' (H(T \<mapsto> (i, L @ [x]))) q t j"
  shows "acked c H q t j \<or> q = i \<and> t = T \<and> has (L @ [x]) t j"
proof (cases "t = T")
  case False
  then show ?thesis using a net by (simp add: acked_def ack_msg_def)
next
  case True
  then have h: "has (L @ [x]) T j" "q = i \<or> ack_msg c q T j" using a net by (auto simp: acked_def ack_msg_def)
  have "has L T j" if "ack_msg c q T j"
    using ack_msg_short [OF inv HT that] h(1) by (simp add: has_def nth_append)
  then show ?thesis using h True HT by (auto simp: acked_def)
qed

lemma leader_start_comp:
  assumes inv: "comp_inv n c H" and hi: "hist_inv n c H" and e: "election_inv n c" and "i < n"
    and step: "cstep n c (ClientStart i cmd) = Some c'" and st: "Start (node c i) cmd = Inr (rf, r)"
    and c': "node c' = (node c)(i := rf)" "net c' = net c" "elects c' = elects c" and ldr: "rf_state (node c i) = LEADER"
  shows "comp_inv n c' (note_leader i c' H) \<and> grows H (note_leader i c' H)"
proof -
  have ne: "rlog (node c i) \<noteq> []" by (rule node_log [OF e assms(4)])
  note old = comp_peer [OF inv assms(4)]
  define T x L where "T = currentTerm (node c i)" and "x = \<lparr>lg_Command = cmd, lg_Term = currentTerm (node c i)\<rparr>"
    and "L = rlog (node c i)"
  have rf: "rlog rf = L @ [x]" "currentTerm rf = T" "voteFor rf = voteFor (node c i)" "rf_state rf = LEADER"
      "raftstate (persister rf) = getPersistData rf"
    using Start_leader [OF st ne ldr] by (simp_all add: T_def x_def L_def)
  have H': "note_leader i c' H = H(T \<mapsto> (i, L @ [x]))" (is "_ = ?H") using rf c'(1) by (simp add: note_leader_def)
  have HT: "1 \<le> T" "H T = Some (i, L)" using hi assms(4) ldr by (auto simp: hist_inv_def T_def L_def)
  have good: "good_log ?H (L @ [x])"
    using step_start_hist [OF hi e assms(4) step] assms(4) c'(1) rf(1) unfolding H' by (auto simp: hist_inv_def peer_good_def)
  have xT: "lg_Term x = T" by (simp add: x_def T_def)
  have d: "dterm rf = T" "dterm (node c i) \<le> T" "\<forall>e\<in>set L. lg_Term e \<le> T" "terms_sorted L"
    using rf(2,5) old(1) by (auto simp: peer_sorted_def T_def L_def)
  have gr: "grows H ?H" unfolding grows_def using HT(2) xT by (auto simp: nth_append)
  note ack = start_acked [OF inv HT(2) c'(2)]
  have "acked c H q t j \<or> q = i \<and> dterm (node c i) \<le> t" if "acked c' ?H q t j" for q t j
    using ack [OF that] d(2) by auto
  then have ag: "acks_grow c H c' ?H i" unfolding acks_grow_def using gr d c' by simp
  have "comp_inv n c' ?H"
  proof (rule comp_inv_step [OF inv ag])
    have sorted: "terms_sorted (L @ [x])" using terms_sorted_snoc [OF d(4)] d(3) xT by simp
    show "peer_sorted (node c' i)"
      using rf d xT sorted c'(1) by (auto simp: peer_sorted_def saved_log_ok_def getPersistData_def)
    have "t \<le> T \<and> (has (L @ [x]) t j \<or> (\<exists>T'>t. T' \<le> T \<and> lost ?H T' t j))" if "acked c' ?H i t j" for t j
    proof (cases "acked c H i t j")
      case True
      then have "t \<le> dterm (node c i)" "has L t j \<or> (\<exists>T'>t. T' \<le> dterm (node c i) \<and> lost H T' t j)"
        using old(2) unfolding kept_def L_def by blast+
      then show ?thesis using d(2) has_prefix [of L t j "L @ [x]"] lost_grows [OF gr] by (meson order.trans prefixI)
    qed (use ack [OF that] in auto)
    then show "kept c' ?H i" by (simp add: kept_def c'(1) d(1) rf(1))
    have "voted c' ?H i T (voteFor rf)" using voted_grow [OF ag] old(3) rf(3) by (simp add: vote_ok_def T_def)
    then show "vote_ok c' ?H i" using rf(2,5) c'(1) by (simp add: vote_ok_def)
    fix t l M assume "?H t = Some (l, M)"
    then show "1 \<le> t \<and> good_log ?H M \<and> terms_sorted M \<and> (\<forall>e\<in>set M. lg_Term e \<le> t) \<and>
        (H t = None \<longrightarrow> (\<exists>Q. majority n Q \<and> (\<forall>p\<in>Q. backed c' ?H p t M)))"
      using hist_comp [OF inv, of t l M] good_log_mono [OF _ grows_extends [OF gr]] HT good sorted d(3) xT
      by (cases "t = T") auto
  next
    fix el assume "elects c' i = Some el"
    then have "elect_good c H i el" using inv c'(3) by (simp add: comp_inv_def)
    from elect_good_grow [OF ag this] show "i < n \<and> elect_good c' ?H i el" using rf(4) c'(1) assms(4) by simp
  qed (use c' in auto)
  then show ?thesis using gr unfolding H' by blast
qed

lemma step_start_comp:
  assumes inv: "comp_inv n c H" and hi: "hist_inv n c H" and e: "election_inv n c" and "i < n"
    and "cstep n c (ClientStart i cmd) = Some c'"
  shows "comp_inv n c' (note_leader i c' H) \<and> grows H (note_leader i c' H)"
proof -
  obtain rf r where st: "Start (node c i) cmd = Inr (rf, r)" and c': "node c' = (node c)(i := rf)" "net c' = net c" "elects c' = elects c"
    using assms(5) by (auto simp: step_defs elim!: res_opt.elims)
  have ne: "rlog (node c i) \<noteq> []" by (rule node_log [OF e assms(4)])
  note old = comp_peer [OF inv assms(4)]
  show ?thesis
  proof (cases "rf_state (node c i) = LEADER")
    case False
    then have "rf = node c i" using st ne by (simp add: Start_def Let_def)
    then have "comp_inv n c' H"
      by (intro comp_inv_calm [OF inv assms(4) quiet_refl]) (use c' old(3) in \<open>auto simp: vote_ok_def\<close>)
    then show ?thesis using False \<open>rf = node c i\<close> c'(1) by (simp add: note_leader_def)
  next
    case True
    then show ?thesis using leader_start_comp [OF inv hi e assms(4,5) st c'] by blast
  qed
qed

section \<open>New leaders\<close>

text \<open>
  An entry that the last entry of a log covers is in the log, or the leader of the last term of the log has lost it.
\<close>

lemma covers_has:
  assumes inv: "comp_inv n c H" and L: "good_log H L" "\<And>e. e \<in> set L \<Longrightarrow> lg_Term e < T2"
    and args: "LastLogIndex args = int (length L) - 1" "LastLogterm args = lg_Term (last L)"
    and a: "acked c H p T j" and "covers args T j"
  shows "has L T j \<or> (\<exists>T'>T. T' < T2 \<and> lost H T' T j)"
proof -
  define k where "k = length L - 1"
  have ne: "L \<noteq> []" using L(1) by (simp add: good_log_def)
  then have len: "length L = Suc k" by (simp add: k_def)
  have k: "k < length L" "last L = L ! k" using ne by (simp_all add: k_def last_conv_nth)
  obtain l M where M: "H T = Some (l, M)" "has M T j" using a by (auto simp: acked_def)
  have T: "1 \<le> T" using hist_comp [OF inv M(1)] by blast
  consider "T = lg_Term (L ! k)" "j \<le> k" | "T < lg_Term (L ! k)"
    using assms(7) args k(2) len by (auto simp: covers_def)
  then show ?thesis
  proof cases
    case 1
    then have "has L T k" using k(1) by (simp add: has_def)
    then have "L ! j = M ! j" using has_agree [OF L(1) M(1) _ T 1(2)] by blast
    then show ?thesis using M(2) 1(2) k(1) by (simp add: has_def)
  next
    case 2
    let ?s = "lg_Term (L ! k)"
    have hs: "has L ?s k" using k(1) by (simp add: has_def)
    have "k \<noteq> 0" using 2 T L(1) by (auto simp: good_log_def genesis_def)
    then obtain l' M' where M': "H ?s = Some (l', M')" using L(1) k(1) unfolding good_log_def by blast
    have agree: "i < length M' \<and> L ! i = M' ! i" if "i \<le> k" for i
      using has_agree [OF L(1) M' hs _ that] 2 T by simp
    have "?s < T2" using L(2) k(1) by simp
    moreover have "has L T j" if "has M' T j"
    proof -
      have "terms_sorted M'" using hist_comp [OF inv M'] by blast
      then have "j \<le> k" using that agree [of k] 2 unfolding terms_sorted_def has_def by (metis linorder_not_less order_refl nle_le)
      then show ?thesis using agree [of j] that k(1) by (simp add: has_def)
    qed
    ultimately show ?thesis using 2 M' unfolding lost_def by blast
  qed
qed

lemma terms_below:
  assumes "good_log H L" and "\<forall>e\<in>set L. lg_Term e \<le> T2" and "H T2 = None" and "1 \<le> T2" and "e \<in> set L"
  shows "lg_Term e < T2"
proof -
  obtain k where k: "k < length L" "e = L ! k" using assms(5) by (auto simp: in_set_conv_nth)
  have "lg_Term e \<noteq> T2"
  proof (cases "k = 0")
    case True
    then show ?thesis using k assms(1,4) by (auto simp: good_log_def genesis_def)
  next
    case False
    then show ?thesis using k assms(1,3) by (force simp: good_log_def)
  qed
  then show ?thesis using assms(2,5) by force
qed

text \<open>The voters of the winner of an election, and the winner, are behind its log.\<close>

lemma elected_utd:
  assumes inv: "comp_inv n c H" and el: "elects c i = Some el" and none: "H (rva_Term (el_args el)) = None"
    and p: "p \<in> insert i (set (el_voters el))"
  shows "rva_Term (el_args el) \<le> dterm (node c p) \<and> utd c H p (el_args el)"
proof -
  have g: "elect_good c H i el" using inv el by (simp add: comp_inv_def)
  show ?thesis
  proof (cases "p = i")
    case True
    then show ?thesis using g none by (simp add: elect_good_def)
  next
    case False
    then have "\<exists>v. RVResp p i (el_args el) v \<in> net c \<and> VoteGranted v" using g p unfolding elect_good_def by blast
    then show ?thesis using inv none unfolding comp_inv_def rv_msgs_ok_def by blast
  qed
qed

lemma elected_backed:
  assumes inv: "comp_inv n c H" and el: "elects c i = Some el" and none: "H (rva_Term (el_args el)) = None"
    and p: "p \<in> insert i (set (el_voters el))"
    and L: "good_log H L" "\<And>e. e \<in> set L \<Longrightarrow> lg_Term e < rva_Term (el_args el)"
    and last: "LastLogIndex (el_args el) = int (length L) - 1" "LastLogterm (el_args el) = lg_Term (last L)"
    and ag: "acks_grow c H c' H' i" and same: "\<And>t j. acked c' H' p t j \<Longrightarrow> acked c H p t j"
  shows "backed c' H' p (rva_Term (el_args el)) L"
  unfolding backed_def
proof (intro conjI allI impI)
  note voter = elected_utd [OF inv el none p]
  show "rva_Term (el_args el) \<le> dterm (node c' p)" using voter acks_growD(4) [OF ag, of p] by simp
  fix T j assume "acked c' H' p T j \<and> T < rva_Term (el_args el)"
  then have a: "acked c H p T j" "T < rva_Term (el_args el)" using same by blast+
  then have "has L T j \<or> (\<exists>T'>T. T' < rva_Term (el_args el) \<and> lost H T' T j)"
    using voter covers_has [OF inv L last a(1)] unfolding utd_def by blast
  then show "has L T j \<or> (\<exists>T'>T. T' < rva_Term (el_args el) \<and> lost H' T' T j)"
    using lost_grows [OF acks_growD(1) [OF ag]] by blast
qed

text \<open>What an election that is over has done to the candidate.\<close>

lemma election_end_cases:
  assumes "Election_end (SendRequest_finish rf another) args cnt = Inr rf'" and "raft_wf rf"
  shows "quiet rf rf' \<and> currentTerm rf' = currentTerm rf \<and> voteFor rf' = voteFor rf \<and> rf_state rf' = rf_state rf \<and>
      (saved_vote (raftstate (persister rf')) = saved_vote (raftstate (persister rf)) \<or>
       saved_vote (raftstate (persister rf')) = Some (currentTerm rf', voteFor rf')) \<or>
    rf_state rf = CANDIDATE \<and> rf_state rf' = LEADER \<and> rlog rf' = rlog rf \<and> currentTerm rf = rva_Term args \<and>
      currentTerm rf' = rva_Term args \<and> voteFor rf' = voteFor rf \<and> int (peers rf div 2) \<le> cnt \<and>
      raftstate (persister rf') = getPersistData rf'"
proof -
  have "rlog rf \<noteq> []" "me rf < peers rf" using assms(2) by (simp_all add: raft_wf_def)
  then show ?thesis
    using assms(1)
    by (auto simp: Election_end_def SendRequest_finish_def changeRole_LEADER go_bind_Inr_iff frame_simps quiet_def getPersistData_def
        simp del: changeRole.simps split: if_splits)
qed

lemma election_won_comp:
  assumes inv: "comp_inv n c H" and hi: "hist_inv n c H" and e: "election_inv n c" and "i < n" and el: "elects c i = Some el"
    and rf: "rf_state (node c i) = CANDIDATE" "rlog rf = rlog (node c i)" "currentTerm (node c i) = rva_Term (el_args el)"
      "currentTerm rf = rva_Term (el_args el)" "int (n div 2) \<le> el_res el" "raftstate (persister rf) = getPersistData rf"
    and c': "node c' = (node c)(i := rf)" "net c' = net c" "elects c' = (elects c)(i := None)"
  shows "comp_inv n c' (H(rva_Term (el_args el) \<mapsto> (i, rlog rf))) \<and> H (rva_Term (el_args el)) = None"
proof -
  define T2 L where "T2 = rva_Term (el_args el)" and "L = rlog (node c i)"
  let ?H = "H(T2 \<mapsto> (i, L))" and ?Q = "insert i (set (el_voters el))"
  note old = comp_peer [OF inv assms(4)]
  have vote: "elect_ok (votes c) i el" "votes_ok n c" using e el by (auto simp: election_inv_def elects_ok_def)
  then obtain Q where "majority n Q" "\<forall>p\<in>Q. (p, T2, int i) \<in> votes c"
    using elect_ok_majority rf(5) unfolding T2_def by blast
  then have none: "H T2 = None" using hist_new_term [OF hi e el] unfolding T2_def by blast
  have T2: "1 \<le> T2" using hi el by (auto simp: hist_inv_def T2_def)
  have good: "good_log H L" using hi assms(4) by (simp add: hist_inv_def peer_good_def L_def)
  have gr: "grows H ?H" unfolding grows_def using none by auto
  have g: "elect_good c H i el" using inv el by (simp add: comp_inv_def)
  have last: "LastLogIndex (el_args el) = int (length L) - 1" "LastLogterm (el_args el) = lg_Term (last L)"
    using g rf(1,3) hi assms(4) by (auto simp: elect_good_def lastIdx_def lastTerm_def L_def hist_inv_def peer_good_def)
  have d: "dterm rf = T2" "dterm (node c i) = T2" "terms_sorted L" "\<forall>e\<in>set L. lg_Term e \<le> T2"
    using rf(3,4,6) old(1) g by (auto simp: peer_sorted_def elect_good_def T2_def L_def)
  have below: "lg_Term e < T2" if "e \<in> set L" for e by (rule terms_below [OF good d(4) none T2 that])
  then have "\<not> has L T2 j" for j unfolding has_def by (metis less_irrefl nth_mem)
  then have same: "acked c' ?H q t j \<longleftrightarrow> acked c H q t j" for q t j
    using none c'(2) by (auto simp: acked_def ack_msg_def)
  then have ag: "acks_grow c H c' ?H i" unfolding acks_grow_def using gr d c' by simp
  have "backed c' ?H p T2 L" if "p \<in> ?Q" for p
    by (rule elected_backed [OF inv el none [unfolded T2_def] that good _ last ag, folded T2_def]) (use below same in auto)
  then have new: "\<exists>Q. majority n Q \<and> (\<forall>p\<in>Q. backed c' ?H p T2 L)" using elected_majority [OF vote rf(5)] by blast
  have "comp_inv n c' ?H"
  proof (rule comp_inv_step [OF inv ag])
    show "peer_sorted (node c' i)"
      using rf(2,4,6) d c'(1) by (auto simp: peer_sorted_def saved_log_ok_def getPersistData_def L_def T2_def)
    show "kept c' ?H i"
      using old(2) lost_grows [OF gr] rf(2) d(1,2) c'(1) unfolding kept_def same by (simp, meson)
    show "vote_ok c' ?H i" using rf(4,6) c'(1) by (simp add: vote_ok_def voted_def T2_def)
    fix t l M assume "?H t = Some (l, M)"
    then show "1 \<le> t \<and> good_log ?H M \<and> terms_sorted M \<and> (\<forall>e\<in>set M. lg_Term e \<le> t) \<and>
        (H t = None \<longrightarrow> (\<exists>Q. majority n Q \<and> (\<forall>p\<in>Q. backed c' ?H p t M)))"
      using hist_comp [OF inv, of t l M] good_log_mono [OF _ grows_extends [OF gr]] T2 good d(3,4) new
      by (cases "t = T2") auto
  qed (use c' in auto)
  then show ?thesis using none rf(2) by (simp add: T2_def L_def)
qed

lemma step_election_done_comp:
  assumes inv: "comp_inv n c H" and hi: "hist_inv n c H" and e: "election_inv n c" and "i < n"
    and "step_election_done i c = Some c'"
  shows "comp_inv n c' (note_leader i c' H) \<and> grows H (note_leader i c' H)"
proof -
  obtain el rf where el: "elects c i = Some el"
    and fin: "Election_end (SendRequest_finish (node c i) (el_another el)) (el_args el) (el_res el) = Inr rf"
    and c': "node c' = (node c)(i := rf)" "net c' = net c" "elects c' = (elects c)(i := None)"
    using assms(5) by (auto simp: step_election_done_def step_defs split: option.splits sum.splits)
  have wf: "raft_wf (node c i)" "peers (node c i) = n" using e assms(4) by (auto simp: election_inv_def nodes_ok_def)
  show ?thesis
  proof (cases "rf_state rf = LEADER \<and> rf_state (node c i) \<noteq> LEADER")
    case False
    then have q: "quiet (node c i) rf" "currentTerm rf = currentTerm (node c i)" "voteFor rf = voteFor (node c i)"
        "saved_vote (raftstate (persister rf)) = saved_vote (raftstate (persister (node c i))) \<or>
         saved_vote (raftstate (persister rf)) = Some (currentTerm rf, voteFor rf)"
      using election_end_cases [OF fin wf(1)] by auto
    have "H (currentTerm rf) = Some (i, rlog rf)" if "rf_state rf = LEADER"
      using that q(1) hi assms(4) by (auto simp: hist_inv_def quiet_def)
    then have "note_leader i c' H = H" using c'(1) by (auto simp: note_leader_def fun_upd_idem_iff)
    moreover have "voted c' H i (currentTerm rf) (voteFor rf)"
      using comp_peer(3) [OF inv assms(4)] q c'(2) by (simp add: vote_ok_def voted_def)
    then have "comp_inv n c' H"
      by (intro comp_inv_quiet [OF inv assms(4) q(1) c'(1)]) (use c' q in auto)
    ultimately show ?thesis by simp
  next
    case True
    then have won: "rf_state (node c i) = CANDIDATE" "rlog rf = rlog (node c i)" "currentTerm (node c i) = rva_Term (el_args el)"
        "currentTerm rf = rva_Term (el_args el)" "int (n div 2) \<le> el_res el" "raftstate (persister rf) = getPersistData rf"
      using election_end_cases [OF fin wf(1)] wf(2) by auto
    have "note_leader i c' H = H(rva_Term (el_args el) \<mapsto> (i, rlog rf))" using True won(4) c'(1) by (simp add: note_leader_def)
    then show ?thesis
      using election_won_comp [OF inv hi e assms(4) el won c'] by (auto simp: grows_def)
  qed
qed

section \<open>Executions and the invariant\<close>

definition complete_inv :: "nat \<Rightarrow> ('c, 'd) cluster \<Rightarrow> 'c leader_logs \<Rightarrow> bool" where
  "complete_inv n c H \<longleftrightarrow> election_inv n c \<and> hist_inv n c H \<and> comp_inv n c H"

lemma complete_inv_init: "complete_inv n (cluster_init n) Map.empty"
proof -
  have "comp_inv n (cluster_init n) Map.empty"
    by (auto simp: comp_inv_def cluster_init_def Make_def MakePersister_def ReadRaftState_def peer_sorted_def
        terms_sorted_def dterm_def saved_log_ok_def genesis_def kept_def acked_def vote_ok_def voted_def
        ae_msgs_ok_def rv_msgs_ok_def)
  then show ?thesis using election_inv_init hist_inv_init by (auto simp: complete_inv_def)
qed

lemma cexec_net_mono: "cexec n c e = Some c' \<Longrightarrow> net c \<subseteq> net c'"
  by (cases e)
    (auto simp: cexec_def step_timeout_def step_recv_rv_def step_rv_reply_def step_election_done_def
      step_send_ae_def step_recv_ae_def step_ae_replied_def step_send_is_def step_recv_is_def
      step_is_done_def step_crash_def step_defs Let_def
      split: if_splits option.splits sum.splits prod.splits sender.splits list.splits)

lemma cexec_sound_complete:
  assumes "complete_inv n c H" and "cexec_sound n c e = Some c'"
  shows "\<exists>H'. grows H H' \<and> complete_inv n c' H'"
proof -
  have ex: "cexec n c e = Some c'" "\<not> takes_snapshot e" "\<not> sends_snapshot e" "\<not> stale_raise c e"
    using assms(2) by (auto simp: cexec_sound_def cexec_plain_def split: if_splits)
  have a: "actor e < n" "cstep n c e = Some c'"
    using ex(1) by (auto simp: cexec_def split: if_splits)
  have inv: "election_inv n c" "hist_inv n c H" "comp_inv n c H" using assms(1) by (simp_all add: complete_inv_def)
  have next_inv: "election_inv n c'" by (rule cexec_inv [OF inv(1) ex(1)])
  have stay: ?thesis if "hist_inv n c' H" "comp_inv n c' H"
    using that next_inv unfolding complete_inv_def by (blast intro: grows_refl)
  have new: ?thesis if "hist_inv n c' (note_leader i c' H)" "comp_inv n c' (note_leader i c' H) \<and> grows H (note_leader i c' H)" for i
    using that next_inv by (auto simp: complete_inv_def)
  show ?thesis
  proof (cases e)
    case (Timeout i)
    then show ?thesis
      using a by (intro stay step_timeout_hist [OF inv(2,1)] step_timeout_comp [OF inv(3,2,1)]) simp_all
  next
    case (RecvRV i src args)
    then show ?thesis
      using a by (intro stay step_recv_rv_hist [OF inv(2,1)] step_recv_rv_comp [OF inv(3,2,1)]) simp_all
  next
    case (RVReply i p r)
    then show ?thesis
      using a by (intro stay step_rv_reply_hist [OF inv(2)] step_rv_reply_comp [OF inv(3,2)]) simp_all
  next
    case (ElectionDone i)
    then show ?thesis
      using a by (intro new step_election_done_hist [OF inv(2,1)] step_election_done_comp [OF inv(3,2,1)]) simp_all
  next
    case (SendAE i j)
    then show ?thesis
      using a by (intro stay step_send_ae_hist [OF inv(2)] step_send_ae_comp [OF inv(3,2)]) simp_all
  next
    case (RecvAE i src args)
    then show ?thesis
      using a by (intro stay step_recv_ae_hist [OF inv(2)] step_recv_ae_comp [OF inv(3,2)]) simp_all
  next
    case (AEReplied i j reply)
    then show ?thesis
      using a ex(4) by (intro stay step_ae_replied_hist [OF inv(2)] step_ae_replied_comp [OF inv(3,2,1)]) simp_all
  next
    case (ClientStart i cmd)
    then show ?thesis
      using a new [of i] step_start_hist [OF inv(2,1), of i cmd c'] step_start_comp [OF inv(3,2,1), of i cmd c'] by simp
  next
    case (Crash i)
    then show ?thesis
      using a by (intro stay step_crash_hist [OF inv(2)] step_crash_comp [OF inv(3)]) simp_all
  qed (use a ex stay step_local_hist [OF inv(2), where e = e] step_local_comp [OF inv(3), where e = e] in \<open>simp_all del: cstep.simps\<close>)
qed

lemma cexec_sound_net: "cexec_sound n c e = Some c' \<Longrightarrow> net c \<subseteq> net c'"
  by (auto simp: cexec_sound_def cexec_plain_def dest: cexec_net_mono split: if_splits)

lemma extends_trans: "extends H H' \<Longrightarrow> extends H' H'' \<Longrightarrow> extends H H''"
  unfolding extends_def by (meson prefix_order.trans)

lemma run_complete:
  "complete_inv n c H \<Longrightarrow> run_events (cexec_sound n) c es = Some c' \<Longrightarrow>
   \<exists>H'. extends H H' \<and> net c \<subseteq> net c' \<and> complete_inv n c' H'"
proof (induction es arbitrary: c H)
  case Nil
  then have "c' = c" by simp
  then show ?case using Nil.prems(1) by (intro exI [of _ H]) simp
next
  case (Cons e es)
  then obtain c1 where
    c1: "cexec_sound n c e = Some c1" "run_events (cexec_sound n) c1 es = Some c'"
    by (auto split: option.splits)
  obtain H1 where H1: "grows H H1" "complete_inv n c1 H1" using cexec_sound_complete [OF Cons.prems(1) c1(1)] by blast
  obtain H2 where "extends H1 H2" "net c1 \<subseteq> net c'" "complete_inv n c' H2" using Cons.IH [OF H1(2) c1(2)] by blast
  then show ?case using extends_trans [OF grows_extends [OF H1(1)]] cexec_sound_net [OF c1(1)] by blast
qed

interpretation raft_complete: invariant_system "\<lambda>c. c = cluster_init n" "cexec_sound n" "\<lambda>c. \<exists>H. complete_inv n c H" for n
  using complete_inv_init cexec_sound_complete by unfold_locales blast+

section \<open>Leader completeness\<close>

lemma take_eq_nth: "(\<And>j. j \<le> i \<Longrightarrow> j < length K \<and> j < length L \<and> K ! j = L ! j) \<Longrightarrow> take (Suc i) K = take (Suc i) L"
  by (rule nth_equalityI) (force simp: Suc_le_eq)+

text \<open>
  C4. Leader completeness: when a leader has written an entry in its own term and a majority of the cluster, the leader
  included, has acknowledged it in that term, then every leader of this or a later term has this entry and all the entries before
  it in its log, whatever messages are lost, delayed, duplicated or reordered and whatever peers crash and restart. This
  is for executions without snapshots in which no peer that has ceased to lead takes a larger term from an answer to an old AppendEntries
  message.
\<close>

theorem leader_completeness:
  assumes "creach_sound n c0" and "l < n" and "rf_state (node c0 l) = LEADER" and "i < length (rlog (node c0 l))"
    and "lg_Term (rlog (node c0 l) ! i) = currentTerm (node c0 l)"
    and "majority n Q" and "\<And>p. p \<in> Q \<Longrightarrow> p = l \<or> ack_msg c0 p (currentTerm (node c0 l)) i"
    and "run_events (cexec_sound n) c0 es = Some c" and "k < n" and "rf_state (node c k) = LEADER"
    and "currentTerm (node c0 l) \<le> currentTerm (node c k)"
  shows "take (Suc i) (rlog (node c k)) = take (Suc i) (rlog (node c0 l))"
proof -
  let ?T = "currentTerm (node c0 l)"
  obtain H0 where H0: "complete_inv n c0 H0" using raft_complete.inv_reachable [OF assms(1)] by blast
  obtain H where H: "extends H0 H" "net c0 \<subseteq> net c" "complete_inv n c H" using run_complete [OF H0 assms(8)] by blast
  have led: "1 \<le> ?T" "H0 ?T = Some (l, rlog (node c0 l))"
    using H0 assms(2,3) by (auto simp: complete_inv_def hist_inv_def)
  obtain M where M: "H ?T = Some (l, M)" "prefix (rlog (node c0 l)) M" using H(1) led(2) unfolding extends_def by blast
  have lead: "H (currentTerm (node c k)) = Some (k, rlog (node c k))" "good_log H (rlog (node c k))" "comp_inv n c H"
    using H(3) assms(9,10) by (auto simp: complete_inv_def hist_inv_def peer_good_def)
  have hasM: "has M ?T i" using assms(4,5) M(2) by (auto simp: has_def prefix_def nth_append)
  have "ack_msg c p ?T i" if "ack_msg c0 p ?T i" for p using that H(2) unfolding ack_msg_def by blast
  then have ack: "acked c H p ?T i" if "p \<in> Q" for p using assms(7) [OF that] M(1) hasM unfolding acked_def by blast
  have "has (rlog (node c k)) ?T i"
  proof (cases "currentTerm (node c k) = ?T")
    case True
    then show ?thesis using lead(1) M(1) hasM by simp
  next
    case False
    then show ?thesis using majority_not_lost [OF lead(3) assms(6) ack] assms(11) lead(1) unfolding lost_def by force
  qed
  then have "j < length (rlog (node c k)) \<and> j < length (rlog (node c0 l)) \<and> rlog (node c k) ! j = rlog (node c0 l) ! j" if "j \<le> i" for j
    using has_agree [OF lead(2) M(1) _ led(1) that] M(2) that assms(4) by (auto simp: has_def prefix_def nth_append)
  then show ?thesis by (rule take_eq_nth)
qed

definition succeed_1 :: "(nat, nat) event list" where
  "succeed_1 = [Timeout 1, RecvRV 2 1 \<lparr>rva_Term = 2, CandidateId = 1, LastLogIndex = 1, LastLogterm = 1\<rparr>,
     RVReply 1 2 (Some \<lparr>rvr_Term = 0, VoteGranted = True\<rparr>), ElectionDone 1]"

definition copied :: "(nat, nat) msg" where
  "copied = AEResp 1 0 \<lparr>aea_Term = 1, LeaderId = 0, PrevLogIndex = 0, PrevLogTerm = 0,
       Entries = [demo_entry 7 1], aea_LeaderCommit = 0\<rparr>
     \<lparr>Success = True, aer_Term = 0, XTerm = -1, XIndex = -1, XLen = -1, aer_NextIndex = 0\<rparr>"

lemma succeed_1_run:
  "case run_events (cexec_sound 3) (cluster_init 3) replicate_0 of
     None \<Rightarrow> False
   | Some c \<Rightarrow> rf_state (node c 0) = LEADER \<and> currentTerm (node c 0) = 1 \<and> length (rlog (node c 0)) = 2 \<and>
       lg_Term (rlog (node c 0) ! 1) = 1 \<and> copied \<in> net c \<and>
       (case run_events (cexec_sound 3) c succeed_1 of
          None \<Rightarrow> False
        | Some c' \<Rightarrow> rf_state (node c' 1) = LEADER \<and> currentTerm (node c' 1) = 2)"
  by code_simp

theorem leader_completeness_witness:
  "case run_events (cexec_sound 3) (cluster_init 3) replicate_0 of
     None \<Rightarrow> False
   | Some c \<Rightarrow>
       (case run_events (cexec_sound 3) c succeed_1 of
          None \<Rightarrow> False
        | Some c' \<Rightarrow> take (Suc 1) (rlog (node c' 1)) = take (Suc 1) (rlog (node c 0)))"
proof -
  obtain c c' where run: "run_events (cexec_sound 3) (cluster_init 3) replicate_0 = Some c"
      "run_events (cexec_sound 3) c succeed_1 = Some c'"
    and lead: "rf_state (node c 0) = LEADER" "currentTerm (node c 0) = 1" "length (rlog (node c 0)) = 2"
      "lg_Term (rlog (node c 0) ! 1) = 1" "copied \<in> net c" "rf_state (node c' 1) = LEADER" "currentTerm (node c' 1) = 2"
    using succeed_1_run by (auto split: option.splits)
  have "creach_sound 3 (cluster_init 3)" by (rule reachable_init) simp
  then have reach: "creach_sound 3 c" using run(1) by (rule run_events_reachable)
  have ack: "ack_msg c 1 (currentTerm (node c 0)) 1"
    using lead(2,5) unfolding ack_msg_def copied_def by fastforce
  have "majority 3 {0, 1 :: nat}" by (simp add: majority_def)
  from leader_completeness [OF reach _ lead(1) _ _ this _ run(2), of 1 1]
  have "take (Suc 1) (rlog (node c' 1)) = take (Suc 1) (rlog (node c 0))" using lead ack by auto
  then show ?thesis by (simp only: run option.case)
qed

section \<open>Terms raised by old answers\<close>

text \<open>
  The second restriction is needed. Peer 0 leads term 1 and sends an AppendEntries to peer 1, whose answer takes long; then it
  votes for peer 1 in term 2. Peer 2 leads term 3, and peer 0 acknowledges its entry 7: a majority has it. Peer 1 is a candidate of term
  4 now and answers the old message with its term. Peer 0 takes the term 4 from this answer and keeps its vote for peer 1, so
  it repeats this vote in term 4 without comparing the logs, and peer 1 leads term 4 with an empty log.
\<close>

definition stale_raise_run :: "(nat, nat) event list" where
  "stale_raise_run = elect_0 @ [SendAE 0 1,
     Timeout 1, RecvRV 0 1 \<lparr>rva_Term = 2, CandidateId = 1, LastLogIndex = 0, LastLogterm = 0\<rparr>, ElectionDone 1,
     Timeout 2, ElectionDone 2, Timeout 2, ElectionDone 2, Timeout 2,
     RecvRV 1 2 \<lparr>rva_Term = 3, CandidateId = 2, LastLogIndex = 0, LastLogterm = 0\<rparr>,
     RVReply 2 1 (Some \<lparr>rvr_Term = 0, VoteGranted = True\<rparr>), ElectionDone 2,
     ClientStart 2 (ICmd 7), SendAE 2 0,
     RecvAE 0 2 \<lparr>aea_Term = 3, LeaderId = 2, PrevLogIndex = 0, PrevLogTerm = 0,
       Entries = [demo_entry 7 3], aea_LeaderCommit = 0\<rparr>]"

definition stale_raise_run_end :: "(nat, nat) event list" where
  "stale_raise_run_end = [Timeout 1,
     RecvAE 1 0 \<lparr>aea_Term = 1, LeaderId = 0, PrevLogIndex = 0, PrevLogTerm = 0, Entries = [], aea_LeaderCommit = 0\<rparr>,
     AEReplied 0 1 \<lparr>Success = False, aer_Term = 4, XTerm = -1, XIndex = -1, XLen = -1, aer_NextIndex = 0\<rparr>,
     RecvRV 0 1 \<lparr>rva_Term = 4, CandidateId = 1, LastLogIndex = 0, LastLogterm = 0\<rparr>,
     RVReply 1 0 (Some \<lparr>rvr_Term = 0, VoteGranted = True\<rparr>), ElectionDone 1]"

theorem stale_raise_loses_entry:
  "case run_events (cexec_plain 3) (cluster_init 3) stale_raise_run of
     None \<Rightarrow> False
   | Some c \<Rightarrow> rf_state (node c 2) = LEADER \<and> currentTerm (node c 2) = 3 \<and> rlog (node c 2) = [genesis, demo_entry 7 3] \<and>
       rlog (node c 0) = [genesis, demo_entry 7 3] \<and>
       (case run_events (cexec_plain 3) c stale_raise_run_end of
          None \<Rightarrow> False
        | Some c' \<Rightarrow> rf_state (node c' 1) = LEADER \<and> currentTerm (node c' 1) = 4 \<and> rlog (node c' 1) = [genesis])"
  by code_simp

end
