(* ===== verification/Labrpc.thy ===== *)
theory Labrpc
  imports Prelude "HOL-Library.Word"
begin

text \<open>
  The simulated network (\<open>labrpc/labrpc.go\<close>) over which the peers, servers and clerks of the tests
  call each other.

  A \<open>*Server\<close> is an address into a store of servers, so that the comparison of pointers in
  \<open>isServerDead\<close> is one of addresses; nil is \<open>None\<close>. Names of ends and servers are \<open>interface{}\<close>
  values, of which the tests use strings and integers.
  Messages are lists of bytes; a method of a service, which decodes its arguments, calls the
  handler and encodes the reply, is a function on the state \<open>'st\<close> of the receivers and bytes. The
  random numbers and what the waiting loop of \<open>processReq\<close> sees are arguments. \<open>processReq\<close> is
  split where it gives up the lock: \<open>processReq_begin\<close>, the loop \<open>processReq_wait\<close> on the events of its
  \<open>select\<close>, and \<open>processReq_end\<close>.
\<close>

section \<open>Services and servers\<close>

datatype iname = NameStr string | NameInt int

type_synonym bytes = "nat list"

record reqMsg =
  endname :: iname
  svcMeth :: string
  rq_args :: bytes

record replyMsg =
  rep_ok :: bool
  rep_reply :: bytes

type_synonym 'st handler = "'st \<Rightarrow> bytes \<Rightarrow> 'st \<times> bytes"

text \<open>What reflection tells of a method: is it exported, its parameters and results.\<close>

record 'st method_info =
  mi_Name :: string
  mi_PkgPath :: string
  mi_NumIn :: nat
  mi_In2_Ptr :: bool
  mi_NumOut :: nat
  mi_Func :: "'st handler"

record 'st Service =
  svc_name :: string
  svc_methods :: "string \<rightharpoonup> 'st handler"

record 'st Server =
  rs_services :: "string \<rightharpoonup> 'st Service"
  rs_count :: int

definition suitable :: "'st method_info \<Rightarrow> bool" where
  "suitable m \<longleftrightarrow> \<not> (mi_PkgPath m \<noteq> '''' \<or> mi_NumIn m \<noteq> 3 \<or> \<not> mi_In2_Ptr m \<or> mi_NumOut m \<noteq> 0)"

definition MakeService :: "string \<Rightarrow> 'st method_info list \<Rightarrow> 'st Service" where
  "MakeService name methods =
     \<lparr>svc_name = name,
      svc_methods = foldl (\<lambda>ms m. if suitable m then ms(mi_Name m \<mapsto> mi_Func m) else ms) Map.empty methods\<rparr>"

definition MakeServer :: "'st Server" where
  "MakeServer = \<lparr>rs_services = Map.empty, rs_count = 0\<rparr>"

definition AddService :: "'st Service \<Rightarrow> 'st Server \<Rightarrow> 'st Server" where
  "AddService svc rs = rs\<lparr>rs_services := (rs_services rs)(svc_name svc \<mapsto> svc)\<rparr>"

definition svc_dispatch :: "'st Service \<Rightarrow> string \<Rightarrow> reqMsg \<Rightarrow> 'st \<Rightarrow> ('st \<times> replyMsg) go" where
  "svc_dispatch svc methname req st =
     (case svc_methods svc methname of
        None \<Rightarrow> Inl ProcessExit
      | Some f \<Rightarrow> (case f st (rq_args req) of (st, r) \<Rightarrow> Inr (st, \<lparr>rep_ok = True, rep_reply = r\<rparr>)))"

text \<open>\<open>strings.LastIndex\<close> for one character.\<close>

fun LastIndex :: "string \<Rightarrow> char \<Rightarrow> int" where
  "LastIndex [] x = -1"
| "LastIndex (y # ys) x =
     (let k = LastIndex ys x in if k \<ge> 0 then k + 1 else if y = x then 0 else -1)"

definition rs_dispatch :: "'st Server \<Rightarrow> reqMsg \<Rightarrow> 'st \<Rightarrow> ('st Server \<times> 'st \<times> replyMsg) go" where
  "rs_dispatch rs req st =
     (let rs = rs\<lparr>rs_count := rs_count rs + 1\<rparr>;
          dot = LastIndex (svcMeth req) CHR ''.''
      in go_bind (go_to (svcMeth req) dot) (\<lambda>serviceName.
         go_bind (go_from (svcMeth req) (dot + 1)) (\<lambda>methodName.
           case rs_services rs serviceName of
             None \<Rightarrow> Inl ProcessExit
           | Some service \<Rightarrow>
               go_bind (svc_dispatch service methodName req st) (\<lambda>(st, reply). Inr (rs, st, reply)))))"

section \<open>The network\<close>

record Network =
  reliable :: bool
  longDelays :: bool
  longReordering :: bool
  ends :: "iname set"
  enabled :: "iname \<rightharpoonup> bool"
  servers :: "iname \<rightharpoonup> nat option"
  connections :: "iname \<rightharpoonup> iname option"
  nw_count :: "32 word"
  nw_bytes :: "64 word"
  nw_done :: bool

definition MakeNetwork :: Network where
  "MakeNetwork =
     \<lparr>reliable = True, longDelays = False, longReordering = False, ends = {}, enabled = Map.empty,
      servers = Map.empty, connections = Map.empty, nw_count = 0, nw_bytes = 0,
      nw_done = False\<rparr>"

definition Reliable :: "bool \<Rightarrow> Network \<Rightarrow> Network" where
  "Reliable yes rn = rn\<lparr>reliable := yes\<rparr>"

definition LongReordering :: "bool \<Rightarrow> Network \<Rightarrow> Network" where
  "LongReordering yes rn = rn\<lparr>longReordering := yes\<rparr>"

definition LongDelays :: "bool \<Rightarrow> Network \<Rightarrow> Network" where
  "LongDelays yes rn = rn\<lparr>longDelays := yes\<rparr>"

definition MakeEnd :: "iname \<Rightarrow> Network \<Rightarrow> Network go" where
  "MakeEnd e rn =
     (if e \<in> ends rn then Inl ProcessExit
      else Inr (rn\<lparr>ends := insert e (ends rn), enabled := (enabled rn)(e \<mapsto> False),
                   connections := (connections rn)(e \<mapsto> None)\<rparr>))"

definition AddServer :: "iname \<Rightarrow> nat \<Rightarrow> Network \<Rightarrow> Network" where
  "AddServer servername rs rn = rn\<lparr>servers := (servers rn)(servername \<mapsto> Some rs)\<rparr>"

definition DeleteServer :: "iname \<Rightarrow> Network \<Rightarrow> Network" where
  "DeleteServer servername rn = rn\<lparr>servers := (servers rn)(servername \<mapsto> None)\<rparr>"

definition Connect :: "iname \<Rightarrow> iname \<Rightarrow> Network \<Rightarrow> Network" where
  "Connect e servername rn = rn\<lparr>connections := (connections rn)(e \<mapsto> Some servername)\<rparr>"

definition Enable :: "iname \<Rightarrow> bool \<Rightarrow> Network \<Rightarrow> Network" where
  "Enable e yes rn = rn\<lparr>enabled := (enabled rn)(e \<mapsto> yes)\<rparr>"

text \<open>Reading Go maps: a missing key gives false or nil.\<close>

definition is_enabled :: "Network \<Rightarrow> iname \<Rightarrow> bool" where
  "is_enabled rn e \<longleftrightarrow> enabled rn e = Some True"

definition server_at :: "Network \<Rightarrow> iname \<Rightarrow> nat option" where
  "server_at rn servername = (case servers rn servername of None \<Rightarrow> None | Some p \<Rightarrow> p)"

definition connection_of :: "Network \<Rightarrow> iname \<Rightarrow> iname option" where
  "connection_of rn e = (case connections rn e of None \<Rightarrow> None | Some p \<Rightarrow> p)"

definition readEndnameInfo :: "Network \<Rightarrow> iname \<Rightarrow> bool \<times> iname option \<times> nat option \<times> bool \<times> bool" where
  "readEndnameInfo rn e =
     (let servername = connection_of rn e;
          server = (case servername of None \<Rightarrow> None | Some s \<Rightarrow> server_at rn s)
      in (is_enabled rn e, servername, server, reliable rn, longReordering rn))"

definition isServerDead :: "Network \<Rightarrow> iname \<Rightarrow> iname \<Rightarrow> nat \<Rightarrow> bool" where
  "isServerDead rn e servername server \<longleftrightarrow> \<not> is_enabled rn e \<or> server_at rn servername \<noteq> Some server"

definition GetCount :: "(nat \<Rightarrow> 'st Server) \<Rightarrow> Network \<Rightarrow> iname \<Rightarrow> int go" where
  "GetCount store rn servername =
     (case server_at rn servername of None \<Rightarrow> Inl NilDereference | Some s \<Rightarrow> Inr (rs_count (store s)))"

definition GetTotalCount :: "Network \<Rightarrow> int" where
  "GetTotalCount rn = sint (nw_count rn)"

definition GetTotalBytes :: "Network \<Rightarrow> int" where
  "GetTotalBytes rn = sint (nw_bytes rn)"

definition Cleanup :: "Network \<Rightarrow> Network go" where
  "Cleanup rn = (if nw_done rn then Inl ClosedChannel else Inr (rn\<lparr>nw_done := True\<rparr>))"

section \<open>A call\<close>

definition count_request :: "reqMsg \<Rightarrow> Network \<Rightarrow> Network" where
  "count_request req rn =
     rn\<lparr>nw_count := nw_count rn + 1, nw_bytes := nw_bytes rn + of_nat (length (rq_args req))\<rparr>"

datatype admission = Refused | Dropped | Execute iname nat bool bool

definition processReq_begin :: "Network \<Rightarrow> reqMsg \<Rightarrow> nat \<Rightarrow> admission" where
  "processReq_begin rn req rand =
     (case readEndnameInfo rn (endname req) of
        (en, Some servername, Some server, rel, longre) \<Rightarrow>
          if en then (if \<not> rel \<and> rand mod 1000 < 100 then Dropped else Execute servername server rel longre)
          else Refused
      | _ \<Rightarrow> Refused)"

datatype wait_event = Returned replyMsg | Tick Network

fun processReq_wait :: "reqMsg \<Rightarrow> iname \<Rightarrow> nat \<Rightarrow> wait_event list \<Rightarrow> replyMsg option option" where
  "processReq_wait req servername server [] = None"
| "processReq_wait req servername server (Returned r # es) = Some (Some r)"
| "processReq_wait req servername server (Tick rn # es) =
     (if isServerDead rn (endname req) servername server then Some None
      else processReq_wait req servername server es)"

definition processReq_end ::
  "Network \<Rightarrow> reqMsg \<Rightarrow> iname \<Rightarrow> nat \<Rightarrow> bool \<Rightarrow> replyMsg option \<Rightarrow> nat \<Rightarrow> Network \<times> replyMsg" where
  "processReq_end rn req servername server rel got rand =
     (let dead = isServerDead rn (endname req) servername server;
          failed = \<lparr>rep_ok = False, rep_reply = []\<rparr>
      in case got of
           None \<Rightarrow> (rn, failed)
         | Some reply \<Rightarrow>
             if dead then (rn, failed)
             else if \<not> rel \<and> rand mod 1000 < 100 then (rn, failed)
             else (rn\<lparr>nw_bytes := nw_bytes rn + of_nat (length (rep_reply reply))\<rparr>, reply))"

text \<open>
  A request that the network has taken: \<open>rn0\<close> is the network when the request is taken, \<open>ticks\<close> the networks
  that the waiting loop sees before the handler's reply (if \<open>answers\<close>) and \<open>rn1\<close> the network at the
  end. The reply may be held back by \<open>longReordering\<close>, which changes when it comes and not what
  it is. \<open>None\<close>: the handler does not return and the loop goes on.
\<close>

definition Call_served ::
  "Network \<Rightarrow> (nat \<Rightarrow> 'st Server) \<Rightarrow> 'st \<Rightarrow> reqMsg \<Rightarrow> nat \<Rightarrow> Network list \<Rightarrow> bool \<Rightarrow> Network \<Rightarrow> nat \<Rightarrow>
   ((nat \<Rightarrow> 'st Server) \<times> 'st \<times> replyMsg) option go" where
  "Call_served rn0 store st req rand0 ticks answers rn1 rand1 =
     (let rn0 = count_request req rn0;
          failed = \<lparr>rep_ok = False, rep_reply = []\<rparr>
      in case processReq_begin rn0 req rand0 of
           Refused \<Rightarrow> Inr (Some (store, st, failed))
         | Dropped \<Rightarrow> Inr (Some (store, st, failed))
         | Execute servername server rel longre \<Rightarrow>
             go_bind (rs_dispatch (store server) req st) (\<lambda>(rs, st, reply).
               let seen = map Tick ticks @ (if answers then [Returned reply] else [])
               in case processReq_wait req servername server seen of
                    None \<Rightarrow> Inr None
                  | Some got \<Rightarrow>
                      Inr (Some (store(server := rs), st,
                        snd (processReq_end rn1 req servername server rel got rand1)))))"

text \<open>
  \<open>Call\<close> from the client's side. After \<open>Cleanup\<close> the client gives up, unless the network still
  takes the request.
\<close>

definition Call ::
  "bool \<Rightarrow> Network \<Rightarrow> (nat \<Rightarrow> 'st Server) \<Rightarrow> 'st \<Rightarrow> reqMsg \<Rightarrow> nat \<Rightarrow> Network list \<Rightarrow> bool \<Rightarrow> Network \<Rightarrow> nat \<Rightarrow>
   ((nat \<Rightarrow> 'st Server) \<times> 'st \<times> replyMsg) option go" where
  "Call taken rn0 store st req rand0 ticks answers rn1 rand1 =
     (if nw_done rn0 \<and> \<not> taken then Inr (Some (store, st, \<lparr>rep_ok = False, rep_reply = []\<rparr>))
      else Call_served rn0 store st req rand0 ticks answers rn1 rand1)"

section \<open>Dispatch\<close>

lemma LastIndex_absent: "x \<notin> set xs \<Longrightarrow> LastIndex xs x = -1"
  by (induction xs) (auto simp: Let_def)

lemma LastIndex_last: "x \<notin> set ys \<Longrightarrow> LastIndex (xs @ x # ys) x = int (length xs)"
  by (induction xs) (auto simp: Let_def LastIndex_absent)

text \<open>A name \<open>Service.Method\<close> is taken apart at its last dot.\<close>

lemma rs_dispatch_named:
  assumes "svcMeth req = sn @ CHR ''.'' # mn" and "CHR ''.'' \<notin> set mn"
  shows "rs_dispatch rs req st =
    (case rs_services rs sn of
       None \<Rightarrow> Inl ProcessExit
     | Some service \<Rightarrow>
         go_bind (svc_dispatch service mn req st)
           (\<lambda>(st, reply). Inr (rs\<lparr>rs_count := rs_count rs + 1\<rparr>, st, reply)))"
  using assms by (simp add: rs_dispatch_def Let_def LastIndex_last go_to_Inr go_from_Inr nat_add_distrib)

lemma MakeService_methods:
  "svc_methods (MakeService name ms) k =
     map_option mi_Func (find (\<lambda>m. suitable m \<and> mi_Name m = k) (rev ms))"
proof -
  have "foldl (\<lambda>ms m. if suitable m then ms(mi_Name m \<mapsto> mi_Func m) else ms) Map.empty xs k =
      map_option mi_Func (find (\<lambda>m. suitable m \<and> mi_Name m = k) (rev xs))" for xs
    by (induction xs rule: rev_induct) auto
  then show ?thesis by (simp add: MakeService_def)
qed

text \<open>
  A method that is not exported is no handler, and a call of it ends the process of the server.
  The clerk of the shard master calls \<open>ShardMaster.findGid\<close>, which is such a method.
\<close>

theorem unexported_method_exits:
  assumes "\<And>m. m \<in> set ms \<Longrightarrow> mi_Name m = mn \<Longrightarrow> mi_PkgPath m \<noteq> ''''"
    and "rs_services rs sn = Some (MakeService sn ms)"
    and "svcMeth req = sn @ CHR ''.'' # mn" and "CHR ''.'' \<notin> set mn"
  shows "rs_dispatch rs req st = Inl ProcessExit"
proof -
  have "find (\<lambda>m. suitable m \<and> mi_Name m = mn) (rev ms) = None"
    using assms(1) by (auto simp: find_None_iff suitable_def)
  then have "svc_methods (MakeService sn ms) mn = None"
    by (simp add: MakeService_methods)
  then show ?thesis
    using assms(2) by (simp add: rs_dispatch_named [OF assms(3,4)] svc_dispatch_def)
qed

lemma rs_services_count: "rs_services (rs\<lparr>rs_count := k\<rparr>) = rs_services rs"
  by simp

lemma svc_dispatch_Inr:
  "svc_dispatch svc mn req st = Inr (st', reply) \<Longrightarrow>
   \<exists>f. svc_methods svc mn = Some f \<and> f st (rq_args req) = (st', rep_reply reply) \<and> rep_ok reply"
  by (auto simp: svc_dispatch_def split: option.splits prod.splits)

lemma rs_dispatch_Inr:
  assumes "rs_dispatch rs req st = Inr (rs', st', reply)"
  shows "rs' = rs\<lparr>rs_count := rs_count rs + 1\<rparr> \<and> rep_ok reply \<and>
   (\<exists>sn svc mn f. rs_services rs sn = Some svc \<and> svc_methods svc mn = Some f \<and>
      f st (rq_args req) = (st', rep_reply reply))"
proof -
  obtain sn mn where *: "(case rs_services rs sn of None \<Rightarrow> Inl ProcessExit
      | Some service \<Rightarrow> go_bind (svc_dispatch service mn req st)
          (\<lambda>(st, reply). Inr (rs\<lparr>rs_count := rs_count rs + 1\<rparr>, st, reply))) = Inr (rs', st', reply)"
    using assms by (auto simp only: rs_dispatch_def Let_def go_bind_Inr_iff rs_services_count)
  then obtain svc where svc: "rs_services rs sn = Some svc" by (cases "rs_services rs sn") simp_all
  then have "svc_dispatch svc mn req st = Inr (st', reply)" "rs' = rs\<lparr>rs_count := rs_count rs + 1\<rparr>"
    using * by (cases "svc_dispatch svc mn req st"; force)+
  then show ?thesis using svc svc_dispatch_Inr [of svc mn req st st' reply] by blast
qed

section \<open>Calls\<close>

definition executed ::
  "(nat \<Rightarrow> 'st Server) \<Rightarrow> 'st \<Rightarrow> reqMsg \<Rightarrow> nat \<Rightarrow> (nat \<Rightarrow> 'st Server) \<Rightarrow> 'st \<Rightarrow> bytes \<Rightarrow> bool" where
  "executed store st req server store' st' r \<longleftrightarrow>
     rs_dispatch (store server) req st = Inr (store' server, st', \<lparr>rep_ok = True, rep_reply = r\<rparr>) \<and>
     rs_count (store' server) = rs_count (store server) + 1 \<and> (\<forall>k. k \<noteq> server \<longrightarrow> store' k = store k)"

lemma processReq_begin_Execute:
  "processReq_begin rn req rand = Execute servername server rel longre \<Longrightarrow>
   is_enabled rn (endname req) \<and> connection_of rn (endname req) = Some servername \<and>
   server_at rn servername = Some server \<and> rel = reliable rn \<and> (rel \<or> 100 \<le> rand mod 1000)"
  by (auto simp: processReq_begin_def readEndnameInfo_def Let_def split: option.splits if_splits)

lemma count_request_frame [simp]:
  "is_enabled (count_request req rn) e = is_enabled rn e"
  "connection_of (count_request req rn) e = connection_of rn e"
  "server_at (count_request req rn) n = server_at rn n"
  "reliable (count_request req rn) = reliable rn"
  by (simp_all add: count_request_def is_enabled_def connection_of_def server_at_def)

lemma processReq_wait_reply:
  "processReq_wait req sn s (map Tick ticks @ (if answers then [Returned r] else [])) = Some (Some got) \<Longrightarrow>
   answers \<and> got = r"
  by (induction ticks) (auto split: if_splits)

lemma rs_dispatch_executed:
  assumes "rs_dispatch (store server) req st = Inr (rs, st', reply)"
  shows "executed store st req server (store(server := rs)) st' (rep_reply reply)"
proof -
  have "reply = \<lparr>rep_ok = True, rep_reply = rep_reply reply\<rparr>"
    using rs_dispatch_Inr [OF assms] by (cases reply) auto
  then show ?thesis
    using rs_dispatch_Inr [OF assms] assms by (auto simp: executed_def)
qed

lemma Call_served_outcome:
  assumes "Call_served rn0 store st req rand0 ticks answers rn1 rand1 = Inr (Some (store', st', rep))"
  shows "rep = \<lparr>rep_ok = False, rep_reply = []\<rparr> \<and> store' = store \<and> st' = st \<or>
    (\<exists>sn server r. is_enabled rn0 (endname req) \<and> connection_of rn0 (endname req) = Some sn \<and>
       server_at rn0 sn = Some server \<and> executed store st req server store' st' r \<and>
       (rep = \<lparr>rep_ok = False, rep_reply = []\<rparr> \<or>
        rep = \<lparr>rep_ok = True, rep_reply = r\<rparr> \<and> answers \<and> is_enabled rn1 (endname req) \<and>
          server_at rn1 sn = Some server))"
proof (cases "processReq_begin (count_request req rn0) req rand0")
  case (Execute sn server rel longre)
  note en = processReq_begin_Execute [OF Execute, simplified]
  obtain rs st1 reply where d1: "rs_dispatch (store server) req st = Inr (rs, st1, reply)"
    using assms Execute unfolding Call_served_def Let_def by (cases "rs_dispatch (store server) req st") auto
  let ?seen = "map Tick ticks @ (if answers then [Returned reply] else [])"
  obtain got where got: "processReq_wait req sn server ?seen = Some got"
    using assms unfolding Call_served_def Let_def Execute admission.case d1 go_bind.simps prod.case
    by (cases "processReq_wait req sn server ?seen") simp_all
  have "store' = store(server := rs)" "st' = st1" "rep = snd (processReq_end rn1 req sn server rel got rand1)"
    using assms unfolding Call_served_def Let_def Execute admission.case d1 go_bind.simps prod.case got option.case
    by simp_all
  then have s: "store' = store(server := rs)" and d: "rs_dispatch (store server) req st = Inr (rs, st', reply)"
    and e: "rep = snd (processReq_end rn1 req sn server rel got rand1)"
    using d1 by simp_all
  have "rep = \<lparr>rep_ok = False, rep_reply = []\<rparr> \<or>
      rep = \<lparr>rep_ok = True, rep_reply = rep_reply reply\<rparr> \<and> answers \<and> is_enabled rn1 (endname req) \<and>
        server_at rn1 sn = Some server"
  proof (cases got)
    case None
    then show ?thesis using e by (simp add: processReq_end_def Let_def)
  next
    case (Some g)
    then have "answers" "g = reply" using got processReq_wait_reply by blast+
    moreover have "reply = \<lparr>rep_ok = True, rep_reply = rep_reply reply\<rparr>"
      using rs_dispatch_Inr [OF d] by (cases reply) simp
    ultimately show ?thesis
      using e Some by (auto simp: processReq_end_def isServerDead_def Let_def split: if_splits)
  qed
  then show ?thesis
    using en rs_dispatch_executed [of store server, OF d] s by blast
qed (use assms in \<open>auto simp: Call_served_def Let_def\<close>)


text \<open>A reliable network delivers: request and reply reach a server that stays registered.\<close>

lemma processReq_wait_alive:
  "(\<And>rn. rn \<in> set ticks \<Longrightarrow> \<not> isServerDead rn (endname req) sn s) \<Longrightarrow>
   processReq_wait req sn s (map Tick ticks @ [Returned r]) = Some (Some r)"
  by (induction ticks) auto

lemma Call_reliable_delivers:
  assumes "taken \<or> \<not> nw_done rn0" and "reliable rn0" and "is_enabled rn0 (endname req)" and "connection_of rn0 (endname req) = Some sn"
    and "server_at rn0 sn = Some server"
    and "\<And>rn. rn \<in> set (rn1 # ticks) \<Longrightarrow> \<not> isServerDead rn (endname req) sn server"
    and "svcMeth req = svn @ CHR ''.'' # mn" and "CHR ''.'' \<notin> set mn"
    and "rs_services (store server) svn = Some svc" and "svc_methods svc mn = Some f"
    and "f st (rq_args req) = (st', r)"
  shows "Call taken rn0 store st req rand0 ticks True rn1 rand1 =
    Inr (Some (store(server := (store server)\<lparr>rs_count := rs_count (store server) + 1\<rparr>), st',
      \<lparr>rep_ok = True, rep_reply = r\<rparr>))"
proof -
  have "processReq_begin (count_request req rn0) req rand0 = Execute sn server True (longReordering rn0)"
    using assms(2-5) by (simp add: processReq_begin_def readEndnameInfo_def Let_def)
      (simp add: count_request_def)
  moreover have "rs_dispatch (store server) req st =
      Inr ((store server)\<lparr>rs_count := rs_count (store server) + 1\<rparr>, st', \<lparr>rep_ok = True, rep_reply = r\<rparr>)"
    using assms(9-11) by (simp add: rs_dispatch_named [OF assms(7,8)] svc_dispatch_def)
  moreover have "processReq_wait req sn server (map Tick ticks @ [Returned \<lparr>rep_ok = True, rep_reply = r\<rparr>]) =
      Some (Some \<lparr>rep_ok = True, rep_reply = r\<rparr>)"
    by (rule processReq_wait_alive) (use assms(6) in simp)
  ultimately show ?thesis
    using assms(1,6) by (auto simp: Call_def Call_served_def Let_def processReq_end_def)
qed

definition echo_server :: "nat Server" where
  "echo_server = AddService (MakeService ''Echo''
     [\<lparr>mi_Name = ''Add'', mi_PkgPath = '''', mi_NumIn = 3, mi_In2_Ptr = True, mi_NumOut = 0,
       mi_Func = (\<lambda>st args. (st + length args, [st]))\<rparr>]) MakeServer"

definition echo_net :: Network where
  "echo_net = Enable (NameStr ''e'') True (Connect (NameStr ''e'') (NameInt 7) (AddServer (NameInt 7) 0
     (projr (MakeEnd (NameStr ''e'') MakeNetwork))))"

definition echo_req :: reqMsg where
  "echo_req = \<lparr>endname = NameStr ''e'', svcMeth = ''Echo.Add'', rq_args = [1, 2]\<rparr>"

lemma echo_call:
  "map_sum id (map_option (\<lambda>(store, st, rep). (rs_count (store 0), st, rep)))
     (Call True echo_net (\<lambda>_. echo_server) 5 echo_req 0 [] True echo_net 0) =
   Inr (Some (1, 7, \<lparr>rep_ok = True, rep_reply = [5]\<rparr>))"
  by code_simp


text \<open>A failed call may have taken effect: here the server is deleted before it can reply.\<close>

theorem failed_call_took_effect:
  "map_sum id (map_option (\<lambda>(store, st, rep). (st, rep_ok rep)))
     (Call True echo_net (\<lambda>_. echo_server) 5 echo_req 0 [] True (DeleteServer (NameInt 7) echo_net) 0) =
   Inr (Some (7, False))"
  by code_simp

end
