(* ===== verification/Raft_Config.thy ===== *)
theory Raft_Config
  imports Raft_LogMatching Labrpc
begin

text \<open>
  The test harness of Raft (\<open>raft/config.go\<close>): starting, crashing, connecting and disconnecting
  peers on the simulated network, and the checks the tests make on leaders, terms and committed
  entries.

  A failing check calls \<open>t.Fatalf\<close>, which ends the test with a \<open>test_failure\<close>. The reader of the
  apply channel reports with \<open>log.Fatalf\<close>, which ends the process, so \<open>applyErr\<close> is never
  set and left out. Random names of ends and the addresses of new servers are arguments. A loop
  that sleeps between its rounds runs on the list of configurations it sees, and the order in which
  \<open>range\<close> visits the map of leaders is an argument.
\<close>

section \<open>Configurations\<close>

datatype test_failure =
    TwoLeaders int | NoLeader | TermsDisagree | UnexpectedLeader nat
  | ValuesDisagree int | TooFewDecided int | NoAgreement | TookTooLong | RaftIsNil
  | LogTooBig int int | SnapshotNotEmpty | Panicked go_error

type_synonym 'a test = "test_failure + 'a"

record ('c, 'd) config =
  cfg_net :: Network
  rafts :: "('c, 'd) Raft option list"
  connected :: "bool list"
  saved :: "('c, 'd) Persister option list"
  endnames :: "iname list option list"
  cfg_logs :: "(int \<rightharpoonup> 'c iface) list"
  maxIndex :: int
  rpcs0 :: int
  bytes0 :: int
  cmds0 :: int
  maxIndex0 :: int

definition cfg_n :: "('c, 'd) config \<Rightarrow> nat" where
  "cfg_n cfg = length (rafts cfg)"

definition go_iter :: "('a \<Rightarrow> 's \<Rightarrow> 's go) \<Rightarrow> 'a list \<Rightarrow> 's \<Rightarrow> 's go" where
  "go_iter f xs s = foldl (\<lambda>r x. go_bind r (f x)) (Inr s) xs"

text \<open>\<open>cfg.endnames[i][j]\<close>: indexing a nil slice is out of range.\<close>

definition end_at :: "('c, 'd) config \<Rightarrow> nat \<Rightarrow> nat \<Rightarrow> iname go" where
  "end_at cfg i j =
     go_bind (go_idx (endnames cfg) (int i)) (\<lambda>row.
       case row of None \<Rightarrow> Inl IndexOutOfRange | Some names \<Rightarrow> go_idx names (int j))"

definition enable_end :: "nat \<Rightarrow> nat \<Rightarrow> bool \<Rightarrow> ('c, 'd) config \<Rightarrow> ('c, 'd) config go" where
  "enable_end i j yes cfg =
     go_bind (end_at cfg i j) (\<lambda>e. Inr (cfg\<lparr>cfg_net := Enable e yes (cfg_net cfg)\<rparr>))"

definition connect :: "nat \<Rightarrow> ('c, 'd) config \<Rightarrow> ('c, 'd) config go" where
  "connect i cfg =
     go_bind (go_upd (connected cfg) (int i) True) (\<lambda>con.
     go_bind (go_iter (\<lambda>j c. if connected c ! j then enable_end i j True c else Inr c)
                [0..<cfg_n cfg] (cfg\<lparr>connected := con\<rparr>))
       (go_iter (\<lambda>j c. if connected c ! j then enable_end j i True c else Inr c) [0..<cfg_n cfg]))"

definition disconnect :: "nat \<Rightarrow> ('c, 'd) config \<Rightarrow> ('c, 'd) config go" where
  "disconnect i cfg =
     go_bind (go_upd (connected cfg) (int i) False) (\<lambda>con.
     go_bind (go_iter (\<lambda>j c. if endnames c ! i \<noteq> None then enable_end i j False c else Inr c)
                [0..<cfg_n cfg] (cfg\<lparr>connected := con\<rparr>))
       (go_iter (\<lambda>j c. if endnames c ! j \<noteq> None then enable_end j i False c else Inr c) [0..<cfg_n cfg]))"

text \<open>
  \<open>cfg.saved[i]\<close>: while peer \<open>i\<close> runs, it is the object the peer writes its state to; the entry of
  \<open>saved\<close> counts when there is none.
\<close>

definition saved_at :: "('c, 'd) config \<Rightarrow> nat \<Rightarrow> ('c, 'd) Persister option" where
  "saved_at cfg i = (case rafts cfg ! i of Some rf \<Rightarrow> Some (persister rf) | None \<Rightarrow> saved cfg ! i)"

definition crash1 :: "nat \<Rightarrow> ('c, 'd) config \<Rightarrow> ('c, 'd) config go" where
  "crash1 i cfg =
     go_bind (disconnect i cfg) (\<lambda>cfg.
       let cfg = cfg\<lparr>cfg_net := DeleteServer (NameInt (int i)) (cfg_net cfg)\<rparr>;
           cfg = cfg\<lparr>saved := (saved cfg)[i := map_option Persister_Copy (saved_at cfg i)]\<rparr>;
           cfg = cfg\<lparr>rafts := (rafts cfg)[i := None]\<rparr>
       in Inr (cfg\<lparr>saved := (saved cfg)[i :=
            map_option (\<lambda>ps. SaveRaftState (ReadRaftState ps) MakePersister) (saved cfg ! i)]\<rparr>))"

definition start1_make :: "nat \<Rightarrow> ('c, 'd) Persister \<Rightarrow> nat \<Rightarrow> ('c, 'd) config \<Rightarrow> ('c, 'd) config go" where
  "start1_make i ps srv cfg =
     go_bind (Make (cfg_n cfg) i ps) (\<lambda>rf.
       Inr (cfg\<lparr>rafts := (rafts cfg)[i := Some rf],
                cfg_net := AddServer (NameInt (int i)) srv (cfg_net cfg)\<rparr>))"

definition start1 :: "nat \<Rightarrow> iname list \<Rightarrow> nat \<Rightarrow> ('c, 'd) config \<Rightarrow> ('c, 'd) config go" where
  "start1 i names srv cfg =
     go_bind (crash1 i cfg) (\<lambda>cfg.
       let cfg = cfg\<lparr>endnames := (endnames cfg)[i := Some names]\<rparr>
       in go_bind (go_iter (\<lambda>j c.
              go_bind (end_at c i j) (\<lambda>e.
              go_bind (MakeEnd e (cfg_net c)) (\<lambda>net.
                Inr (c\<lparr>cfg_net := Connect e (NameInt (int j)) net\<rparr>))))
              [0..<cfg_n cfg] cfg) (\<lambda>cfg.
          let ps = (case saved cfg ! i of Some ps \<Rightarrow> Persister_Copy ps | None \<Rightarrow> MakePersister);
              cfg = cfg\<lparr>saved := (saved cfg)[i := Some ps]\<rparr>
          in start1_make i ps srv cfg))"

definition setunreliable :: "bool \<Rightarrow> ('c, 'd) config \<Rightarrow> ('c, 'd) config" where
  "setunreliable unrel cfg = cfg\<lparr>cfg_net := Reliable (\<not> unrel) (cfg_net cfg)\<rparr>"

definition make_config ::
  "nat \<Rightarrow> bool \<Rightarrow> (nat \<Rightarrow> iname list) \<Rightarrow> (nat \<Rightarrow> nat) \<Rightarrow> ('c, 'd) config go" where
  "make_config n unreliable names srvs =
     (let cfg = \<lparr>cfg_net = MakeNetwork,
                 rafts = replicate n None, connected = replicate n False, saved = replicate n None,
                 endnames = replicate n None, cfg_logs = replicate n Map.empty, maxIndex = 0,
                 rpcs0 = 0, bytes0 = 0, cmds0 = 0, maxIndex0 = 0\<rparr>;
          cfg = setunreliable unreliable cfg;
          cfg = cfg\<lparr>cfg_net := LongDelays True (cfg_net cfg)\<rparr>
      in go_bind (go_iter (\<lambda>i c. start1 i (names i) (srvs i) c) [0..<n] cfg) (go_iter connect [0..<n]))"

text \<open>
  The rest of the life of a test; \<open>begin\<close> and \<open>end\<close> are \<open>begin_test\<close> and \<open>end_test\<close>, the time
  since the start in nanoseconds is an argument, and \<open>end_test\<close> returns the numbers that are printed.
\<close>

definition checkTimeout :: "bool \<Rightarrow> int \<Rightarrow> unit test" where
  "checkTimeout failed elapsed = (if \<not> failed \<and> elapsed > 120 * 10 ^ 9 then Inl TookTooLong else Inr ())"

definition cleanup :: "bool \<Rightarrow> int \<Rightarrow> ('c, 'd) config \<Rightarrow> ('c, 'd) config test" where
  "cleanup failed elapsed cfg =
     (let cfg = cfg\<lparr>rafts := map (map_option Kill) (rafts cfg)\<rparr>
      in case Cleanup (cfg_net cfg) of
           Inl p \<Rightarrow> Inl (Panicked p)
         | Inr nw \<Rightarrow> map_sum id (\<lambda>_. cfg\<lparr>cfg_net := nw\<rparr>) (checkTimeout failed elapsed))"

definition rpcTotal :: "('c, 'd) config \<Rightarrow> int" where
  "rpcTotal cfg = GetTotalCount (cfg_net cfg)"

definition bytesTotal :: "('c, 'd) config \<Rightarrow> int" where
  "bytesTotal cfg = GetTotalBytes (cfg_net cfg)"

definition setlongreordering :: "bool \<Rightarrow> ('c, 'd) config \<Rightarrow> ('c, 'd) config" where
  "setlongreordering longrel cfg = cfg\<lparr>cfg_net := LongReordering longrel (cfg_net cfg)\<rparr>"

definition begin_test :: "('c, 'd) config \<Rightarrow> ('c, 'd) config" where
  "begin_test cfg =
     cfg\<lparr>rpcs0 := rpcTotal cfg, bytes0 := bytesTotal cfg, cmds0 := 0, maxIndex0 := maxIndex cfg\<rparr>"

definition end_test :: "bool \<Rightarrow> int \<Rightarrow> ('c, 'd) config \<Rightarrow> (nat \<times> int \<times> int \<times> int) option test" where
  "end_test failed elapsed cfg =
     (case checkTimeout failed elapsed of
        Inl e \<Rightarrow> Inl e
      | Inr _ \<Rightarrow>
          Inr (if \<not> failed
               then Some (cfg_n cfg, rpcTotal cfg - rpcs0 cfg, bytesTotal cfg - bytes0 cfg,
                          maxIndex cfg - maxIndex0 cfg)
               else None))"

section \<open>The reader of the apply channel\<close>

definition apply_reader :: "nat \<Rightarrow> 'c ApplyMsg \<Rightarrow> ('c, 'd) config \<Rightarrow> ('c, 'd) config go" where
  "apply_reader i m cfg =
     (if \<not> CommandValid m then Inr cfg
      else
        let v = am_Command m; ix = CommandIndex m;
            differs = (\<exists>lg\<in>set (cfg_logs cfg). \<exists>old. lg ix = Some old \<and> old \<noteq> v);
            prevok = ((cfg_logs cfg ! i) (ix - 1) \<noteq> None);
            cfg = cfg\<lparr>cfg_logs := (cfg_logs cfg)[i := (cfg_logs cfg ! i)(ix \<mapsto> v)],
                      maxIndex := (if ix > maxIndex cfg then ix else maxIndex cfg)\<rparr>
        in if differs \<or> ix > 1 \<and> \<not> prevok then Inl ProcessExit else Inr cfg)"

section \<open>The checks\<close>

definition state_of :: "('c, 'd) config \<Rightarrow> nat \<Rightarrow> (int \<times> bool) test" where
  "state_of cfg i = (case rafts cfg ! i of None \<Rightarrow> Inl RaftIsNil | Some rf \<Rightarrow> Inr (GetState rf))"

text \<open>The map \<open>leaders\<close> as a list of the connected leaders with their terms.\<close>

fun leaders_from :: "('c, 'd) config \<Rightarrow> nat list \<Rightarrow> (int \<times> nat) list test" where
  "leaders_from cfg [] = Inr []"
| "leaders_from cfg (i # is) =
     (if connected cfg ! i
      then (case state_of cfg i of
              Inl e \<Rightarrow> Inl e
            | Inr (term, leader) \<Rightarrow>
                map_sum id (\<lambda>ls. if leader then (term, i) # ls else ls) (leaders_from cfg is))
      else leaders_from cfg is)"

definition leaders_at :: "(int \<times> nat) list \<Rightarrow> int \<Rightarrow> nat list" where
  "leaders_at ls term = map snd (filter (\<lambda>l. fst l = term) ls)"

fun leader_scan :: "(int \<times> nat) list \<Rightarrow> int list \<Rightarrow> int \<Rightarrow> int test" where
  "leader_scan ls [] lastT = Inr lastT"
| "leader_scan ls (term # ts) lastT =
     (if length (leaders_at ls term) > 1 then Inl (TwoLeaders term)
      else leader_scan ls ts (if term > lastT then term else lastT))"

definition checkOneLeader_round :: "(int \<times> nat) list \<Rightarrow> int list \<Rightarrow> nat option test" where
  "checkOneLeader_round ls order =
     (case leader_scan ls order (-1) of
        Inl e \<Rightarrow> Inl e
      | Inr lastT \<Rightarrow> Inr (if ls \<noteq> [] then Some (hd (leaders_at ls lastT)) else None))"

text \<open>The rounds of the loop: what the configuration is then, and the order of the map.\<close>

fun checkOneLeader :: "(('c, 'd) config \<times> int list) list \<Rightarrow> nat test" where
  "checkOneLeader [] = Inl NoLeader"
| "checkOneLeader ((cfg, order) # rounds) =
     (case leaders_from cfg [0..<cfg_n cfg] of
        Inl e \<Rightarrow> Inl e
      | Inr ls \<Rightarrow>
          (case checkOneLeader_round ls order of
             Inl e \<Rightarrow> Inl e
           | Inr (Some i) \<Rightarrow> Inr i
           | Inr None \<Rightarrow> checkOneLeader rounds))"

fun checkTerms_loop :: "('c, 'd) config \<Rightarrow> nat list \<Rightarrow> int \<Rightarrow> int test" where
  "checkTerms_loop cfg [] term = Inr term"
| "checkTerms_loop cfg (i # is) term =
     (if connected cfg ! i
      then (case state_of cfg i of
              Inl e \<Rightarrow> Inl e
            | Inr (xterm, _) \<Rightarrow>
                if term = -1 then checkTerms_loop cfg is xterm
                else if term \<noteq> xterm then Inl TermsDisagree else checkTerms_loop cfg is term)
      else checkTerms_loop cfg is term)"

definition checkTerms :: "('c, 'd) config \<Rightarrow> int test" where
  "checkTerms cfg = checkTerms_loop cfg [0..<cfg_n cfg] (-1)"

fun checkNoLeader_loop :: "('c, 'd) config \<Rightarrow> nat list \<Rightarrow> unit test" where
  "checkNoLeader_loop cfg [] = Inr ()"
| "checkNoLeader_loop cfg (i # is) =
     (if connected cfg ! i
      then (case state_of cfg i of
              Inl e \<Rightarrow> Inl e
            | Inr (_, leader) \<Rightarrow> if leader then Inl (UnexpectedLeader i) else checkNoLeader_loop cfg is)
      else checkNoLeader_loop cfg is)"

definition checkNoLeader :: "('c, 'd) config \<Rightarrow> unit test" where
  "checkNoLeader cfg = checkNoLeader_loop cfg [0..<cfg_n cfg]"

fun nCommitted_loop :: "int \<Rightarrow> (int \<rightharpoonup> 'c iface) list \<Rightarrow> nat \<Rightarrow> 'c iface \<Rightarrow> (nat \<times> 'c iface) test" where
  "nCommitted_loop index [] cnt cmd = Inr (cnt, cmd)"
| "nCommitted_loop index (lg # lgs) cnt cmd =
     (case lg index of
        None \<Rightarrow> nCommitted_loop index lgs cnt cmd
      | Some cmd1 \<Rightarrow>
          if cnt > 0 \<and> cmd \<noteq> cmd1 then Inl (ValuesDisagree index)
          else nCommitted_loop index lgs (cnt + 1) cmd1)"

definition nCommitted :: "('c, 'd) config \<Rightarrow> int \<Rightarrow> (nat \<times> 'c iface) test" where
  "nCommitted cfg index = nCommitted_loop index (cfg_logs cfg) 0 INil"

fun moved_on :: "('c, 'd) Raft option list \<Rightarrow> int \<Rightarrow> bool test" where
  "moved_on [] startTerm = Inr False"
| "moved_on (None # rs) startTerm = Inl RaftIsNil"
| "moved_on (Some rf # rs) startTerm =
     (if fst (GetState rf) > startTerm then Inr True else moved_on rs startTerm)"

text \<open>
  \<open>wait\<close> on the configurations of its rounds (at most 30) and the one it looks at after them;
  \<open>None\<close> stands for the -1 it returns when some peer has moved on.
\<close>

fun cfg_wait ::
  "int \<Rightarrow> nat \<Rightarrow> int \<Rightarrow> ('c, 'd) config list \<Rightarrow> ('c, 'd) config \<Rightarrow> 'c iface option test" where
  "cfg_wait index n startTerm [] final =
     (case nCommitted final index of
        Inl e \<Rightarrow> Inl e
      | Inr (nd, cmd) \<Rightarrow> if nd < n then Inl (TooFewDecided index) else Inr (Some cmd))"
| "cfg_wait index n startTerm (cfg # rounds) final =
     (case nCommitted cfg index of
        Inl e \<Rightarrow> Inl e
      | Inr (nd, _) \<Rightarrow>
          if nd \<ge> n then cfg_wait index n startTerm [] final
          else if startTerm > -1
          then (case moved_on (rafts cfg) startTerm of
                  Inl e \<Rightarrow> Inl e
                | Inr True \<Rightarrow> Inr None
                | Inr False \<Rightarrow> cfg_wait index n startTerm rounds final)
          else cfg_wait index n startTerm rounds final)"

text \<open>
  \<open>one\<close>: what the cluster does between its steps is a list of functions on the configuration. A round of
  its loop asks every server once, then polls until its time is over; the loop ends after ten
  seconds, at the end of the list of rounds.
\<close>

type_synonym ('c, 'd) env = "('c, 'd) config \<Rightarrow> ('c, 'd) config"

fun one_starts ::
  "('c, 'd) env list \<Rightarrow> 'c iface \<Rightarrow> nat \<Rightarrow> ('c, 'd) config \<Rightarrow> (('c, 'd) config \<times> nat \<times> int) test" where
  "one_starts [] cmd starts cfg = Inr (cfg, starts, -1)"
| "one_starts (e # es) cmd starts cfg =
     (let cfg = e cfg; starts = (starts + 1) mod cfg_n cfg
      in case if connected cfg ! starts then rafts cfg ! starts else None of
           None \<Rightarrow> one_starts es cmd starts cfg
         | Some rf \<Rightarrow>
             (case Start rf cmd of
                Inl p \<Rightarrow> Inl (Panicked p)
              | Inr (rf, index1, _, ok) \<Rightarrow>
                  let cfg = cfg\<lparr>rafts := (rafts cfg)[starts := Some rf]\<rparr>
                  in if ok then Inr (cfg, starts, index1) else one_starts es cmd starts cfg))"

fun one_poll ::
  "('c, 'd) env list \<Rightarrow> int \<Rightarrow> 'c iface \<Rightarrow> int \<Rightarrow> ('c, 'd) config \<Rightarrow> (('c, 'd) config \<times> bool) test" where
  "one_poll [] index cmd expectedServers cfg = Inr (cfg, False)"
| "one_poll (e # es) index cmd expectedServers cfg =
     (let cfg = e cfg
      in case nCommitted cfg index of
           Inl f \<Rightarrow> Inl f
         | Inr (nd, cmd1) \<Rightarrow>
             if nd > 0 \<and> int nd \<ge> expectedServers \<and> cmd1 = cmd then Inr (cfg, True)
             else one_poll es index cmd expectedServers cfg)"

fun one_loop ::
  "(('c, 'd) env list \<times> ('c, 'd) env list) list \<Rightarrow> 'c iface \<Rightarrow> int \<Rightarrow> bool \<Rightarrow> nat \<Rightarrow> ('c, 'd) config \<Rightarrow>
   (('c, 'd) config \<times> int) test" where
  "one_loop [] cmd expectedServers retry starts cfg = Inl NoAgreement"
| "one_loop ((es, ps) # rounds) cmd expectedServers retry starts cfg =
     (case one_starts es cmd starts cfg of
        Inl f \<Rightarrow> Inl f
      | Inr (cfg, starts, index) \<Rightarrow>
          if index \<noteq> -1
          then (case one_poll ps index cmd expectedServers cfg of
                  Inl f \<Rightarrow> Inl f
                | Inr (cfg, True) \<Rightarrow> Inr (cfg, index)
                | Inr (cfg, False) \<Rightarrow>
                    if \<not> retry
                    then (case nCommitted cfg index of Inl f \<Rightarrow> Inl f | Inr _ \<Rightarrow> Inl NoAgreement)
                    else one_loop rounds cmd expectedServers retry starts cfg)
          else one_loop rounds cmd expectedServers retry starts cfg)"

definition one ::
  "(('c, 'd) env list \<times> ('c, 'd) env list) list \<Rightarrow> 'c iface \<Rightarrow> int \<Rightarrow> bool \<Rightarrow> ('c, 'd) config \<Rightarrow>
   (('c, 'd) config \<times> int) test" where
  "one rounds cmd expectedServers retry cfg = one_loop rounds cmd expectedServers retry 0 cfg"

section \<open>One leader\<close>

definition leads :: "('c, 'd) config \<Rightarrow> ('c, 'd) cluster \<Rightarrow> nat \<Rightarrow> bool" where
  "leads cfg c i \<longleftrightarrow> i < cfg_n cfg \<and> connected cfg ! i \<and> rf_state (node c i) = LEADER"

text \<open>The peers of a configuration are those of a state that a cluster can reach.\<close>

definition cfg_of :: "('c, 'd) config \<Rightarrow> ('c, 'd) cluster \<Rightarrow> bool" where
  "cfg_of cfg c \<longleftrightarrow> creach_plain (cfg_n cfg) c \<and> rafts cfg = map (\<lambda>i. Some (node c i)) [0..<cfg_n cfg]"

lemma one_leader:
  assumes "creach_plain n c" and "i < n" and "rf_state (node c i) = LEADER"
  shows "1 \<le> currentTerm (node c i)"
    and "j < n \<Longrightarrow> rf_state (node c j) = LEADER \<Longrightarrow> currentTerm (node c i) = currentTerm (node c j) \<Longrightarrow> i = j"
proof -
  obtain H where H: "hist_inv n c H"
    using raft_logs.inv_reachable [OF assms(1)] by (auto simp: log_inv_def)
  have "1 \<le> currentTerm (node c k) \<and> H (currentTerm (node c k)) = Some (k, rlog (node c k))"
    if "k < n" "rf_state (node c k) = LEADER" for k
    using H that unfolding hist_inv_def by blast
  then show "1 \<le> currentTerm (node c i)"
    and "j < n \<Longrightarrow> rf_state (node c j) = LEADER \<Longrightarrow> currentTerm (node c i) = currentTerm (node c j) \<Longrightarrow> i = j"
    using assms(2,3) by (metis option.inject prod.inject)+
qed

lemma leaders_from_ok:
  assumes "cfg_of cfg c" and "set is \<subseteq> {..<cfg_n cfg}"
  shows "leaders_from cfg is = Inr (map (\<lambda>i. (currentTerm (node c i), i)) (filter (leads cfg c) is))"
  using assms(2)
proof (induction "is")
  case (Cons i "is")
  then have "rafts cfg ! i = Some (node c i)" using assms(1) by (auto simp: cfg_of_def)
  then show ?case
    using Cons by (auto simp: state_of_def GetState_def leads_def)
qed simp

lemma filter_single: "distinct xs \<Longrightarrow> i \<in> set xs \<Longrightarrow> filter (\<lambda>j. j = i) xs = [i]"
  by (induction xs) (auto simp: filter_empty_conv)

lemma leaders_at_single:
  assumes "cfg_of cfg c" and "leads cfg c i"
  shows "leaders_at (map (\<lambda>i. (currentTerm (node c i), i)) (filter (leads cfg c) [0..<cfg_n cfg]))
    (currentTerm (node c i)) = [i]"
proof -
  have "filter (\<lambda>j. leads cfg c j \<and> currentTerm (node c j) = currentTerm (node c i)) [0..<cfg_n cfg] =
      filter (\<lambda>j. j = i) [0..<cfg_n cfg]"
    using one_leader(2) assms by (intro filter_cong) (auto simp: cfg_of_def leads_def)
  also have "\<dots> = [i]"
    using assms(2) by (intro filter_single) (simp_all add: leads_def)
  finally show ?thesis
    by (simp add: leaders_at_def filter_map comp_def conj_commute)
qed

lemma leader_scan_ok:
  "(\<And>t. t \<in> set ts \<Longrightarrow> length (leaders_at ls t) \<le> 1) \<Longrightarrow>
   leader_scan ls ts m = Inr (Max (insert m (set ts)))"
proof (induction ts arbitrary: m)
  case (Cons t ts)
  have "max m t = (if t > m then t else m)" by simp
  moreover have "Max (insert (max m t) (set ts)) = Max (insert m (insert t (set ts)))"
  proof (cases "ts = []")
    case False
    then show ?thesis by (simp add: max.assoc)
  qed simp
  ultimately show ?case using Cons by (auto simp: not_less)
qed simp

text \<open>What one round of \<open>checkOneLeader\<close> finds.\<close>

definition greatest_leader :: "('c, 'd) config \<Rightarrow> ('c, 'd) cluster \<Rightarrow> nat \<Rightarrow> bool" where
  "greatest_leader cfg c i \<longleftrightarrow> leads cfg c i \<and>
     (\<forall>j. leads cfg c j \<longrightarrow> j = i \<or> currentTerm (node c j) < currentTerm (node c i))"

lemma checkOneLeader_round_ok:
  assumes cfg: "cfg_of cfg c"
    and ls: "ls = map (\<lambda>i. (currentTerm (node c i), i)) (filter (leads cfg c) [0..<cfg_n cfg])"
    and ord: "set order = fst ` set ls"
  shows "(\<forall>i. \<not> leads cfg c i) \<and> checkOneLeader_round ls order = Inr None \<or>
    (\<exists>i. checkOneLeader_round ls order = Inr (Some i) \<and> greatest_leader cfg c i)"
proof (cases "\<exists>i. leads cfg c i")
  case False
  then show ?thesis using ls ord by (simp add: checkOneLeader_round_def)
next
  case True
  let ?L = "{i. leads cfg c i}"
  have fin: "finite ?L" by (rule finite_subset [of _ "{..<cfg_n cfg}"]) (auto simp: leads_def)
  have terms: "set order = (\<lambda>i. currentTerm (node c i)) ` ?L"
    using ord ls by (force simp: leads_def)
  have pos: "1 \<le> currentTerm (node c i)" if "leads cfg c i" for i
    using one_leader(1) cfg that by (auto simp: cfg_of_def leads_def)
  have "length (leaders_at ls t) \<le> 1" if "t \<in> set order" for t
    using that terms leaders_at_single [OF cfg] ls by auto
  then have scan: "leader_scan ls order (-1) = Inr (Max (insert (-1) (set order)))"
    by (rule leader_scan_ok)
  have "Max (insert (-1) (set order)) \<in> insert (-1) (set order)" by (rule Max_in) auto
  moreover have ge: "t \<le> Max (insert (-1) (set order))" if "t \<in> set order" for t
    using that by (intro Max_ge) auto
  ultimately obtain i where i: "leads cfg c i" "Max (insert (-1) (set order)) = currentTerm (node c i)"
    using terms True pos by fastforce
  have "ls \<noteq> []" using ls i(1) by (auto simp: leads_def filter_empty_conv)
  then have "checkOneLeader_round ls order = Inr (Some i)"
    using scan i leaders_at_single [OF cfg i(1)] ls by (simp add: checkOneLeader_round_def)
  moreover have "j = i \<or> currentTerm (node c j) < currentTerm (node c i)" if "leads cfg c j" for j
    using ge [of "currentTerm (node c j)"] terms that i one_leader(2) cfg
    by (auto simp: cfg_of_def leads_def order_le_less)
  ultimately show ?thesis using i(1) by (auto simp: greatest_leader_def)
qed


definition cfg_for :: "nat \<Rightarrow> ('c, 'd) cluster \<Rightarrow> ('c, 'd) config" where
  "cfg_for n c =
     \<lparr>cfg_net = MakeNetwork, rafts = map (\<lambda>i. Some (node c i)) [0..<n], connected = replicate n True,
      saved = replicate n None, endnames = replicate n None, cfg_logs = replicate n Map.empty, maxIndex = 0,
      rpcs0 = 0, bytes0 = 0, cmds0 = 0, maxIndex0 = 0\<rparr>"

lemma elect_0_leaders:
  "case run_events (cexec_plain 3) (cluster_init 3) elect_0 of
     None \<Rightarrow> False
   | Some c \<Rightarrow> rf_state (node c 0) = LEADER \<and> rf_state (node c 1) \<noteq> LEADER \<and> rf_state (node c 2) \<noteq> LEADER \<and>
       currentTerm (node c 0) = 1"
  by code_simp


section \<open>Connections\<close>

definition ename :: "('c, 'd) config \<Rightarrow> nat \<Rightarrow> nat \<Rightarrow> iname" where
  "ename cfg i j = the (endnames cfg ! i) ! j"

definition names_ok :: "('c, 'd) config \<Rightarrow> bool" where
  "names_ok cfg \<longleftrightarrow> length (endnames cfg) = cfg_n cfg \<and> length (connected cfg) = cfg_n cfg \<and>
     (\<forall>i<cfg_n cfg. \<exists>row. endnames cfg ! i = Some row \<and> length row = cfg_n cfg) \<and>
     inj_on (\<lambda>(i, j). ename cfg i j) ({..<cfg_n cfg} \<times> {..<cfg_n cfg})"

text \<open>A request from \<open>i\<close> to \<open>j\<close> passes exactly when both are connected.\<close>

definition links_ok :: "('c, 'd) config \<Rightarrow> bool" where
  "links_ok cfg \<longleftrightarrow> names_ok cfg \<and>
     (\<forall>i<cfg_n cfg. \<forall>j<cfg_n cfg.
        is_enabled (cfg_net cfg) (ename cfg i j) \<longleftrightarrow> connected cfg ! i \<and> connected cfg ! j)"

lemma end_at_ok: "names_ok cfg \<Longrightarrow> i < cfg_n cfg \<Longrightarrow> j < cfg_n cfg \<Longrightarrow> end_at cfg i j = Inr (ename cfg i j)"
  by (auto simp: names_ok_def end_at_def ename_def go_idx_Inr)

lemma go_iter_Cons: "go_iter f (x # xs) s = go_bind (f x s) (go_iter f xs)"
proof -
  have "foldl (\<lambda>r x. go_bind r (f x)) (go_bind m g) xs = go_bind m (\<lambda>s. foldl (\<lambda>r x. go_bind r (f x)) (g s) xs)"
    for m and g
  proof (induction xs arbitrary: g)
    case (Cons y ys)
    then show ?case using Cons [of "\<lambda>s. go_bind (g s) (f y)"] by (simp add: go_bind_assoc)
  qed simp
  from this [of "f x s" Inr] show ?thesis
    by (cases "f x s") (simp_all add: go_iter_def)
qed

lemma net_frame [simp]:
  "names_ok (cfg\<lparr>cfg_net := nw\<rparr>) = names_ok cfg" "cfg_n (cfg\<lparr>cfg_net := nw\<rparr>) = cfg_n cfg"
  "ename (cfg\<lparr>cfg_net := nw\<rparr>) = ename cfg"
  by (simp_all add: names_ok_def cfg_n_def ename_def fun_eq_iff)

text \<open>The loops of \<open>connect\<close> and \<open>disconnect\<close> set the flag of a row or a column of ends.\<close>

lemma enable_loop:
  assumes "names_ok cfg" and "set js \<subseteq> {..<cfg_n cfg}"
    and "\<And>j. j \<in> set js \<Longrightarrow> a j < cfg_n cfg \<and> b j < cfg_n cfg"
    and "\<And>j nw. P (cfg\<lparr>cfg_net := nw\<rparr>) j = P cfg j"
  shows "go_iter (\<lambda>j c. if P c j then enable_end (a j) (b j) yes c else Inr c) js cfg =
    Inr (cfg\<lparr>cfg_net := fold (\<lambda>j. Enable (ename cfg (a j) (b j)) yes) (filter (P cfg) js) (cfg_net cfg)\<rparr>)"
  using assms
proof (induction js arbitrary: cfg)
  case Nil
  then show ?case by (simp add: go_iter_def)
next
  case (Cons j js)
  show ?case
  proof (cases "P cfg j")
    case True
    let ?c = "cfg\<lparr>cfg_net := Enable (ename cfg (a j) (b j)) yes (cfg_net cfg)\<rparr>"
    have "enable_end (a j) (b j) yes cfg = Inr ?c"
      using Cons.prems by (simp add: enable_end_def end_at_ok)
    moreover have "P (?c\<lparr>cfg_net := nw\<rparr>) k = P ?c k" for k nw
      using Cons.prems(4) [of nw k] Cons.prems(4) [of "cfg_net ?c" k] by simp
    moreover have "filter (P ?c) js = filter (P cfg) js"
      using Cons.prems(4) by (intro filter_cong) auto
    ultimately show ?thesis
      using Cons.IH [of ?c] Cons.prems(1-3) True by (simp add: go_iter_Cons)
  next
    case False
    then show ?thesis using Cons by (simp add: go_iter_Cons)
  qed
qed

lemma is_enabled_fold:
  "is_enabled (fold (\<lambda>j. Enable (f j) yes) js rn) e = (if e \<in> f ` set js then yes else is_enabled rn e)"
  by (induction js arbitrary: rn) (auto simp: Enable_def is_enabled_def)

lemma ename_inj:
  "names_ok cfg \<Longrightarrow> i < cfg_n cfg \<Longrightarrow> j < cfg_n cfg \<Longrightarrow> k < cfg_n cfg \<Longrightarrow> l < cfg_n cfg \<Longrightarrow>
   ename cfg i j = ename cfg k l \<longleftrightarrow> i = k \<and> j = l"
  unfolding names_ok_def by (auto dest: inj_onD [where x = "(i, j)" and y = "(k, l)"])

definition set_links :: "nat \<Rightarrow> (nat \<Rightarrow> bool) \<Rightarrow> bool \<Rightarrow> ('c, 'd) config \<Rightarrow> ('c, 'd) config" where
  "set_links i P yes cfg = cfg\<lparr>cfg_net :=
     fold (\<lambda>j. Enable (ename cfg j i) yes) (filter P [0..<cfg_n cfg])
       (fold (\<lambda>j. Enable (ename cfg i j) yes) (filter P [0..<cfg_n cfg]) (cfg_net cfg))\<rparr>"

lemma set_links_enabled:
  assumes "names_ok cfg" and "i < cfg_n cfg" and "k < cfg_n cfg" and "l < cfg_n cfg"
  shows "is_enabled (cfg_net (set_links i P yes cfg)) (ename cfg k l) =
    (if k = i \<and> P l \<or> l = i \<and> P k then yes else is_enabled (cfg_net cfg) (ename cfg k l))"
  using assms ename_inj [OF assms(1)]
  by (auto simp: set_links_def is_enabled_fold image_iff)

lemma enable_loops:
  assumes "names_ok cfg" and "i < cfg_n cfg" and "\<And>j nw. P (cfg\<lparr>cfg_net := nw\<rparr>) j = P cfg j"
    and "\<And>j nw. Q (cfg\<lparr>cfg_net := nw\<rparr>) j = Q cfg j"
    and "\<And>j. j < cfg_n cfg \<Longrightarrow> P cfg j = R j \<and> Q cfg j = R j"
  shows "go_bind (go_iter (\<lambda>j c. if P c j then enable_end i j yes c else Inr c) [0..<cfg_n cfg] cfg)
       (go_iter (\<lambda>j c. if Q c j then enable_end j i yes c else Inr c) [0..<cfg_n cfg]) =
     Inr (set_links i R yes cfg)"
proof -
  let ?nw = "fold (\<lambda>j. Enable (ename cfg i j) yes) (filter R [0..<cfg_n cfg]) (cfg_net cfg)"
  let ?c = "cfg\<lparr>cfg_net := ?nw\<rparr>"
  have same: "filter (P cfg) [0..<cfg_n cfg] = filter R [0..<cfg_n cfg]"
      "filter (Q ?c) [0..<cfg_n cfg] = filter R [0..<cfg_n cfg]"
    using assms(4,5) by (auto intro!: filter_cong)
  have "go_iter (\<lambda>j c. if P c j then enable_end i j yes c else Inr c) [0..<cfg_n cfg] cfg = Inr ?c"
    by (subst enable_loop [of cfg _ "\<lambda>_. i" "\<lambda>j. j" P]) (use assms same in \<open>auto\<close>)
  moreover have "Q (?c\<lparr>cfg_net := nw\<rparr>) j = Q ?c j" for j nw
    using assms(4) [of nw j] assms(4) [of ?nw j] by simp
  then have "go_iter (\<lambda>j c. if Q c j then enable_end j i yes c else Inr c) [0..<cfg_n cfg] ?c =
      Inr (set_links i R yes cfg)"
    by (subst enable_loop [of ?c _ "\<lambda>j. j" "\<lambda>_. i" Q]) (use assms(1,2) same in \<open>auto simp: set_links_def\<close>)
  ultimately show ?thesis by simp
qed

lemma names_ok_connected:
  "names_ok cfg \<Longrightarrow> names_ok (cfg\<lparr>connected := (connected cfg)[i := b]\<rparr>)"
  by (simp add: names_ok_def cfg_n_def ename_def)

lemma connected_frame [simp]:
  "cfg_n (cfg\<lparr>connected := con\<rparr>) = cfg_n cfg" "ename (cfg\<lparr>connected := con\<rparr>) = ename cfg"
  by (simp_all add: cfg_n_def ename_def fun_eq_iff)

lemma connect_eq:
  assumes "names_ok cfg" and "i < cfg_n cfg"
  shows "connect i cfg = Inr (set_links i (\<lambda>j. (connected cfg)[i := True] ! j) True
    (cfg\<lparr>connected := (connected cfg)[i := True]\<rparr>))"
  using enable_loops [OF names_ok_connected [OF assms(1), of i True], of i "\<lambda>c j. connected c ! j" "\<lambda>c j. connected c ! j"
      "\<lambda>j. (connected cfg)[i := True] ! j" True] assms
  by (simp add: connect_def go_upd_Inr names_ok_def)

lemma disconnect_eq:
  assumes "names_ok cfg" and "i < cfg_n cfg"
  shows "disconnect i cfg = Inr (set_links i (\<lambda>_. True) False (cfg\<lparr>connected := (connected cfg)[i := False]\<rparr>))"
proof -
  have "endnames cfg ! j \<noteq> None" if "j < cfg_n cfg" for j
    using assms(1) that by (auto simp: names_ok_def)
  then show ?thesis
    using enable_loops [OF names_ok_connected [OF assms(1), of i False], of i "\<lambda>c _. endnames c ! i \<noteq> None"
        "\<lambda>c j. endnames c ! j \<noteq> None" "\<lambda>_. True" False] assms
    by (simp add: disconnect_def go_upd_Inr names_ok_def)
qed

theorem connections_kept:
  assumes "links_ok cfg" and "i < cfg_n cfg"
  shows "\<exists>cfg'. connect i cfg = Inr cfg' \<and> links_ok cfg' \<and> connected cfg' = (connected cfg)[i := True]"
    and "\<exists>cfg'. disconnect i cfg = Inr cfg' \<and> links_ok cfg' \<and> connected cfg' = (connected cfg)[i := False]"
proof -
  have n: "names_ok cfg" "length (connected cfg) = cfg_n cfg"
    using assms(1) by (simp_all add: links_ok_def names_ok_def)
  have links: "links_ok (set_links i P b (cfg\<lparr>connected := (connected cfg)[i := b]\<rparr>))"
    if "\<And>j. j < cfg_n cfg \<Longrightarrow> P j = (b \<longrightarrow> (connected cfg)[i := b] ! j)" for P b
  proof -
    let ?c = "cfg\<lparr>connected := (connected cfg)[i := b]\<rparr>"
    have ok: "names_ok ?c" by (rule names_ok_connected [OF n(1)])
    have "is_enabled (cfg_net (set_links i P b ?c)) (ename cfg k l) \<longleftrightarrow>
        (connected cfg)[i := b] ! k \<and> (connected cfg)[i := b] ! l" if "k < cfg_n cfg" "l < cfg_n cfg" for k l
      using set_links_enabled [OF ok, of i k l P b] assms that n(2)
        \<open>\<And>j. j < cfg_n cfg \<Longrightarrow> P j = (b \<longrightarrow> (connected cfg)[i := b] ! j)\<close>
      by (auto simp: links_ok_def nth_list_update)
    then show ?thesis using ok by (simp add: links_ok_def set_links_def)
  qed
  show "\<exists>cfg'. connect i cfg = Inr cfg' \<and> links_ok cfg' \<and> connected cfg' = (connected cfg)[i := True]"
    using connect_eq [OF n(1) assms(2)] links [of "\<lambda>j. (connected cfg)[i := True] ! j" True]
    by (simp add: set_links_def)
  show "\<exists>cfg'. disconnect i cfg = Inr cfg' \<and> links_ok cfg' \<and> connected cfg' = (connected cfg)[i := False]"
    using disconnect_eq [OF n(1) assms(2)] links [of "\<lambda>_. True" False] by (simp add: set_links_def)
qed

section \<open>Committed entries\<close>

definition agree :: "(int \<rightharpoonup> 'c iface) list \<Rightarrow> bool" where
  "agree lgs \<longleftrightarrow> (\<forall>a<length lgs. \<forall>b<length lgs. \<forall>ix v w.
     (lgs ! a) ix = Some v \<and> (lgs ! b) ix = Some w \<longrightarrow> v = w)"

definition gapless :: "(int \<rightharpoonup> 'c iface) list \<Rightarrow> bool" where
  "gapless lgs \<longleftrightarrow> (\<forall>a<length lgs. \<forall>ix. 1 < ix \<and> (lgs ! a) ix \<noteq> None \<longrightarrow> (lgs ! a) (ix - 1) \<noteq> None)"

lemma upd_nth: "a < length lgs \<Longrightarrow> lgs[i := f] ! a = (if a = i then f else lgs ! a)"
  by auto

lemma apply_reader_keeps:
  assumes "apply_reader i m cfg = Inr cfg'" and "agree (cfg_logs cfg)" and "gapless (cfg_logs cfg)"
  shows "agree (cfg_logs cfg') \<and> gapless (cfg_logs cfg')"
proof (cases "CommandValid m")
  case True
  let ?ix = "CommandIndex m" and ?v = "am_Command m" and ?lgs = "cfg_logs cfg"
  have logs: "cfg_logs cfg' = ?lgs[i := (?lgs ! i)(?ix \<mapsto> ?v)]"
    and all: "\<forall>lg\<in>set ?lgs. \<forall>w. lg ?ix = Some w \<longrightarrow> w = ?v"
    and prev: "1 < ?ix \<Longrightarrow> (?lgs ! i) (?ix - 1) \<noteq> None"
    using assms(1) True by (auto simp: apply_reader_def Let_def split: if_splits)
  have same: "\<forall>a<length ?lgs. \<forall>w. (?lgs ! a) ?ix = Some w \<longrightarrow> w = ?v"
    using all nth_mem by blast
  have "agree (cfg_logs cfg')"
    unfolding agree_def logs
  proof (intro allI impI)
    fix a b ix v w
    assume ab: "a < length (?lgs[i := (?lgs ! i)(?ix \<mapsto> ?v)])" "b < length (?lgs[i := (?lgs ! i)(?ix \<mapsto> ?v)])"
      and vw: "(?lgs[i := (?lgs ! i)(?ix \<mapsto> ?v)] ! a) ix = Some v \<and> (?lgs[i := (?lgs ! i)(?ix \<mapsto> ?v)] ! b) ix = Some w"
    show "v = w"
    proof (cases "ix = ?ix")
      case True
      then have "v = ?v" "w = ?v" using ab vw same by (auto simp: upd_nth split: if_splits)
      then show ?thesis by simp
    next
      case False
      then have "(?lgs ! a) ix = Some v" "(?lgs ! b) ix = Some w"
        using ab vw by (auto simp: upd_nth split: if_splits)
      then show ?thesis using assms(2) ab unfolding agree_def by simp
    qed
  qed
  moreover have "gapless (cfg_logs cfg')"
    using assms(3) prev unfolding gapless_def logs by (auto simp: upd_nth)
  ultimately show ?thesis by blast
next
  case False
  then show ?thesis using assms by (simp add: apply_reader_def)
qed

lemma nCommitted_loop_agree:
  assumes "\<And>lg v. lg \<in> set lgs \<Longrightarrow> lg ix = Some v \<Longrightarrow> v = x" and "cnt = 0 \<or> cmd = x"
  shows "\<exists>cmd'. nCommitted_loop ix lgs cnt cmd = Inr (cnt + length (filter (\<lambda>lg. lg ix \<noteq> None) lgs), cmd') \<and>
    (cnt + length (filter (\<lambda>lg. lg ix \<noteq> None) lgs) = 0 \<or> cmd' = x)"
  using assms
proof (induction lgs arbitrary: cnt cmd)
  case (Cons lg lgs)
  show ?case
  proof (cases "lg ix")
    case None
    have "v = x" if "lg' \<in> set lgs" "lg' ix = Some v" for lg' v using Cons.prems(1) that by (meson list.set_intros(2))
    then show ?thesis using Cons.IH [OF _ Cons.prems(2)] None by simp
  next
    case (Some v)
    then have "v = x"
      using Cons.prems(1) by (meson list.set_intros(1))
    moreover obtain cmd' where "nCommitted_loop ix lgs (cnt + 1) x =
        Inr (cnt + 1 + length (filter (\<lambda>lg. lg ix \<noteq> None) lgs), cmd')" "cmd' = x"
      using Cons.IH [of "cnt + 1" x] Cons.prems(1) by auto
    ultimately show ?thesis using Some Cons.prems(2) by auto
  qed
qed simp

text \<open>
  As long as the readers of the apply channels have not ended the process, \<open>nCommitted\<close> does not fail: it
  counts the peers that have applied an index, which all have the same command there, and no
  peer has a gap in what it has applied.
\<close>

theorem nCommitted_after_readers:
  assumes "go_iter (\<lambda>(i, m). apply_reader i m) ms cfg = Inr cfg'" and "\<forall>lg\<in>set (cfg_logs cfg). lg = Map.empty"
  shows "gapless (cfg_logs cfg') \<and>
    (\<exists>cmd. nCommitted cfg' ix = Inr (length (filter (\<lambda>lg. lg ix \<noteq> None) (cfg_logs cfg')), cmd) \<and>
      (\<forall>lg\<in>set (cfg_logs cfg'). \<forall>v. lg ix = Some v \<longrightarrow> v = cmd))"
proof -
  have keep: "agree (cfg_logs c') \<and> gapless (cfg_logs c')"
    if "go_iter (\<lambda>(i, m). apply_reader i m) ms c = Inr c'" "agree (cfg_logs c)" "gapless (cfg_logs c)" for c c'
    using that
  proof (induction ms arbitrary: c)
    case (Cons x ms)
    obtain i m where x: "x = (i, m)" by (cases x)
    obtain c1 where c1: "apply_reader i m c = Inr c1" "go_iter (\<lambda>(i, m). apply_reader i m) ms c1 = Inr c'"
      using Cons.prems(1) by (auto simp: go_iter_Cons go_bind_Inr_iff x)
    then show ?case using Cons.IH [OF c1(2)] apply_reader_keeps [OF c1(1) Cons.prems(2,3)] by blast
  qed (simp add: go_iter_def)
  have "agree (cfg_logs cfg)" "gapless (cfg_logs cfg)"
    using assms(2) by (auto simp: agree_def gapless_def dest!: nth_mem)
  then have inv: "agree (cfg_logs cfg')" "gapless (cfg_logs cfg')" using keep [OF assms(1)] by blast+
  let ?lgs = "cfg_logs cfg'"
  show ?thesis
  proof (cases "\<exists>lg\<in>set ?lgs. \<exists>x. lg ix = Some x")
    case True
    then obtain a x where x: "a < length ?lgs" "(?lgs ! a) ix = Some x" by (auto simp: in_set_conv_nth)
    have all: "v = x" if "lg \<in> set ?lgs" "lg ix = Some v" for lg v
      using inv(1) x that unfolding agree_def in_set_conv_nth by blast
    then show ?thesis
      using nCommitted_loop_agree [of ?lgs ix x 0 INil] all x inv(2) unfolding nCommitted_def
      by (fastforce simp: filter_empty_conv)
  next
    case False
    then have none: "lg ix = None" if "lg \<in> set ?lgs" for lg using that by auto
    then obtain cmd where "nCommitted cfg' ix = Inr (length (filter (\<lambda>lg. lg ix \<noteq> None) ?lgs), cmd)"
      using nCommitted_loop_agree [of ?lgs ix INil 0 INil] unfolding nCommitted_def by force
    moreover have "\<forall>lg\<in>set ?lgs. \<forall>v. lg ix = Some v \<longrightarrow> v = cmd" using none by fastforce
    ultimately show ?thesis using inv(2) by blast
  qed
qed

section \<open>Agreement\<close>

lemma nCommitted_loop_eq:
  "nCommitted_loop ix lgs cnt cmd = Inr (nd, cmd') \<Longrightarrow> (\<forall>lg\<in>set lgs. \<forall>v. lg ix = Some v \<longrightarrow> v = cmd') \<and>
     nd = cnt + length (filter (\<lambda>lg. lg ix \<noteq> None) lgs) \<and> (cnt > 0 \<longrightarrow> cmd' = cmd)"
proof (induction lgs arbitrary: cnt cmd)
  case (Cons lg lgs)
  show ?case
  proof (cases "lg ix")
    case None
    then show ?thesis using Cons by simp
  next
    case (Some v)
    then have "nCommitted_loop ix lgs (cnt + 1) v = Inr (nd, cmd')" "cnt > 0 \<Longrightarrow> cmd = v"
      using Cons.prems by (simp_all split: if_splits)
    then show ?thesis using Cons.IH [of "cnt + 1" v] Some by force
  qed
qed simp

lemma nCommitted_applied:
  assumes "nCommitted cfg ix = Inr (nd, cmd)"
  shows "nd = length (filter (\<lambda>lg. lg ix = Some cmd) (cfg_logs cfg))"
proof -
  have all: "\<forall>lg\<in>set (cfg_logs cfg). \<forall>v. lg ix = Some v \<longrightarrow> v = cmd"
    and nd: "nd = length (filter (\<lambda>lg. lg ix \<noteq> None) (cfg_logs cfg))"
    using nCommitted_loop_eq [of ix "cfg_logs cfg" 0 INil] assms by (auto simp: nCommitted_def)
  have "filter (\<lambda>lg. lg ix \<noteq> None) (cfg_logs cfg) = filter (\<lambda>lg. lg ix = Some cmd) (cfg_logs cfg)"
    using all by (intro filter_cong) auto
  then show ?thesis using nd by simp
qed

lemma one_poll_applied:
  "one_poll es index cmd k cfg = Inr (cfg', True) \<Longrightarrow>
   max 1 k \<le> int (length (filter (\<lambda>lg. lg index = Some cmd) (cfg_logs cfg')))"
proof (induction es arbitrary: cfg)
  case (Cons e es)
  show ?case
  proof (cases "one_poll es index cmd k (e cfg) = Inr (cfg', True)")
    case True
    then show ?thesis by (rule Cons.IH)
  next
    case False
    then obtain nd where "nCommitted (e cfg) index = Inr (nd, cmd)" "cfg' = e cfg" "nd > 0" "int nd \<ge> k"
      using Cons.prems by (auto simp: Let_def split: sum.splits if_splits)
    moreover from this(1) have "nd = length (filter (\<lambda>lg. lg index = Some cmd) (cfg_logs (e cfg)))"
      by (rule nCommitted_applied)
    ultimately show ?thesis by (simp add: Suc_le_eq)
  qed
qed simp

text \<open>
  An index that \<open>one\<close> returns has been agreed on: at that moment at least one peer, and at least
  as many as expected, have applied the command at that index.
\<close>

theorem one_agreement:
  assumes "one rounds cmd expectedServers retry cfg = Inr (cfg', index)"
  shows "max 1 expectedServers \<le> int (length (filter (\<lambda>lg. lg index = Some cmd) (cfg_logs cfg')))"
proof -
  have "one_loop rounds cmd expectedServers retry starts cfg = Inr (cfg', index) \<Longrightarrow> ?thesis" for starts
    by (induction rounds cmd expectedServers retry starts cfg rule: one_loop.induct)
      (auto split: sum.splits if_splits prod.splits bool.splits dest: one_poll_applied)
  then show ?thesis using assms by (simp add: one_def)
qed

section \<open>Restarts\<close>

lemma go_iter_frame:
  assumes "go_iter f xs s = Inr s'" and "\<And>x s s'. f x s = Inr s' \<Longrightarrow> g s' = g s"
  shows "g s' = g s"
  using assms(1)
proof (induction xs arbitrary: s)
  case (Cons x xs)
  then obtain s1 where "f x s = Inr s1" "go_iter f xs s1 = Inr s'" by (auto simp: go_iter_Cons go_bind_Inr_iff)
  then show ?case using Cons.IH assms(2) by metis
qed (simp add: go_iter_def)

lemma enable_end_frame:
  "(if b then enable_end i j yes c else Inr c) = Inr c' \<Longrightarrow> (rafts c', saved c') = (rafts c, saved c)"
  by (auto simp: enable_end_def go_bind_Inr_iff split: if_splits)

lemma disconnect_frame:
  assumes "disconnect i cfg = Inr cfg'"
  shows "(rafts cfg', saved cfg') = (rafts cfg, saved cfg)"
proof -
  obtain con c where 1: "go_iter (\<lambda>j c. if endnames c ! i \<noteq> None then enable_end i j False c else Inr c)
        [0..<cfg_n cfg] (cfg\<lparr>connected := con\<rparr>) = Inr c"
    and 2: "go_iter (\<lambda>j c. if endnames c ! j \<noteq> None then enable_end j i False c else Inr c) [0..<cfg_n cfg] c = Inr cfg'"
    using assms by (auto simp: disconnect_def go_bind_Inr_iff)
  have "(rafts cfg', saved cfg') = (rafts c, saved c)"
    by (rule go_iter_frame [OF 2]) (rule enable_end_frame)
  also have "\<dots> = (rafts (cfg\<lparr>connected := con\<rparr>), saved (cfg\<lparr>connected := con\<rparr>))"
    by (rule go_iter_frame [OF 1]) (rule enable_end_frame)
  finally show ?thesis by simp
qed

text \<open>
  The harness restarts a peer with the state it last persisted: a peer that \<open>start1\<close> starts
  in the place of a running one has its term, vote, log and commit index.
\<close>

theorem start1_recovers:
  assumes "start1 i names srv cfg = Inr cfg'" and "i < cfg_n cfg" and "length (saved cfg) = cfg_n cfg"
    and "rafts cfg ! i = Some (persist rf)"
  shows "\<exists>rf'. rafts cfg' ! i = Some rf' \<and> rf_state rf' = FOLLOWER \<and> currentTerm rf' = currentTerm rf \<and>
    voteFor rf' = voteFor rf \<and> rlog rf' = rlog rf \<and> commitIndex rf' = commitIndex rf"
proof -
  define ps :: "('a, 'b) Persister" where
    "ps = SaveRaftState (ReadRaftState (Persister_Copy (persister (persist rf)))) MakePersister"
  obtain c where c: "crash1 i cfg = Inr c"
    using assms(1) by (auto simp: start1_def go_bind_Inr_iff)
  obtain d where d: "disconnect i cfg = Inr d" using c by (auto simp: crash1_def go_bind_Inr_iff)
  have "rafts c = (rafts cfg)[i := None]" "saved c ! i = Some ps"
    using c d disconnect_frame [OF d] assms(2-4)
    by (auto simp: crash1_def saved_at_def ps_def Let_def)
  then have n: "cfg_n c = cfg_n cfg" and ps: "saved c ! i = Some ps" by (simp_all add: cfg_n_def)
  obtain e rf' where e: "go_iter (\<lambda>j c. go_bind (end_at c i j) (\<lambda>e. go_bind (MakeEnd e (cfg_net c)) (\<lambda>net.
          Inr (c\<lparr>cfg_net := Connect e (NameInt (int j)) net\<rparr>))))
        [0..<cfg_n c] (c\<lparr>endnames := (endnames c)[i := Some names]\<rparr>) = Inr e"
    and rf': "Make (cfg_n e) i (case saved e ! i of Some ps \<Rightarrow> Persister_Copy ps | None \<Rightarrow> MakePersister) = Inr rf'"
      "rafts cfg' = (rafts e)[i := Some rf']"
    using assms(1) c by (auto simp: start1_def start1_make_def go_bind_Inr_iff Let_def cfg_n_def)
  have "(rafts e, saved e) = (rafts (c\<lparr>endnames := (endnames c)[i := Some names]\<rparr>),
      saved (c\<lparr>endnames := (endnames c)[i := Some names]\<rparr>))"
    by (rule go_iter_frame [OF e]) (auto simp: go_bind_Inr_iff)
  then have e': "rafts e = rafts c" "saved e ! i = Some ps" using ps by simp_all
  have "raftstate (Persister_Copy ps) = getPersistData rf"
    by (simp add: ps_def Persister_Copy_def SaveRaftState_def ReadRaftState_def frame_simps)
  then have "rf_state rf' = FOLLOWER \<and> currentTerm rf' = currentTerm rf \<and> voteFor rf' = voteFor rf \<and>
      rlog rf' = rlog rf \<and> commitIndex rf' = commitIndex rf"
    using rf'(1) e'(2) by (auto simp: Make_def ReadRaftState_def getPersistData_def)
  moreover have "rafts cfg' ! i = Some rf'"
    using rf'(2) e'(1) n assms(2) by (simp add: cfg_n_def)
  ultimately show ?thesis by blast
qed

end
