(* ===== verification/Porcupine_Visual.thy ===== *)
theory Porcupine_Visual
  imports Porcupine_Events
begin

text \<open>
  The verbose entry points of the checker and the data they give to the visualization
  (\<open>porcupine/checker.go\<close>, \<open>porcupine/porcupine.go\<close>, \<open>porcupine/visualization.go\<close>,
  \<open>DescribeOperation\<close> of \<open>models/kv.go\<close>).

  In verbose mode \<open>checkParallel\<close> waits for all searches and collects, for every partition, the
  partial linearizations that \<open>checkSingle\<close> has stored in \<open>longest\<close>. A slot of \<open>longest\<close> is overwritten only by a
  longer sequence, so sequences with equal elements come from one pointer and the set of
  pointers is a set of sequences. The order in which \<open>range\<close> visits that set and
  \<open>sort.Slice\<close>, which is not stable, are the parameters \<open>arrange\<close> and \<open>by_length\<close>; the
  formatting of values by \<open>fmt.Sprintf\<close> is \<open>fmt_value\<close> and \<open>fmt_state\<close>. Values of missing keys
  of \<open>callValue\<close> are nil, which no model accepts: \<open>TypeAssertion\<close>. The functions
  \<open>Visualize\<close> and \<open>VisualizePath\<close> write the data as JSON into an HTML page and are left out.
\<close>

section \<open>Collecting partial linearizations\<close>

record 'v linearizationInfo =
  li_history :: "'v entry list list"
  li_partialLinearizations :: "int list list list"

definition unique_partials :: "int list option list \<Rightarrow> int list list" where
  "unique_partials longest = remdups (List.map_filter id longest)"

text \<open>The searches of all partitions; \<open>kill\<close> is what each of them reads of the flag.\<close>

fun gather_partials ::
  "('s, 'v) Model \<Rightarrow> (int list list \<Rightarrow> int list list) \<Rightarrow> ('v entry list \<times> (nat \<Rightarrow> bool)) list \<Rightarrow>
   int list list list go option" where
  "gather_partials model arrange [] = Some (Inr [])"
| "gather_partials model arrange ((entries, kill) # rest) =
     (case checkSingle model entries True kill of
        None \<Rightarrow> None
      | Some (Inl e) \<Rightarrow> Some (Inl e)
      | Some (Inr (_, longest)) \<Rightarrow>
          map_option (\<lambda>r. go_bind r (\<lambda>ps. Inr (arrange (unique_partials longest) # ps)))
            (gather_partials model arrange rest))"

definition checkParallel_info ::
  "('s, 'v) Model \<Rightarrow> 'v entry list list \<Rightarrow> nat option list \<Rightarrow> (nat \<Rightarrow> bool) list \<Rightarrow>
   (int list list \<Rightarrow> int list list) \<Rightarrow> (CheckResult \<times> 'v linearizationInfo) go option" where
  "checkParallel_info model history arrivals kills arrange =
     (case checkParallel model history True arrivals of
        None \<Rightarrow> None
      | Some (Inl e) \<Rightarrow> Some (Inl e)
      | Some (Inr result) \<Rightarrow>
          map_option (\<lambda>r. go_bind r (\<lambda>ps.
              Inr (result, \<lparr>li_history = history, li_partialLinearizations = ps\<rparr>)))
            (gather_partials model arrange (zip history kills)))"

definition CheckOperationsVerbose ::
  "('v entry list \<Rightarrow> 'v entry list) \<Rightarrow> ('s, 'v) Model \<Rightarrow> 'v Operation list \<Rightarrow> nat option list \<Rightarrow>
   (nat \<Rightarrow> bool) list \<Rightarrow> (int list list \<Rightarrow> int list list) \<Rightarrow>
   (CheckResult \<times> 'v linearizationInfo) go option" where
  "CheckOperationsVerbose srt model history arrivals kills arrange =
     (let model = fillDefault model
      in case m_Partition model of
           None \<Rightarrow> Some (Inl NilDereference)
         | Some part \<Rightarrow>
             checkParallel_info model (map (makeEntries srt) (part history)) arrivals kills arrange)"

definition CheckEventsVerbose ::
  "('s, 'v) Model \<Rightarrow> 'v Event list \<Rightarrow> nat option list \<Rightarrow> (nat \<Rightarrow> bool) list \<Rightarrow>
   (int list list \<Rightarrow> int list list) \<Rightarrow> (CheckResult \<times> 'v linearizationInfo) go option" where
  "CheckEventsVerbose model history arrivals kills arrange =
     (let model = fillDefault model
      in case m_PartitionEvent model of
           None \<Rightarrow> Some (Inl NilDereference)
         | Some part \<Rightarrow>
             checkParallel_info model (map (\<lambda>sub. convertEntries (renumber sub)) (part history))
               arrivals kills arrange)"

section \<open>Descriptions\<close>

record ('s, 'v) Describe =
  m_DescribeOperation :: "('v \<Rightarrow> 'v \<Rightarrow> string go) option"
  m_DescribeState :: "('s \<Rightarrow> string) option"

definition DefaultDescribeOperation :: "('v \<Rightarrow> string) \<Rightarrow> 'v \<Rightarrow> 'v \<Rightarrow> string go" where
  "DefaultDescribeOperation fmt_value inp out = Inr (fmt_value inp @ '' -> '' @ fmt_value out)"

definition DefaultDescribeState :: "('s \<Rightarrow> string) \<Rightarrow> 's \<Rightarrow> string" where
  "DefaultDescribeState fmt_state state = fmt_state state"

text \<open>The rest of \<open>fillDefault\<close>, as the two functions it leaves in the model.\<close>

definition describe_op :: "('v \<Rightarrow> string) \<Rightarrow> ('s, 'v) Describe \<Rightarrow> 'v \<Rightarrow> 'v \<Rightarrow> string go" where
  "describe_op fmt_value d =
     (case m_DescribeOperation d of None \<Rightarrow> DefaultDescribeOperation fmt_value | Some f \<Rightarrow> f)"

definition describe_state :: "('s \<Rightarrow> string) \<Rightarrow> ('s, 'v) Describe \<Rightarrow> 's \<Rightarrow> string" where
  "describe_state fmt_state d =
     (case m_DescribeState d of None \<Rightarrow> DefaultDescribeState fmt_state | Some f \<Rightarrow> f)"

definition quoted :: "string \<Rightarrow> string" where
  "quoted s = CHR 0x27 # s @ [CHR 0x27]"

fun kv_DescribeOperation :: "KvInput + string \<Rightarrow> KvInput + string \<Rightarrow> string go" where
  "kv_DescribeOperation (Inl inp) (Inr out) =
     Inr (if ki_Op inp = 0 then ''get('' @ quoted (ki_Key inp) @ '') -> '' @ quoted out
          else if ki_Op inp = 1 then ''put('' @ quoted (ki_Key inp) @ '', '' @ quoted (ki_Value inp) @ '')''
          else if ki_Op inp = 2 then ''append('' @ quoted (ki_Key inp) @ '', '' @ quoted (ki_Value inp) @ '')''
          else ''<invalid>'')"
| "kv_DescribeOperation _ _ = Inl TypeAssertion"

definition KvDescribe :: "(string, KvInput + string) Describe" where
  "KvDescribe = \<lparr>m_DescribeOperation = Some kv_DescribeOperation, m_DescribeState = None\<rparr>"

section \<open>The data of the visualization\<close>

record historyElement =
  he_ClientId :: int
  he_Start :: int
  he_End :: int
  he_Description :: string

record linearizationStep =
  ls_Index :: int
  ls_StateDescription :: string

record partitionVisualizationData =
  pv_History :: "historyElement list"
  pv_PartialLinearizations :: "linearizationStep list list"
  pv_Largest :: "int \<rightharpoonup> nat"

type_synonym 'v hist_state = "historyElement list \<times> (int \<rightharpoonup> 'v) \<times> (int \<rightharpoonup> 'v)"

fun history_loop :: "('v \<Rightarrow> 'v \<Rightarrow> string go) \<Rightarrow> 'v entry list \<Rightarrow> 'v hist_state \<Rightarrow> 'v hist_state go" where
  "history_loop describe [] s = Inr s"
| "history_loop describe (elem # entries) (history, callValue, returnValue) =
     go_bind (go_idx history (e_id elem)) (\<lambda>he.
       case e_kind elem of
         callEntry \<Rightarrow>
           go_bind (go_upd history (e_id elem) (he\<lparr>he_ClientId := e_clientId elem, he_Start := e_time elem\<rparr>)) (\<lambda>history.
             history_loop describe entries (history, callValue(e_id elem \<mapsto> e_value elem), returnValue))
       | returnEntry \<Rightarrow>
           (case callValue (e_id elem) of
              None \<Rightarrow> Inl TypeAssertion
            | Some v \<Rightarrow>
                go_bind (describe v (e_value elem)) (\<lambda>desc.
                go_bind (go_upd history (e_id elem) (he\<lparr>he_End := e_time elem, he_Description := desc\<rparr>)) (\<lambda>history.
                  history_loop describe entries (history, callValue, returnValue(e_id elem \<mapsto> e_value elem))))))"

definition size_at :: "(int \<rightharpoonup> nat) \<Rightarrow> int \<Rightarrow> nat" where
  "size_at m i = (case m i of None \<Rightarrow> 0 | Some k \<Rightarrow> k)"

text \<open>One partial linearization, number \<open>i\<close> of size \<open>len\<close>: its steps, \<open>largestSize\<close> and \<open>largestIndex\<close>.\<close>

fun steps_loop ::
  "('s, 'v) Model \<Rightarrow> ('s \<Rightarrow> string) \<Rightarrow> (int \<rightharpoonup> 'v) \<Rightarrow> (int \<rightharpoonup> 'v) \<Rightarrow> nat \<Rightarrow> nat \<Rightarrow> int list \<Rightarrow> 's \<Rightarrow>
   (int \<rightharpoonup> nat) \<Rightarrow> (int \<rightharpoonup> nat) \<Rightarrow> (linearizationStep list \<times> (int \<rightharpoonup> nat) \<times> (int \<rightharpoonup> nat)) go" where
  "steps_loop model describe cv rv i len [] state largestSize largestIndex = Inr ([], largestSize, largestIndex)"
| "steps_loop model describe cv rv i len (histId # rest) state largestSize largestIndex =
     (case (cv histId, rv histId) of
        (Some x, Some y) \<Rightarrow>
          (case m_Step model state x y of
             (ok, state) \<Rightarrow>
               if \<not> ok then Inl ExplicitPanic
               else
                 let grow = size_at largestSize histId < len;
                     largestSize = (if grow then largestSize(histId \<mapsto> len) else largestSize);
                     largestIndex = (if grow then largestIndex(histId \<mapsto> i) else largestIndex)
                 in go_bind (steps_loop model describe cv rv i len rest state largestSize largestIndex)
                      (\<lambda>(steps, sizes, idxs).
                        Inr (\<lparr>ls_Index = histId, ls_StateDescription = describe state\<rparr> # steps, sizes, idxs)))
      | _ \<Rightarrow> Inl TypeAssertion)"

fun partials_loop ::
  "('s, 'v) Model \<Rightarrow> ('s \<Rightarrow> string) \<Rightarrow> (int \<rightharpoonup> 'v) \<Rightarrow> (int \<rightharpoonup> 'v) \<Rightarrow> nat \<Rightarrow> int list list \<Rightarrow>
   (int \<rightharpoonup> nat) \<Rightarrow> (int \<rightharpoonup> nat) \<Rightarrow> (linearizationStep list list \<times> (int \<rightharpoonup> nat)) go" where
  "partials_loop model describe cv rv i [] largestSize largestIndex = Inr ([], largestIndex)"
| "partials_loop model describe cv rv i (partial # rest) largestSize largestIndex =
     go_bind (steps_loop model describe cv rv i (length partial) partial (m_Init model) largestSize largestIndex)
       (\<lambda>(lin, sizes, idxs).
         go_bind (partials_loop model describe cv rv (Suc i) rest sizes idxs) (\<lambda>(lins, idxs).
           Inr (lin # lins, idxs)))"

definition partition_data ::
  "(int list list \<Rightarrow> int list list) \<Rightarrow> ('s, 'v) Model \<Rightarrow> ('v \<Rightarrow> 'v \<Rightarrow> string go) \<Rightarrow> ('s \<Rightarrow> string) \<Rightarrow>
   'v entry list \<Rightarrow> int list list \<Rightarrow> partitionVisualizationData go" where
  "partition_data by_length model dop dst entries partials =
     go_bind (history_loop dop entries
         (replicate (length entries div 2) \<lparr>he_ClientId = 0, he_Start = 0, he_End = 0, he_Description = ''''\<rparr>,
          Map.empty, Map.empty)) (\<lambda>(history, callValue, returnValue).
     go_bind (partials_loop model dst callValue returnValue 0 (by_length partials) Map.empty Map.empty)
       (\<lambda>(linearizations, largestIndex).
         Inr \<lparr>pv_History = history, pv_PartialLinearizations = linearizations, pv_Largest = largestIndex\<rparr>))"

fun data_loop ::
  "(int list list \<Rightarrow> int list list) \<Rightarrow> ('s, 'v) Model \<Rightarrow> ('v \<Rightarrow> 'v \<Rightarrow> string go) \<Rightarrow> ('s \<Rightarrow> string) \<Rightarrow>
   'v entry list list \<Rightarrow> int list list list \<Rightarrow> partitionVisualizationData list go" where
  "data_loop by_length model dop dst [] ps = Inr []"
| "data_loop by_length model dop dst (entries # history) [] = Inl IndexOutOfRange"
| "data_loop by_length model dop dst (entries # history) (partials # ps) =
     go_bind (partition_data by_length model dop dst entries partials) (\<lambda>d.
     go_bind (data_loop by_length model dop dst history ps) (\<lambda>ds. Inr (d # ds)))"

definition computeVisualizationData ::
  "(int list list \<Rightarrow> int list list) \<Rightarrow> ('v \<Rightarrow> string) \<Rightarrow> ('s \<Rightarrow> string) \<Rightarrow> ('s, 'v) Model \<Rightarrow> ('s, 'v) Describe \<Rightarrow>
   'v linearizationInfo \<Rightarrow> partitionVisualizationData list go" where
  "computeVisualizationData by_length fmt_value fmt_state model d info =
     data_loop by_length (fillDefault model) (describe_op fmt_value d) (describe_state fmt_state d)
       (li_history info) (li_partialLinearizations info)"

section \<open>The history of a partition\<close>

definition described :: "('v \<Rightarrow> 'v \<Rightarrow> string go) \<Rightarrow> 'v entry list \<Rightarrow> nat \<Rightarrow> bool" where
  "described dop entries n \<longleftrightarrow> (\<forall>i\<in>ids n. \<exists>d. dop (op_in entries i) (op_out entries i) = Inr d)"

text \<open>The element of operation \<open>i\<close> and its values when the first \<open>p\<close> entries have been read.\<close>

definition element_after :: "('v \<Rightarrow> 'v \<Rightarrow> string go) \<Rightarrow> 'v entry list \<Rightarrow> nat \<Rightarrow> int \<Rightarrow> historyElement" where
  "element_after dop entries p i =
     \<lparr>he_ClientId = (if epos entries callEntry i < p then e_clientId (entries ! epos entries callEntry i) else 0),
      he_Start = (if epos entries callEntry i < p then e_time (entries ! epos entries callEntry i) else 0),
      he_End = (if epos entries returnEntry i < p then e_time (entries ! epos entries returnEntry i) else 0),
      he_Description = (if epos entries returnEntry i < p then projr (dop (op_in entries i) (op_out entries i)) else [])\<rparr>"

definition value_after :: "'v entry list \<Rightarrow> nat \<Rightarrow> entryKind \<Rightarrow> nat \<Rightarrow> int \<rightharpoonup> 'v" where
  "value_after entries n k p i =
     (if i \<in> ids n \<and> epos entries k i < p then Some (e_value (entries ! epos entries k i)) else None)"

definition history_after ::
  "('v \<Rightarrow> 'v \<Rightarrow> string go) \<Rightarrow> 'v entry list \<Rightarrow> nat \<Rightarrow> nat \<Rightarrow> 'v hist_state" where
  "history_after dop entries n p =
     (map (\<lambda>i. element_after dop entries p (int i)) [0..<n], value_after entries n callEntry p,
      value_after entries n returnEntry p)"

text \<open>Reading entry number \<open>p\<close>, of kind \<open>k\<close> and operation \<open>i\<close>.\<close>

lemma epos_Suc:
  assumes "wf_history entries n" and "p < length entries" and "ekey (entries ! p) = (k, i)" and "j \<in> ids n"
  shows "epos entries l j < Suc p \<longleftrightarrow> epos entries l j < p \<or> l = k \<and> j = i"
  using epos_unique [OF assms(1-3)] epos_ok [OF assms(1,4), of l] assms(3) by (auto simp: less_Suc_eq)

lemma value_after_Suc:
  assumes "wf_history entries n" and "p < length entries" and "ekey (entries ! p) = (k, i)"
  shows "value_after entries n l (Suc p) =
    (if l = k then (value_after entries n l p)(i \<mapsto> e_value (entries ! p)) else value_after entries n l p)"
proof
  fix j
  note i = epos_unique [OF assms]
  show "value_after entries n l (Suc p) j = (if l = k then (value_after entries n l p)(i \<mapsto> e_value (entries ! p))
      else value_after entries n l p) j"
    using epos_Suc [OF assms, of j l] i by (cases "j \<in> ids n") (auto simp: value_after_def)
qed

lemma elements_after_Suc:
  assumes "wf_history entries n" and "p < length entries" and "ekey (entries ! p) = (k, i)"
  shows "map (\<lambda>i. element_after dop entries (Suc p) (int i)) [0..<n] =
    (map (\<lambda>i. element_after dop entries p (int i)) [0..<n])[nat i := element_after dop entries (Suc p) i]"
proof (rule nth_equalityI)
  fix j assume "j < length (map (\<lambda>i. element_after dop entries (Suc p) (int i)) [0..<n])"
  then have j: "int j \<in> ids n" "j < n" by (auto simp: ids_def)
  have "element_after dop entries (Suc p) (int j) = element_after dop entries p (int j)" if "int j \<noteq> i"
    using epos_Suc [OF assms j(1)] that by (simp add: element_after_def)
  moreover have "0 \<le> i" using epos_unique [OF assms] by (auto simp: ids_def)
  ultimately show "map (\<lambda>i. element_after dop entries (Suc p) (int i)) [0..<n] ! j =
      (map (\<lambda>i. element_after dop entries p (int i)) [0..<n])[nat i := element_after dop entries (Suc p) i] ! j"
    using j(2) by (cases "j = nat i") (auto simp: nth_list_update)
qed simp

lemma element_after_Suc:
  assumes wf: "wf_history entries n" and p: "p < length entries" and key: "ekey (entries ! p) = (k, i)"
  shows "element_after dop entries (Suc p) i =
    (case k of
       callEntry \<Rightarrow> (element_after dop entries p i)\<lparr>he_ClientId := e_clientId (entries ! p), he_Start := e_time (entries ! p)\<rparr>
     | returnEntry \<Rightarrow> (element_after dop entries p i)\<lparr>he_End := e_time (entries ! p),
         he_Description := projr (dop (op_in entries i) (op_out entries i))\<rparr>)"
proof -
  have i: "i \<in> ids n" "p = epos entries k i" using epos_unique [OF assms] by auto
  note pos = epos_Suc [OF assms i(1)]
  show ?thesis using pos i(2) by (cases k) (auto simp: element_after_def)
qed

lemma history_loop_step:
  assumes wf: "wf_history entries n" and d: "described dop entries n" and p: "p < length entries"
  shows "history_loop dop (entries ! p # rest) (history_after dop entries n p) =
    history_loop dop rest (history_after dop entries n (Suc p))"
proof -
  obtain k i where key: "ekey (entries ! p) = (k, i)" by fastforce
  then have ki: "e_kind (entries ! p) = k" "e_id (entries ! p) = i" by (auto simp: ekey_def)
  have i: "i \<in> ids n" "p = epos entries k i" using epos_unique [OF wf p key] by auto
  then have rng: "0 \<le> i" "i < int n" by (auto simp: ids_def)
  let ?es = "map (\<lambda>i. element_after dop entries p (int i)) [0..<n]"
  have idx: "go_idx ?es i = Inr (element_after dop entries p i)"
    using rng by (simp add: go_idx_Inr)
  have upd: "go_upd ?es i e = Inr (?es[nat i := e])" for e using rng by (simp add: go_upd_Inr)
  show ?thesis
  proof (cases k)
    case callEntry
    then show ?thesis
      unfolding history_after_def value_after_Suc [OF wf p key] elements_after_Suc [OF wf p key]
        element_after_Suc [OF wf p key]
      using ki idx upd by simp
  next
    case returnEntry
    obtain s where s: "dop (op_in entries i) (op_out entries i) = Inr s" using d i(1) by (auto simp: described_def)
    have "value_after entries n callEntry p i = Some (op_in entries i)"
      using wf i returnEntry by (auto simp: value_after_def wf_history_def op_in_def)
    moreover have "e_value (entries ! p) = op_out entries i" using i(2) returnEntry by (simp add: op_out_def)
    ultimately show ?thesis
      unfolding history_after_def value_after_Suc [OF wf p key] elements_after_Suc [OF wf p key]
        element_after_Suc [OF wf p key]
      using ki idx upd s returnEntry by simp
  qed
qed

lemma history_loop_ok:
  assumes wf: "wf_history entries n" and d: "described dop entries n"
  shows "history_loop dop entries (history_after dop entries n 0) =
    Inr (history_after dop entries n (length entries))"
proof -
  have "history_loop dop (drop p entries) (history_after dop entries n p) =
      Inr (history_after dop entries n (length entries))" if "p \<le> length entries" for p
    using that
  proof (induction "length entries - p" arbitrary: p)
    case 0
    then show ?case by simp
  next
    case (Suc k)
    then have "drop p entries = entries ! p # drop (Suc p) entries" by (simp add: Cons_nth_drop_Suc)
    then show ?case using history_loop_step [OF wf d] Suc by simp
  qed
  from this [of 0] show ?thesis by simp
qed

section \<open>The partial linearizations of a partition\<close>

text \<open>The steps of a partial linearization: the state is described after every operation.\<close>

definition lin_steps ::
  "('s, 'v) Model \<Rightarrow> ('s \<Rightarrow> string) \<Rightarrow> 'v entry list \<Rightarrow> 's \<Rightarrow> int list \<Rightarrow> linearizationStep list" where
  "lin_steps model dst entries st seq =
     map (\<lambda>j. \<lparr>ls_Index = seq ! j, ls_StateDescription = dst (the (run_ops model entries st (take (Suc j) seq)))\<rparr>)
       [0..<length seq]"

lemma lin_steps_Cons:
  "m_Step model st (op_in entries i) (op_out entries i) = (True, st') \<Longrightarrow>
   lin_steps model dst entries st (i # seq) =
     \<lparr>ls_Index = i, ls_StateDescription = dst st'\<rparr> # lin_steps model dst entries st' seq"
  by (simp add: lin_steps_def upt_conv_Cons map_Suc_upt [symmetric] del: upt_Suc)

lemma steps_loop_ok:
  assumes "\<And>i. i \<in> set seq \<Longrightarrow> cv i = Some (op_in entries i) \<and> rv i = Some (op_out entries i)"
    and "legal model entries st seq"
  shows "steps_loop model dst cv rv k len seq st sizes idxs =
    Inr (lin_steps model dst entries st seq,
      \<lambda>i. if i \<in> set seq \<and> size_at sizes i < len then Some len else sizes i,
      \<lambda>i. if i \<in> set seq \<and> size_at sizes i < len then Some k else idxs i)"
  using assms
proof (induction seq arbitrary: st sizes idxs)
  case Nil
  then show ?case by (simp add: lin_steps_def)
next
  case (Cons i seq)
  obtain st' where st': "m_Step model st (op_in entries i) (op_out entries i) = (True, st')" "legal model entries st' seq"
    using Cons.prems(2) by (auto split: prod.splits)
  let ?sizes = "if size_at sizes i < len then sizes(i \<mapsto> len) else sizes"
    and ?idxs = "if size_at sizes i < len then idxs(i \<mapsto> k) else idxs"
  have rest: "steps_loop model dst cv rv k len seq st' ?sizes ?idxs =
    Inr (lin_steps model dst entries st' seq,
      \<lambda>i. if i \<in> set seq \<and> size_at ?sizes i < len then Some len else ?sizes i,
      \<lambda>i. if i \<in> set seq \<and> size_at ?sizes i < len then Some k else ?idxs i)"
    by (rule Cons.IH) (use Cons.prems st' in auto)
  have "(\<lambda>j. if j \<in> set seq \<and> size_at ?sizes j < len then Some len else ?sizes j) =
      (\<lambda>j. if j \<in> set (i # seq) \<and> size_at sizes j < len then Some len else sizes j)"
    "(\<lambda>j. if j \<in> set seq \<and> size_at ?sizes j < len then Some k else ?idxs j) =
      (\<lambda>j. if j \<in> set (i # seq) \<and> size_at sizes j < len then Some k else idxs j)"
    by (auto simp: fun_eq_iff size_at_def)
  then show ?case
    using rest Cons.prems(1) [of i] st'(1) by (simp add: lin_steps_Cons Let_def)
qed

text \<open>The first of a list of sequences that contains \<open>i\<close>.\<close>

definition first_with :: "int list list \<Rightarrow> int \<rightharpoonup> nat" where
  "first_with ps i =
     (if \<exists>p\<in>set ps. i \<in> set p then Some (length (takeWhile (\<lambda>p. i \<notin> set p) ps)) else None)"

lemma first_with_snoc:
  "first_with (ps @ [p]) i =
     (case first_with ps i of Some k \<Rightarrow> Some k | None \<Rightarrow> if i \<in> set p then Some (length ps) else None)"
proof (cases "\<exists>q\<in>set ps. i \<in> set q")
  case True
  then have "takeWhile (\<lambda>p. i \<notin> set p) (ps @ [p]) = takeWhile (\<lambda>p. i \<notin> set p) ps"
    by (auto simp: takeWhile_append)
  then show ?thesis using True by (auto simp: first_with_def)
next
  case False
  then have "takeWhile (\<lambda>p. i \<notin> set p) ps = ps" by (auto simp: takeWhile_eq_all_conv)
  then show ?thesis using False by (auto simp: first_with_def takeWhile_append)
qed

lemma first_with_Some:
  assumes "first_with ps i = Some k"
  shows "k < length ps \<and> i \<in> set (ps ! k) \<and> (\<forall>j<k. i \<notin> set (ps ! j))"
proof -
  have ex: "\<exists>p\<in>set ps. i \<in> set p" and k: "k = length (takeWhile (\<lambda>p. i \<notin> set p) ps)"
    using assms by (auto simp: first_with_def split: if_splits)
  have len: "k < length ps"
    using ex k length_takeWhile_le [of "\<lambda>p. i \<notin> set p" ps] takeWhile_eq_all_conv [of "\<lambda>p. i \<notin> set p" ps]
    by (metis nat_less_le takeWhile_eq_take take_all_iff)
  moreover have "i \<in> set (ps ! k)" using nth_length_takeWhile [of "\<lambda>p. i \<notin> set p" ps] len k by simp
  moreover have "i \<notin> set (ps ! j)" if "j < k" for j
    using that k set_takeWhileD [of "ps ! j" "\<lambda>p. i \<notin> set p" ps] by (metis nth_mem takeWhile_nth)
  ultimately show ?thesis by blast
qed

definition longest_first :: "int list list \<Rightarrow> bool" where
  "longest_first ps \<longleftrightarrow> sorted_wrt (\<lambda>p q. length p \<ge> length q) ps"

lemma partials_loop_ok:
  assumes "longest_first (prev @ ps)"
    and "\<And>p i. p \<in> set ps \<Longrightarrow> i \<in> set p \<Longrightarrow> cv i = Some (op_in entries i) \<and> rv i = Some (op_out entries i)"
    and "\<And>p. p \<in> set ps \<Longrightarrow> legal model entries (m_Init model) p"
    and "\<And>i. sizes i = map_option (\<lambda>k. length (prev ! k)) (first_with prev i)"
  shows "partials_loop model dst cv rv (length prev) ps sizes (first_with prev) =
    Inr (map (lin_steps model dst entries (m_Init model)) ps, first_with (prev @ ps))"
  using assms
proof (induction ps arbitrary: prev sizes)
  case (Cons p ps)
  let ?sizes = "\<lambda>i. if i \<in> set p \<and> size_at sizes i < length p then Some (length p) else sizes i"
    and ?idxs = "\<lambda>i. if i \<in> set p \<and> size_at sizes i < length p then Some (length prev) else first_with prev i"
  have step: "steps_loop model dst cv rv (length prev) (length p) p (m_Init model) sizes (first_with prev) =
      Inr (lin_steps model dst entries (m_Init model) p, ?sizes, ?idxs)"
    by (rule steps_loop_ok) (use Cons.prems in auto)
  have grow: "i \<in> set p \<and> size_at sizes i < length p \<longleftrightarrow> i \<in> set p \<and> first_with prev i = None" for i
  proof (cases "first_with prev i")
    case (Some k)
    have "length (prev ! k) \<ge> length p"
      using first_with_Some [OF Some] Cons.prems(1) by (auto simp: longest_first_def sorted_wrt_append)
    then show ?thesis using Some Cons.prems(4) [of i] by (auto simp: size_at_def)
  next
    case None
    then show ?thesis using Cons.prems(4) [of i] by (cases p) (auto simp: size_at_def)
  qed
  have idxs: "?idxs = first_with (prev @ [p])"
    unfolding grow by (auto simp: fun_eq_iff first_with_snoc split: option.splits)
  have sizes: "?sizes i = map_option (\<lambda>k. length ((prev @ [p]) ! k)) (first_with (prev @ [p]) i)" for i
    unfolding grow using Cons.prems(4) [of i] first_with_Some [of prev i]
    by (auto simp: first_with_snoc nth_append split: option.splits)
  have "partials_loop model dst cv rv (length (prev @ [p])) ps ?sizes (first_with (prev @ [p])) =
      Inr (map (lin_steps model dst entries (m_Init model)) ps, first_with ((prev @ [p]) @ ps))"
    by (rule Cons.IH) (use Cons.prems(1-3) sizes in auto)
  then show ?case using step idxs by simp
qed simp

section \<open>The data of a check\<close>

lemma partition_data_ok:
  assumes wf: "wf_history entries n" and d: "described dop entries n"
    and srt: "set (by_length ps) = set ps" "longest_first (by_length ps)"
    and ps: "\<forall>p\<in>set ps. partial_lin model entries n p"
  shows "partition_data by_length model dop dst entries ps =
    Inr \<lparr>pv_History = map (\<lambda>i. element_after dop entries (length entries) (int i)) [0..<n],
         pv_PartialLinearizations = map (lin_steps model dst entries (m_Init model)) (by_length ps),
         pv_Largest = first_with (by_length ps)\<rparr>"
proof -
  let ?zero = "\<lparr>he_ClientId = 0, he_Start = 0, he_End = 0, he_Description = []\<rparr>"
  have "(replicate (length entries div 2) ?zero, Map.empty, Map.empty) = history_after dop entries n 0"
    by (auto simp: history_after_def element_after_def value_after_def fun_eq_iff history_length [OF wf] map_replicate_trivial)
  then have hist: "history_loop dop entries (replicate (length entries div 2) ?zero, Map.empty, Map.empty) =
      Inr (history_after dop entries n (length entries))"
    using history_loop_ok [OF wf d] by simp
  have vals: "value_after entries n callEntry (length entries) i = Some (op_in entries i) \<and>
      value_after entries n returnEntry (length entries) i = Some (op_out entries i)" if "i \<in> ids n" for i
    using epos_ok [OF wf that] that by (simp add: value_after_def op_in_def op_out_def)
  have part: "p \<in> set (by_length ps) \<Longrightarrow> set p \<subseteq> ids n \<and> legal model entries (m_Init model) p" for p
    using ps srt(1) by (simp add: partial_lin_def)
  have none: "first_with [] = Map.empty" by (auto simp: first_with_def)
  have "partials_loop model dst (value_after entries n callEntry (length entries))
      (value_after entries n returnEntry (length entries)) (length ([] :: int list list)) (by_length ps) Map.empty (first_with []) =
      Inr (map (lin_steps model dst entries (m_Init model)) (by_length ps), first_with ([] @ by_length ps))"
    by (rule partials_loop_ok) (use srt(2) part vals none in \<open>auto dest!: subsetD\<close>)
  then show ?thesis
    using hist by (simp add: partition_data_def history_after_def none)
qed

text \<open>What the data of one partition say.\<close>

definition visual_ok ::
  "('s, 'v) Model \<Rightarrow> ('v \<Rightarrow> 'v \<Rightarrow> string go) \<Rightarrow> ('s \<Rightarrow> string) \<Rightarrow> 'v entry list \<Rightarrow> partitionVisualizationData \<Rightarrow> bool" where
  "visual_ok model dop dst entries dt \<longleftrightarrow>
     (let n = length entries div 2; lins = pv_PartialLinearizations dt in
      length (pv_History dt) = n \<and>
      (\<forall>i<n. he_ClientId (pv_History dt ! i) = e_clientId (entries ! epos entries callEntry (int i)) \<and>
         he_Start (pv_History dt ! i) = e_time (entries ! epos entries callEntry (int i)) \<and>
         he_End (pv_History dt ! i) = e_time (entries ! epos entries returnEntry (int i)) \<and>
         dop (op_in entries (int i)) (op_out entries (int i)) = Inr (he_Description (pv_History dt ! i))) \<and>
      (\<forall>lin\<in>set lins. partial_lin model entries n (map ls_Index lin) \<and>
         lin = lin_steps model dst entries (m_Init model) (map ls_Index lin)) \<and>
      (\<forall>i. pv_Largest dt i = None \<longleftrightarrow> (\<forall>lin\<in>set lins. i \<notin> ls_Index ` set lin)) \<and>
      (\<forall>i k. pv_Largest dt i = Some k \<longrightarrow> k < length lins \<and> i \<in> ls_Index ` set (lins ! k) \<and>
         (\<forall>lin\<in>set lins. i \<in> ls_Index ` set lin \<longrightarrow> length lin \<le> length (lins ! k))))"

lemma lin_steps_index [simp]: "map ls_Index (lin_steps model dst entries st seq) = seq"
  by (simp add: lin_steps_def comp_def map_nth)

lemma lin_steps_ids [simp]: "ls_Index ` set (lin_steps model dst entries st seq) = set seq"
  using lin_steps_index [of model dst entries st seq] by (metis list.set_map)

lemma lin_steps_length [simp]: "length (lin_steps model dst entries st seq) = length seq"
  by (simp add: lin_steps_def)

lemma first_with_longest:
  assumes "first_with ps i = Some k" and "longest_first ps" and "p \<in> set ps" and "i \<in> set p"
  shows "length p \<le> length (ps ! k)"
proof -
  obtain j where j: "j < length ps" "p = ps ! j" using assms(3) by (metis in_set_conv_nth)
  have "k \<le> j" using first_with_Some [OF assms(1)] assms(4) j by (meson not_le)
  then show ?thesis
    using assms(2) j by (cases "k = j") (auto simp: longest_first_def sorted_wrt_iff_nth_less)
qed

lemma partition_data_visual:
  assumes wf: "wf_history entries (length entries div 2)" and d: "described dop entries (length entries div 2)"
    and srt: "set (by_length ps) = set ps" "longest_first (by_length ps)"
    and ps: "\<forall>p\<in>set ps. partial_lin model entries (length entries div 2) p"
  shows "\<exists>dt. partition_data by_length model dop dst entries ps = Inr dt \<and> visual_ok model dop dst entries dt"
proof (intro exI conjI)
  let ?n = "length entries div 2"
  have pos: "epos entries k (int i) < length entries" if "i < ?n" for k i
    using epos_ok [OF wf, of "int i" k] that by (auto simp: ids_def)
  have desc: "dop (op_in entries (int i)) (op_out entries (int i)) =
      Inr (projr (dop (op_in entries (int i)) (op_out entries (int i))))" if "i < ?n" for i
    using d that by (force simp: described_def ids_def)
  show "partition_data by_length model dop dst entries ps =
      Inr \<lparr>pv_History = map (\<lambda>i. element_after dop entries (length entries) (int i)) [0..<?n],
           pv_PartialLinearizations = map (lin_steps model dst entries (m_Init model)) (by_length ps),
           pv_Largest = first_with (by_length ps)\<rparr>"
    by (rule partition_data_ok [OF wf d, of by_length ps]) (use srt ps in auto)
  show "visual_ok model dop dst entries
      \<lparr>pv_History = map (\<lambda>i. element_after dop entries (length entries) (int i)) [0..<?n],
       pv_PartialLinearizations = map (lin_steps model dst entries (m_Init model)) (by_length ps),
       pv_Largest = first_with (by_length ps)\<rparr>"
    unfolding visual_ok_def Let_def
    using first_with_Some [of "by_length ps"] first_with_longest [OF _ srt(2)] ps srt(1) desc pos
    by (simp add: element_after_def) (auto simp: first_with_def)
qed

lemma unique_partials_set: "set (unique_partials longest) = {seq. Some seq \<in> set longest}"
  by (auto simp: unique_partials_def List.map_filter_def intro!: image_eqI)

lemma gather_partials_ok:
  assumes "\<forall>x\<in>set xs. wf_history (fst x) (length (fst x) div 2)" and "eq_model model"
    and "\<And>ps. set (arrange ps) = set ps"
  shows "\<exists>pss. gather_partials model arrange xs = Some (Inr pss) \<and>
    list_all2 (\<lambda>x ps. \<forall>p\<in>set ps. partial_lin model (fst x) (length (fst x) div 2) p) xs pss"
  using assms(1)
proof (induction xs)
  case (Cons x xs)
  obtain entries kill where x: "x = (entries, kill)" by fastforce
  obtain ok longest where run: "checkSingle model entries True kill = Some (Inr (ok, longest))"
    and good: "longest_good model entries (length entries div 2) longest"
    using checkSingle_ok [of entries "length entries div 2" model True kill] Cons.prems assms(2) x by auto
  obtain pss where pss: "gather_partials model arrange xs = Some (Inr pss)"
      "list_all2 (\<lambda>x ps. \<forall>p\<in>set ps. partial_lin model (fst x) (length (fst x) div 2) p) xs pss"
    using Cons by auto
  have "partial_lin model entries (length entries div 2) p" if "p \<in> set (arrange (unique_partials longest))" for p
    using that good unfolding assms(3) unique_partials_set longest_good_def
    by (metis in_set_conv_nth mem_Collect_eq)
  then show ?case using run pss x by auto
qed simp

lemma data_loop_ok:
  assumes "list_all2 (\<lambda>es ps. \<exists>dt. partition_data by_length model dop dst es ps = Inr dt \<and> P es dt) hs pss"
  shows "\<exists>data. data_loop by_length model dop dst hs pss = Inr data \<and> list_all2 P hs data"
  using assms by (induction rule: list_all2_induct) auto

lemma checkParallel_visual:
  assumes "\<forall>es\<in>set history. wf_history es (length es div 2) \<and> described (describe_op fmt_value d) es (length es div 2)"
    and "eq_model (fillDefault model)" and "checkParallel (fillDefault model) history True arrivals = Some (Inr result)"
    and "length kills = length history" and "\<And>ps. set (arrange ps) = set ps"
    and "\<And>ps. set (by_length ps) = set ps \<and> longest_first (by_length ps)"
  shows "\<exists>info data. checkParallel_info (fillDefault model) history arrivals kills arrange = Some (Inr (result, info)) \<and>
    computeVisualizationData by_length fmt_value fmt_state model d info = Inr data \<and>
    list_all2 (visual_ok (fillDefault model) (describe_op fmt_value d) (describe_state fmt_state d)) history data"
proof -
  let ?m = "fillDefault model" and ?dop = "describe_op fmt_value d" and ?dst = "describe_state fmt_state d"
  have mem: "\<forall>x\<in>set (zip history kills). wf_history (fst x) (length (fst x) div 2)"
    using assms(1) by (auto dest: set_zip_leftD)
  obtain pss where pss: "gather_partials ?m arrange (zip history kills) = Some (Inr pss)"
    and all: "list_all2 (\<lambda>x ps. \<forall>p\<in>set ps. partial_lin ?m (fst x) (length (fst x) div 2) p) (zip history kills) pss"
    using gather_partials_ok [of "zip history kills" ?m arrange, OF mem assms(2,5)] by blast
  have "list_all2 (\<lambda>es ps. \<forall>p\<in>set ps. partial_lin ?m es (length es div 2) p) history pss"
    using all assms(4) by (auto simp: list_all2_conv_all_nth)
  then have "list_all2 (\<lambda>es ps. \<exists>dt. partition_data by_length ?m ?dop ?dst es ps = Inr dt \<and> visual_ok ?m ?dop ?dst es dt)
      history pss"
    unfolding list_all2_conv_all_nth
  proof (elim conjE, intro conjI allI impI)
    fix q assume len: "length history = length pss" and q: "q < length history"
      and all: "\<forall>i<length history. \<forall>p\<in>set (pss ! i). partial_lin ?m (history ! i) (length (history ! i) div 2) p"
    show "\<exists>dt. partition_data by_length ?m ?dop ?dst (history ! q) (pss ! q) = Inr dt \<and>
        visual_ok ?m ?dop ?dst (history ! q) dt"
      by (rule partition_data_visual) (use assms(1,6) all q in auto)
  qed
  from data_loop_ok [OF this] obtain data where "data_loop by_length ?m ?dop ?dst history pss = Inr data"
      "list_all2 (visual_ok ?m ?dop ?dst) history data" by blast
  then show ?thesis
    using pss assms(3) by (auto simp: checkParallel_info_def computeVisualizationData_def)
qed

lemma makeEntries_described:
  assumes "time_sort srt" and "\<forall>x\<in>set ops. \<exists>s. dop (op_Input x) (op_Output x) = Inr s"
  shows "described dop (makeEntries srt ops) (length ops)"
  unfolding described_def
proof
  fix i assume "i \<in> ids (length ops)"
  then obtain k where k: "i = int k" "k < length ops" by (auto simp: ids_def)
  then show "\<exists>d. dop (op_in (makeEntries srt ops) i) (op_out (makeEntries srt ops) i) = Inr d"
    using makeEntries_at [OF assms(1) k(2)] assms(2) by (simp add: op_in_def op_out_def op_entry_def)
qed

text \<open>
  C37. Whatever a verbose check of operations finds, also with a timeout and in any order, its
  partial linearizations can be shown: every sequence it reports is a partial linearization of
  its partition, so that \<open>computeVisualizationData\<close> does not run into its panic. The history has client,
  times and description of every operation, every step shows the state after the operations
  up to it, and \<open>Largest\<close> gives for an operation a longest one of the sequences that contain it.
\<close>

theorem verbose_check_visualizes:
  assumes "time_sort srt" and "eq_model (fillDefault model)" and "m_Partition (fillDefault model) = Some part"
    and "\<forall>p\<in>set (part history). timed p"
    and "\<forall>p\<in>set (part history). \<forall>x\<in>set p. \<exists>s. describe_op fmt_value d (op_Input x) (op_Output x) = Inr s"
    and "checkOperations srt model history True arrivals = Some (Inr result)"
    and "length kills = length (part history)" and "\<And>ps. set (arrange ps) = set ps"
    and "\<And>ps. set (by_length ps) = set ps \<and> longest_first (by_length ps)"
  shows "\<exists>info data. CheckOperationsVerbose srt model history arrivals kills arrange = Some (Inr (result, info)) \<and>
    computeVisualizationData by_length fmt_value fmt_state model d info = Inr data \<and>
    list_all2 (\<lambda>p. visual_ok (fillDefault model) (describe_op fmt_value d) (describe_state fmt_state d) (makeEntries srt p))
      (part history) data"
proof -
  let ?hs = "map (makeEntries srt) (part history)"
  have wf: "wf_history es (length es div 2) \<and> described (describe_op fmt_value d) es (length es div 2)"
    if es: "es \<in> set ?hs" for es
  proof -
    obtain p where p: "p \<in> set (part history)" "es = makeEntries srt p" using es by auto
    then have w: "wf_history es (length p)" using makeEntries_wf [OF assms(1)] assms(4) by blast
    have "length es div 2 = length p" by (simp add: history_length [OF w])
    then show ?thesis using w makeEntries_described [OF assms(1), of p "describe_op fmt_value d"] assms(5) p by simp
  qed
  have res: "checkParallel (fillDefault model) ?hs True arrivals = Some (Inr result)"
    using assms(3,6) by (simp add: checkOperations_def)
  have "\<exists>info data. checkParallel_info (fillDefault model) ?hs arrivals kills arrange = Some (Inr (result, info)) \<and>
      computeVisualizationData by_length fmt_value fmt_state model d info = Inr data \<and>
      list_all2 (visual_ok (fillDefault model) (describe_op fmt_value d) (describe_state fmt_state d)) ?hs data"
    by (rule checkParallel_visual [OF _ assms(2) res]) (use wf assms(7-9) in auto)
  then show ?thesis
    using assms(3) by (simp add: CheckOperationsVerbose_def list_all2_map1)
qed

theorem verbose_check_visualizes_witness:
  "\<exists>result info data. CheckOperationsVerbose (sort_key e_time) KvModel example_kv_ops [Some 1, Some 0]
       (replicate 2 (\<lambda>_. False)) (\<lambda>ps. ps) = Some (Inr (result, info)) \<and>
     computeVisualizationData (sort_key (\<lambda>p. - int (length p))) (\<lambda>_. '''') (\<lambda>st. st) KvModel KvDescribe info = Inr data \<and>
     length data = 2"
proof -
  let ?part = "KvModel_Partition kv_key"
  have "kv_key ` set example_kv_ops = {''a'', ''b''}" by (simp add: example_kv_ops_def kv_key_def)
  then have len: "length (?part example_kv_ops) = 2" by (simp add: KvModel_Partition_eq)
  have mem: "x \<in> set example_kv_ops" if "p \<in> set (?part example_kv_ops)" "x \<in> set p" for p x
    using that by (auto simp: KvModel_Partition_eq)
  have ops: "timed example_kv_ops" "no_ties example_kv_ops"
      "\<forall>x\<in>set example_kv_ops. \<exists>s. describe_op (\<lambda>_. '''') KvDescribe (op_Input x) (op_Output x) = Inr s"
    by (simp_all add: example_kv_ops_def timed_def no_ties_def describe_op_def KvDescribe_def)
  have "checkOperations (sort_key e_time) KvModel example_kv_ops True (map Some [1, 0]) =
      Some (Inr (if \<forall>p\<in>set (?part example_kv_ops). ops_linearizable KvModel p then Ok else Illegal))"
    by (rule checkOperations_ok [OF insort_time_sort KvModel_eq])
      (use ops mem len in \<open>auto simp: timed_def no_ties_def less_2_cases_iff\<close>)
  then obtain result where res: "checkOperations (sort_key e_time) KvModel example_kv_ops True [Some 1, Some 0] =
      Some (Inr result)" by simp
  have srt: "set (sort_key (\<lambda>p. - int (length p)) ps) = set ps \<and> longest_first (sort_key (\<lambda>p. - int (length p)) ps)"
    for ps :: "int list list"
    using sorted_sort_key [of "\<lambda>p. - int (length p)" ps] by (simp add: longest_first_def sorted_wrt_map)
  have "\<exists>info data. CheckOperationsVerbose (sort_key e_time) KvModel example_kv_ops [Some 1, Some 0]
       (replicate 2 (\<lambda>_. False)) (\<lambda>ps. ps) = Some (Inr (result, info)) \<and>
     computeVisualizationData (sort_key (\<lambda>p. - int (length p))) (\<lambda>_. '''') (\<lambda>st. st) KvModel KvDescribe info = Inr data \<and>
     list_all2 (\<lambda>p. visual_ok (fillDefault KvModel) (describe_op (\<lambda>_. '''') KvDescribe)
       (describe_state (\<lambda>st. st) KvDescribe) (makeEntries (sort_key e_time) p)) (?part example_kv_ops) data"
    by (rule verbose_check_visualizes [OF insort_time_sort KvModel_eq _ _ res])
      (use ops mem len srt in \<open>auto simp: timed_def\<close>)
  then show ?thesis using len by (auto dest: list_all2_lengthD)
qed

end
