(* ===== verification/Labgob.thy ===== *)
theory Labgob
  imports Prelude
begin

text \<open>
  The wrapper around gob (\<open>labgob/labgob.go\<close>) that warns about field names which gob would not
  encode and about decoding into variables that are not zero.

  The types of a program are the elements of a finite type \<open>'t\<close>, and \<open>env\<close> says what each of them is; types may refer
  to themselves and to each other. \<open>checkType\<close> is recursive; the model keeps its pending calls as a list of
  items, and \<open>checkType_calls\<close> gives the calls as the code has them. The set of the types it has seen and
  the number of complaints are the two global variables of the package. Names begin with
  an ASCII character. Pointers are addresses of a heap, which may be cyclic. The encoder and
  decoder of gob are parameters.
\<close>

section \<open>Types and values\<close>

datatype 't go_type =
    TStruct "(string \<times> 't) list"
  | TSlice 't
  | TArray 't
  | TPtr 't
  | TMap (map_key: 't) (map_elem: 't)
  | TOther

datatype go_value =
    VStruct "(string \<times> go_value) list"
  | VPtr "nat option"
  | VBool bool
  | VNumber int
  | VString string
  | VOther

type_synonym 't gob_state = "'t set \<times> int"

definition exported :: "string \<Rightarrow> bool" where
  "exported name =
     (case name of [] \<Rightarrow> False | c # _ \<Rightarrow> (65 :: nat) \<le> of_char c \<and> (of_char c :: nat) \<le> 90)"

section \<open>Checking types\<close>

datatype 't item = IType 't | IField string 't

fun items :: "'t go_type \<Rightarrow> 't item list" where
  "items (TStruct fs) = map (\<lambda>(name, t). IField name t) fs"
| "items (TSlice t) = [IType t]"
| "items (TArray t) = [IType t]"
| "items (TPtr t) = [IType t]"
| "items (TMap k e) = [IType e, IType k]"
| "items TOther = []"

fun item_weight :: "'t item \<Rightarrow> nat" where
  "item_weight (IType t) = 1"
| "item_weight (IField name t) = 2"

function check_items :: "('t :: finite \<Rightarrow> 't go_type) \<Rightarrow> 't item list \<Rightarrow> 't gob_state \<Rightarrow> 't gob_state" where
  "check_items env [] (checked, errorCount) = (checked, errorCount)"
| "check_items env (IField name t # rest) (checked, errorCount) =
     check_items env (IType t # rest) (checked, if exported name then errorCount else errorCount + 1)"
| "check_items env (IType t # rest) (checked, errorCount) =
     (if t \<in> checked then check_items env rest (checked, errorCount)
      else check_items env (items (env t) @ rest) (insert t checked, errorCount))"
  by pat_completeness auto
termination
proof (relation "measures [\<lambda>(env, xs, s). card (- fst s), \<lambda>(env, xs, s). sum_list (map item_weight xs)]")
  fix env :: "'t :: finite \<Rightarrow> 't go_type" and t :: 't and rest checked and errorCount :: int
  assume "t \<notin> checked"
  then have "card (- insert t checked) < card (- checked)" by (intro psubset_card_mono) auto
  then show "((env, items (env t) @ rest, insert t checked, errorCount), env, IType t # rest, checked, errorCount)
      \<in> measures [\<lambda>(env, xs, s). card (- fst s), \<lambda>(env, xs, s). sum_list (map item_weight xs)]" by simp
qed auto

definition checkType :: "('t :: finite \<Rightarrow> 't go_type) \<Rightarrow> 't \<Rightarrow> 't gob_state \<Rightarrow> 't gob_state" where
  "checkType env t s = check_items env [IType t] s"

text \<open>\<open>reflect.TypeOf\<close> of a nil interface is a nil type, on which \<open>Kind\<close> panics.\<close>

definition checkValue :: "('t :: finite \<Rightarrow> 't go_type) \<Rightarrow> 't option \<Rightarrow> 't gob_state \<Rightarrow> 't gob_state go" where
  "checkValue env ty s = (case ty of None \<Rightarrow> Inl NilDereference | Some t \<Rightarrow> Inr (checkType env t s))"

section \<open>Checking values\<close>

definition field_name :: "string \<Rightarrow> string \<Rightarrow> string" where
  "field_name name name1 = (if name \<noteq> [] then name @ ''.'' @ name1 else name1)"

fun is_zero :: "go_value \<Rightarrow> bool" where
  "is_zero (VBool b) = (\<not> b)"
| "is_zero (VNumber k) = (k = 0)"
| "is_zero (VString s) = (s = [])"
| "is_zero _ = True"

text \<open>
  The result is the new \<open>errorCount\<close> with the names in the warnings that are printed; an empty name
  stands for the name of the type.
\<close>

function checkDefault1 ::
  "(nat \<Rightarrow> go_value) \<Rightarrow> go_value \<Rightarrow> nat \<Rightarrow> string \<Rightarrow> int \<times> string list \<Rightarrow> int \<times> string list" where
  "checkDefault1 heap value depth name out =
     (if depth > 3 then out
      else
        case value of
          VStruct fs \<Rightarrow>
            foldl (\<lambda>out (name1, vv). checkDefault1 heap vv (depth + 1) (field_name name name1) out) out fs
        | VPtr p \<Rightarrow> (case p of None \<Rightarrow> out | Some a \<Rightarrow> checkDefault1 heap (heap a) (depth + 1) name out)
        | VOther \<Rightarrow> out
        | v \<Rightarrow>
            if \<not> is_zero v
            then (case out of (errorCount, warned) \<Rightarrow>
                    (errorCount + 1, if errorCount < 1 then warned @ [name] else warned))
            else out)"
  by pat_completeness auto
termination
  by (relation "measure (\<lambda>(heap, value, depth, name, out). 4 - depth)") auto

definition checkDefault :: "(nat \<Rightarrow> go_value) \<Rightarrow> go_value option \<Rightarrow> int \<times> string list \<Rightarrow> int \<times> string list" where
  "checkDefault heap value out =
     (case value of None \<Rightarrow> out | Some v \<Rightarrow> checkDefault1 heap v 1 [] out)"

section \<open>Encoding and decoding\<close>

definition Encode ::
  "('t :: finite \<Rightarrow> 't go_type) \<Rightarrow> ('v \<Rightarrow> 'b) \<Rightarrow> 't option \<Rightarrow> 'v \<Rightarrow> 't gob_state \<Rightarrow> ('t gob_state \<times> 'b) go" where
  "Encode env gob ty e s = go_bind (checkValue env ty s) (\<lambda>s. Inr (s, gob e))"

definition Decode ::
  "('t :: finite \<Rightarrow> 't go_type) \<Rightarrow> (nat \<Rightarrow> go_value) \<Rightarrow> ('b \<Rightarrow> 'v) \<Rightarrow> 't option \<Rightarrow> go_value option \<Rightarrow> 'b \<Rightarrow>
   't gob_state \<Rightarrow> ('t gob_state \<times> string list \<times> 'v) go" where
  "Decode env heap gob ty e stream s =
     go_bind (checkValue env ty s) (\<lambda>(checked, errorCount).
       case checkDefault heap e (errorCount, []) of
         (errorCount, warned) \<Rightarrow> Inr ((checked, errorCount), warned, gob stream))"

definition gob_Register :: "('t :: finite \<Rightarrow> 't go_type) \<Rightarrow> 't option \<Rightarrow> 't gob_state \<Rightarrow> 't gob_state go" where
  "gob_Register env ty s = checkValue env ty s"

section \<open>What checkType sees\<close>

fun item_type :: "'t item \<Rightarrow> 't" where
  "item_type (IType t) = t"
| "item_type (IField name t) = t"

definition parts :: "('t \<Rightarrow> 't go_type) \<Rightarrow> ('t \<times> 't) set" where
  "parts env = {(t, u). u \<in> item_type ` set (items (env t))}"

fun bad_fields :: "'t go_type \<Rightarrow> nat" where
  "bad_fields (TStruct fs) = length (filter (\<lambda>(name, t). \<not> exported name) fs)"
| "bad_fields _ = 0"

fun bad_item :: "'t item \<Rightarrow> nat" where
  "bad_item (IType t) = 0"
| "bad_item (IField name t) = (if exported name then 0 else 1)"

lemma bad_items: "sum_list (map bad_item (items ty)) = bad_fields ty"
proof (cases ty)
  case (TStruct fs)
  have "sum_list (map bad_item (map (\<lambda>(name, t). IField name t) fs)) = length (filter (\<lambda>(name, t). \<not> exported name) fs)"
    by (induction fs) auto
  then show ?thesis using TStruct by simp
qed simp_all

text \<open>
  The invariant of the search: a type that has been checked and is not done yet still has its
  parts among the pending items.
\<close>

definition pending_ok :: "('t \<Rightarrow> 't go_type) \<Rightarrow> 't set \<Rightarrow> 't item list \<Rightarrow> bool" where
  "pending_ok env checked xs \<longleftrightarrow> parts env `` checked \<subseteq> checked \<union> item_type ` set xs"

lemma pending_reach:
  assumes "pending_ok env checked xs"
  shows "(parts env)\<^sup>* `` checked \<subseteq> checked \<union> (parts env)\<^sup>* `` (item_type ` set xs)"
proof
  fix u assume "u \<in> (parts env)\<^sup>* `` checked"
  then obtain t where "(t, u) \<in> (parts env)\<^sup>*" "t \<in> checked" by auto
  then show "u \<in> checked \<union> (parts env)\<^sup>* `` (item_type ` set xs)"
  proof (induction rule: rtrancl_induct)
    case (step u w)
    then show ?case using assms unfolding pending_ok_def by (auto intro: rtrancl_into_rtrancl)
  qed simp
qed

lemma reach_insert: "(parts env)\<^sup>* `` insert t A = insert t ((parts env)\<^sup>* `` (parts env `` {t} \<union> A))"
  by (auto elim: converse_rtranclE intro: converse_rtrancl_into_rtrancl)

text \<open>The pending items are checked together with everything they refer to.\<close>

lemma check_items_closed:
  fixes env :: "'t :: finite \<Rightarrow> 't go_type"
  assumes "pending_ok env checked xs"
  shows "check_items env xs (checked, c) =
    (checked \<union> (parts env)\<^sup>* `` (item_type ` set xs),
     c + int (sum_list (map bad_item xs)) +
       (\<Sum>t\<in>(parts env)\<^sup>* `` (item_type ` set xs) - checked. int (bad_fields (env t))))"
  using assms
proof (induction env xs "(checked, c)" arbitrary: checked c rule: check_items.induct)
  case (2 env name t rest checked c)
  then show ?case by (auto simp: pending_ok_def)
next
  case (3 env t rest checked c)
  let ?R = "(parts env)\<^sup>*" and ?rest = "item_type ` set rest" and ?bad = "\<lambda>t. int (bad_fields (env t))"
  show ?case
  proof (cases "t \<in> checked")
    case True
    then have p: "pending_ok env checked rest" using "3.prems" by (auto simp: pending_ok_def)
    have "?R `` {t} \<subseteq> checked \<union> ?R `` ?rest" using pending_reach [OF p] True by blast
    then have "checked \<union> ?R `` insert t ?rest = checked \<union> ?R `` ?rest"
        "?R `` insert t ?rest - checked = ?R `` ?rest - checked" by auto
    then show ?thesis using "3.hyps"(1) [OF True p] True by simp
  next
    case False
    let ?kids = "item_type ` set (items (env t) @ rest)"
    have kids: "?kids = parts env `` {t} \<union> ?rest" by (auto simp: parts_def)
    have p: "pending_ok env (insert t checked) (items (env t) @ rest)"
      using "3.prems" by (auto simp: pending_ok_def parts_def)
    have sets: "?R `` insert t ?rest - checked = insert t (?R `` ?kids - insert t checked)"
        "checked \<union> ?R `` insert t ?rest = insert t checked \<union> ?R `` ?kids"
      unfolding kids reach_insert using False by auto
    have "(\<Sum>t\<in>?R `` insert t ?rest - checked. ?bad t) = ?bad t + (\<Sum>t\<in>?R `` ?kids - insert t checked. ?bad t)"
      unfolding sets(1) by simp
    then show ?thesis
      using "3.hyps"(2) [OF False p] False sets(2) by (simp add: bad_items)
  qed
qed simp

lemma check_items_Nil [simp]: "check_items env [] s = s"
  by (cases s) simp

definition types_of :: "('t \<Rightarrow> 't go_type) \<Rightarrow> 't \<Rightarrow> 't set" where
  "types_of env t = (parts env)\<^sup>* `` {t}"

definition closed :: "('t \<Rightarrow> 't go_type) \<Rightarrow> 't set \<Rightarrow> bool" where
  "closed env checked \<longleftrightarrow> parts env `` checked \<subseteq> checked"

lemma check_items_append:
  fixes env :: "'t :: finite \<Rightarrow> 't go_type"
  shows "check_items env (xs @ ys) s = check_items env ys (check_items env xs s)"
proof (induction env xs s rule: check_items.induct)
  case (3 env t rest checked c)
  then show ?case by (cases "t \<in> checked") simp_all
qed (cases ys; simp)+

text \<open>The recursive calls of \<open>checkType\<close>, in the order of the code.\<close>

lemma checkType_calls:
  fixes env :: "'t :: finite \<Rightarrow> 't go_type"
  shows "t \<in> checked \<Longrightarrow> checkType env t (checked, c) = (checked, c)"
    and "t \<notin> checked \<Longrightarrow> env t = TStruct fs \<Longrightarrow> checkType env t (checked, c) =
      foldl (\<lambda>(checked, c) (name, u). checkType env u (checked, if exported name then c else c + 1))
        (insert t checked, c) fs"
    and "t \<notin> checked \<Longrightarrow> env t \<in> {TSlice u, TArray u, TPtr u} \<Longrightarrow>
      checkType env t (checked, c) = checkType env u (insert t checked, c)"
    and "t \<notin> checked \<Longrightarrow> env t = TMap k e \<Longrightarrow>
      checkType env t (checked, c) = checkType env k (checkType env e (insert t checked, c))"
    and "t \<notin> checked \<Longrightarrow> env t = TOther \<Longrightarrow> checkType env t (checked, c) = (insert t checked, c)"
proof -
  have fields: "check_items env (map (\<lambda>(name, t). IField name t) fs) s =
      foldl (\<lambda>(checked, c) (name, u). checkType env u (checked, if exported name then c else c + 1)) s fs" for s
  proof (induction fs arbitrary: s)
    case (Cons f fs)
    obtain name u where f: "f = (name, u)" by fastforce
    show ?case
      using check_items_append [of env "[IField name u]" "map (\<lambda>(name, t). IField name t) fs" s] Cons.IH
      by (cases s) (simp add: f checkType_def)
  qed simp
  show "t \<notin> checked \<Longrightarrow> env t = TStruct fs \<Longrightarrow> checkType env t (checked, c) =
      foldl (\<lambda>(checked, c) (name, u). checkType env u (checked, if exported name then c else c + 1))
        (insert t checked, c) fs"
    by (simp add: checkType_def fields)
  show "t \<notin> checked \<Longrightarrow> env t = TMap k e \<Longrightarrow>
      checkType env t (checked, c) = checkType env k (checkType env e (insert t checked, c))"
    using check_items_append [of env "[IType e]" "[IType k]" "(insert t checked, c)"]
    by (simp add: checkType_def del: check_items.simps(3)) (simp add: checkType_def)
qed (auto simp: checkType_def)

text \<open>
  C40. \<open>checkType\<close> ends on every type, also a recursive one. It has then seen exactly the types the
  given type is made of, besides those it had seen before, and has complained exactly
  once about every lower-case field of a struct among the new ones.
\<close>

theorem checkType_visits_once:
  fixes env :: "'t :: finite \<Rightarrow> 't go_type"
  assumes "closed env checked"
  shows "checkType env t (checked, c) =
      (checked \<union> types_of env t, c + (\<Sum>u\<in>types_of env t - checked. int (bad_fields (env u)))) \<and>
    closed env (checked \<union> types_of env t)"
proof
  have "pending_ok env checked [IType t]" using assms by (auto simp: pending_ok_def closed_def)
  from check_items_closed [OF this]
  show "checkType env t (checked, c) =
      (checked \<union> types_of env t, c + (\<Sum>u\<in>types_of env t - checked. int (bad_fields (env u))))"
    by (simp add: checkType_def types_of_def)
  show "closed env (checked \<union> types_of env t)"
    using assms by (auto simp: closed_def types_of_def intro: rtrancl_into_rtrancl)
qed

text \<open>A struct with a pointer to its own type and a field that is not exported, as an example.\<close>

definition node_types :: "bool option \<Rightarrow> bool option go_type" where
  "node_types t =
     (case t of
        None \<Rightarrow> TOther
      | Some True \<Rightarrow> TStruct [(''Next'', Some False), (''val'', None)]
      | Some False \<Rightarrow> TPtr (Some True))"

theorem checkType_visits_once_witness:
  "closed node_types {} \<and> checkType node_types (Some True) ({}, 0) = ({} \<union> types_of node_types (Some True),
     0 + (\<Sum>u\<in>types_of node_types (Some True) - {}. int (bad_fields (node_types u)))) \<and>
   checkType node_types (Some True) ({}, 0) = (UNIV, 1)"
proof -
  have "closed node_types {}" by (simp add: closed_def)
  moreover have "checkType node_types (Some True) ({}, 0) = ({Some True, Some False, None}, 1)"
    by (simp add: checkType_def node_types_def exported_def insert_commute)
  moreover have "{Some True, Some False, None} = (UNIV :: bool option set)"
    by (auto simp: UNIV_option_conv UNIV_bool)
  ultimately show ?thesis using checkType_visits_once [of node_types "{}" "Some True" 0] by auto
qed

section \<open>What checkDefault reports\<close>

text \<open>The names of the values down to the third level that are not zero.\<close>

function nonzero :: "(nat \<Rightarrow> go_value) \<Rightarrow> go_value \<Rightarrow> nat \<Rightarrow> string \<Rightarrow> string list" where
  "nonzero heap value depth name =
     (if depth > 3 then []
      else
        case value of
          VStruct fs \<Rightarrow> concat (map (\<lambda>(name1, vv). nonzero heap vv (depth + 1) (field_name name name1)) fs)
        | VPtr p \<Rightarrow> (case p of None \<Rightarrow> [] | Some a \<Rightarrow> nonzero heap (heap a) (depth + 1) name)
        | v \<Rightarrow> if is_zero v then [] else [name])"
  by pat_completeness auto
termination
  by (relation "measure (\<lambda>(heap, value, depth, name). 4 - depth)") auto

declare nonzero.simps [simp del] checkDefault1.simps [simp del]

definition report :: "string list \<Rightarrow> int \<times> string list \<Rightarrow> int \<times> string list" where
  "report names out = (fst out + int (length names), snd out @ (if fst out < 1 then take 1 names else []))"

lemma report_append: "0 \<le> fst out \<Longrightarrow> report (xs @ ys) out = report ys (report xs out)"
  by (cases xs) (auto simp: report_def)

lemma checkDefault1_report:
  "0 \<le> fst out \<Longrightarrow> checkDefault1 heap val depth name out = report (nonzero heap val depth name) out"
proof (induction heap val depth name out rule: checkDefault1.induct)
  case (1 heap val depth name out)
  show ?case
  proof (cases "depth > 3")
    case True
    then show ?thesis by (simp add: checkDefault1.simps nonzero.simps report_def)
  next
    case False
    show ?thesis
    proof (cases val)
      case (VStruct fs)
      have "foldl (\<lambda>out (name1, vv). checkDefault1 heap vv (depth + 1) (field_name name name1) out) out' gs =
          report (concat (map (\<lambda>(name1, vv). nonzero heap vv (depth + 1) (field_name name name1)) gs)) out'"
        if "set gs \<subseteq> set fs" "0 \<le> fst out'" for gs out'
        using that
      proof (induction gs arbitrary: out')
        case Nil
        then show ?case by (simp add: report_def)
      next
        case (Cons g gs)
        obtain name1 vv where g: "g = (name1, vv)" by fastforce
        have "checkDefault1 heap vv (depth + 1) (field_name name name1) out' =
            report (nonzero heap vv (depth + 1) (field_name name name1)) out'"
          by (rule "1.IH"(1) [OF False VStruct _ g [symmetric]]) (use Cons.prems in simp_all)
        then show ?case
          using Cons g by (simp add: report_append) (simp add: report_def)
      qed
      from this [of fs out] show ?thesis
        using False VStruct "1.prems" by (simp add: checkDefault1.simps [of heap "VStruct fs"] nonzero.simps [of heap "VStruct fs"])
    next
      case (VPtr p)
      then show ?thesis
        using False "1.IH"(2) [OF False VPtr] "1.prems"
        by (cases p) (simp_all add: checkDefault1.simps [of heap "VPtr _"] nonzero.simps [of heap "VPtr _"] report_def)
    qed (use False in \<open>auto simp: checkDefault1.simps nonzero.simps report_def split: prod.splits\<close>)
  qed
qed

text \<open>
  \<open>checkDefault\<close> counts the values that are not zero and prints at most one warning in the life of
  the process; decoding into a zero variable is silent.
\<close>

theorem checkDefault_reports:
  assumes "0 \<le> c"
  shows "checkDefault heap (Some v) (c, warned) =
    (c + int (length (nonzero heap v 1 [])), warned @ (if c < 1 then take 1 (nonzero heap v 1 []) else []))"
  using checkDefault1_report [of "(c, warned)" heap v 1 "[]"] assms by (simp add: checkDefault_def report_def)

text \<open>\<open>Decode\<close> into nil panics in \<open>checkValue\<close>, before the test for nil in \<open>checkDefault\<close>.\<close>

lemma Decode_nil_panics: "Decode env heap gob None None stream s = Inl NilDereference"
  by (simp add: Decode_def checkValue_def)

end
