(* ===== verification/Service_Config.thy ===== *)
theory Service_Config
  imports Raft_Config Kv_Clerk ShardMaster_Service
begin

text \<open>
  The test harnesses of the key/value service and of the shard master (\<open>kvraft/config.go\<close>,
  \<open>shardmaster/config.go\<close>): connecting, partitioning, stopping and starting servers, and
  clerks with their own ends.

  The two files have the same code for two kinds of servers, so the configuration is polymorphic in
  the server; what is particular to one of them, starting a server and \<open>make_config\<close>, comes after it for both.
  \<open>rf_of\<close> is the Raft peer of a server. Random names, the shuffling of ends and the addresses of
  clerks and of network servers are arguments. \<open>os.Remove\<close> of the names of a deleted client has no effect on the
  simulated network and is left out.
\<close>

section \<open>Configurations\<close>

record ('s, 'c, 'd) service_config =
  sc_net :: Network
  sc_servers :: "'s option list"
  sc_saved :: "('c, 'd) Persister option list"
  sc_endnames :: "iname list option list"
  sc_clerks :: "nat \<rightharpoonup> iname list"
  nextClientId :: int
  sc_rpcs0 :: int
  sc_ops :: "32 word"

definition sc_n :: "('s, 'c, 'd) service_config \<Rightarrow> nat" where
  "sc_n cfg = length (sc_servers cfg)"

text \<open>\<open>random_handles\<close>, with the random numbers \<open>rand\<close>.\<close>

fun random_handles_loop :: "(nat \<Rightarrow> nat) \<Rightarrow> nat list \<Rightarrow> 'e list \<Rightarrow> 'e list" where
  "random_handles_loop rand [] sa = sa"
| "random_handles_loop rand (i # is) sa =
     (let j = rand i mod (i + 1)
      in random_handles_loop rand is (sa[i := sa ! j, j := sa ! i]))"

definition random_handles :: "(nat \<Rightarrow> nat) \<Rightarrow> 'e list \<Rightarrow> 'e list" where
  "random_handles rand kvh = random_handles_loop rand [0..<length kvh] kvh"

section \<open>Persisted states\<close>

text \<open>While server \<open>i\<close> runs, \<open>cfg.saved[i]\<close> is the object its Raft peer writes to.\<close>

definition sc_saved_at :: "('s \<Rightarrow> ('c, 'd) Raft) \<Rightarrow> ('s, 'c, 'd) service_config \<Rightarrow> nat \<Rightarrow> ('c, 'd) Persister option" where
  "sc_saved_at rf_of cfg i =
     (case sc_servers cfg ! i of Some s \<Rightarrow> Some (persister (rf_of s)) | None \<Rightarrow> sc_saved cfg ! i)"

fun max_size :: "(('c, 'd) Persister \<Rightarrow> int) \<Rightarrow> ('c, 'd) Persister option list \<Rightarrow> int \<Rightarrow> int go" where
  "max_size f [] m = Inr m"
| "max_size f (None # ps) m = Inl NilDereference"
| "max_size f (Some p # ps) m = max_size f ps (if f p > m then f p else m)"

definition LogSize ::
  "('s \<Rightarrow> ('c, 'd) Raft) \<Rightarrow> ('c raft_gob list \<Rightarrow> int) \<Rightarrow> ('s, 'c, 'd) service_config \<Rightarrow> int go" where
  "LogSize rf_of bytes cfg = max_size (RaftStateSize bytes) (map (sc_saved_at rf_of cfg) [0..<sc_n cfg]) 0"

definition SnapshotSize ::
  "('s \<Rightarrow> ('c, 'd) Raft) \<Rightarrow> ('d option \<Rightarrow> int) \<Rightarrow> ('s, 'c, 'd) service_config \<Rightarrow> int go" where
  "SnapshotSize rf_of bytes cfg = max_size (\<lambda>p. bytes (snapshot p)) (map (sc_saved_at rf_of cfg) [0..<sc_n cfg]) 0"

section \<open>Connections between servers\<close>

definition sc_end :: "('s, 'c, 'd) service_config \<Rightarrow> nat \<Rightarrow> nat \<Rightarrow> iname go" where
  "sc_end cfg i j =
     go_bind (go_idx (sc_endnames cfg) (int i)) (\<lambda>row.
       case row of None \<Rightarrow> Inl IndexOutOfRange | Some names \<Rightarrow> go_idx names (int j))"

definition sc_enable ::
  "nat \<Rightarrow> nat \<Rightarrow> bool \<Rightarrow> ('s, 'c, 'd) service_config \<Rightarrow> ('s, 'c, 'd) service_config go" where
  "sc_enable i j yes cfg =
     go_bind (sc_end cfg i j) (\<lambda>e. Inr (cfg\<lparr>sc_net := Enable e yes (sc_net cfg)\<rparr>))"

definition connectUnlocked ::
  "nat \<Rightarrow> nat list \<Rightarrow> ('s, 'c, 'd) service_config \<Rightarrow> ('s, 'c, 'd) service_config go" where
  "connectUnlocked i to cfg =
     go_bind (go_iter (\<lambda>t. sc_enable i t True) to cfg) (go_iter (\<lambda>t. sc_enable t i True) to)"

text \<open>The second loop of \<open>disconnectUnlocked\<close> tests the position in \<open>from\<close> and not the server there.\<close>

definition disconnectUnlocked ::
  "nat \<Rightarrow> nat list \<Rightarrow> ('s, 'c, 'd) service_config \<Rightarrow> ('s, 'c, 'd) service_config go" where
  "disconnectUnlocked i from cfg =
     go_bind (go_iter (\<lambda>f c. go_bind (go_idx (sc_endnames c) (int i)) (\<lambda>row.
                if row \<noteq> None then sc_enable i f False c else Inr c)) from cfg)
       (go_iter (\<lambda>(j, f) c. go_bind (go_idx (sc_endnames c) (int j)) (\<lambda>row.
          if row \<noteq> None then sc_enable f i False c else Inr c)) (zip [0..<length from] from))"

definition All_servers :: "('s, 'c, 'd) service_config \<Rightarrow> nat list" where
  "All_servers cfg = [0..<sc_n cfg]"

definition ConnectAll :: "('s, 'c, 'd) service_config \<Rightarrow> ('s, 'c, 'd) service_config go" where
  "ConnectAll cfg = go_iter (\<lambda>i c. connectUnlocked i (All_servers c) c) [0..<sc_n cfg] cfg"

definition partition_servers ::
  "nat list \<Rightarrow> nat list \<Rightarrow> ('s, 'c, 'd) service_config \<Rightarrow> ('s, 'c, 'd) service_config go" where
  "partition_servers p1 p2 cfg =
     go_bind (go_iter (\<lambda>i c. go_bind (disconnectUnlocked i p2 c) (connectUnlocked i p1)) p1 cfg)
       (go_iter (\<lambda>i c. go_bind (disconnectUnlocked i p1 c) (connectUnlocked i p2)) p2)"

section \<open>Clerks\<close>

text \<open>A missing clerk has no ends: the nil slice of the map.\<close>

definition clerk_ends :: "('s, 'c, 'd) service_config \<Rightarrow> nat \<Rightarrow> iname list" where
  "clerk_ends cfg ck = (case sc_clerks cfg ck of None \<Rightarrow> [] | Some names \<Rightarrow> names)"

definition enable_client ::
  "nat \<Rightarrow> nat list \<Rightarrow> bool \<Rightarrow> ('s, 'c, 'd) service_config \<Rightarrow> ('s, 'c, 'd) service_config go" where
  "enable_client ck to yes cfg =
     go_iter (\<lambda>t c. go_bind (go_idx (clerk_ends cfg ck) (int t)) (\<lambda>s.
       Inr (c\<lparr>sc_net := Enable s yes (sc_net c)\<rparr>))) to cfg"

definition ConnectClientUnlocked ::
  "nat \<Rightarrow> nat list \<Rightarrow> ('s, 'c, 'd) service_config \<Rightarrow> ('s, 'c, 'd) service_config go" where
  "ConnectClientUnlocked ck to cfg = enable_client ck to True cfg"

definition DisconnectClientUnlocked ::
  "nat \<Rightarrow> nat list \<Rightarrow> ('s, 'c, 'd) service_config \<Rightarrow> ('s, 'c, 'd) service_config go" where
  "DisconnectClientUnlocked ck from cfg = enable_client ck from False cfg"

definition fresh_ends ::
  "iname list \<Rightarrow> nat \<Rightarrow> ('s, 'c, 'd) service_config \<Rightarrow> ('s, 'c, 'd) service_config go" where
  "fresh_ends names n cfg =
     go_iter (\<lambda>j c. go_bind (go_idx names (int j)) (\<lambda>e.
       go_bind (MakeEnd e (sc_net c)) (\<lambda>nw. Inr (c\<lparr>sc_net := Connect e (NameInt (int j)) nw\<rparr>)))) [0..<n] cfg"

text \<open>The new clerk gets its ends in a random order; their positions are returned.\<close>

definition makeClient ::
  "nat \<Rightarrow> iname list \<Rightarrow> (nat \<Rightarrow> nat) \<Rightarrow> nat list \<Rightarrow> ('s, 'c, 'd) service_config \<Rightarrow>
   (('s, 'c, 'd) service_config \<times> iname list) go" where
  "makeClient ck names rand to cfg =
     go_bind (fresh_ends names (sc_n cfg) cfg) (\<lambda>cfg.
       let cfg = cfg\<lparr>sc_clerks := (sc_clerks cfg)(ck \<mapsto> names), nextClientId := nextClientId cfg + 1\<rparr>
       in go_bind (ConnectClientUnlocked ck to cfg) (\<lambda>cfg. Inr (cfg, random_handles rand names)))"

definition deleteClient :: "nat \<Rightarrow> ('s, 'c, 'd) service_config \<Rightarrow> ('s, 'c, 'd) service_config" where
  "deleteClient ck cfg = cfg\<lparr>sc_clerks := (sc_clerks cfg)(ck := None)\<rparr>"

section \<open>Servers\<close>

definition ShutdownServer ::
  "('s \<Rightarrow> ('c, 'd) Raft) \<Rightarrow> nat \<Rightarrow> ('s, 'c, 'd) service_config \<Rightarrow> ('s, 'c, 'd) service_config go" where
  "ShutdownServer rf_of i cfg =
     go_bind (disconnectUnlocked i (All_servers cfg) cfg) (\<lambda>cfg.
       let cfg = cfg\<lparr>sc_net := DeleteServer (NameInt (int i)) (sc_net cfg)\<rparr>;
           cfg = cfg\<lparr>sc_saved := (sc_saved cfg)[i := map_option Persister_Copy (sc_saved_at rf_of cfg i)]\<rparr>
       in Inr (cfg\<lparr>sc_servers := (sc_servers cfg)[i := None]\<rparr>))"

definition StartServer_with ::
  "('s \<Rightarrow> ('c, 'd) Raft) \<Rightarrow> (nat \<Rightarrow> nat \<Rightarrow> ('c, 'd) Persister \<Rightarrow> 's go) \<Rightarrow> nat \<Rightarrow> iname list \<Rightarrow> nat \<Rightarrow>
   ('s, 'c, 'd) service_config \<Rightarrow> ('s, 'c, 'd) service_config go" where
  "StartServer_with rf_of start i names srv cfg =
     (let cfg = cfg\<lparr>sc_endnames := (sc_endnames cfg)[i := Some names]\<rparr>
      in go_bind (fresh_ends names (sc_n cfg) cfg) (\<lambda>cfg.
         let ps = (case sc_saved_at rf_of cfg i of Some ps \<Rightarrow> Persister_Copy ps | None \<Rightarrow> MakePersister);
             cfg = cfg\<lparr>sc_saved := (sc_saved cfg)[i := Some ps]\<rparr>
         in go_bind (start (sc_n cfg) i ps) (\<lambda>s.
              Inr (cfg\<lparr>sc_servers := (sc_servers cfg)[i := Some s],
                       sc_net := AddServer (NameInt (int i)) srv (sc_net cfg)\<rparr>))))"

fun Leader_from :: "('s \<Rightarrow> ('c, 'd) Raft) \<Rightarrow> 's option list \<Rightarrow> nat \<Rightarrow> (bool \<times> nat) go" where
  "Leader_from rf_of [] i = Inr (False, 0)"
| "Leader_from rf_of (None # ss) i = Inl NilDereference"
| "Leader_from rf_of (Some s # ss) i =
     (if snd (GetState (rf_of s)) then Inr (True, i) else Leader_from rf_of ss (Suc i))"

definition Leader_of :: "('s \<Rightarrow> ('c, 'd) Raft) \<Rightarrow> ('s, 'c, 'd) service_config \<Rightarrow> (bool \<times> nat) go" where
  "Leader_of rf_of cfg = Leader_from rf_of (sc_servers cfg) 0"

fun make_partition_loop :: "nat \<Rightarrow> nat list \<Rightarrow> nat list \<Rightarrow> nat list \<Rightarrow> nat \<Rightarrow> (nat list \<times> nat list) go" where
  "make_partition_loop l [] p1 p2 j = Inr (p1, p2)"
| "make_partition_loop l (i # is) p1 p2 j =
     (if i \<noteq> l
      then go_bind (if j < length p1 then map_sum id (\<lambda>p1. (p1, p2)) (go_upd p1 (int j) i)
                    else map_sum id (\<lambda>p2. (p1, p2)) (go_upd p2 (int j - int (length p1)) i))
             (\<lambda>(p1, p2). make_partition_loop l is p1 p2 (Suc j))
      else make_partition_loop l is p1 p2 j)"

definition make_partition ::
  "('s \<Rightarrow> ('c, 'd) Raft) \<Rightarrow> ('s, 'c, 'd) service_config \<Rightarrow> (nat list \<times> nat list) go" where
  "make_partition rf_of cfg =
     go_bind (Leader_of rf_of cfg) (\<lambda>(_, l).
     go_bind (make_partition_loop l [0..<sc_n cfg] (replicate (sc_n cfg div 2 + 1) 0)
         (replicate (sc_n cfg div 2) 0) 0) (\<lambda>(p1, p2).
       go_bind (go_upd p2 (int (length p2) - 1) l) (\<lambda>p2. Inr (p1, p2))))"

definition sc_cleanup ::
  "('s \<Rightarrow> 's) \<Rightarrow> bool \<Rightarrow> int \<Rightarrow> ('s, 'c, 'd) service_config \<Rightarrow> ('s, 'c, 'd) service_config test" where
  "sc_cleanup kill failed elapsed cfg =
     (let cfg = cfg\<lparr>sc_servers := map (map_option kill) (sc_servers cfg)\<rparr>
      in case Cleanup (sc_net cfg) of
           Inl p \<Rightarrow> Inl (Panicked p)
         | Inr nw \<Rightarrow> map_sum id (\<lambda>_. cfg\<lparr>sc_net := nw\<rparr>) (checkTimeout failed elapsed))"

definition sc_begin :: "('s, 'c, 'd) service_config \<Rightarrow> ('s, 'c, 'd) service_config" where
  "sc_begin cfg = cfg\<lparr>sc_rpcs0 := GetTotalCount (sc_net cfg), sc_ops := 0\<rparr>"

definition sc_op :: "('s, 'c, 'd) service_config \<Rightarrow> ('s, 'c, 'd) service_config" where
  "sc_op cfg = cfg\<lparr>sc_ops := sc_ops cfg + 1\<rparr>"

definition sc_end_test :: "bool \<Rightarrow> int \<Rightarrow> ('s, 'c, 'd) service_config \<Rightarrow> (nat \<times> int \<times> int) option test" where
  "sc_end_test failed elapsed cfg =
     (case checkTimeout failed elapsed of
        Inl e \<Rightarrow> Inl e
      | Inr _ \<Rightarrow>
          Inr (if \<not> failed
               then Some (sc_n cfg, GetTotalCount (sc_net cfg) - sc_rpcs0 cfg, sint (sc_ops cfg))
               else None))"

section \<open>The two services\<close>

definition empty_config :: "nat \<Rightarrow> ('s, 'c, 'd) service_config" where
  "empty_config n =
     \<lparr>sc_net = MakeNetwork, sc_servers = replicate n None, sc_saved = replicate n None,
      sc_endnames = replicate n None, sc_clerks = Map.empty, nextClientId = int n + 1000, sc_rpcs0 = 0, sc_ops = 0\<rparr>"

type_synonym kv_config = "(KVServer, Op, kv_gob list) service_config"

definition kv_config_StartServer :: "int \<Rightarrow> nat \<Rightarrow> iname list \<Rightarrow> nat \<Rightarrow> kv_config \<Rightarrow> kv_config go" where
  "kv_config_StartServer mx i names srv cfg =
     StartServer_with kv_rf (\<lambda>n i ps. StartKVServer n i ps mx) i names srv cfg"

definition kv_make_config :: "nat \<Rightarrow> bool \<Rightarrow> int \<Rightarrow> (nat \<Rightarrow> iname list) \<Rightarrow> (nat \<Rightarrow> nat) \<Rightarrow> kv_config go" where
  "kv_make_config n unreliable mx names srvs =
     go_bind (go_iter (\<lambda>i c. kv_config_StartServer mx i (names i) (srvs i) c) [0..<n] (empty_config n)) (\<lambda>cfg.
     go_bind (ConnectAll cfg) (\<lambda>cfg.
       Inr (cfg\<lparr>sc_net := Reliable (\<not> unreliable) (sc_net cfg)\<rparr>)))"

type_synonym sm_config = "(ShardMaster, sm_Op, unit) service_config"

definition sm_config_StartServer :: "nat \<Rightarrow> iname list \<Rightarrow> nat \<Rightarrow> sm_config \<Rightarrow> sm_config go" where
  "sm_config_StartServer i names srv cfg = StartServer_with sm_rf StartServer i names srv cfg"

definition sm_config_ShutdownServer :: "nat \<Rightarrow> sm_config \<Rightarrow> sm_config go" where
  "sm_config_ShutdownServer i cfg = ShutdownServer sm_rf i cfg"

definition sm_config_LogSize :: "(sm_Op raft_gob list \<Rightarrow> int) \<Rightarrow> sm_config \<Rightarrow> int go" where
  "sm_config_LogSize bytes cfg = LogSize sm_rf bytes cfg"

definition sm_config_cleanup :: "bool \<Rightarrow> int \<Rightarrow> sm_config \<Rightarrow> sm_config test" where
  "sm_config_cleanup failed elapsed cfg = sc_cleanup sm_Kill failed elapsed cfg"

definition sm_config_connectUnlocked :: "nat \<Rightarrow> nat list \<Rightarrow> sm_config \<Rightarrow> sm_config go" where
  "sm_config_connectUnlocked i to cfg = connectUnlocked i to cfg"

definition sm_config_disconnectUnlocked :: "nat \<Rightarrow> nat list \<Rightarrow> sm_config \<Rightarrow> sm_config go" where
  "sm_config_disconnectUnlocked i from cfg = disconnectUnlocked i from cfg"

definition sm_config_partition :: "nat list \<Rightarrow> nat list \<Rightarrow> sm_config \<Rightarrow> sm_config go" where
  "sm_config_partition p1 p2 cfg = partition_servers p1 p2 cfg"

definition sm_config_ConnectAll :: "sm_config \<Rightarrow> sm_config go" where
  "sm_config_ConnectAll cfg = ConnectAll cfg"

definition sm_config_makeClient ::
  "nat \<Rightarrow> iname list \<Rightarrow> (nat \<Rightarrow> nat) \<Rightarrow> nat list \<Rightarrow> sm_config \<Rightarrow> (sm_config \<times> iname list) go" where
  "sm_config_makeClient ck names rand to cfg = makeClient ck names rand to cfg"

definition sm_config_deleteClient :: "nat \<Rightarrow> sm_config \<Rightarrow> sm_config" where
  "sm_config_deleteClient ck cfg = deleteClient ck cfg"

definition sm_config_ConnectClient :: "nat \<Rightarrow> nat list \<Rightarrow> sm_config \<Rightarrow> sm_config go" where
  "sm_config_ConnectClient ck to cfg = ConnectClientUnlocked ck to cfg"

definition sm_config_DisconnectClient :: "nat \<Rightarrow> nat list \<Rightarrow> sm_config \<Rightarrow> sm_config go" where
  "sm_config_DisconnectClient ck from cfg = DisconnectClientUnlocked ck from cfg"

definition sm_config_Leader :: "sm_config \<Rightarrow> (bool \<times> nat) go" where
  "sm_config_Leader cfg = Leader_of sm_rf cfg"

definition sm_config_make_partition :: "sm_config \<Rightarrow> (nat list \<times> nat list) go" where
  "sm_config_make_partition cfg = make_partition sm_rf cfg"

definition sm_make_config :: "nat \<Rightarrow> bool \<Rightarrow> (nat \<Rightarrow> iname list) \<Rightarrow> (nat \<Rightarrow> nat) \<Rightarrow> sm_config go" where
  "sm_make_config n unreliable names srvs =
     go_bind (go_iter (\<lambda>i c. sm_config_StartServer i (names i) (srvs i) c) [0..<n] (empty_config n)) (\<lambda>cfg.
     go_bind (ConnectAll cfg) (\<lambda>cfg.
       Inr (cfg\<lparr>sc_net := Reliable (\<not> unreliable) (sc_net cfg)\<rparr>)))"

section \<open>Handles\<close>

lemma mset_swap_general: "i < length xs \<Longrightarrow> j < length xs \<Longrightarrow> mset (xs[i := xs ! j, j := xs ! i]) = mset xs"
  by (cases "i = j") (simp_all add: mset_swap)

text \<open>A clerk gets every end once, in whatever order the random numbers give.\<close>

theorem random_handles_perm: "mset (random_handles rand kvh) = mset kvh"
proof -
  have "set is \<subseteq> {..<length sa} \<Longrightarrow> mset (random_handles_loop rand is sa) = mset sa" for "is" and sa :: "'a list"
  proof (induction "is" arbitrary: sa)
    case (Cons i "is")
    let ?j = "rand i mod (i + 1)"
    have "i < length sa" "?j < i + 1" using Cons.prems by simp_all
    then have j: "?j < length sa" by linarith
    have "mset (random_handles_loop rand is (sa[i := sa ! ?j, ?j := sa ! i])) = mset (sa[i := sa ! ?j, ?j := sa ! i])"
      by (rule Cons.IH) (use Cons.prems in simp)
    also have "\<dots> = mset sa" by (rule mset_swap_general) (use Cons.prems j in auto)
    finally show ?case by (simp add: Let_def)
  qed simp
  from this [of "[0..<length kvh]" kvh] show ?thesis by (simp add: random_handles_def atLeast0LessThan)
qed

section \<open>Choosing a partition\<close>

lemma make_partition_loop_ok:
  "j + length (filter (\<lambda>i. i \<noteq> l) is) \<le> length p1 + length p2 \<Longrightarrow>
   \<exists>q1 q2. make_partition_loop l is p1 p2 j = Inr (q1, q2) \<and> length q1 = length p1 \<and> length q2 = length p2 \<and>
     q1 @ q2 = take j (p1 @ p2) @ filter (\<lambda>i. i \<noteq> l) is @ drop (j + length (filter (\<lambda>i. i \<noteq> l) is)) (p1 @ p2)"
proof (induction "is" arbitrary: p1 p2 j)
  case (Cons i "is")
  show ?case
  proof (cases "i = l")
    case True
    then show ?thesis using Cons by simp
  next
    case False
    let ?q = "if j < length p1 then (p1[j := i], p2) else (p1, p2[j - length p1 := i])"
    let ?k = "length (filter (\<lambda>i. i \<noteq> l) is)"
    have j: "j < length p1 + length p2" using Cons.prems False by simp
    have step: "make_partition_loop l (i # is) p1 p2 j = make_partition_loop l is (fst ?q) (snd ?q) (Suc j)"
      using False j by (auto simp: go_upd_Inr nat_diff_distrib')
    have q: "fst ?q @ snd ?q = (p1 @ p2)[j := i]" "length (fst ?q) = length p1" "length (snd ?q) = length p2"
      by (simp_all add: list_update_append)
    have bound: "Suc j + ?k \<le> length (fst ?q) + length (snd ?q)" using Cons.prems False q by simp
    obtain q1 q2 where r: "make_partition_loop l is (fst ?q) (snd ?q) (Suc j) = Inr (q1, q2)"
        "length q1 = length p1" "length q2 = length p2"
        "q1 @ q2 = take (Suc j) ((p1 @ p2)[j := i]) @ filter (\<lambda>i. i \<noteq> l) is @ drop (Suc j + ?k) ((p1 @ p2)[j := i])"
      using Cons.IH [OF bound] unfolding q by blast
    have "take (Suc j) ((p1 @ p2)[j := i]) = take j (p1 @ p2) @ [i]"
      using j by (simp add: take_Suc_conv_app_nth del: take_append)
    moreover have "drop (Suc j + ?k) ((p1 @ p2)[j := i]) = drop (Suc j + ?k) (p1 @ p2)"
      by (simp del: drop_append)
    ultimately show ?thesis using step r False by simp
  qed
qed (simp del: take_append drop_append)

lemma filter_not_self: "l < n \<Longrightarrow> length (filter (\<lambda>i. i \<noteq> l) [0..<n]) = n - 1"
proof -
  assume l: "l < n"
  have "length (filter (\<lambda>i. i \<noteq> l) [0..<n]) = card ({..<n} - {l})"
    by (subst distinct_length_filter) (auto intro!: arg_cong [of _ _ card])
  then show ?thesis using l by simp
qed

lemma make_partition_split:
  assumes n: "sc_n cfg = 2 * k + 1" "1 \<le> k" and l: "Leader_of rf_of cfg = Inr (b, l)" "l < sc_n cfg"
  shows "\<exists>p1 p2. make_partition rf_of cfg = Inr (p1, p2) \<and> length p1 = k + 1 \<and> length p2 = k \<and>
    distinct (p1 @ p2) \<and> set (p1 @ p2) = {..<sc_n cfg} \<and> l \<in> set p2"
proof -
  let ?n = "sc_n cfg" and ?xs = "filter (\<lambda>i. i \<noteq> l) [0..<sc_n cfg]"
  have len: "length ?xs = 2 * k" using filter_not_self [OF l(2)] n by simp
  obtain q1 q2 where q: "make_partition_loop l [0..<?n] (replicate (k + 1) 0) (replicate k 0) 0 = Inr (q1, q2)"
      "length q1 = k + 1" "length q2 = k" "q1 @ q2 = ?xs @ [0]"
  proof -
    have zeros: "drop (2 * k) (replicate (k + 1) 0 @ replicate k 0) = [0::nat]"
      by (simp flip: replicate_add del: replicate.simps) simp
    have "\<exists>q1 q2. make_partition_loop l [0..<?n] (replicate (k + 1) 0) (replicate k 0) 0 = Inr (q1, q2) \<and>
        length q1 = length (replicate (k + 1) (0::nat)) \<and> length q2 = length (replicate k (0::nat)) \<and>
        q1 @ q2 = take 0 (replicate (k + 1) 0 @ replicate k 0) @ ?xs @
          drop (0 + length ?xs) (replicate (k + 1) 0 @ replicate k 0)"
      by (rule make_partition_loop_ok) (simp add: len)
    then show ?thesis using that unfolding len zeros add_0 take_0 length_replicate by auto
  qed
  have "q2 \<noteq> []" using q(3) n(2) by auto
  then have "butlast (q1 @ q2) = q1 @ butlast q2" by (simp add: butlast_append)
  then have all: "q1 @ butlast q2 = ?xs" using q(4) by simp
  have "q2[k - 1 := l] = butlast q2 @ [l]"
    using \<open>q2 \<noteq> []\<close> q(3) by (metis append_butlast_last_id length_butlast list_update_length)
  then have p: "q1 @ q2[k - 1 := l] = ?xs @ [l]" using all by simp
  have "int (k - 1) = int k - 1" using n(2) by simp
  then have "go_upd q2 (int (length q2) - 1) l = Inr (q2[k - 1 := l])"
    using q(3) n(2) by (simp add: go_upd_def nat_diff_distrib)
  then have run: "make_partition rf_of cfg = Inr (q1, q2[k - 1 := l])"
    using q(1) n(1) l(1) by (simp add: make_partition_def)
  have "distinct (q1 @ q2[k - 1 := l])" unfolding p by simp
  moreover have "set (q1 @ q2[k - 1 := l]) = {..<?n}" unfolding p using l(2) by auto
  moreover have "l \<in> set (q2[k - 1 := l])"
    using \<open>q2[k - 1 := l] = butlast q2 @ [l]\<close> by simp
  ultimately show ?thesis using run q(2,3) by (intro exI [of _ q1] exI [of _ "q2[k - 1 := l]"]) simp
qed

text \<open>
  With an even number of servers the second part keeps the zero it was made with: here server 0 is on
  both sides.
\<close>

lemma make_partition_even: "make_partition_loop 3 [0..<4] (replicate 3 0) (replicate 2 0) 0 = Inr ([0, 1, 2], [0, 0])"
  by code_simp

section \<open>Splitting the network\<close>

definition sc_name :: "('s, 'c, 'd) service_config \<Rightarrow> nat \<Rightarrow> nat \<Rightarrow> iname" where
  "sc_name cfg i j = the (sc_endnames cfg ! i) ! j"

text \<open>All servers have been started and their ends have different names.\<close>

definition sc_names_ok :: "('s, 'c, 'd) service_config \<Rightarrow> bool" where
  "sc_names_ok cfg \<longleftrightarrow> length (sc_endnames cfg) = sc_n cfg \<and>
     (\<forall>i < sc_n cfg. \<exists>row. sc_endnames cfg ! i = Some row \<and> length row = sc_n cfg) \<and>
     inj_on (\<lambda>(i, j). sc_name cfg i j) ({..<sc_n cfg} \<times> {..<sc_n cfg})"

text \<open>A request of server \<open>i\<close> to server \<open>j\<close> passes.\<close>

definition link :: "('s, 'c, 'd) service_config \<Rightarrow> nat \<Rightarrow> nat \<Rightarrow> bool" where
  "link cfg i j \<longleftrightarrow> is_enabled (sc_net cfg) (sc_name cfg i j)"

lemma sc_net_frame [simp]:
  "sc_names_ok (cfg\<lparr>sc_net := nw\<rparr>) = sc_names_ok cfg" "sc_n (cfg\<lparr>sc_net := nw\<rparr>) = sc_n cfg"
  "sc_name (cfg\<lparr>sc_net := nw\<rparr>) = sc_name cfg"
  by (simp_all add: sc_names_ok_def sc_n_def sc_name_def fun_eq_iff)

lemma sc_end_ok: "sc_names_ok cfg \<Longrightarrow> i < sc_n cfg \<Longrightarrow> j < sc_n cfg \<Longrightarrow> sc_end cfg i j = Inr (sc_name cfg i j)"
  by (auto simp: sc_names_ok_def sc_end_def sc_name_def go_idx_Inr)

lemma sc_name_inj:
  "sc_names_ok cfg \<Longrightarrow> i < sc_n cfg \<Longrightarrow> j < sc_n cfg \<Longrightarrow> k < sc_n cfg \<Longrightarrow> l < sc_n cfg \<Longrightarrow>
   sc_name cfg i j = sc_name cfg k l \<longleftrightarrow> i = k \<and> j = l"
  unfolding sc_names_ok_def by (auto dest: inj_onD [where x = "(i, j)" and y = "(k, l)"])

text \<open>A step that only switches links: \<open>sets cfg cfg' A yes\<close> switches those in \<open>A\<close>.\<close>

definition sets :: "('s, 'c, 'd) service_config \<Rightarrow> ('s, 'c, 'd) service_config \<Rightarrow> (nat \<Rightarrow> nat \<Rightarrow> bool) \<Rightarrow> bool \<Rightarrow> bool" where
  "sets cfg cfg' A yes \<longleftrightarrow> (\<exists>nw. cfg' = cfg\<lparr>sc_net := nw\<rparr>) \<and>
     (\<forall>k < sc_n cfg. \<forall>l < sc_n cfg. link cfg' k l = (if A k l then yes else link cfg k l))"

lemma sets_names: "sets cfg cfg' A yes \<Longrightarrow> sc_names_ok cfg' = sc_names_ok cfg \<and> sc_n cfg' = sc_n cfg \<and> sc_endnames cfg' = sc_endnames cfg"
  by (auto simp: sets_def)

lemma sets_refl [simp]: "sets cfg cfg (\<lambda>_ _. False) yes"
  unfolding sets_def by (intro conjI exI [of _ "sc_net cfg"]) simp_all

lemma sc_enable_sets:
  assumes "sc_names_ok cfg" and "i < sc_n cfg" and "j < sc_n cfg"
  shows "\<exists>cfg'. sc_enable i j yes cfg = Inr cfg' \<and> sets cfg cfg' (\<lambda>k l. k = i \<and> l = j) yes"
proof -
  have "is_enabled (Enable (sc_name cfg i j) yes (sc_net cfg)) (sc_name cfg k l) =
      (if k = i \<and> l = j then yes else is_enabled (sc_net cfg) (sc_name cfg k l))"
    if "k < sc_n cfg" "l < sc_n cfg" for k l
    using sc_name_inj [OF assms that] that by (auto simp: is_enabled_def Enable_def)
  then show ?thesis
    using assms by (auto simp: sc_enable_def sc_end_ok sets_def link_def)
qed

lemma sets_union:
  assumes "sets cfg cfg' A yes" and "sets cfg' cfg'' B yes"
  shows "sets cfg cfg'' (\<lambda>k l. A k l \<or> B k l) yes"
proof -
  obtain nw nw' where c: "cfg' = cfg\<lparr>sc_net := nw\<rparr>" "cfg'' = cfg\<lparr>sc_net := nw'\<rparr>"
    using assms by (auto simp: sets_def)
  have "link cfg'' k l = (if A k l \<or> B k l then yes else link cfg k l)" if "k < sc_n cfg" "l < sc_n cfg" for k l
    using assms that sets_names [OF assms(1)] by (simp add: sets_def)
  then show ?thesis using c(2) unfolding sets_def by blast
qed

lemma enable_iter:
  assumes "sc_names_ok cfg" and "\<And>t. t \<in> set ts \<Longrightarrow> a t < sc_n cfg \<and> b t < sc_n cfg"
    and "\<And>t c. t \<in> set ts \<Longrightarrow> sc_endnames c = sc_endnames cfg \<Longrightarrow> f t c = sc_enable (a t) (b t) yes c"
  shows "\<exists>cfg'. go_iter f ts cfg = Inr cfg' \<and> sets cfg cfg' (\<lambda>k l. \<exists>t\<in>set ts. k = a t \<and> l = b t) yes"
  using assms
proof (induction ts arbitrary: cfg)
  case Nil
  then show ?case by (simp add: go_iter_def)
next
  case (Cons t ts)
  obtain c1 where c1: "sc_enable (a t) (b t) yes cfg = Inr c1" "sets cfg c1 (\<lambda>k l. k = a t \<and> l = b t) yes"
    using sc_enable_sets [OF Cons.prems(1), of "a t" "b t" yes] Cons.prems(2) [of t] by auto
  note names = sets_names [OF c1(2)]
  obtain c2 where c2: "go_iter f ts c1 = Inr c2" "sets c1 c2 (\<lambda>k l. \<exists>t\<in>set ts. k = a t \<and> l = b t) yes"
  proof -
    have "\<exists>cfg'. go_iter f ts c1 = Inr cfg' \<and> sets c1 cfg' (\<lambda>k l. \<exists>t\<in>set ts. k = a t \<and> l = b t) yes"
      by (rule Cons.IH) (use Cons.prems names in simp_all)
    then show ?thesis using that by blast
  qed
  have "sets cfg c2 (\<lambda>k l. (k = a t \<and> l = b t) \<or> (\<exists>t\<in>set ts. k = a t \<and> l = b t)) yes"
    by (rule sets_union [OF c1(2) c2(2)])
  moreover have "(\<lambda>k l. (k = a t \<and> l = b t) \<or> (\<exists>t\<in>set ts. k = a t \<and> l = b t)) =
      (\<lambda>k l. \<exists>t\<in>set (t # ts). k = a t \<and> l = b t)" by (auto simp: fun_eq_iff)
  moreover have "f t cfg = sc_enable (a t) (b t) yes cfg" by (rule Cons.prems(3)) simp_all
  then have "go_iter f (t # ts) cfg = Inr c2" using c1(1) c2(1) by (simp add: go_iter_Cons)
  ultimately show ?case by (intro exI [of _ c2]) argo
qed

lemma switch_rows:
  assumes n: "sc_names_ok cfg" "i < sc_n cfg" "set to \<subseteq> {..<sc_n cfg}"
    and f: "\<And>t c. t \<in> set to \<Longrightarrow> sc_endnames c = sc_endnames cfg \<Longrightarrow> f t c = sc_enable i t yes c"
    and g: "\<And>t c. t \<in> set us \<Longrightarrow> sc_endnames c = sc_endnames cfg \<Longrightarrow> g t c = sc_enable (h t) i yes c"
    and us: "h ` set us = set to"
  shows "\<exists>cfg'. go_bind (go_iter f to cfg) (go_iter g us) = Inr cfg' \<and>
    sets cfg cfg' (\<lambda>k l. k = i \<and> l \<in> set to \<or> l = i \<and> k \<in> set to) yes"
proof -
  obtain c1 where c1: "go_iter f to cfg = Inr c1" "sets cfg c1 (\<lambda>k l. \<exists>t\<in>set to. k = i \<and> l = t) yes"
    using enable_iter [OF n(1), of to "\<lambda>_. i" "\<lambda>t. t" f yes] n f by auto
  note names = sets_names [OF c1(2)]
  obtain c2 where c2: "go_iter g us c1 = Inr c2" "sets c1 c2 (\<lambda>k l. \<exists>t\<in>set us. k = h t \<and> l = i) yes"
  proof -
    have "\<exists>cfg'. go_iter g us c1 = Inr cfg' \<and> sets c1 cfg' (\<lambda>k l. \<exists>t\<in>set us. k = h t \<and> l = i) yes"
      by (rule enable_iter) (use n us names in \<open>auto simp: g\<close>)
    then show ?thesis using that by blast
  qed
  have "sets cfg c2 (\<lambda>k l. (\<exists>t\<in>set to. k = i \<and> l = t) \<or> (\<exists>t\<in>set us. k = h t \<and> l = i)) yes"
    by (rule sets_union [OF c1(2) c2(2)])
  moreover have "(\<lambda>k l. (\<exists>t\<in>set to. k = i \<and> l = t) \<or> (\<exists>t\<in>set us. k = h t \<and> l = i)) =
      (\<lambda>k l. k = i \<and> l \<in> set to \<or> l = i \<and> k \<in> set to)" using us by (auto simp: fun_eq_iff)
  ultimately show ?thesis using c1(1) c2(1) by auto
qed

lemma connectUnlocked_ok:
  assumes "sc_names_ok cfg" and "i < sc_n cfg" and "set to \<subseteq> {..<sc_n cfg}"
  shows "\<exists>cfg'. connectUnlocked i to cfg = Inr cfg' \<and>
    sets cfg cfg' (\<lambda>k l. k = i \<and> l \<in> set to \<or> l = i \<and> k \<in> set to) True"
  unfolding connectUnlocked_def by (rule switch_rows [OF assms]) auto

lemma disconnectUnlocked_ok:
  assumes "sc_names_ok cfg" and "i < sc_n cfg" and "set to \<subseteq> {..<sc_n cfg}" and "distinct to"
  shows "\<exists>cfg'. disconnectUnlocked i to cfg = Inr cfg' \<and>
    sets cfg cfg' (\<lambda>k l. k = i \<and> l \<in> set to \<or> l = i \<and> k \<in> set to) False"
proof -
  have len: "length to \<le> sc_n cfg"
    using distinct_card [OF assms(4)] card_mono [of "{..<sc_n cfg}" "set to"] assms(3) by simp
  have row: "\<exists>r. go_idx (sc_endnames cfg) (int j) = Inr (Some r)" if "j < sc_n cfg" for j
    using assms(1) that by (auto simp: sc_names_ok_def go_idx_Inr)
  show ?thesis
    unfolding disconnectUnlocked_def
  proof (rule switch_rows [OF assms(1-3), where h = snd])
    show "snd ` set (zip [0..<length to] to) = set to" by (simp flip: set_map)
    show "(case t of (j, f) \<Rightarrow> \<lambda>c. go_bind (go_idx (sc_endnames c) (int j)) (\<lambda>row.
        if row \<noteq> None then sc_enable f i False c else Inr c)) c = sc_enable (snd t) i False c"
      if "t \<in> set (zip [0..<length to] to)" "sc_endnames c = sc_endnames cfg" for t c
    proof -
      obtain j f where t: "t = (j, f)" by fastforce
      then have "j < sc_n cfg" using that(1) len by (auto dest!: set_zip_leftD)
      from row [OF this] show ?thesis using that(2) t by auto
    qed
  qed (use row [OF assms(2)] in auto)
qed

text \<open>One side of \<open>partition\<close>: the servers \<open>is\<close> of side \<open>A\<close> are cut off from \<open>B\<close> and connected to \<open>A\<close>.\<close>

definition side_links :: "nat list \<Rightarrow> nat list \<Rightarrow> nat list \<Rightarrow> (nat \<Rightarrow> nat \<Rightarrow> bool) \<Rightarrow> nat \<Rightarrow> nat \<Rightarrow> bool" where
  "side_links is A B M k l \<longleftrightarrow>
     (if k \<in> set is \<and> l \<in> set A \<or> l \<in> set is \<and> k \<in> set A then True
      else if k \<in> set is \<and> l \<in> set B \<or> l \<in> set is \<and> k \<in> set B then False else M k l)"

lemma side_step:
  assumes "sc_names_ok cfg" and "i < sc_n cfg" and "set A \<subseteq> {..<sc_n cfg}" and "set B \<subseteq> {..<sc_n cfg}"
    and "distinct B"
  shows "\<exists>nw. go_bind (disconnectUnlocked i B cfg) (connectUnlocked i A) = Inr (cfg\<lparr>sc_net := nw\<rparr>) \<and>
    (\<forall>k < sc_n cfg. \<forall>l < sc_n cfg. link (cfg\<lparr>sc_net := nw\<rparr>) k l = side_links [i] A B (link cfg) k l)"
proof -
  obtain c1 where c1: "disconnectUnlocked i B cfg = Inr c1"
      "sets cfg c1 (\<lambda>k l. k = i \<and> l \<in> set B \<or> l = i \<and> k \<in> set B) False"
    using disconnectUnlocked_ok [OF assms(1,2,4,5)] by blast
  note names = sets_names [OF c1(2)]
  obtain c2 where c2: "connectUnlocked i A c1 = Inr c2"
      "sets c1 c2 (\<lambda>k l. k = i \<and> l \<in> set A \<or> l = i \<and> k \<in> set A) True"
    using connectUnlocked_ok [of c1 i A] assms names by auto
  obtain nw where nw: "c2 = cfg\<lparr>sc_net := nw\<rparr>" using c1(2) c2(2) by (auto simp: sets_def)
  have "link c2 k l = side_links [i] A B (link cfg) k l" if "k < sc_n cfg" "l < sc_n cfg" for k l
    using c1(2) c2(2) that names by (auto simp: sets_def side_links_def)
  then show ?thesis using c1(1) c2(1) nw by auto
qed

lemma side_links_cong: "M k l = M' k l \<Longrightarrow> side_links js A B M k l = side_links js A B M' k l"
  unfolding side_links_def by (rule if_cong [OF refl refl]) simp

lemma side_links_Cons:
  "set A \<inter> set B = {} \<Longrightarrow> set (i # is) \<subseteq> set A \<Longrightarrow>
   side_links is A B (side_links [i] A B M) k l = side_links (i # is) A B M k l"
  by (auto simp: side_links_def)

lemma side_loop:
  assumes "sc_names_ok cfg" and "set A \<subseteq> {..<sc_n cfg}" and "set B \<subseteq> {..<sc_n cfg}"
    and "distinct B" and "set A \<inter> set B = {}" and "set is \<subseteq> set A"
  shows "\<exists>nw. go_iter (\<lambda>i c. go_bind (disconnectUnlocked i B c) (connectUnlocked i A)) is cfg = Inr (cfg\<lparr>sc_net := nw\<rparr>) \<and>
    (\<forall>k < sc_n cfg. \<forall>l < sc_n cfg. link (cfg\<lparr>sc_net := nw\<rparr>) k l = side_links is A B (link cfg) k l)"
  using assms(1-3,6)
proof (induction "is" arbitrary: cfg)
  case Nil
  then show ?case by (intro exI [of _ "sc_net cfg"]) (simp add: go_iter_def side_links_def)
next
  case (Cons i "is")
  let ?f = "\<lambda>i c. go_bind (disconnectUnlocked i B c) (connectUnlocked i A)"
  obtain nw where nw: "?f i cfg = Inr (cfg\<lparr>sc_net := nw\<rparr>)"
      "\<forall>k < sc_n cfg. \<forall>l < sc_n cfg. link (cfg\<lparr>sc_net := nw\<rparr>) k l = side_links [i] A B (link cfg) k l"
    using side_step [OF Cons.prems(1) _ Cons.prems(2,3) assms(4), of i] Cons.prems(2,4) by auto
  obtain nw' where nw': "go_iter ?f is (cfg\<lparr>sc_net := nw\<rparr>) = Inr (cfg\<lparr>sc_net := nw'\<rparr>)"
      "\<forall>k < sc_n cfg. \<forall>l < sc_n cfg. link (cfg\<lparr>sc_net := nw'\<rparr>) k l = side_links is A B (link (cfg\<lparr>sc_net := nw\<rparr>)) k l"
    using Cons.IH [of "cfg\<lparr>sc_net := nw\<rparr>"] Cons.prems by auto
  have "link (cfg\<lparr>sc_net := nw'\<rparr>) k l = side_links (i # is) A B (link cfg) k l" if kl: "k < sc_n cfg" "l < sc_n cfg" for k l
  proof -
    have "link (cfg\<lparr>sc_net := nw'\<rparr>) k l = side_links is A B (side_links [i] A B (link cfg)) k l"
      using nw(2) nw'(2) kl by (simp add: side_links_def)
    also have "\<dots> = side_links (i # is) A B (link cfg) k l"
      by (rule side_links_Cons [OF assms(5) Cons.prems(4)])
    finally show ?thesis .
  qed
  then show ?case using nw(1) nw'(1) by (auto simp: go_iter_Cons)
qed

lemma partition_splits:
  assumes "sc_names_ok cfg" and "distinct (p1 @ p2)" and "set (p1 @ p2) = {..<sc_n cfg}"
  shows "\<exists>nw. partition_servers p1 p2 cfg = Inr (cfg\<lparr>sc_net := nw\<rparr>) \<and>
    (\<forall>k < sc_n cfg. \<forall>l < sc_n cfg. link (cfg\<lparr>sc_net := nw\<rparr>) k l \<longleftrightarrow> (k \<in> set p1 \<longleftrightarrow> l \<in> set p1))"
proof -
  have sub: "set p1 \<subseteq> {..<sc_n cfg}" "set p2 \<subseteq> {..<sc_n cfg}" "distinct p1" "distinct p2" "set p1 \<inter> set p2 = {}"
    using assms(2,3) by auto
  obtain nw where nw: "go_iter (\<lambda>i c. go_bind (disconnectUnlocked i p2 c) (connectUnlocked i p1)) p1 cfg = Inr (cfg\<lparr>sc_net := nw\<rparr>)"
      "\<forall>k < sc_n cfg. \<forall>l < sc_n cfg. link (cfg\<lparr>sc_net := nw\<rparr>) k l = side_links p1 p1 p2 (link cfg) k l"
    using side_loop [OF assms(1) sub(1,2,4,5) order_refl] by blast
  obtain nw' where nw': "go_iter (\<lambda>i c. go_bind (disconnectUnlocked i p1 c) (connectUnlocked i p2)) p2 (cfg\<lparr>sc_net := nw\<rparr>) =
        Inr (cfg\<lparr>sc_net := nw'\<rparr>)"
      "\<forall>k < sc_n cfg. \<forall>l < sc_n cfg. link (cfg\<lparr>sc_net := nw'\<rparr>) k l = side_links p2 p2 p1 (link (cfg\<lparr>sc_net := nw\<rparr>)) k l"
    using side_loop [of "cfg\<lparr>sc_net := nw\<rparr>" p2 p1 p2] assms(1) sub by auto
  have "link (cfg\<lparr>sc_net := nw'\<rparr>) k l \<longleftrightarrow> (k \<in> set p1 \<longleftrightarrow> l \<in> set p1)" if kl: "k < sc_n cfg" "l < sc_n cfg" for k l
  proof -
    have side: "x \<in> set p2 \<longleftrightarrow> x \<notin> set p1" if "x < sc_n cfg" for x
      using assms(3) sub(5) that by auto
    have "link (cfg\<lparr>sc_net := nw'\<rparr>) k l = side_links p2 p2 p1 (side_links p1 p1 p2 (link cfg)) k l"
      unfolding nw'(2) [rule_format, OF kl] by (rule side_links_cong) (rule nw(2) [rule_format, OF kl])
    then show ?thesis
      unfolding side_links_def side [OF kl(1)] side [OF kl(2)] by (cases "k \<in> set p1"; cases "l \<in> set p1") simp_all
  qed
  then show ?thesis using nw(1) nw'(1) by (auto simp: partition_servers_def)
qed

lemma Leader_from_bound:
  "Leader_from rf_of ss i = Inr (b, l) \<Longrightarrow> l < i + length ss \<or> l = 0"
  by (induction rf_of ss i rule: Leader_from.induct) (auto split: if_splits)

lemma Leader_of_running:
  assumes "\<forall>s\<in>set (sc_servers cfg). s \<noteq> None" and "sc_n cfg \<noteq> 0"
  shows "\<exists>b l. Leader_of rf_of cfg = Inr (b, l) \<and> l < sc_n cfg"
proof -
  have "\<forall>s\<in>set ss. s \<noteq> None \<Longrightarrow> \<exists>b l. Leader_from rf_of ss i = Inr (b, l)" for ss i
    by (induction rf_of ss i rule: Leader_from.induct) auto
  then obtain b l where l: "Leader_from rf_of (sc_servers cfg) 0 = Inr (b, l)" using assms(1) by blast
  then show ?thesis using Leader_from_bound [OF l] assms(2) by (auto simp: Leader_of_def sc_n_def)
qed

text \<open>
  The partition of the tests: with an odd number of running servers, at least three,
  \<open>make_partition\<close> returns two disjoint parts of all servers, the first one a majority and the
  second one with the server that \<open>Leader\<close> finds, and \<open>partition\<close> then leaves exactly the links
  within a part: the leader cannot reach a majority.
\<close>

theorem partition_isolates_leader:
  assumes "sc_names_ok cfg" and "\<forall>s\<in>set (sc_servers cfg). s \<noteq> None"
    and "odd (sc_n cfg)" and "3 \<le> sc_n cfg"
  shows "\<exists>b l p1 p2 cfg'. Leader_of rf_of cfg = Inr (b, l) \<and> make_partition rf_of cfg = Inr (p1, p2) \<and>
    partition_servers p1 p2 cfg = Inr cfg' \<and> l \<in> set p2 \<and> majority (sc_n cfg) (set p1) \<and>
    set p2 = {..<sc_n cfg} - set p1 \<and>
    (\<forall>i < sc_n cfg. \<forall>j < sc_n cfg. is_enabled (sc_net cfg') (sc_name cfg i j) \<longleftrightarrow> (i \<in> set p1 \<longleftrightarrow> j \<in> set p1))"
proof -
  obtain k where k: "sc_n cfg = 2 * k + 1" "1 \<le> k" using assms(3,4) by (elim oddE) auto
  obtain b l where l: "Leader_of rf_of cfg = Inr (b, l)" "l < sc_n cfg"
    using Leader_of_running [OF assms(2), of rf_of] k(1) by auto
  obtain p1 p2 where p: "make_partition rf_of cfg = Inr (p1, p2)" "length p1 = k + 1" "distinct (p1 @ p2)"
      "set (p1 @ p2) = {..<sc_n cfg}" "l \<in> set p2"
    using make_partition_split [OF k l] by blast
  obtain nw where nw: "partition_servers p1 p2 cfg = Inr (cfg\<lparr>sc_net := nw\<rparr>)"
      "\<forall>i < sc_n cfg. \<forall>j < sc_n cfg. link (cfg\<lparr>sc_net := nw\<rparr>) i j \<longleftrightarrow> (i \<in> set p1 \<longleftrightarrow> j \<in> set p1)"
    using partition_splits [OF assms(1) p(3,4)] by blast
  have "card (set p1) = k + 1" using p(2,3) distinct_card [of p1] by simp
  then have "majority (sc_n cfg) (set p1)" using p(4) k(1) by (auto simp: majority_def)
  moreover have "set p2 = {..<sc_n cfg} - set p1" using p(3,4) by auto
  ultimately show ?thesis
    using l(1) p(1,5) nw by (intro exI [of _ b] exI [of _ l] exI [of _ p1] exI [of _ p2] exI [of _ "cfg\<lparr>sc_net := nw\<rparr>"])
      (simp add: link_def)
qed

section \<open>Restarting a server\<close>

lemma fresh_ends_frame:
  assumes "fresh_ends names n cfg = Inr cfg'"
  shows "(sc_servers cfg', sc_saved cfg') = (sc_servers cfg, sc_saved cfg)"
  using assms unfolding fresh_ends_def by (rule go_iter_frame) (auto simp: go_bind_Inr_iff)

lemma switch_frame:
  "go_iter f ts cfg = Inr cfg' \<Longrightarrow> (\<And>t c c'. f t c = Inr c' \<Longrightarrow> \<exists>nw. c' = c\<lparr>sc_net := nw\<rparr>) \<Longrightarrow>
   (sc_servers cfg', sc_saved cfg') = (sc_servers cfg, sc_saved cfg)"
  by (erule go_iter_frame) fastforce

lemma sc_enable_frame: "sc_enable i j yes c = Inr c' \<Longrightarrow> \<exists>nw. c' = c\<lparr>sc_net := nw\<rparr>"
  by (auto simp: sc_enable_def go_bind_Inr_iff)

lemma disconnectUnlocked_frame:
  assumes "disconnectUnlocked i from cfg = Inr cfg'"
  shows "(sc_servers cfg', sc_saved cfg') = (sc_servers cfg, sc_saved cfg)"
proof -
  have same: "\<exists>nw. c = c\<lparr>sc_net := nw\<rparr>" for c :: "('a, 'b, 'c) service_config"
    by (rule exI [of _ "sc_net c"]) simp
  obtain c where c: "go_iter (\<lambda>f c. go_bind (go_idx (sc_endnames c) (int i)) (\<lambda>row.
        if row \<noteq> None then sc_enable i f False c else Inr c)) from cfg = Inr c"
      "go_iter (\<lambda>(j, f) c. go_bind (go_idx (sc_endnames c) (int j)) (\<lambda>row.
        if row \<noteq> None then sc_enable f i False c else Inr c)) (zip [0..<length from] from) c = Inr cfg'"
    using assms by (auto simp: disconnectUnlocked_def go_bind_Inr_iff)
  have "(sc_servers c, sc_saved c) = (sc_servers cfg, sc_saved cfg)"
    by (rule switch_frame [OF c(1)]) (auto simp: go_bind_Inr_iff same split: if_splits dest: sc_enable_frame)
  moreover have "(sc_servers cfg', sc_saved cfg') = (sc_servers c, sc_saved c)"
    by (rule switch_frame [OF c(2)]) (auto simp: go_bind_Inr_iff same split: if_splits dest: sc_enable_frame)
  ultimately show ?thesis by simp
qed

text \<open>
  A server that is shut down and started again starts from what its predecessor had persisted,
  the Raft state and the snapshot.
\<close>

theorem restart_from_persisted:
  assumes "ShutdownServer rf_of i cfg = Inr cfg1" and "StartServer_with rf_of start i names srv cfg1 = Inr cfg2"
    and "i < sc_n cfg" and "length (sc_saved cfg) = sc_n cfg" and "sc_servers cfg ! i = Some s"
  shows "\<exists>ps s'. start (sc_n cfg) i ps = Inr s' \<and> sc_servers cfg2 ! i = Some s' \<and>
    raftstate ps = raftstate (persister (rf_of s)) \<and> snapshot ps = snapshot (persister (rf_of s))"
proof -
  let ?ps = "Persister_Copy (persister (rf_of s))"
  obtain d where d: "disconnectUnlocked i (All_servers cfg) cfg = Inr d"
    using assms(1) by (auto simp: ShutdownServer_def go_bind_Inr_iff)
  have cfg1: "sc_servers cfg1 = (sc_servers cfg)[i := None]" "sc_saved cfg1 ! i = Some ?ps"
    using assms(1,3-5) d disconnectUnlocked_frame [OF d] by (auto simp: ShutdownServer_def sc_saved_at_def Let_def)
  obtain c s' where c: "fresh_ends names (sc_n cfg1) (cfg1\<lparr>sc_endnames := (sc_endnames cfg1)[i := Some names]\<rparr>) = Inr c"
    and s': "start (sc_n c) i (case sc_saved_at rf_of c i of Some ps \<Rightarrow> Persister_Copy ps | None \<Rightarrow> MakePersister) = Inr s'"
      "sc_servers cfg2 = (sc_servers c)[i := Some s']"
    using assms(2) by (auto simp: StartServer_with_def go_bind_Inr_iff Let_def sc_n_def)
  have same: "sc_servers c = sc_servers cfg1" "sc_saved c = sc_saved cfg1" using fresh_ends_frame [OF c] by simp_all
  then have "sc_saved_at rf_of c i = Some ?ps" "sc_n c = sc_n cfg"
    using cfg1 assms(3) by (simp_all add: sc_saved_at_def sc_n_def)
  then have "start (sc_n cfg) i (Persister_Copy ?ps) = Inr s'" using s'(1) by simp
  moreover have "sc_servers cfg2 ! i = Some s'"
    using s'(2) same(1) cfg1(1) assms(3) by (simp add: sc_n_def)
  ultimately show ?thesis
    by (intro exI [of _ "Persister_Copy ?ps"] exI [of _ s']) (simp add: Persister_Copy_def)
qed

section \<open>A fresh configuration\<close>

lemma go_iter_snoc: "go_iter f (xs @ [x]) s = go_bind (go_iter f xs s) (f x)"
  by (simp add: go_iter_def)

lemma fresh_ends_ok:
  assumes "distinct names" and "set names \<inter> ends (sc_net c) = {}" and "m \<le> length names"
  shows "\<exists>nw. fresh_ends names m c = Inr (c\<lparr>sc_net := nw\<rparr>) \<and> ends nw = ends (sc_net c) \<union> set (take m names) \<and>
    servers nw = servers (sc_net c) \<and> (\<forall>j < m. connection_of nw (names ! j) = Some (NameInt (int j))) \<and>
    (\<forall>e. e \<notin> set (take m names) \<longrightarrow> connection_of nw e = connection_of (sc_net c) e)"
  using assms(3)
proof (induction m)
  case 0
  show ?case by (rule exI [of _ "sc_net c"]) (simp add: fresh_ends_def go_iter_def)
next
  case (Suc m)
  then obtain nw where nw: "fresh_ends names m c = Inr (c\<lparr>sc_net := nw\<rparr>)" "ends nw = ends (sc_net c) \<union> set (take m names)"
      "servers nw = servers (sc_net c)" "\<forall>j < m. connection_of nw (names ! j) = Some (NameInt (int j))"
      "\<forall>e. e \<notin> set (take m names) \<longrightarrow> connection_of nw e = connection_of (sc_net c) e"
    by auto
  let ?e = "names ! m"
  have m: "m < length names" using Suc.prems by simp
  then have new: "?e \<notin> set (take m names)"
    using assms(1) by (auto simp: in_set_conv_nth nth_eq_iff_index_eq)
  moreover have "?e \<notin> ends (sc_net c)" using m assms(2) nth_mem by blast
  ultimately have made: "MakeEnd ?e nw = Inr (nw\<lparr>ends := insert ?e (ends nw), enabled := (enabled nw)(?e \<mapsto> False),
      connections := (connections nw)(?e \<mapsto> None)\<rparr>)"
    using nw(2) by (simp add: MakeEnd_def)
  have "fresh_ends names (Suc m) c = go_bind (fresh_ends names m c) (\<lambda>c. go_bind (go_idx names (int m)) (\<lambda>e.
      go_bind (MakeEnd e (sc_net c)) (\<lambda>nw. Inr (c\<lparr>sc_net := Connect e (NameInt (int m)) nw\<rparr>))))"
    by (simp add: fresh_ends_def go_iter_snoc)
  moreover have "\<forall>j < m. names ! j \<noteq> ?e" using assms(1) m by (auto simp: nth_eq_iff_index_eq)
  ultimately show ?case
    using nw made m new
    by (auto simp: go_idx_Inr Connect_def take_Suc_conv_app_nth connection_of_def less_Suc_eq)
qed

text \<open>Random names: every server gets as many as there are servers, and no two ends have the same.\<close>

definition names_fresh :: "nat \<Rightarrow> (nat \<Rightarrow> iname list) \<Rightarrow> bool" where
  "names_fresh n names \<longleftrightarrow>
     (\<forall>i < n. length (names i) = n \<and> distinct (names i) \<and> (\<forall>j < i. set (names i) \<inter> set (names j) = {}))"

text \<open>The first \<open>k\<close> of \<open>n\<close> servers run, with their ends connected to the servers.\<close>

definition started ::
  "nat \<Rightarrow> (nat \<Rightarrow> iname list) \<Rightarrow> (nat \<Rightarrow> nat) \<Rightarrow> nat \<Rightarrow> ('s, 'c, 'd) service_config \<Rightarrow> bool" where
  "started n names srvs k c \<longleftrightarrow>
     (length (sc_servers c) = n \<and> length (sc_saved c) = n \<and> length (sc_endnames c) = n \<and>
      ends (sc_net c) = (\<Union>i < k. set (names i))) \<and>
     (\<forall>i < n. k \<le> i \<longrightarrow> sc_servers c ! i = None \<and> sc_saved c ! i = None) \<and>
     (\<forall>i < k. sc_servers c ! i \<noteq> None \<and> sc_endnames c ! i = Some (names i) \<and>
        server_at (sc_net c) (NameInt (int i)) = Some (srvs i) \<and>
        (\<forall>j < n. connection_of (sc_net c) (names i ! j) = Some (NameInt (int j))))"

lemma StartServer_with_started:
  assumes "started n names srvs k c" and "k < n" and "names_fresh n names" and "start n k MakePersister = Inr s"
  shows "\<exists>c'. StartServer_with rf_of start k (names k) (srvs k) c = Inr c' \<and> started n names srvs (Suc k) c'"
proof -
  let ?c = "c\<lparr>sc_endnames := (sc_endnames c)[k := Some (names k)]\<rparr>"
  have nm: "length (names k) = n" "distinct (names k)" "set (names k) \<inter> ends (sc_net ?c) = {}"
    using assms(1-3) by (auto simp: names_fresh_def started_def)
  obtain nw where nw: "fresh_ends (names k) n ?c = Inr (?c\<lparr>sc_net := nw\<rparr>)" "ends nw = ends (sc_net c) \<union> set (names k)"
      "servers nw = servers (sc_net c)" "\<forall>j < n. connection_of nw (names k ! j) = Some (NameInt (int j))"
      "\<forall>e. e \<notin> set (names k) \<longrightarrow> connection_of nw e = connection_of (sc_net c) e"
    using fresh_ends_ok [OF nm(2,3), of n] nm(1) by auto
  let ?c' = "?c\<lparr>sc_net := AddServer (NameInt (int k)) (srvs k) nw, sc_saved := (sc_saved c)[k := Some MakePersister],
    sc_servers := (sc_servers c)[k := Some s]\<rparr>"
  have n: "length (sc_servers c) = n" "sc_saved_at rf_of (?c\<lparr>sc_net := nw\<rparr>) k = None"
    using assms(1,2) by (auto simp: started_def sc_saved_at_def)
  then have "StartServer_with rf_of start k (names k) (srvs k) c = Inr ?c'"
    using nw(1) assms(4) by (simp add: StartServer_with_def Let_def sc_n_def)
  moreover have "names i ! j \<notin> set (names k)" if "i < k" "j < n" for i j
  proof -
    have "length (names i) = n" "set (names k) \<inter> set (names i) = {}" using that assms(2,3) by (auto simp: names_fresh_def)
    then show ?thesis using nth_mem [of j "names i"] that(2) by auto
  qed
  then have "started n names srvs (Suc k) ?c'"
    using assms(1,2) nw n
    by (simp add: started_def less_Suc_eq AddServer_def server_at_def connection_of_def nth_list_update lessThan_Suc Un_commute)
  ultimately show ?thesis by blast
qed

lemma start_all_servers:
  assumes "names_fresh n names" and "\<And>i. i < n \<Longrightarrow> \<exists>s. start n i MakePersister = Inr s" and "k \<le> n"
  shows "\<exists>c. go_iter (\<lambda>i. StartServer_with rf_of start i (names i) (srvs i)) [0..<k] (empty_config n) = Inr c \<and>
    started n names srvs k c"
  using assms(3)
proof (induction k)
  case 0
  show ?case by (simp add: go_iter_def started_def empty_config_def MakeNetwork_def)
next
  case (Suc k)
  then obtain c where c: "go_iter (\<lambda>i. StartServer_with rf_of start i (names i) (srvs i)) [0..<k] (empty_config n) = Inr c"
      "started n names srvs k c" by auto
  have k: "k < n" using Suc.prems by simp
  obtain s where s: "start n k MakePersister = Inr s" using assms(2) [OF k] by blast
  show ?case using StartServer_with_started [where start = start, OF c(2) k assms(1) s] by (simp add: go_iter_snoc c(1))
qed

lemma started_names_ok:
  assumes "started n names srvs n c" and "names_fresh n names"
  shows "sc_names_ok c" and "\<forall>s\<in>set (sc_servers c). s \<noteq> None"
proof -
  have row: "sc_endnames c ! i = Some (names i)" "length (names i) = n" "distinct (names i)" if "i < n" for i
    using that assms by (auto simp: started_def names_fresh_def)
  have "i = k \<and> j = l" if *: "i < n" "j < n" "k < n" "l < n" "names i ! j = names k ! l" for i j k l
  proof -
    have "names i ! j \<in> set (names i) \<inter> set (names k)" using * row(2) by (metis IntI nth_mem)
    then have "i = k" using assms(2) * unfolding names_fresh_def by (metis disjoint_iff nat_neq_iff IntE)
    then show ?thesis using * row(2,3) by (simp add: nth_eq_iff_index_eq)
  qed
  then show "sc_names_ok c"
    using assms(1) row by (auto simp: sc_names_ok_def started_def sc_n_def sc_name_def inj_on_def)
  show "\<forall>s\<in>set (sc_servers c). s \<noteq> None" using assms(1) by (auto simp: started_def in_set_conv_nth)
qed

lemma ConnectAll_links:
  assumes "sc_names_ok c"
  shows "\<exists>c'. ConnectAll c = Inr c' \<and> (\<exists>nw. c' = c\<lparr>sc_net := nw\<rparr>) \<and> (\<forall>i < sc_n c. \<forall>j < sc_n c. link c' i j)"
proof -
  have "\<exists>nw. go_iter (\<lambda>i c. connectUnlocked i (All_servers c) c) [0..<m] c = Inr (c\<lparr>sc_net := nw\<rparr>) \<and>
      (\<forall>i < m. \<forall>j < sc_n c. link (c\<lparr>sc_net := nw\<rparr>) i j)" if "m \<le> sc_n c" for m
    using that
  proof (induction m)
    case 0
    show ?case by (rule exI [of _ "sc_net c"]) (simp add: go_iter_def)
  next
    case (Suc m)
    then obtain nw where nw: "go_iter (\<lambda>i c. connectUnlocked i (All_servers c) c) [0..<m] c = Inr (c\<lparr>sc_net := nw\<rparr>)"
        "\<forall>i < m. \<forall>j < sc_n c. link (c\<lparr>sc_net := nw\<rparr>) i j" by auto
    let ?c = "c\<lparr>sc_net := nw\<rparr>"
    obtain c2 where c2: "connectUnlocked m (All_servers ?c) ?c = Inr c2"
        "sets ?c c2 (\<lambda>k l. k = m \<and> l \<in> set (All_servers ?c) \<or> l = m \<and> k \<in> set (All_servers ?c)) True"
      using connectUnlocked_ok [of ?c m "All_servers ?c"] assms Suc.prems by (auto simp: All_servers_def atLeast0LessThan)
    then show ?case using nw Suc.prems by (auto simp: go_iter_snoc sets_def All_servers_def less_Suc_eq)
  qed
  from this [of "sc_n c"] show ?thesis by (auto simp: ConnectAll_def)
qed

lemma connectUnlocked_wires:
  assumes "connectUnlocked i to c = Inr c'"
  shows "(connections (sc_net c'), servers (sc_net c')) = (connections (sc_net c), servers (sc_net c))"
proof -
  let ?g = "\<lambda>c. (connections (sc_net c), servers (sc_net c))"
  have en: "sc_enable k l yes c = Inr c' \<Longrightarrow> ?g c' = ?g c" for k l yes and c c' :: "('a, 'b, 'c) service_config"
    by (auto simp: sc_enable_def go_bind_Inr_iff Enable_def)
  obtain c1 where "go_iter (\<lambda>t. sc_enable i t True) to c = Inr c1" "go_iter (\<lambda>t. sc_enable t i True) to c1 = Inr c'"
    using assms by (auto simp: connectUnlocked_def go_bind_Inr_iff)
  from go_iter_frame [where g = ?g, OF this(1) en] go_iter_frame [where g = ?g, OF this(2) en] show ?thesis by simp
qed

lemma ConnectAll_wires:
  "ConnectAll c = Inr c' \<Longrightarrow> (connections (sc_net c'), servers (sc_net c')) = (connections (sc_net c), servers (sc_net c))"
  unfolding ConnectAll_def
  by (erule go_iter_frame [where g = "\<lambda>c. (connections (sc_net c), servers (sc_net c))"]) (rule connectUnlocked_wires)

text \<open>
  A configuration in which every server runs and reaches every server: each end is enabled and
  goes to the server of its index.
\<close>

definition config_ready :: "nat \<Rightarrow> (nat \<Rightarrow> nat) \<Rightarrow> ('s, 'c, 'd) service_config \<Rightarrow> bool" where
  "config_ready n srvs c \<longleftrightarrow> sc_n c = n \<and> sc_names_ok c \<and> (\<forall>s\<in>set (sc_servers c). s \<noteq> None) \<and>
     (\<forall>i < n. \<forall>j < n. \<exists>sn. link c i j \<and> connection_of (sc_net c) (sc_name c i j) = Some sn \<and>
        server_at (sc_net c) sn = Some (srvs j))"

lemma start_and_connect_ready:
  assumes "names_fresh n names" and "\<And>i. i < n \<Longrightarrow> \<exists>s. start n i MakePersister = Inr s"
  shows "\<exists>c. go_bind (go_iter (\<lambda>i. StartServer_with rf_of start i (names i) (srvs i)) [0..<n] (empty_config n)) (\<lambda>cfg.
     go_bind (ConnectAll cfg) (\<lambda>cfg. Inr (cfg\<lparr>sc_net := Reliable yes (sc_net cfg)\<rparr>))) = Inr c \<and>
     config_ready n srvs c \<and> reliable (sc_net c) = yes"
proof -
  obtain c1 where c1: "go_iter (\<lambda>i. StartServer_with rf_of start i (names i) (srvs i)) [0..<n] (empty_config n) = Inr c1"
      "started n names srvs n c1"
    using start_all_servers [where start = start, OF assms order_refl] by blast
  note ok = started_names_ok [OF c1(2) assms(1)]
  have n: "sc_n c1 = n" using c1(2) by (simp add: started_def sc_n_def)
  obtain nw where c2: "ConnectAll c1 = Inr (c1\<lparr>sc_net := nw\<rparr>)" "\<forall>i < n. \<forall>j < n. link (c1\<lparr>sc_net := nw\<rparr>) i j"
    using ConnectAll_links [OF ok(1)] n by auto
  have wires: "connections nw = connections (sc_net c1)" "servers nw = servers (sc_net c1)"
    using ConnectAll_wires [OF c2(1)] by simp_all
  let ?c = "c1\<lparr>sc_net := Reliable yes nw\<rparr>"
  have "config_ready n srvs ?c"
    using c1(2) c2(2) wires ok n
    by (auto simp: config_ready_def started_def link_def sc_name_def Reliable_def is_enabled_def connection_of_def server_at_def)
  then show ?thesis using c1(1) c2(1) by (simp add: Reliable_def)
qed

text \<open>
  Both harnesses set up a working cluster, for any number of servers: with fresh random names
  \<open>make_config\<close> returns (no name is taken, no server panics at its start), every server
  runs, and every server reaches every server.
\<close>

theorem kv_make_config_ready:
  assumes "names_fresh n names"
  shows "\<exists>c. kv_make_config n unreliable mx names srvs = Inr c \<and> config_ready n srvs c \<and>
    reliable (sc_net c) = (\<not> unreliable)"
  unfolding kv_make_config_def kv_config_StartServer_def
  by (rule start_and_connect_ready [OF assms])
    (simp add: StartKVServer_def Make_def MakePersister_def ReadRaftState_def ps_ReadSnapshot_def)

theorem sm_make_config_ready:
  assumes "names_fresh n names"
  shows "\<exists>c. sm_make_config n unreliable names srvs = Inr c \<and> config_ready n srvs c \<and>
    reliable (sc_net c) = (\<not> unreliable)"
  unfolding sm_make_config_def sm_config_StartServer_def
  by (rule start_and_connect_ready [OF assms]) (simp add: StartServer_def Make_def MakePersister_def ReadRaftState_def)

lemma example_names_fresh: "names_fresh 3 (\<lambda>i. map (\<lambda>j. NameInt (int (3 * i + j))) [0..<3])"
  by (auto simp: names_fresh_def distinct_map inj_on_def)

theorem partition_isolates_leader_witness:
  "\<exists>cfg. kv_make_config 3 True (- 1) (\<lambda>i. map (\<lambda>j. NameInt (int (3 * i + j))) [0..<3]) id = Inr cfg \<and>
     (\<exists>b l p1 p2 cfg'. Leader_of kv_rf cfg = Inr (b, l) \<and> make_partition kv_rf cfg = Inr (p1, p2) \<and>
        partition_servers p1 p2 cfg = Inr cfg' \<and> l \<in> set p2 \<and> majority 3 (set p1) \<and>
        set p2 = {..<3} - set p1 \<and>
        (\<forall>i < 3. \<forall>j < 3. is_enabled (sc_net cfg') (sc_name cfg i j) \<longleftrightarrow> (i \<in> set p1 \<longleftrightarrow> j \<in> set p1)))"
proof -
  obtain cfg where cfg: "kv_make_config 3 True (- 1) (\<lambda>i. map (\<lambda>j. NameInt (int (3 * i + j))) [0..<3]) id = Inr cfg"
      "config_ready 3 id cfg"
    using kv_make_config_ready [OF example_names_fresh, of True "- 1" id] by blast
  then have n: "sc_n cfg = 3" and ok: "sc_names_ok cfg" "\<forall>s\<in>set (sc_servers cfg). s \<noteq> None"
    by (simp_all add: config_ready_def)
  show ?thesis using partition_isolates_leader [OF ok, of kv_rf, unfolded n] cfg(1) by simp
qed


text \<open>
  The harness of the shard master: after its configuration is made, \<open>make_partition\<close> and \<open>partition\<close> leave exactly the links
  within the two parts, and \<open>ConnectAll\<close> afterwards restores every link.
\<close>

theorem sm_partition_and_heal:
  assumes "names_fresh n names" and "odd n" and "3 \<le> n"
  shows "\<exists>cfg p1 p2 cfg1 cfg2. sm_make_config n unreliable names srvs = Inr cfg \<and>
    sm_config_make_partition cfg = Inr (p1, p2) \<and> sm_config_partition p1 p2 cfg = Inr cfg1 \<and>
    sm_config_ConnectAll cfg1 = Inr cfg2 \<and>
    (\<forall>i < n. \<forall>j < n. link cfg1 i j \<longleftrightarrow> (i \<in> set p1 \<longleftrightarrow> j \<in> set p1)) \<and> (\<forall>i < n. \<forall>j < n. link cfg2 i j)"
proof -
  obtain cfg where cfg: "sm_make_config n unreliable names srvs = Inr cfg" "config_ready n srvs cfg"
    using sm_make_config_ready [OF assms(1)] by blast
  then have n: "sc_n cfg = n" and ok: "sc_names_ok cfg" "\<forall>s\<in>set (sc_servers cfg). s \<noteq> None"
    by (simp_all add: config_ready_def)
  obtain k where k: "sc_n cfg = 2 * k + 1" "1 \<le> k" using assms(2,3) n by (elim oddE) auto
  obtain b l where l: "Leader_of sm_rf cfg = Inr (b, l)" "l < sc_n cfg"
    using Leader_of_running [OF ok(2), of sm_rf] k(1) by auto
  obtain p1 p2 where p: "make_partition sm_rf cfg = Inr (p1, p2)" "distinct (p1 @ p2)" "set (p1 @ p2) = {..<sc_n cfg}"
    using make_partition_split [OF k l] by blast
  obtain nw where nw: "partition_servers p1 p2 cfg = Inr (cfg\<lparr>sc_net := nw\<rparr>)"
      "\<forall>i < n. \<forall>j < n. link (cfg\<lparr>sc_net := nw\<rparr>) i j \<longleftrightarrow> (i \<in> set p1 \<longleftrightarrow> j \<in> set p1)"
    using partition_splits [OF ok(1) p(2,3)] n by blast
  obtain cfg2 where "ConnectAll (cfg\<lparr>sc_net := nw\<rparr>) = Inr cfg2" "\<forall>i < n. \<forall>j < n. link cfg2 i j"
    using ConnectAll_links [of "cfg\<lparr>sc_net := nw\<rparr>"] ok(1) n by auto
  then show ?thesis
    using cfg(1) p(1) nw by (auto simp: sm_config_make_partition_def sm_config_partition_def sm_config_ConnectAll_def)
qed

end
