(* ===== verification/Shard_Config.thy ===== *)
theory Shard_Config
  imports Service_Config ShardKV_Clerk
begin

text \<open>
  The test harness of the sharded service (\<open>shardkv/config.go\<close>): three shard masters, three groups of
  \<open>n\<close> replicated servers and their clerks on one simulated network.

  \<open>rnd k\<close> is the \<open>k\<close>-th string that \<open>randstring\<close> draws; \<open>sh_rand\<close> counts the draws. A nil slice
  of names is the empty list. Addresses of network servers and clerks are arguments, as is
  the answer of the shard master that \<open>MakeClerk\<close> starts with.
\<close>

section \<open>State\<close>

record sk_group =
  gg_gid :: int
  gg_servers :: "ShardKV option list"
  gg_saved :: "(sk_cmd, sk_gob list) Persister option list"
  gg_endnames :: "iname list list"
  gg_mendnames :: "iname list list"

record shard_config =
  sh_net :: Network
  sh_rand :: nat
  nmasters :: nat
  masterservers :: "ShardMaster option list"
  sh_mck :: "sm_Clerk option"
  ngroups :: nat
  sh_n :: nat
  sh_groups :: "sk_group option list"
  sh_clerks :: "nat \<rightharpoonup> iname list"
  sh_nextClientId :: int
  sh_maxraftstate :: int

definition mastername :: "nat \<Rightarrow> string" where
  "mastername i = ''master'' @ Itoa (int i)"

definition servername :: "int \<Rightarrow> nat \<Rightarrow> string" where
  "servername gid i = ''server-'' @ Itoa gid @ ''-'' @ Itoa (int i)"

definition group_at :: "shard_config \<Rightarrow> nat \<Rightarrow> sk_group go" where
  "group_at cfg gi =
     go_bind (go_idx (sh_groups cfg) (int gi)) (\<lambda>g. case g of None \<Rightarrow> Inl NilDereference | Some gg \<Rightarrow> Inr gg)"

definition set_group :: "nat \<Rightarrow> sk_group \<Rightarrow> shard_config \<Rightarrow> shard_config" where
  "set_group gi gg cfg = cfg\<lparr>sh_groups := (sh_groups cfg)[gi := Some gg]\<rparr>"

section \<open>Ends\<close>

definition open_end :: "iname \<Rightarrow> string \<Rightarrow> Network \<Rightarrow> Network go" where
  "open_end e target nw =
     go_bind (MakeEnd e nw) (\<lambda>nw. Inr (Enable e True (Connect e (NameStr target) nw)))"

text \<open>The loops that open an enabled end to each of \<open>m\<close> servers.\<close>

definition open_ends ::
  "(nat \<Rightarrow> iname) \<Rightarrow> (nat \<Rightarrow> string) \<Rightarrow> nat \<Rightarrow> shard_config \<Rightarrow> (iname list \<times> shard_config) go" where
  "open_ends rnd target m cfg =
     (let names = map (\<lambda>j. rnd (sh_rand cfg + j)) [0..<m]
      in go_bind (go_iter (\<lambda>j. open_end (rnd (sh_rand cfg + j)) (target j)) [0..<m] (sh_net cfg)) (\<lambda>nw.
           Inr (names, cfg\<lparr>sh_net := nw, sh_rand := sh_rand cfg + m\<rparr>)))"

text \<open>The function the harness gives to clerks and servers to reach a server by its name.\<close>

definition sh_make_end :: "(nat \<Rightarrow> iname) \<Rightarrow> string \<Rightarrow> shard_config \<Rightarrow> (iname \<times> shard_config) go" where
  "sh_make_end rnd target cfg =
     (let e = rnd (sh_rand cfg)
      in go_bind (open_end e target (sh_net cfg)) (\<lambda>nw. Inr (e, cfg\<lparr>sh_net := nw, sh_rand := sh_rand cfg + 1\<rparr>)))"

section \<open>Clerks\<close>

text \<open>\<open>makeClient\<close> stores its names, one per master, in a slice with one place per server of a group.\<close>

definition sh_makeClient ::
  "(nat \<Rightarrow> iname) \<Rightarrow> nat \<Rightarrow> Config \<Rightarrow> int \<Rightarrow> shard_config \<Rightarrow> (sk_Clerk \<times> shard_config) go" where
  "sh_makeClient rnd ck answer r cfg =
     go_bind (go_iter (\<lambda>j (endnames, nw).
         let e = rnd (sh_rand cfg + j)
         in go_bind (go_upd endnames (int j) e) (\<lambda>endnames.
              go_bind (open_end e (mastername j) nw) (\<lambda>nw. Inr (endnames, nw))))
       [0..<nmasters cfg] (replicate (sh_n cfg) (NameStr ''''), sh_net cfg)) (\<lambda>(endnames, nw).
     Inr (sk_MakeClerk answer r,
          cfg\<lparr>sh_net := nw, sh_rand := sh_rand cfg + nmasters cfg,
              sh_clerks := (sh_clerks cfg)(ck \<mapsto> endnames), sh_nextClientId := sh_nextClientId cfg + 1\<rparr>))"

definition sh_deleteClient :: "nat \<Rightarrow> shard_config \<Rightarrow> shard_config" where
  "sh_deleteClient ck cfg = cfg\<lparr>sh_clerks := (sh_clerks cfg)(ck := None)\<rparr>"

definition shardclerk :: "(nat \<Rightarrow> iname) \<Rightarrow> int \<Rightarrow> shard_config \<Rightarrow> (sm_Clerk \<times> shard_config) go" where
  "shardclerk rnd r cfg =
     go_bind (open_ends rnd mastername (nmasters cfg) cfg) (\<lambda>(ends, cfg).
       Inr (sm_MakeClerk (length ends) r, cfg))"

section \<open>Servers\<close>

definition gg_saved_at :: "sk_group \<Rightarrow> nat \<Rightarrow> (sk_cmd, sk_gob list) Persister option" where
  "gg_saved_at gg i =
     (case gg_servers gg ! i of Some s \<Rightarrow> Some (persister (sk_rf s)) | None \<Rightarrow> gg_saved gg ! i)"

definition sh_ShutdownServer :: "nat \<Rightarrow> nat \<Rightarrow> shard_config \<Rightarrow> shard_config go" where
  "sh_ShutdownServer gi i cfg =
     go_bind (group_at cfg gi) (\<lambda>gg.
     go_bind (go_iter (\<lambda>j nw. go_bind (go_idx (gg_endnames gg) (int i)) (\<lambda>row.
         go_bind (go_idx row (int j)) (\<lambda>e. Inr (Enable e False nw)))) [0..<length (gg_servers gg)] (sh_net cfg)) (\<lambda>nw.
     go_bind (go_idx (gg_mendnames gg) (int i)) (\<lambda>row.
     let nw = foldl (\<lambda>nw e. Enable e False nw) nw row;
         nw = DeleteServer (NameStr (servername (gg_gid gg) i)) nw
     in go_bind (go_idx (gg_saved gg) (int i)) (\<lambda>_.
     go_bind (go_idx (gg_servers gg) (int i)) (\<lambda>_.
       let gg = gg\<lparr>gg_saved := (gg_saved gg)[i := map_option Persister_Copy (gg_saved_at gg i)]\<rparr>;
           gg = gg\<lparr>gg_servers := (gg_servers gg)[i := None]\<rparr>
       in Inr (set_group gi gg (cfg\<lparr>sh_net := nw\<rparr>)))))))"

definition ShutdownGroup :: "nat \<Rightarrow> shard_config \<Rightarrow> shard_config go" where
  "ShutdownGroup gi cfg = go_iter (sh_ShutdownServer gi) [0..<sh_n cfg] cfg"

definition sh_StartServer ::
  "(nat \<Rightarrow> iname) \<Rightarrow> nat \<Rightarrow> nat \<Rightarrow> nat \<Rightarrow> shard_config \<Rightarrow> shard_config go" where
  "sh_StartServer rnd srv gi i cfg =
     go_bind (group_at cfg gi) (\<lambda>gg.
     go_bind (go_idx (gg_endnames gg) (int i)) (\<lambda>_.
     go_bind (open_ends rnd (servername (gg_gid gg)) (sh_n cfg) cfg) (\<lambda>(names, cfg).
     let gg = gg\<lparr>gg_endnames := (gg_endnames gg)[i := names]\<rparr>
     in go_bind (go_idx (gg_mendnames gg) (int i)) (\<lambda>_.
     go_bind (open_ends rnd mastername (nmasters cfg) cfg) (\<lambda>(mnames, cfg).
     let gg = gg\<lparr>gg_mendnames := (gg_mendnames gg)[i := mnames]\<rparr>
     in go_bind (go_idx (gg_saved gg) (int i)) (\<lambda>_.
     let ps = (case gg_saved_at gg i of Some ps \<Rightarrow> Persister_Copy ps | None \<Rightarrow> MakePersister);
         gg = gg\<lparr>gg_saved := (gg_saved gg)[i := Some ps]\<rparr>
     in go_bind (sk_StartServer (sh_n cfg) i ps (sh_maxraftstate cfg) (gg_gid gg)) (\<lambda>s.
     go_bind (go_upd (gg_servers gg) (int i) (Some s)) (\<lambda>ss.
       Inr (set_group gi (gg\<lparr>gg_servers := ss\<rparr>)
         (cfg\<lparr>sh_net := AddServer (NameStr (servername (gg_gid gg) i)) srv (sh_net cfg)\<rparr>))))))))))"

definition StartGroup :: "(nat \<Rightarrow> iname) \<Rightarrow> (nat \<Rightarrow> nat) \<Rightarrow> nat \<Rightarrow> shard_config \<Rightarrow> shard_config go" where
  "StartGroup rnd srvs gi cfg = go_iter (\<lambda>i. sh_StartServer rnd (srvs i) gi i) [0..<sh_n cfg] cfg"

definition StartMasterServer :: "(nat \<Rightarrow> iname) \<Rightarrow> nat \<Rightarrow> nat \<Rightarrow> shard_config \<Rightarrow> shard_config go" where
  "StartMasterServer rnd srv i cfg =
     go_bind (open_ends rnd mastername (nmasters cfg) cfg) (\<lambda>(_, cfg).
     go_bind (StartServer (nmasters cfg) i MakePersister) (\<lambda>sm.
     go_bind (go_upd (masterservers cfg) (int i) (Some sm)) (\<lambda>ms.
       Inr (cfg\<lparr>masterservers := ms, sh_net := AddServer (NameStr (mastername i)) srv (sh_net cfg)\<rparr>))))"

section \<open>Groups join and leave\<close>

text \<open>The request that \<open>joinm\<close> hands to the shard master, with the clerk's random message id.\<close>

definition joinm :: "nat list \<Rightarrow> int \<Rightarrow> shard_config \<Rightarrow> JoinArgs go" where
  "joinm gis r cfg =
     go_bind (go_iter (\<lambda>g m. go_bind (group_at cfg g) (\<lambda>gg.
         Inr (AList.update (gg_gid gg) (map (servername (gg_gid gg)) [0..<sh_n cfg]) m))) gis []) (\<lambda>m.
     case sh_mck cfg of None \<Rightarrow> Inl NilDereference | Some ck \<Rightarrow> Inr (smc_Join_args ck m r))"

definition join_group :: "nat \<Rightarrow> int \<Rightarrow> shard_config \<Rightarrow> JoinArgs go" where
  "join_group gi r cfg = joinm [gi] r cfg"

definition leavem :: "nat list \<Rightarrow> int \<Rightarrow> shard_config \<Rightarrow> LeaveArgs go" where
  "leavem gis r cfg =
     go_bind (go_iter (\<lambda>g ids. go_bind (group_at cfg g) (\<lambda>gg. Inr (ids @ [gg_gid gg]))) gis []) (\<lambda>ids.
     case sh_mck cfg of None \<Rightarrow> Inl NilDereference | Some ck \<Rightarrow> Inr (smc_Leave_args ck ids r))"

definition leave_group :: "nat \<Rightarrow> int \<Rightarrow> shard_config \<Rightarrow> LeaveArgs go" where
  "leave_group gi r cfg = leavem [gi] r cfg"

section \<open>A whole test\<close>

text \<open>\<open>mendnames\<close> is indexed by server and made with one place per master.\<close>

definition new_group :: "nat \<Rightarrow> shard_config \<Rightarrow> sk_group" where
  "new_group gi cfg =
     \<lparr>gg_gid = 100 + int gi, gg_servers = replicate (sh_n cfg) None, gg_saved = replicate (sh_n cfg) None,
      gg_endnames = replicate (sh_n cfg) [], gg_mendnames = replicate (nmasters cfg) []\<rparr>"

definition sh_make_config ::
  "(nat \<Rightarrow> iname) \<Rightarrow> (nat \<Rightarrow> nat) \<Rightarrow> (nat \<Rightarrow> nat \<Rightarrow> nat) \<Rightarrow> int \<Rightarrow> nat \<Rightarrow> bool \<Rightarrow> int \<Rightarrow> shard_config go" where
  "sh_make_config rnd msrv srv r n unreliable mx =
     (let cfg = \<lparr>sh_net = MakeNetwork, sh_rand = 0, nmasters = 3, masterservers = replicate 3 None, sh_mck = None,
                 ngroups = 0, sh_n = 0, sh_groups = [], sh_clerks = Map.empty, sh_nextClientId = 0,
                 sh_maxraftstate = mx\<rparr>
      in go_bind (go_iter (\<lambda>i. StartMasterServer rnd (msrv i) i) [0..<nmasters cfg] cfg) (\<lambda>cfg.
         go_bind (shardclerk rnd r cfg) (\<lambda>(ck, cfg).
         let cfg = cfg\<lparr>sh_mck := Some ck, ngroups := 3, sh_groups := replicate 3 None, sh_n := n\<rparr>
         in go_bind (go_iter (\<lambda>gi cfg. StartGroup rnd (srv gi) gi (set_group gi (new_group gi cfg) cfg))
              [0..<ngroups cfg] cfg) (\<lambda>cfg.
            Inr (cfg\<lparr>sh_nextClientId := int (sh_n cfg) + 1000,
                     sh_net := Reliable (\<not> unreliable) (sh_net cfg)\<rparr>)))))"

definition sh_cleanup :: "bool \<Rightarrow> int \<Rightarrow> shard_config \<Rightarrow> shard_config test" where
  "sh_cleanup failed elapsed cfg =
     (case go_bind (go_iter ShutdownGroup [0..<ngroups cfg] cfg) (\<lambda>cfg.
             go_bind (Cleanup (sh_net cfg)) (\<lambda>nw. Inr (cfg\<lparr>sh_net := nw\<rparr>))) of
        Inl p \<Rightarrow> Inl (Panicked p)
      | Inr cfg \<Rightarrow> map_sum id (\<lambda>_. cfg) (checkTimeout failed elapsed))"

text \<open>One server's check of \<open>checklogs\<close>; the first failure ends the test.\<close>

definition checklog ::
  "(sk_cmd raft_gob list \<Rightarrow> int) \<Rightarrow> (sk_gob list option \<Rightarrow> int) \<Rightarrow> int \<Rightarrow> (sk_cmd, sk_gob list) Persister option \<Rightarrow>
   unit test" where
  "checklog bytes snapbytes mx sv =
     (case sv of None \<Rightarrow> Inl (Panicked NilDereference)
      | Some ps \<Rightarrow>
          let raft = RaftStateSize bytes ps; snap = snapbytes (ps_ReadSnapshot ps)
          in if mx \<ge> 0 \<and> raft > 8 * mx then Inl (LogTooBig raft mx)
             else if mx < 0 \<and> snap > 0 then Inl SnapshotNotEmpty
             else Inr ())"

fun checklogs_from ::
  "((sk_cmd, sk_gob list) Persister option \<Rightarrow> unit test) \<Rightarrow> shard_config \<Rightarrow> (nat \<times> nat) list \<Rightarrow> unit test" where
  "checklogs_from chk cfg [] = Inr ()"
| "checklogs_from chk cfg ((gi, i) # ps) =
     (case go_bind (group_at cfg gi) (\<lambda>gg. go_bind (go_idx (gg_saved gg) (int i)) (\<lambda>_. Inr (gg_saved_at gg i))) of
        Inl p \<Rightarrow> Inl (Panicked p)
      | Inr sv \<Rightarrow> (case chk sv of Inl e \<Rightarrow> Inl e | Inr _ \<Rightarrow> checklogs_from chk cfg ps))"

definition checklogs ::
  "(sk_cmd raft_gob list \<Rightarrow> int) \<Rightarrow> (sk_gob list option \<Rightarrow> int) \<Rightarrow> shard_config \<Rightarrow> unit test" where
  "checklogs bytes snapbytes cfg =
     checklogs_from (checklog bytes snapbytes (sh_maxraftstate cfg)) cfg
       (List.product [0..<ngroups cfg] [0..<sh_n cfg])"

section \<open>Names\<close>

lemma Itoa_nat: "Itoa (int i) = itoa i"
  by (simp add: Itoa_def)

lemma mastername_inj [simp]: "mastername i = mastername j \<longleftrightarrow> i = j"
  by (simp add: mastername_def Itoa_nat itoa_inj)

lemma append_dash_eq:
  "CHR ''-'' \<notin> set xs \<Longrightarrow> CHR ''-'' \<notin> set ys \<Longrightarrow> xs @ CHR ''-'' # us = ys @ CHR ''-'' # vs \<Longrightarrow> xs = ys \<and> us = vs"
proof (induction xs arbitrary: ys)
  case Nil
  then show ?case by (cases ys) auto
next
  case (Cons x xs)
  then show ?case by (cases ys) auto
qed

lemma servername_inj: "0 \<le> g \<Longrightarrow> 0 \<le> h \<Longrightarrow> servername g i = servername h j \<longleftrightarrow> g = h \<and> i = j"
  by (auto simp: servername_def Itoa_nat Itoa_def itoa_inj nat_eq_iff dest!: append_dash_eq [OF itoa_no_dash itoa_no_dash])

lemma servername_master [simp]: "servername g i \<noteq> mastername j" "mastername j \<noteq> servername g i"
  by (simp_all add: servername_def mastername_def)

section \<open>Wiring\<close>

text \<open>An end that is made, enabled and connected to a server name.\<close>

definition reaches :: "Network \<Rightarrow> iname \<Rightarrow> string \<Rightarrow> bool" where
  "reaches nw e target \<longleftrightarrow> e \<in> ends nw \<and> is_enabled nw e \<and> connection_of nw e = Some (NameStr target)"

text \<open>A network with more ends and servers.\<close>

definition extends_net :: "Network \<Rightarrow> Network \<Rightarrow> bool" where
  "extends_net nw nw' \<longleftrightarrow> (\<forall>e t. reaches nw e t \<longrightarrow> reaches nw' e t) \<and>
     (\<forall>sn s. server_at nw sn = Some s \<longrightarrow> server_at nw' sn = Some s)"

lemma extends_net_refl [simp]: "extends_net nw nw"
  by (simp add: extends_net_def)

lemma extends_net_trans: "extends_net a b \<Longrightarrow> extends_net b c \<Longrightarrow> extends_net a c"
  by (simp add: extends_net_def)

lemma open_end_ok:
  assumes "e \<notin> ends nw"
  shows "\<exists>nw'. open_end e t nw = Inr nw' \<and> ends nw' = insert e (ends nw) \<and> servers nw' = servers nw \<and>
    reaches nw' e t \<and> extends_net nw nw'"
  using assms
  by (auto simp: open_end_def MakeEnd_def Enable_def Connect_def reaches_def extends_net_def is_enabled_def
      connection_of_def server_at_def)

text \<open>The ends of the network are the names drawn so far.\<close>

definition drawn :: "(nat \<Rightarrow> iname) \<Rightarrow> shard_config \<Rightarrow> bool" where
  "drawn rnd cfg \<longleftrightarrow> ends (sh_net cfg) = rnd ` {..<sh_rand cfg}"

lemma open_ends_ok:
  assumes "inj rnd" and "drawn rnd cfg"
  shows "\<exists>nw. open_ends rnd t m cfg =
      Inr (map (\<lambda>j. rnd (sh_rand cfg + j)) [0..<m], cfg\<lparr>sh_net := nw, sh_rand := sh_rand cfg + m\<rparr>) \<and>
    ends nw = rnd ` {..<sh_rand cfg + m} \<and> servers nw = servers (sh_net cfg) \<and>
    (\<forall>j < m. reaches nw (rnd (sh_rand cfg + j)) (t j)) \<and> extends_net (sh_net cfg) nw"
proof -
  let ?k = "sh_rand cfg" and ?f = "\<lambda>j. open_end (rnd (sh_rand cfg + j)) (t j)"
  have "\<exists>nw. go_iter ?f [0..<m] (sh_net cfg) = Inr nw \<and> ends nw = rnd ` {..<?k + m} \<and> servers nw = servers (sh_net cfg) \<and>
    (\<forall>j < m. reaches nw (rnd (?k + j)) (t j)) \<and> extends_net (sh_net cfg) nw"
  proof (induction m)
    case 0
    show ?case using assms(2) by (simp add: go_iter_def drawn_def)
  next
    case (Suc m)
    then obtain nw where nw: "go_iter ?f [0..<m] (sh_net cfg) = Inr nw" "ends nw = rnd ` {..<?k + m}"
        "servers nw = servers (sh_net cfg)" "\<forall>j < m. reaches nw (rnd (?k + j)) (t j)" "extends_net (sh_net cfg) nw"
      by blast
    have "rnd (?k + m) \<notin> ends nw" using assms(1) nw(2) by (auto dest: injD)
    from open_end_ok [OF this, of "t m"] obtain nw' where nw': "?f m nw = Inr nw'"
        "ends nw' = insert (rnd (?k + m)) (ends nw)" "servers nw' = servers nw" "reaches nw' (rnd (?k + m)) (t m)"
        "extends_net nw nw'" by blast
    have "\<forall>j < Suc m. reaches nw' (rnd (?k + j)) (t j)"
      using nw(4) nw'(4,5) by (auto simp: less_Suc_eq extends_net_def)
    then show ?case
      using nw nw' extends_net_trans [OF nw(5) nw'(5)] by (simp add: go_iter_snoc lessThan_Suc)
  qed
  then show ?thesis by (auto simp: open_ends_def)
qed

section \<open>Starting servers\<close>

text \<open>A running server whose ends reach the servers of its group and the masters.\<close>

definition server_wired :: "Network \<Rightarrow> nat \<Rightarrow> nat \<Rightarrow> sk_group \<Rightarrow> nat \<Rightarrow> bool" where
  "server_wired nw n m gg i \<longleftrightarrow> gg_servers gg ! i \<noteq> None \<and>
     (\<forall>j < n. reaches nw (gg_endnames gg ! i ! j) (servername (gg_gid gg) j)) \<and>
     (\<forall>j < m. reaches nw (gg_mendnames gg ! i ! j) (mastername j))"

lemma server_wired_mono: "server_wired nw n m gg i \<Longrightarrow> extends_net nw nw' \<Longrightarrow> server_wired nw' n m gg i"
  by (simp add: server_wired_def extends_net_def)

text \<open>Slices as long as \<open>make_config\<close> makes them.\<close>

definition group_shape :: "nat \<Rightarrow> nat \<Rightarrow> sk_group \<Rightarrow> bool" where
  "group_shape n m gg \<longleftrightarrow> length (gg_servers gg) = n \<and> length (gg_saved gg) = n \<and>
     length (gg_endnames gg) = n \<and> length (gg_mendnames gg) = m"

definition start_in_group ::
  "(nat \<Rightarrow> iname) \<Rightarrow> nat \<Rightarrow> nat \<Rightarrow> nat \<Rightarrow> nat \<Rightarrow> ShardKV \<Rightarrow> sk_group \<Rightarrow> sk_group" where
  "start_in_group rnd k n m i s gg =
     gg\<lparr>gg_endnames := (gg_endnames gg)[i := map (\<lambda>j. rnd (k + j)) [0..<n]],
        gg_mendnames := (gg_mendnames gg)[i := map (\<lambda>j. rnd (k + n + j)) [0..<m]],
        gg_saved := (gg_saved gg)[i := Some MakePersister],
        gg_servers := (gg_servers gg)[i := Some s]\<rparr>"

lemma AddServer_extends: "server_at nw sn = None \<Longrightarrow> extends_net nw (AddServer sn s nw)"
  by (auto simp: AddServer_def extends_net_def reaches_def server_at_def is_enabled_def connection_of_def
      split: if_splits option.splits)

lemma sk_StartServer_fresh: "\<exists>s. sk_StartServer n i MakePersister mx gid = Inr s"
  by (simp add: sk_StartServer_def Make_def MakePersister_def ReadRaftState_def ps_ReadSnapshot_def)

lemma sh_StartServer_ok:
  assumes "inj rnd" and "drawn rnd cfg"
    and gg: "gi < length (sh_groups cfg)" "sh_groups cfg ! gi = Some gg" "group_shape (sh_n cfg) (nmasters cfg) gg"
    and i: "i < sh_n cfg" "i < nmasters cfg" "gg_servers gg ! i = None" "gg_saved gg ! i = None"
    and free: "server_at (sh_net cfg) (NameStr (servername (gg_gid gg) i)) = None"
  shows "\<exists>nw s. let gg' = start_in_group rnd (sh_rand cfg) (sh_n cfg) (nmasters cfg) i s gg;
      cfg' = set_group gi gg' (cfg\<lparr>sh_rand := sh_rand cfg + sh_n cfg + nmasters cfg, sh_net := nw\<rparr>)
    in sh_StartServer rnd srv gi i cfg = Inr cfg' \<and> drawn rnd cfg' \<and> extends_net (sh_net cfg) nw \<and>
       server_wired nw (sh_n cfg) (nmasters cfg) gg' i \<and>
       server_at nw = (server_at (sh_net cfg))(NameStr (servername (gg_gid gg) i) \<mapsto> srv)"
proof -
  let ?n = "sh_n cfg" and ?m = "nmasters cfg" and ?k = "sh_rand cfg" and ?sn = "NameStr (servername (gg_gid gg) i)"
  obtain nw where nw: "open_ends rnd (servername (gg_gid gg)) ?n cfg =
        Inr (map (\<lambda>j. rnd (?k + j)) [0..<?n], cfg\<lparr>sh_net := nw, sh_rand := ?k + ?n\<rparr>)"
      "ends nw = rnd ` {..<?k + ?n}" "servers nw = servers (sh_net cfg)"
      "\<forall>j < ?n. reaches nw (rnd (?k + j)) (servername (gg_gid gg) j)" "extends_net (sh_net cfg) nw"
    using open_ends_ok [OF assms(1,2)] by blast
  let ?c = "cfg\<lparr>sh_net := nw, sh_rand := ?k + ?n\<rparr>"
  have "drawn rnd ?c" using nw(2) by (simp add: drawn_def)
  from open_ends_ok [OF assms(1) this, of mastername ?m] obtain nw' where
      nw': "open_ends rnd mastername ?m ?c =
        Inr (map (\<lambda>j. rnd (?k + ?n + j)) [0..<?m], cfg\<lparr>sh_net := nw', sh_rand := ?k + ?n + ?m\<rparr>)"
      "ends nw' = rnd ` {..<?k + ?n + ?m}" "servers nw' = servers nw"
      "\<forall>j < ?m. reaches nw' (rnd (?k + ?n + j)) (mastername j)" "extends_net nw nw'" by auto
  obtain s where s: "sk_StartServer ?n i MakePersister (sh_maxraftstate cfg) (gg_gid gg) = Inr s"
    using sk_StartServer_fresh by blast
  let ?gg = "start_in_group rnd ?k ?n ?m i s gg" and ?nw = "AddServer ?sn srv nw'"
  let ?cfg = "set_group gi ?gg (cfg\<lparr>sh_rand := ?k + ?n + ?m, sh_net := ?nw\<rparr>)"
  have same: "server_at nw' = server_at (sh_net cfg)" using nw(3) nw'(3) by (simp add: server_at_def fun_eq_iff)
  then have ext: "extends_net nw' ?nw" using free by (intro AddServer_extends) simp
  have run: "sh_StartServer rnd srv gi i cfg = Inr ?cfg"
    using gg i nw(1) nw'(1) s
    by (simp add: sh_StartServer_def group_at_def go_idx_Inr go_upd_Inr group_shape_def Let_def gg_saved_at_def
        start_in_group_def)
  have "server_wired ?nw ?n ?m ?gg i"
    using gg(3) i nw(4) nw'(4,5) ext
    by (simp add: server_wired_def start_in_group_def group_shape_def extends_net_def)
  moreover have "extends_net (sh_net cfg) ?nw" by (rule extends_net_trans [OF nw(5) extends_net_trans [OF nw'(5) ext]])
  moreover have "server_at ?nw = (server_at (sh_net cfg))(?sn \<mapsto> srv)"
    using same by (auto simp: AddServer_def server_at_def fun_eq_iff)
  moreover have "drawn rnd ?cfg" using nw'(2) by (simp add: drawn_def set_group_def AddServer_def)
  ultimately show ?thesis using run unfolding Let_def by blast
qed

text \<open>The first \<open>k\<close> servers of a group run.\<close>

definition group_started :: "Network \<Rightarrow> nat \<Rightarrow> nat \<Rightarrow> int \<Rightarrow> (nat \<Rightarrow> nat) \<Rightarrow> nat \<Rightarrow> sk_group \<Rightarrow> bool" where
  "group_started nw n m gid srvs k gg \<longleftrightarrow> gg_gid gg = gid \<and> group_shape n m gg \<and>
     (\<forall>i < k. server_wired nw n m gg i \<and> server_at nw (NameStr (servername gid i)) = Some (srvs i)) \<and>
     (\<forall>i < n. k \<le> i \<longrightarrow> gg_servers gg ! i = None \<and> gg_saved gg ! i = None)"

lemma group_started_mono:
  "group_started nw n m gid srvs k gg \<Longrightarrow> extends_net nw nw' \<Longrightarrow> group_started nw' n m gid srvs k gg"
  by (auto simp: group_started_def server_wired_mono) (simp add: extends_net_def)

lemma group_started_Suc:
  assumes "group_started nw n m gid srvs k gg" and "extends_net nw nw'" and "k < n" and "k < m"
    and "server_wired nw' n m (start_in_group rnd r n m k s gg) k"
    and "server_at nw' (NameStr (servername gid k)) = Some (srvs k)"
  shows "group_started nw' n m gid srvs (Suc k) (start_in_group rnd r n m k s gg)"
proof -
  have "server_wired nw' n m (start_in_group rnd r n m k s gg) i = server_wired nw' n m gg i" if "i \<noteq> k" for i
    using that by (simp add: server_wired_def start_in_group_def)
  then show ?thesis
    using group_started_mono [OF assms(1,2)] assms(3-)
    by (auto simp: group_started_def less_Suc_eq) (simp_all add: start_in_group_def group_shape_def)
qed

lemma StartGroup_upto:
  assumes "inj rnd" and "drawn rnd cfg" and gi: "gi < length (sh_groups cfg)" "sh_groups cfg ! gi = Some gg"
    and gg: "group_started (sh_net cfg) (sh_n cfg) (nmasters cfg) gid srvs 0 gg" and "0 \<le> gid"
    and free: "\<forall>i. server_at (sh_net cfg) (NameStr (servername gid i)) = None"
    and "k \<le> sh_n cfg" and "k \<le> nmasters cfg"
  shows "\<exists>nw r gg. go_iter (\<lambda>i. sh_StartServer rnd (srvs i) gi i) [0..<k] cfg =
      Inr (set_group gi gg (cfg\<lparr>sh_rand := r, sh_net := nw\<rparr>)) \<and> ends nw = rnd ` {..<r} \<and>
    extends_net (sh_net cfg) nw \<and> group_started nw (sh_n cfg) (nmasters cfg) gid srvs k gg \<and>
    (\<forall>sn. (\<forall>i < k. sn \<noteq> NameStr (servername gid i)) \<longrightarrow> server_at nw sn = server_at (sh_net cfg) sn)"
  using assms(8,9)
proof (induction k)
  case 0
  have "set_group gi gg cfg = cfg" unfolding set_group_def gi(2) [symmetric] by simp
  then show ?case
    using assms(2) gg by (intro exI [of _ "sh_net cfg"] exI [of _ "sh_rand cfg"] exI [of _ gg]) (simp add: go_iter_def drawn_def)
next
  case (Suc k)
  let ?n = "sh_n cfg" and ?m = "nmasters cfg"
  obtain nw r hh where IH: "go_iter (\<lambda>i. sh_StartServer rnd (srvs i) gi i) [0..<k] cfg =
        Inr (set_group gi hh (cfg\<lparr>sh_rand := r, sh_net := nw\<rparr>))" "ends nw = rnd ` {..<r}"
      "extends_net (sh_net cfg) nw" "group_started nw ?n ?m gid srvs k hh"
      "\<forall>sn. (\<forall>i < k. sn \<noteq> NameStr (servername gid i)) \<longrightarrow> server_at nw sn = server_at (sh_net cfg) sn"
    using Suc by auto
  let ?c = "set_group gi hh (cfg\<lparr>sh_rand := r, sh_net := nw\<rparr>)" and ?sn = "NameStr (servername gid k)"
  have k: "k < ?n" "k < ?m" using Suc.prems by simp_all
  have hh: "gg_gid hh = gid" "group_shape ?n ?m hh" "gg_servers hh ! k = None" "gg_saved hh ! k = None"
    using IH(4) k(1) by (simp_all add: group_started_def)
  have "server_at nw ?sn = server_at (sh_net cfg) ?sn"
    by (rule IH(5) [rule_format]) (simp add: servername_inj assms(6))
  then have fr: "server_at nw ?sn = None" using free by simp
  have c: "sh_n ?c = ?n" "nmasters ?c = ?m" "sh_rand ?c = r" "sh_net ?c = nw" "drawn rnd ?c" "gi < length (sh_groups ?c)"
      "sh_groups ?c ! gi = Some hh"
    using IH(2) gi by (simp_all add: set_group_def drawn_def)
  from sh_StartServer_ok [OF assms(1) c(5-7), unfolded c hh(1), OF hh(2) k hh(3,4) fr, of "srvs k"] obtain nw' s where
    s: "sh_StartServer rnd (srvs k) gi k ?c =
        Inr (set_group gi (start_in_group rnd r ?n ?m k s hh) (?c\<lparr>sh_rand := r + ?n + ?m, sh_net := nw'\<rparr>))"
      "ends nw' = rnd ` {..<r + ?n + ?m}" "extends_net nw nw'" "server_wired nw' ?n ?m (start_in_group rnd r ?n ?m k s hh) k"
      "server_at nw' = (server_at nw)(?sn \<mapsto> srvs k)"
    by (auto simp: Let_def drawn_def set_group_def)
  have "group_started nw' ?n ?m gid srvs (Suc k) (start_in_group rnd r ?n ?m k s hh)"
    using group_started_Suc [OF IH(4) s(3) k s(4)] s(5) by simp
  moreover have "set_group gi g (?c\<lparr>sh_rand := q, sh_net := v\<rparr>) = set_group gi g (cfg\<lparr>sh_rand := q, sh_net := v\<rparr>)" for g q v
    by (simp add: set_group_def)
  moreover have "\<forall>sn. (\<forall>i < Suc k. sn \<noteq> NameStr (servername gid i)) \<longrightarrow> server_at nw' sn = server_at (sh_net cfg) sn"
    using IH(5) s(5) by simp
  ultimately show ?case
    using IH(1) s(1,2) extends_net_trans [OF IH(3) s(3)] by (auto simp: go_iter_snoc)
qed

lemma StartMasterServer_upto:
  assumes "inj rnd" and "drawn rnd cfg" and "length (masterservers cfg) = nmasters cfg"
    and free: "\<forall>sn. server_at (sh_net cfg) sn = None" and "k \<le> nmasters cfg"
  shows "\<exists>nw r ms. go_iter (\<lambda>i. StartMasterServer rnd (msrv i) i) [0..<k] cfg =
      Inr (cfg\<lparr>sh_rand := r, masterservers := ms, sh_net := nw\<rparr>) \<and> ends nw = rnd ` {..<r} \<and> length ms = nmasters cfg \<and>
    (\<forall>j < k. ms ! j \<noteq> None \<and> server_at nw (NameStr (mastername j)) = Some (msrv j)) \<and>
    (\<forall>sn. (\<forall>j < k. sn \<noteq> NameStr (mastername j)) \<longrightarrow> server_at nw sn = None)"
  using assms(5)
proof (induction k)
  case 0
  show ?case
    by (rule exI [of _ "sh_net cfg"], rule exI [of _ "sh_rand cfg"], rule exI [of _ "masterservers cfg"])
      (use assms(2-4) in \<open>simp add: go_iter_def drawn_def\<close>)
next
  case (Suc k)
  let ?m = "nmasters cfg"
  obtain nw r ms where IH: "go_iter (\<lambda>i. StartMasterServer rnd (msrv i) i) [0..<k] cfg =
        Inr (cfg\<lparr>sh_rand := r, masterservers := ms, sh_net := nw\<rparr>)" "ends nw = rnd ` {..<r}" "length ms = ?m"
      "\<forall>j < k. ms ! j \<noteq> None \<and> server_at nw (NameStr (mastername j)) = Some (msrv j)"
      "\<forall>sn. (\<forall>j < k. sn \<noteq> NameStr (mastername j)) \<longrightarrow> server_at nw sn = None"
    using Suc by auto
  let ?c = "cfg\<lparr>sh_rand := r, masterservers := ms, sh_net := nw\<rparr>" and ?sn = "NameStr (mastername k)"
  have "drawn rnd ?c" using IH(2) by (simp add: drawn_def)
  from open_ends_ok [OF assms(1) this, of mastername ?m] obtain nw' where nw': "open_ends rnd mastername ?m ?c =
        Inr (map (\<lambda>j. rnd (r + j)) [0..<?m], ?c\<lparr>sh_net := nw', sh_rand := r + ?m\<rparr>)"
      "ends nw' = rnd ` {..<r + ?m}" "servers nw' = servers nw" by auto
  obtain sm where sm: "StartServer ?m k MakePersister = Inr sm"
    by (simp add: StartServer_def Make_def MakePersister_def ReadRaftState_def)
  let ?nw = "AddServer ?sn (msrv k) nw'"
  have at: "server_at ?nw = (server_at nw)(?sn \<mapsto> msrv k)"
    using nw'(3) by (auto simp: AddServer_def server_at_def fun_eq_iff)
  have "StartMasterServer rnd (msrv k) k ?c = Inr (cfg\<lparr>sh_rand := r + ?m, masterservers := ms[k := Some sm], sh_net := ?nw\<rparr>)"
    using nw'(1) sm IH(3) Suc.prems by (simp add: StartMasterServer_def go_upd_Inr)
  then have "go_iter (\<lambda>i. StartMasterServer rnd (msrv i) i) [0..<Suc k] cfg =
      Inr (cfg\<lparr>sh_rand := r + ?m, masterservers := ms[k := Some sm], sh_net := ?nw\<rparr>)"
    using IH(1) by (simp add: go_iter_snoc)
  moreover have "ends ?nw = rnd ` {..<r + ?m}" using nw'(2) by (simp add: AddServer_def)
  moreover have "\<forall>j < Suc k. ms[k := Some sm] ! j \<noteq> None \<and> server_at ?nw (NameStr (mastername j)) = Some (msrv j)"
    using IH(3,4) Suc.prems unfolding at by (auto simp: less_Suc_eq)
  moreover have "\<forall>sn. (\<forall>j < Suc k. sn \<noteq> NameStr (mastername j)) \<longrightarrow> server_at ?nw sn = None"
    using IH(5) unfolding at by simp
  moreover have "length (ms[k := Some sm]) = ?m" using IH(3) by simp
  ultimately show ?case by blast
qed

lemma StartGroups_upto:
  assumes "inj rnd" and "drawn rnd cfg" and "sh_n cfg \<le> nmasters cfg"
    and free: "\<forall>g i. server_at (sh_net cfg) (NameStr (servername (100 + int g) i)) = None"
    and "k \<le> length (sh_groups cfg)"
  shows "\<exists>nw r gs. go_iter (\<lambda>gi cfg. StartGroup rnd (srv gi) gi (set_group gi (new_group gi cfg) cfg)) [0..<k] cfg =
      Inr (cfg\<lparr>sh_groups := gs, sh_rand := r, sh_net := nw\<rparr>) \<and> ends nw = rnd ` {..<r} \<and>
    length gs = length (sh_groups cfg) \<and> extends_net (sh_net cfg) nw \<and>
    (\<forall>gi < k. \<exists>gg. gs ! gi = Some gg \<and>
       group_started nw (sh_n cfg) (nmasters cfg) (100 + int gi) (srv gi) (sh_n cfg) gg) \<and>
    (\<forall>g i. k \<le> g \<longrightarrow> server_at nw (NameStr (servername (100 + int g) i)) = None)"
  using assms(5)
proof (induction k)
  case 0
  show ?case
    by (rule exI [of _ "sh_net cfg"], rule exI [of _ "sh_rand cfg"], rule exI [of _ "sh_groups cfg"])
      (use assms(2,4) in \<open>simp add: go_iter_def drawn_def\<close>)
next
  case (Suc k)
  let ?n = "sh_n cfg" and ?m = "nmasters cfg"
  obtain nw r gs where IH: "go_iter (\<lambda>gi cfg. StartGroup rnd (srv gi) gi (set_group gi (new_group gi cfg) cfg)) [0..<k] cfg =
        Inr (cfg\<lparr>sh_groups := gs, sh_rand := r, sh_net := nw\<rparr>)" "ends nw = rnd ` {..<r}"
      "length gs = length (sh_groups cfg)" "extends_net (sh_net cfg) nw"
      "\<forall>gi < k. \<exists>gg. gs ! gi = Some gg \<and> group_started nw ?n ?m (100 + int gi) (srv gi) ?n gg"
      "\<forall>g i. k \<le> g \<longrightarrow> server_at nw (NameStr (servername (100 + int g) i)) = None"
    using Suc by auto
  let ?c = "cfg\<lparr>sh_groups := gs, sh_rand := r, sh_net := nw\<rparr>" and ?gid = "100 + int k"
  let ?gg = "new_group k ?c" and ?d = "set_group k (new_group k ?c) ?c"
  have d: "sh_n ?d = ?n" "nmasters ?d = ?m" "sh_net ?d = nw" "drawn rnd ?d" "k < length (sh_groups ?d)"
      "sh_groups ?d ! k = Some ?gg"
    using IH(2,3) Suc.prems by (simp_all add: set_group_def drawn_def)
  have gg: "group_started nw ?n ?m ?gid (srv k) 0 ?gg"
    by (simp add: group_started_def new_group_def group_shape_def)
  have fr: "\<forall>i. server_at nw (NameStr (servername ?gid i)) = None" using IH(6) by simp
  from StartGroup_upto [OF assms(1) d(4-6), unfolded d(1-3), OF gg _ fr order_refl assms(3)]
  obtain nw' r' hh where s: "StartGroup rnd (srv k) k ?d = Inr (set_group k hh (?d\<lparr>sh_rand := r', sh_net := nw'\<rparr>))"
      "ends nw' = rnd ` {..<r'}" "extends_net nw nw'" "group_started nw' ?n ?m ?gid (srv k) ?n hh"
      "\<forall>sn. (\<forall>i < ?n. sn \<noteq> NameStr (servername ?gid i)) \<longrightarrow> server_at nw' sn = server_at nw sn"
    unfolding StartGroup_def d(1) by auto
  have run: "go_iter (\<lambda>gi cfg. StartGroup rnd (srv gi) gi (set_group gi (new_group gi cfg) cfg)) [0..<Suc k] cfg =
      Inr (cfg\<lparr>sh_groups := gs[k := Some hh], sh_rand := r', sh_net := nw'\<rparr>)"
    using IH(1) s(1) by (simp add: go_iter_snoc) (simp add: set_group_def)
  have all: "\<forall>gi < Suc k. \<exists>gg. gs[k := Some hh] ! gi = Some gg \<and> group_started nw' ?n ?m (100 + int gi) (srv gi) ?n gg"
  proof (intro allI impI)
    fix gi
    assume "gi < Suc k"
    then consider "gi = k" | "gi < k" by linarith
    then show "\<exists>gg. gs[k := Some hh] ! gi = Some gg \<and> group_started nw' ?n ?m (100 + int gi) (srv gi) ?n gg"
    proof cases
      case 1
      then show ?thesis using s(4) IH(3) Suc.prems by simp
    next
      case 2
      then show ?thesis using IH(5) group_started_mono [OF _ s(3)] by fastforce
    qed
  qed
  have "server_at nw' (NameStr (servername (100 + int g) i)) = None" if "Suc k \<le> g" for g i
  proof -
    have "server_at nw' (NameStr (servername (100 + int g) i)) = server_at nw (NameStr (servername (100 + int g) i))"
      by (rule s(5) [rule_format]) (use that in \<open>simp add: servername_inj\<close>)
    then show ?thesis using IH(6) that by simp
  qed
  moreover have "length (gs[k := Some hh]) = length (sh_groups cfg)" using IH(3) by simp
  ultimately show ?case using run all s(2) extends_net_trans [OF IH(4) s(3)] by blast
qed

section \<open>A ready configuration\<close>

definition shard_ready ::
  "(nat \<Rightarrow> iname) \<Rightarrow> nat \<Rightarrow> (nat \<Rightarrow> nat) \<Rightarrow> (nat \<Rightarrow> nat \<Rightarrow> nat) \<Rightarrow> shard_config \<Rightarrow> bool" where
  "shard_ready rnd n msrv srv cfg \<longleftrightarrow> drawn rnd cfg \<and>
     (nmasters cfg = 3 \<and> ngroups cfg = 3 \<and> sh_n cfg = n \<and> length (sh_groups cfg) = 3 \<and> sh_mck cfg \<noteq> None) \<and>
     (\<forall>j < 3. masterservers cfg ! j \<noteq> None \<and> server_at (sh_net cfg) (NameStr (mastername j)) = Some (msrv j)) \<and>
     (\<forall>gi < 3. \<exists>gg. sh_groups cfg ! gi = Some gg \<and>
        group_started (sh_net cfg) n 3 (100 + int gi) (srv gi) n gg)"

text \<open>The configuration before the groups are started.\<close>

lemma masters_and_clerk:
  assumes "inj rnd" and "drawn rnd cfg" and "length (masterservers cfg) = nmasters cfg"
    and "\<forall>sn. server_at (sh_net cfg) sn = None"
  shows "\<exists>nw k ms. go_bind (go_iter (\<lambda>i. StartMasterServer rnd (msrv i) i) [0..<nmasters cfg] cfg) (shardclerk rnd r) =
      Inr (sm_MakeClerk (nmasters cfg) r, cfg\<lparr>masterservers := ms, sh_net := nw, sh_rand := k\<rparr>) \<and> ends nw = rnd ` {..<k} \<and>
    length ms = nmasters cfg \<and>
    (\<forall>j < nmasters cfg. ms ! j \<noteq> None \<and> server_at nw (NameStr (mastername j)) = Some (msrv j)) \<and>
    (\<forall>g i. server_at nw (NameStr (servername g i)) = None)"
proof -
  let ?m = "nmasters cfg"
  obtain nw k ms where ms: "go_iter (\<lambda>i. StartMasterServer rnd (msrv i) i) [0..<?m] cfg =
        Inr (cfg\<lparr>sh_rand := k, masterservers := ms, sh_net := nw\<rparr>)" "ends nw = rnd ` {..<k}" "length ms = ?m"
      "\<forall>j < ?m. ms ! j \<noteq> None \<and> server_at nw (NameStr (mastername j)) = Some (msrv j)"
      "\<forall>sn. (\<forall>j < ?m. sn \<noteq> NameStr (mastername j)) \<longrightarrow> server_at nw sn = None"
    using StartMasterServer_upto [OF assms order_refl] by blast
  let ?c = "cfg\<lparr>sh_rand := k, masterservers := ms, sh_net := nw\<rparr>"
  have "drawn rnd ?c" using ms(2) by (simp add: drawn_def)
  from open_ends_ok [OF assms(1) this, of mastername ?m] obtain nw' where nw': "open_ends rnd mastername ?m ?c =
        Inr (map (\<lambda>j. rnd (k + j)) [0..<?m], ?c\<lparr>sh_net := nw', sh_rand := k + ?m\<rparr>)"
      "ends nw' = rnd ` {..<k + ?m}" "servers nw' = servers nw" by auto
  have "server_at nw' = server_at nw" using nw'(3) by (simp add: server_at_def fun_eq_iff)
  moreover have "shardclerk rnd r ?c = Inr (sm_MakeClerk ?m r, cfg\<lparr>masterservers := ms, sh_net := nw', sh_rand := k + ?m\<rparr>)"
    using nw'(1) by (simp add: shardclerk_def)
  ultimately show ?thesis using ms nw'(2)
    by (intro exI [of _ nw'] exI [of _ "k + ?m"] exI [of _ ms]) simp
qed

text \<open>What \<open>make_config\<close> has made when it comes to the groups.\<close>

definition before_groups ::
  "(nat \<Rightarrow> iname) \<Rightarrow> (nat \<Rightarrow> nat) \<Rightarrow> nat \<Rightarrow> shard_config \<Rightarrow> bool" where
  "before_groups rnd msrv n cfg \<longleftrightarrow> drawn rnd cfg \<and>
     (nmasters cfg = 3 \<and> ngroups cfg = 3 \<and> sh_n cfg = n \<and> sh_groups cfg = replicate 3 None \<and> sh_mck cfg \<noteq> None) \<and>
     (\<forall>j < 3. masterservers cfg ! j \<noteq> None \<and> server_at (sh_net cfg) (NameStr (mastername j)) = Some (msrv j)) \<and>
     (\<forall>g i. server_at (sh_net cfg) (NameStr (servername g i)) = None)"

lemma sh_make_config_groups:
  assumes "inj rnd"
  shows "\<exists>cfg. before_groups rnd msrv n cfg \<and>
    sh_make_config rnd msrv srv r n unreliable mx =
      go_bind (go_iter (\<lambda>gi cfg. StartGroup rnd (srv gi) gi (set_group gi (new_group gi cfg) cfg)) [0..<3] cfg) (\<lambda>cfg.
        Inr (cfg\<lparr>sh_nextClientId := int (sh_n cfg) + 1000, sh_net := Reliable (\<not> unreliable) (sh_net cfg)\<rparr>))"
proof -
  let ?c = "\<lparr>sh_net = MakeNetwork, sh_rand = 0, nmasters = 3, masterservers = replicate 3 None, sh_mck = None,
     ngroups = 0, sh_n = 0, sh_groups = [], sh_clerks = Map.empty, sh_nextClientId = 0, sh_maxraftstate = mx\<rparr>"
  have c: "drawn rnd ?c" "length (masterservers ?c) = nmasters ?c" "\<forall>sn. server_at (sh_net ?c) sn = None"
    by (simp_all add: drawn_def MakeNetwork_def server_at_def)
  obtain nw k ms where m: "go_bind (go_iter (\<lambda>i. StartMasterServer rnd (msrv i) i) [0..<nmasters ?c] ?c) (shardclerk rnd r) =
        Inr (sm_MakeClerk (nmasters ?c) r, ?c\<lparr>masterservers := ms, sh_net := nw, sh_rand := k\<rparr>)" "ends nw = rnd ` {..<k}"
      "\<forall>j < nmasters ?c. ms ! j \<noteq> None \<and> server_at nw (NameStr (mastername j)) = Some (msrv j)"
      "\<forall>g i. server_at nw (NameStr (servername g i)) = None"
    using masters_and_clerk [OF assms c] by metis
  let ?d = "?c\<lparr>masterservers := ms, sh_net := nw, sh_rand := k, sh_mck := Some (sm_MakeClerk 3 r), ngroups := 3,
     sh_groups := replicate 3 None, sh_n := n\<rparr>"
  obtain c1 where c1: "go_iter (\<lambda>i. StartMasterServer rnd (msrv i) i) [0..<nmasters ?c] ?c = Inr c1"
      "shardclerk rnd r c1 = Inr (sm_MakeClerk (nmasters ?c) r, ?c\<lparr>masterservers := ms, sh_net := nw, sh_rand := k\<rparr>)"
    using m(1) by (auto simp: go_bind_Inr_iff)
  have "before_groups rnd msrv n ?d" using m(2-4) by (simp add: before_groups_def drawn_def)
  then show ?thesis
    using c1 by (intro exI [of _ ?d]) (simp add: sh_make_config_def Let_def)
qed

text \<open>
  With at most three servers to a group \<open>make_config\<close> sets up the whole service: the masters and
  every server of every group run, and every server reaches the servers of its group and the masters.
\<close>

theorem sh_make_config_ready:
  assumes "inj rnd" and "n \<le> 3"
  shows "\<exists>cfg. sh_make_config rnd msrv srv r n unreliable mx = Inr cfg \<and> shard_ready rnd n msrv srv cfg \<and>
    reliable (sh_net cfg) = (\<not> unreliable)"
proof -
  obtain c where c: "before_groups rnd msrv n c" "sh_make_config rnd msrv srv r n unreliable mx =
      go_bind (go_iter (\<lambda>gi cfg. StartGroup rnd (srv gi) gi (set_group gi (new_group gi cfg) cfg)) [0..<3] c) (\<lambda>cfg.
        Inr (cfg\<lparr>sh_nextClientId := int (sh_n cfg) + 1000, sh_net := Reliable (\<not> unreliable) (sh_net cfg)\<rparr>))"
    using sh_make_config_groups [OF assms(1)] by blast
  note b = c(1) [unfolded before_groups_def]
  obtain nw k gs where g: "go_iter (\<lambda>gi cfg. StartGroup rnd (srv gi) gi (set_group gi (new_group gi cfg) cfg)) [0..<3] c =
        Inr (c\<lparr>sh_groups := gs, sh_rand := k, sh_net := nw\<rparr>)" "ends nw = rnd ` {..<k}" "length gs = 3"
      "extends_net (sh_net c) nw"
      "\<forall>gi < 3. \<exists>gg. gs ! gi = Some gg \<and> group_started nw n 3 (100 + int gi) (srv gi) n gg"
    using StartGroups_upto [OF assms(1), of c 3 srv] b assms(2) by auto
  have at: "server_at (Reliable yes nw) = server_at nw" "extends_net nw (Reliable yes nw)" "ends (Reliable yes nw) = ends nw"
    for yes
    by (simp_all add: Reliable_def server_at_def fun_eq_iff extends_net_def reaches_def is_enabled_def connection_of_def)
  have "\<forall>gi < 3. \<exists>gg. gs ! gi = Some gg \<and> group_started (Reliable (\<not> unreliable) nw) n 3 (100 + int gi) (srv gi) n gg"
    using g(5) group_started_mono [OF _ at(2)] by blast
  moreover have "server_at nw (NameStr (mastername j)) = Some (msrv j)" if "j < 3" for j
    using that b g(4) by (auto simp: extends_net_def)
  ultimately show ?thesis
    using c(2) g(1-3) b at(1) [of "\<not> unreliable"] at(3) [of "\<not> unreliable"]
    by (simp add: shard_ready_def drawn_def) (simp add: Reliable_def)
qed

text \<open>
  With more than three servers to a group it panics: the fourth server of a group has no
  place in \<open>mendnames\<close>.
\<close>

lemma go_iter_append: "go_iter f (xs @ ys) s = go_bind (go_iter f xs s) (go_iter f ys)"
proof (induction xs arbitrary: s)
  case Nil
  show ?case by (simp add: go_iter_def [of f "[]"])
next
  case (Cons x xs)
  then show ?case by (cases "f x s") (simp_all add: go_iter_Cons)
qed

lemma sh_StartServer_no_place:
  assumes "inj rnd" and "drawn rnd cfg" and "gi < length (sh_groups cfg)" and "sh_groups cfg ! gi = Some gg"
    and "group_shape (sh_n cfg) (nmasters cfg) gg" and "i < sh_n cfg" and "nmasters cfg \<le> i"
  shows "sh_StartServer rnd srv gi i cfg = Inl IndexOutOfRange"
  using open_ends_ok [OF assms(1,2), of "servername (gg_gid gg)" "sh_n cfg"] assms(3-)
  by (auto simp: sh_StartServer_def group_at_def go_idx_Inr group_shape_def go_idx_def [of "gg_mendnames gg"])

theorem sh_make_config_panics:
  assumes "inj rnd" and "3 < n"
  shows "sh_make_config rnd msrv srv r n unreliable mx = Inl IndexOutOfRange"
proof -
  obtain c where c: "before_groups rnd msrv n c" "sh_make_config rnd msrv srv r n unreliable mx =
      go_bind (go_iter (\<lambda>gi cfg. StartGroup rnd (srv gi) gi (set_group gi (new_group gi cfg) cfg)) [0..<3] c) (\<lambda>cfg.
        Inr (cfg\<lparr>sh_nextClientId := int (sh_n cfg) + 1000, sh_net := Reliable (\<not> unreliable) (sh_net cfg)\<rparr>))"
    using sh_make_config_groups [OF assms(1)] by blast
  let ?d = "set_group 0 (new_group 0 c) c" and ?f = "\<lambda>i. sh_StartServer rnd (srv 0 i) 0 i"
  have d: "drawn rnd ?d" "0 < length (sh_groups ?d)" "sh_groups ?d ! 0 = Some (new_group 0 c)"
      "sh_n ?d = n" "nmasters ?d = 3" "sh_net ?d = sh_net c" "\<forall>g i. server_at (sh_net c) (NameStr (servername g i)) = None"
    using c(1) by (simp_all add: before_groups_def set_group_def drawn_def)
  have "group_started (sh_net c) n 3 100 (srv 0) 0 (new_group 0 c)"
    using c(1) by (simp add: group_started_def new_group_def group_shape_def before_groups_def)
  from StartGroup_upto [OF assms(1) d(1-3), unfolded d(4-6), OF this, of 3] d(7) assms(2)
  obtain nw k hh where s: "go_iter ?f [0..<3] ?d = Inr (set_group 0 hh (?d\<lparr>sh_rand := k, sh_net := nw\<rparr>))"
      "ends nw = rnd ` {..<k}" "group_started nw n 3 100 (srv 0) 3 hh" by auto
  let ?e = "set_group 0 hh (?d\<lparr>sh_rand := k, sh_net := nw\<rparr>)"
  have "?f 3 ?e = Inl IndexOutOfRange"
    by (rule sh_StartServer_no_place [OF assms(1), where gg = hh])
      (use s(2,3) d(2,4,5) assms(2) in \<open>simp_all add: set_group_def drawn_def group_started_def\<close>)
  moreover have "[0..<n] = [0..<3] @ 3 # [4..<n]"
    using assms(2) upt_add_eq_append [of 0 3 "n - 3"] upt_conv_Cons [of 3 n] by simp
  ultimately have "StartGroup rnd (srv 0) 0 ?d = Inl IndexOutOfRange"
    using s(1) by (simp add: StartGroup_def d(4) go_iter_append go_iter_Cons)
  then show ?thesis using c(2) by (simp add: upt_rec [of 0 3] go_iter_Cons)
qed

section \<open>The addresses of a group\<close>

lemma joinm_groups:
  assumes "\<forall>g\<in>set gis. \<exists>gg. group_at cfg g = Inr gg \<and> gg_gid gg = 100 + int g"
  shows "\<exists>m. go_iter (\<lambda>g m. go_bind (group_at cfg g) (\<lambda>gg.
      Inr (AList.update (gg_gid gg) (map (servername (gg_gid gg)) [0..<sh_n cfg]) m))) gis m0 = Inr m \<and>
    map_of m = (\<lambda>gid. if gid \<in> (\<lambda>g. 100 + int g) ` set gis then Some (map (servername gid) [0..<sh_n cfg]) else map_of m0 gid)"
  using assms
proof (induction gis arbitrary: m0)
  case Nil
  show ?case by (simp add: go_iter_def)
next
  case (Cons g gis)
  then obtain gg where "group_at cfg g = Inr gg" "gg_gid gg = 100 + int g" by auto
  then show ?case
    using Cons.IH [of "AList.update (100 + int g) (map (servername (100 + int g)) [0..<sh_n cfg]) m0"] Cons.prems
    by (auto simp: go_iter_Cons update_conv' fun_eq_iff)
qed

text \<open>
  Addresses across the components: in a configuration that \<open>make_config\<close> has made, the
  request that \<open>joinm\<close> sends to the shard master names exactly the given groups, and the
  function the harness gives to clerks and servers turns the \<open>i\<close>-th address of a group into
  an enabled end that is connected to the \<open>i\<close>-th server of that group.
\<close>

theorem join_addresses_reach_servers:
  assumes "inj rnd" and "n \<le> 3" and "set gis \<subseteq> {..<3}"
  shows "\<exists>cfg args. sh_make_config rnd msrv srv r0 n unreliable mx = Inr cfg \<and> joinm gis r cfg = Inr args \<and>
    dom (map_of (ja_Servers args)) = (\<lambda>gi. 100 + int gi) ` set gis \<and>
    (\<forall>gi\<in>set gis. \<exists>names. map_of (ja_Servers args) (100 + int gi) = Some names \<and> length names = n \<and>
       (\<forall>i < n. \<exists>e cfg' sn. sh_make_end rnd (names ! i) cfg = Inr (e, cfg') \<and> is_enabled (sh_net cfg') e \<and>
          connection_of (sh_net cfg') e = Some sn \<and> server_at (sh_net cfg') sn = Some (srv gi i)))"
proof -
  obtain cfg where cfg: "sh_make_config rnd msrv srv r0 n unreliable mx = Inr cfg" "shard_ready rnd n msrv srv cfg"
    using sh_make_config_ready [OF assms(1,2)] by blast
  then obtain ck where ck: "sh_mck cfg = Some ck" "sh_n cfg = n" "drawn rnd cfg" by (auto simp: shard_ready_def)
  have started: "length (sh_groups cfg) = 3" "g < 3 \<and> (\<exists>gg. sh_groups cfg ! g = Some gg \<and>
      group_started (sh_net cfg) n 3 (100 + int g) (srv g) n gg)" if "g \<in> set gis" for g
    using that assms(3) cfg(2) by (auto simp: shard_ready_def)
  have gg: "\<exists>gg. group_at cfg g = Inr gg \<and> gg_gid gg = 100 + int g" if "g \<in> set gis" for g
    using started [OF that] by (auto simp: group_at_def go_idx_Inr group_started_def)
  obtain m where m: "joinm gis r cfg = Inr (smc_Join_args ck m r)"
      "map_of m = (\<lambda>gid. if gid \<in> (\<lambda>g. 100 + int g) ` set gis then Some (map (servername gid) [0..<n]) else None)"
    using joinm_groups [of gis cfg "[]", unfolded map_of.simps] gg ck by (auto simp: joinm_def)
  have opened: "\<exists>e cfg' sn. sh_make_end rnd (servername (100 + int gi) i) cfg = Inr (e, cfg') \<and> is_enabled (sh_net cfg') e \<and>
      connection_of (sh_net cfg') e = Some sn \<and> server_at (sh_net cfg') sn = Some (srv gi i)"
    if i: "gi \<in> set gis" "i < n" for gi i
  proof -
    have at: "server_at (sh_net cfg) (NameStr (servername (100 + int gi) i)) = Some (srv gi i)"
      using started(2) [OF i(1)] i(2) by (auto simp: group_started_def)
    have "rnd (sh_rand cfg) \<notin> ends (sh_net cfg)" using assms(1) ck(3) by (auto simp: drawn_def dest: injD)
    from open_end_ok [OF this, of "servername (100 + int gi) i"] at show ?thesis
      by (auto simp: sh_make_end_def reaches_def extends_net_def)
  qed
  have "dom (map_of m) = (\<lambda>gi. 100 + int gi) ` set gis" unfolding m(2) by (auto simp: dom_def)
  then show ?thesis
    using cfg(1) m opened by (intro exI [of _ cfg] exI [of _ "smc_Join_args ck m r"]) (auto simp: smc_Join_args_def)
qed

theorem join_addresses_reach_servers_witness:
  "\<exists>cfg args. sh_make_config (\<lambda>k. NameInt (int k)) id (\<lambda>gi i. 3 * gi + i) 7 3 False 1000 = Inr cfg \<and>
     joinm [0, 2] 8 cfg = Inr args \<and> dom (map_of (ja_Servers args)) = {100, 102}"
  using join_addresses_reach_servers [of "\<lambda>k. NameInt (int k)" 3 "[0, 2]" id "\<lambda>gi i. 3 * gi + i" 7 False 1000 8]
  by (auto simp: inj_def)

section \<open>Clerks and their ends\<close>

text \<open>A clerk of a test with fewer than three servers to a group cannot be made.\<close>

theorem sh_makeClient_panics:
  assumes "inj rnd" and "drawn rnd cfg" and "sh_n cfg < nmasters cfg"
  shows "sh_makeClient rnd ck answer r cfg = Inl IndexOutOfRange"
proof -
  let ?f = "\<lambda>j (endnames, nw). let e = rnd (sh_rand cfg + j)
    in go_bind (go_upd endnames (int j) e) (\<lambda>endnames. go_bind (open_end e (mastername j) nw) (\<lambda>nw. Inr (endnames, nw)))"
  let ?s = "(replicate (sh_n cfg) (NameStr ''''), sh_net cfg)"
  have upto: "\<exists>es nw. go_iter ?f [0..<k] ?s = Inr (es, nw) \<and> length es = sh_n cfg \<and> ends nw = rnd ` {..<sh_rand cfg + k}"
    if "k \<le> sh_n cfg" for k
    using that
  proof (induction k)
    case 0
    show ?case using assms(2) by (simp add: go_iter_def drawn_def)
  next
    case (Suc k)
    then obtain es nw where IH: "go_iter ?f [0..<k] ?s = Inr (es, nw)" "length es = sh_n cfg"
        "ends nw = rnd ` {..<sh_rand cfg + k}" by auto
    have "rnd (sh_rand cfg + k) \<notin> ends nw" using assms(1) IH(3) by (auto dest: injD)
    from open_end_ok [OF this, of "mastername k"] IH Suc.prems show ?case
      by (auto simp: go_iter_snoc go_upd_Inr lessThan_Suc)
  qed
  have "[0..<nmasters cfg] = [0..<sh_n cfg] @ sh_n cfg # [Suc (sh_n cfg)..<nmasters cfg]"
    using assms(3) upt_add_eq_append [of 0 "sh_n cfg" "nmasters cfg - sh_n cfg"] upt_conv_Cons [of "sh_n cfg" "nmasters cfg"]
    by simp
  then show ?thesis
    using upto [OF order_refl] by (auto simp: sh_makeClient_def go_iter_append go_iter_Cons go_upd_def)
qed

section \<open>Sizes of logs and snapshots\<close>

text \<open>A test whose \<open>checklogs\<close> passes has no server over the bound, and no snapshot when snapshots are off.\<close>

theorem checklogs_passed:
  assumes "checklogs bytes snapbytes cfg = Inr ()" and "gi < ngroups cfg" and "i < sh_n cfg"
  shows "\<exists>gg ps. group_at cfg gi = Inr gg \<and> gg_saved_at gg i = Some ps \<and>
    (0 \<le> sh_maxraftstate cfg \<longrightarrow> RaftStateSize bytes ps \<le> 8 * sh_maxraftstate cfg) \<and>
    (sh_maxraftstate cfg < 0 \<longrightarrow> snapbytes (ps_ReadSnapshot ps) \<le> 0)"
proof -
  let ?chk = "checklog bytes snapbytes (sh_maxraftstate cfg)"
  have "checklogs_from chk cfg ps = Inr () \<Longrightarrow> (gi, i) \<in> set ps \<Longrightarrow>
      \<exists>gg. group_at cfg gi = Inr gg \<and> chk (gg_saved_at gg i) = Inr ()" for chk ps
    by (induction chk cfg ps rule: checklogs_from.induct) (auto split: sum.splits simp: go_bind_Inr_iff)
  from this [of ?chk "List.product [0..<ngroups cfg] [0..<sh_n cfg]"] assms obtain gg where
    "group_at cfg gi = Inr gg" "?chk (gg_saved_at gg i) = Inr ()"
    by (auto simp: checklogs_def)
  then show ?thesis by (auto simp: checklog_def Let_def split: option.splits if_splits)
qed

end
