(* ===== verification/Raft_Senders.thy ===== *)
theory Raft_Senders
  imports Raft_Cluster
begin

text \<open>
  The leader's side of replication in the executions of \<open>Raft_Cluster\<close>, with snapshots: the
  goroutines of \<open>appendEntriesToPeer\<close> and \<open>InstallSnapshotToPeers\<close> never index out of range.

  The invariant bounds \<open>nextIndex\<close> of a leader by the end of its log. It rests on what
  the answers to an AppendEntries message can say (\<open>reply_ok\<close>) and on what a goroutine that waits for an
  answer knows (\<open>sender_ok\<close>): as long as the peer leads the term of the message, the log has not got
  shorter and \<open>nextIndex\<close> of the receiver has not changed.
\<close>

section \<open>The invariant\<close>

definition next_ok :: "('c, 'd) Raft \<Rightarrow> bool" where
  "next_ok rf \<longleftrightarrow> (rf_state rf = LEADER \<longrightarrow> (\<forall>k < peers rf. nextIndex rf ! k \<le> lastIdx rf + 1))"

definition arrays_made :: "('c, 'd) Raft \<Rightarrow> bool" where
  "arrays_made rf \<longleftrightarrow> length (nextIndex rf) = peers rf \<and> length (matchIndex rf) = peers rf"

definition awaits_ok :: "('c, 'd) Raft \<Rightarrow> nat \<Rightarrow> 'c AppendEntriesArgs \<Rightarrow> bool" where
  "awaits_ok rf j args \<longleftrightarrow> aea_Term args \<le> currentTerm rf \<and>
     (aea_Term args = currentTerm rf \<longrightarrow> rf_state rf \<noteq> CANDIDATE) \<and>
     (rf_state rf = LEADER \<and> aea_Term args = currentTerm rf \<longrightarrow>
        PrevLogIndex args \<le> lastIdx rf \<and> nextIndex rf ! j + int (length (Entries args)) \<le> lastIdx rf + 1)"

fun sender_ok :: "('c, 'd) Raft \<Rightarrow> nat \<Rightarrow> ('c, 'd) sender \<Rightarrow> bool" where
  "sender_ok rf j SIdle = True"
| "sender_ok rf j (SAwaitAE args) = (arrays_made rf \<and> awaits_ok rf j args)"
| "sender_ok rf j SWantIS = arrays_made rf"
| "sender_ok rf j (SAwaitIS _) = arrays_made rf"

definition reply_ok :: "'c AppendEntriesArgs \<Rightarrow> AppendEntriesReply \<Rightarrow> bool" where
  "reply_ok args reply \<longleftrightarrow> (XLen reply \<noteq> -1 \<longrightarrow> XLen reply \<le> PrevLogIndex args) \<and>
     (XIndex reply \<noteq> -1 \<longrightarrow> XIndex reply \<le> PrevLogIndex args)"

definition senders_inv :: "nat \<Rightarrow> ('c, 'd) cluster \<Rightarrow> bool" where
  "senders_inv n c \<longleftrightarrow>
     (\<forall>i<n. next_ok (node c i) \<and> (\<forall>j. j \<noteq> i \<longrightarrow> sender_ok (node c i) j (senders c i j))) \<and>
     (\<forall>i<n. senders c i i = SIdle) \<and>
     (\<forall>a b args reply. AEResp a b args reply \<in> net c \<longrightarrow> reply_ok args reply)"

lemma senders_invI:
  assumes "senders_inv n c" and "node c' = (node c)(i := rf)" and "next_ok rf"
    and "\<And>j. j \<noteq> i \<Longrightarrow> sender_ok rf j (senders c' i j)"
    and "senders c' i i = SIdle" and "\<And>k. k \<noteq> i \<Longrightarrow> senders c' k = senders c k"
    and "\<And>a b args reply. AEResp a b args reply \<in> net c' \<Longrightarrow> AEResp a b args reply \<in> net c \<or> reply_ok args reply"
  shows "senders_inv n c'"
  unfolding senders_inv_def
proof (intro conjI allI impI)
  fix k assume k: "k < n"
  show "next_ok (node c' k)" using assms(1-3) k by (auto simp: senders_inv_def)
  show "sender_ok (node c' k) j (senders c' k j)" if "j \<noteq> k" for j
    using assms(1,2,4,6) k that by (cases "k = i") (auto simp: senders_inv_def)
  show "senders c' k k = SIdle" using assms(1,5,6) k by (cases "k = i") (auto simp: senders_inv_def)
next
  fix a b args reply
  assume "AEResp a b args reply \<in> net c'"
  then show "reply_ok args reply" using assms(1,7) unfolding senders_inv_def by blast
qed

section \<open>Steps that do not touch the arrays\<close>

text \<open>The log of a leader does not get shorter, and nobody else writes to its arrays.\<close>

definition lead_frame :: "('c, 'd) Raft \<Rightarrow> ('c, 'd) Raft \<Rightarrow> bool" where
  "lead_frame rf rf' \<longleftrightarrow> peers rf' = peers rf \<and> length (nextIndex rf') = length (nextIndex rf) \<and>
     length (matchIndex rf') = length (matchIndex rf) \<and> currentTerm rf \<le> currentTerm rf' \<and>
     (rf_state rf' = CANDIDATE \<longrightarrow> rf_state rf = CANDIDATE) \<and>
     (rf_state rf' = LEADER \<longrightarrow> rf_state rf = LEADER \<and> currentTerm rf' = currentTerm rf \<and>
        lastIdx rf \<le> lastIdx rf' \<and> nextIndex rf' = nextIndex rf)"

lemma lead_frame_refl [simp]: "lead_frame rf rf"
  by (simp add: lead_frame_def)

lemma lead_frame_next: "lead_frame rf rf' \<Longrightarrow> next_ok rf \<Longrightarrow> next_ok rf'"
  by (fastforce simp: lead_frame_def next_ok_def)

lemma lead_frame_sender: "lead_frame rf rf' \<Longrightarrow> sender_ok rf j s \<Longrightarrow> sender_ok rf' j s"
  by (cases s) (fastforce simp: lead_frame_def arrays_made_def awaits_ok_def)+

lemma senders_inv_frame:
  assumes "senders_inv n c" and "i < n" and "lead_frame (node c i) rf" and "node c' = (node c)(i := rf)"
    and "senders c' = senders c"
    and "\<And>a b args reply. AEResp a b args reply \<in> net c' \<Longrightarrow> AEResp a b args reply \<in> net c \<or> reply_ok args reply"
  shows "senders_inv n c'"
  by (rule senders_invI [OF assms(1,4)])
    (use assms in \<open>auto simp: senders_inv_def intro: lead_frame_next lead_frame_sender\<close>)

lemma lead_frame_RequestVote:
  assumes "raft_wf rf" and "RequestVote rf args = Inr (rf', reply)"
  shows "lead_frame rf rf'"
proof -
  have "rlog rf \<noteq> []" using assms(1) by (simp add: raft_wf_def)
  then show ?thesis
    using assms(2)
    by (cases "rva_Term args" "currentTerm rf" rule: linorder_cases)
      (auto simp: RequestVote_def Let_def frame_simps lead_frame_def lastIdx_def split: if_splits)
qed

lemma lead_frame_AppendEntries:
  assumes "raft_wf rf" and "AppendEntries rf args = Inr (rf', reply)"
  shows "lead_frame rf rf'"
proof (cases "aea_Term args < currentTerm rf")
  case True
  then show ?thesis using assms(2) by (auto simp: AppendEntries_stale)
next
  case False
  have ne: "rlog rf \<noteq> []" using assms(1) by (simp add: raft_wf_def)
  have "peers rf' = peers rf \<and> currentTerm rf' = aea_Term args \<and> rf_state rf' = FOLLOWER"
    using assms(2) False AppendEntries_rejected [OF ne, of args]
    by (cases "ae_accepts rf args")
      (auto simp: AppendEntries_accepted [OF ne] go_bind_Inr_iff AE_commit_def notifyApply_def frame_simps split: if_splits)
  then show ?thesis
    using AppendEntries_effect [OF ne assms(2)] False by (simp add: lead_frame_def)
qed

lemma lead_frame_InstallSnapshot:
  assumes "raft_wf rf" and "InstallSnapshot rf args = Inr (rf', reply)"
  shows "lead_frame rf rf'"
  using assms
  by (auto simp: InstallSnapshot_def Let_def frame_simps lead_frame_def lastIdx_def raft_wf_def split: if_splits)

lemma lead_frame_ops:
  "AE_send rf j = Inr (rf1, sent) \<Longrightarrow> lead_frame rf rf1"
  "SendRequest_reply vargs (rf, res, another) r = (rf2, res', another') \<Longrightarrow> lead_frame rf rf2"
  "lead_frame rf (SendRequest_finish rf another)"
  "lead_frame rf (Apply_deliver rf msg)"
  "raft_wf rf \<Longrightarrow> SaveStateAndSnapshot rf index sn = Inr rf3 \<Longrightarrow> lead_frame rf rf3"
proof -
  show "AE_send rf j = Inr (rf1, sent) \<Longrightarrow> lead_frame rf rf1"
    by (drule AE_send_frame) (simp add: lead_frame_def lastIdx_def)
  show "SendRequest_reply vargs (rf, res, another) r = (rf2, res', another') \<Longrightarrow> lead_frame rf rf2"
    by (cases r) (auto simp: lead_frame_def lastIdx_def split: if_splits)
  show "raft_wf rf \<Longrightarrow> SaveStateAndSnapshot rf index sn = Inr rf3 \<Longrightarrow> lead_frame rf rf3"
    by (auto simp: SaveStateAndSnapshot_def go_Inr_iffs Let_def lead_frame_def lastIdx_def getRealLogIndex_def
        split: if_splits)
qed (auto simp: SendRequest_finish_def Apply_deliver_def Let_def lead_frame_def lastIdx_def frame_simps)

section \<open>Answers\<close>

lemma ae_reply_ok:
  assumes "raft_wf rf"
  shows "reply_ok args (ae_reply_of rf args)"
proof -
  let ?p = "PrevLogIndex args" and ?s = "lastSnapshotIndex rf"
  have "?s + int (findXIndex (rlog rf) (lg_Term (entryAt rf ?p)) 1) \<le> ?p"
    if p: "?s < ?p" "?p \<le> lastIdx rf"
  proof -
    have "1 \<le> nat (?p - ?s)" "nat (?p - ?s) < length (rlog rf)"
      using p assms by (auto simp: lastIdx_def raft_wf_def)
    then have "findXIndex (rlog rf) (lg_Term (entryAt rf ?p)) 1 \<le> nat (?p - ?s)"
      using findXIndex_le [of 1 "nat (?p - ?s)" "rlog rf"] by (simp add: entryAt_def)
    then show ?thesis using p(1) by linarith
  qed
  then show ?thesis by (auto simp: ae_reply_of_def reply_ok_def Let_def)
qed

section \<open>Steps of a leader and a candidate\<close>

lemma next_ok_new_leader:
  assumes "raft_wf rf" and "changeRole LEADER rf = Inr rf'"
  shows "next_ok rf' \<and> arrays_made rf' \<and> currentTerm rf' = currentTerm rf \<and> rf_state rf' = LEADER"
proof -
  have "rf' = resetElectionTimer (rf\<lparr>rf_state := LEADER, nextIndex := replicate (peers rf) (lastIdx rf + 1),
      matchIndex := (replicate (peers rf) 0)[me rf := lastIdx rf]\<rparr>)"
    using changeRole_LEADER [of rf] assms by (simp del: changeRole.simps add: raft_wf_def)
  then show ?thesis by (simp add: next_ok_def arrays_made_def frame_simps lastIdx_def)
qed

lemma Election_end_sender:
  assumes "raft_wf rf" and "Election_end rf args cnt = Inr rf'" and "next_ok rf"
  shows "next_ok rf' \<and> (\<forall>j s. sender_ok rf j s \<longrightarrow> sender_ok rf' j s)"
proof (cases "rf_state rf = CANDIDATE \<and> currentTerm rf = rva_Term args \<and> cnt \<ge> int (peers rf div 2)")
  case True
  then obtain rf1 where rf1: "changeRole LEADER rf = Inr rf1"
      "rf' = (if rf_state (persist rf1) = LEADER then AENow (persist rf1) else persist rf1)"
    using assms(2) by (auto simp: Election_end_def go_bind_Inr_iff simp del: changeRole.simps)
  have new: "next_ok rf'" "arrays_made rf'" "currentTerm rf' = currentTerm rf" "rf_state rf' \<noteq> CANDIDATE"
    using next_ok_new_leader [OF assms(1) rf1(1)] rf1(2)
    by (simp_all add: next_ok_def arrays_made_def frame_simps lastIdx_def)
  have "sender_ok rf' j s" if "sender_ok rf j s" for j s
    using that new True by (cases s) (auto simp: awaits_ok_def)
  then show ?thesis using new(1) by blast
next
  case False
  then have "lead_frame rf rf'"
    using assms(2) by (auto simp: Election_end_def lead_frame_def frame_simps lastIdx_def split: if_splits)
  then show ?thesis using assms(3) lead_frame_next lead_frame_sender by blast
qed

lemma Election_begin_sender:
  assumes "raft_wf rf" and "Election_begin rf = Inr (rf', vargs)" and "next_ok rf" and "sender_ok rf j s"
  shows "next_ok rf' \<and> sender_ok rf' j s"
proof (cases "rf_state rf = LEADER")
  case True
  then have "lead_frame rf rf'"
    using assms(2) by (auto simp: Election_begin_def Let_def lead_frame_def frame_simps lastIdx_def)
  then show ?thesis using assms(3,4) lead_frame_next lead_frame_sender by blast
next
  case False
  then have "rf_state rf' = CANDIDATE" "currentTerm rf < currentTerm rf'" "arrays_made rf' = arrays_made rf"
    using assms(1,2) by (auto simp: Election_begin_def Let_def frame_simps raft_wf_def arrays_made_def go_bind_Inr_iff)
  then show ?thesis using assms(4) by (cases s) (auto simp: next_ok_def awaits_ok_def)
qed

lemma Start_sender:
  assumes "raft_wf rf" and "Start rf cmd = Inr (rf', res)" and "next_ok rf" and "sender_ok rf j s" and "j \<noteq> me rf"
  shows "next_ok rf' \<and> sender_ok rf' j s"
proof (cases "rf_state rf = LEADER")
  case True
  have me: "me rf < peers rf" "rlog rf \<noteq> []" using assms(1) by (auto simp: raft_wf_def)
  have arr: "arrays_made rf" using assms(1) True by (simp add: raft_wf_def leader_arrays_def arrays_made_def)
  have st: "nextIndex rf' = (nextIndex rf)[me rf := lastIdx rf + 2]" "length (matchIndex rf') = length (matchIndex rf)"
      "lastIdx rf' = lastIdx rf + 1" "rf_state rf' = LEADER" "currentTerm rf' = currentTerm rf" "peers rf' = peers rf"
    using assms(2) True me
    by (auto simp: Start_def go_Inr_iffs Let_def frame_simps lastLogTermIndex_eq lastIdx_def)
  have "next_ok rf'"
    unfolding next_ok_def st
  proof (intro impI allI)
    fix k assume "k < peers rf"
    then show "(nextIndex rf)[me rf := lastIdx rf + 2] ! k \<le> lastIdx rf + 1 + 1"
      using assms(3) True arr me(1) by (cases "k = me rf") (fastforce simp: next_ok_def arrays_made_def)+
  qed
  moreover have "sender_ok rf' j s"
    using assms(4,5) st True by (cases s) (auto simp: arrays_made_def awaits_ok_def)
  ultimately show ?thesis by blast
next
  case False
  then have "rf' = rf" using assms(1,2) by (auto simp: Start_def go_Inr_iffs Let_def)
  then show ?thesis using assms(3,4) by simp
qed

text \<open>The goroutine of peer \<open>j\<close> writes its place of the arrays.\<close>

definition slot_upd :: "nat \<Rightarrow> ('c, 'd) Raft \<Rightarrow> ('c, 'd) Raft \<Rightarrow> bool" where
  "slot_upd j rf rf' \<longleftrightarrow> (\<exists>v. v \<le> lastIdx rf + 1 \<and> nextIndex rf' = (nextIndex rf)[j := v]) \<and>
     length (matchIndex rf') = length (matchIndex rf) \<and> lastIdx rf' = lastIdx rf \<and> rf_state rf' = rf_state rf \<and>
     currentTerm rf' = currentTerm rf \<and> peers rf' = peers rf"

lemma list_update_bound: "\<forall>k < length xs. xs ! k \<le> b \<Longrightarrow> v \<le> b \<Longrightarrow> k < length xs \<Longrightarrow> xs[j := v] ! k \<le> (b :: int)"
  by (cases "k = j") auto

lemma slot_upd_sender:
  assumes "slot_upd j rf rf'"
  shows "next_ok rf \<Longrightarrow> arrays_made rf \<Longrightarrow> next_ok rf'" and "arrays_made rf' = arrays_made rf"
    and "k \<noteq> j \<Longrightarrow> sender_ok rf k s \<Longrightarrow> sender_ok rf' k s"
proof -
  obtain v where v: "v \<le> lastIdx rf + 1" "nextIndex rf' = (nextIndex rf)[j := v]"
    and same: "length (matchIndex rf') = length (matchIndex rf)" "lastIdx rf' = lastIdx rf" "rf_state rf' = rf_state rf"
      "currentTerm rf' = currentTerm rf" "peers rf' = peers rf"
    using assms by (auto simp: slot_upd_def)
  show arr: "arrays_made rf' = arrays_made rf" using v(2) same by (simp add: arrays_made_def)
  show "next_ok rf'" if "next_ok rf" "arrays_made rf"
    using that v same by (auto simp: next_ok_def arrays_made_def intro!: list_update_bound)
  show "sender_ok rf' k s" if "k \<noteq> j" "sender_ok rf k s"
    using that v same arr by (cases s) (auto simp: awaits_ok_def)
qed

lemma AE_reply_cases:
  assumes "raft_wf rf" and "AE_reply rf j args reply = Inr (rf', nxt)" and "awaits_ok rf j args" and "reply_ok args reply"
  shows "lead_frame rf rf' \<or> slot_upd j rf rf'"
proof (cases "aer_Term reply > currentTerm rf \<or> rf_state rf \<noteq> LEADER \<or> currentTerm rf \<noteq> aea_Term args \<or>
    \<not> Success reply \<and> aer_NextIndex reply = -1")
  case True
  then show ?thesis
    using assms(2) by (auto simp: AE_reply_def lead_frame_def frame_simps go_Inr_iffs lastIdx_def split: if_splits)
next
  case False
  have idx: "0 \<le> lastIdx rf" using assms(1) by (cases "rlog rf") (auto simp: lastIdx_def raft_wf_def)
  have found: "containsXTerm rf t \<noteq> -1 \<Longrightarrow> containsXTerm rf t + lastSnapshotIndex rf \<le> lastIdx rf" for t
    using containsXTerm_cases [of rf t] assms(1) by (auto simp: raft_wf_def lastIdx_def)
  have prev: "PrevLogIndex args \<le> lastIdx rf" "nextIndex rf ! j + int (length (Entries args)) \<le> lastIdx rf + 1"
    using assms(3) False by (auto simp: awaits_ok_def)
  define v where "v = (if Success reply then nextIndex rf ! j + int (length (Entries args))
    else if XLen reply \<noteq> -1 then XLen reply
    else if aer_Term reply \<noteq> -1 then
      (if containsXTerm rf (aer_Term reply) \<noteq> -1 then containsXTerm rf (aer_Term reply) + lastSnapshotIndex rf
       else XIndex reply) else 0)"
  have "v \<le> lastIdx rf + 1"
    using prev idx found [of "aer_Term reply"] assms(4) unfolding v_def reply_ok_def
    by (cases "XIndex reply = -1") auto
  moreover have "nextIndex rf' = (nextIndex rf)[j := v] \<and> length (matchIndex rf') = length (matchIndex rf) \<and>
      lastIdx rf' = lastIdx rf \<and> rf_state rf' = rf_state rf \<and> currentTerm rf' = currentTerm rf \<and> peers rf' = peers rf"
    using assms(2) False unfolding v_def
    by (auto simp: AE_reply_def Let_def frame_simps go_Inr_iffs lastIdx_def split: if_splits)
  ultimately show ?thesis unfolding slot_upd_def by blast
qed

lemma AE_reply_sender:
  assumes "raft_wf rf" and "AE_reply rf j args reply = Inr (rf', nxt)" and "next_ok rf" and "arrays_made rf"
    and "awaits_ok rf j args" and "reply_ok args reply"
  shows "next_ok rf' \<and> arrays_made rf' \<and> (\<forall>k s. k \<noteq> j \<longrightarrow> sender_ok rf k s \<longrightarrow> sender_ok rf' k s)"
  using AE_reply_cases [OF assms(1,2,5,6)]
proof
  assume same: "lead_frame rf rf'"
  then have "arrays_made rf'" using assms(4) by (simp add: lead_frame_def arrays_made_def)
  then show ?thesis using lead_frame_next [OF same assms(3)] lead_frame_sender [OF same] by blast
next
  assume "slot_upd j rf rf'"
  note upd = slot_upd_sender [OF this]
  show ?thesis using upd(1) [OF assms(3,4)] upd(2) assms(4) upd(3) by blast
qed

lemma InstallSnapshot_reply_sender:
  assumes "raft_wf rf" and "InstallSnapshot_reply rf j r = Inr rf'" and "next_ok rf" and "arrays_made rf"
  shows "next_ok rf' \<and> (\<forall>k s. k \<noteq> j \<longrightarrow> sender_ok rf k s \<longrightarrow> sender_ok rf' k s)"
proof -
  have idx: "lastSnapshotIndex rf \<le> lastIdx rf" using assms(1) by (cases "rlog rf") (auto simp: lastIdx_def raft_wf_def)
  obtain rf1 where rf1: "rf1 = rf \<or> slot_upd j rf rf1" "lead_frame rf1 rf'"
  proof (cases r)
    case None
    then show ?thesis
      using assms(2) that [of rf]
      by (auto simp: InstallSnapshot_reply_def Let_def frame_simps lead_frame_def lastIdx_def split: if_splits)
  next
    case (Some reply)
    let ?rf1 = "rf\<lparr>nextIndex := (nextIndex rf)[j := lastSnapshotIndex rf + 1],
      matchIndex := (matchIndex rf)[j := lastSnapshotIndex rf]\<rparr>"
    have "slot_upd j rf ?rf1"
      unfolding slot_upd_def using idx
      by (intro conjI exI [of _ "lastSnapshotIndex rf + 1"]) (simp, simp_all add: lastIdx_def)
    moreover have "lead_frame ?rf1 rf'"
      using assms(2) Some
      by (auto simp: InstallSnapshot_reply_def go_Inr_iffs Let_def frame_simps lead_frame_def lastIdx_def split: if_splits)
    ultimately show ?thesis using that by blast
  qed
  from rf1(1) show ?thesis
  proof
    assume "rf1 = rf"
    then show ?thesis using rf1(2) assms(3) lead_frame_next lead_frame_sender by blast
  next
    assume "slot_upd j rf rf1"
    note upd = slot_upd_sender [OF this]
    show ?thesis using lead_frame_next [OF rf1(2) upd(1) [OF assms(3,4)]] lead_frame_sender [OF rf1(2) upd(3)] by blast
  qed
qed

lemma AE_send_behind:
  assumes "raft_wf rf" and "rf_state rf = LEADER" and "j < peers rf" and "nextIndex rf ! j \<le> lastSnapshotIndex rf"
  shows "\<exists>rf'. AE_send rf j = Inr (rf', Some
     \<lparr>aea_Term = currentTerm rf, LeaderId = int (me rf), PrevLogIndex = lastIdx rf, PrevLogTerm = lastTerm rf,
      Entries = [], aea_LeaderCommit = commitIndex rf\<rparr>)"
proof -
  have wf: "rlog rf \<noteq> []" "length (appendEntriesTimer rf) = peers rf"
    "length (nextIndex rf) = peers rf" "length (matchIndex rf) = peers rf"
    using assms(1,2) by (auto simp: raft_wf_def leader_arrays_def)
  then show ?thesis
    using assms(2-4)
    by (simp add: AE_send_def resetAETimer_def getAEInfo_def go_simps lastLogTermIndex_eq frame_simps lastIdx_def lastTerm_def)
qed

text \<open>Sending never panics, and what is sent lies inside the log.\<close>

lemma AE_send_returns:
  assumes "raft_wf rf" and "next_ok rf" and "j < peers rf"
  shows "\<exists>rf' sent. AE_send rf j = Inr (rf', sent) \<and>
    (\<forall>args. sent = Some args \<longrightarrow> rf_state rf = LEADER \<and> aea_Term args = currentTerm rf \<and> PrevLogIndex args \<le> lastIdx rf \<and>
       nextIndex rf ! j + int (length (Entries args)) \<le> lastIdx rf + 1)"
proof (cases "rf_state rf = LEADER")
  case True
  then have nx: "nextIndex rf ! j \<le> lastIdx rf + 1" using assms(2,3) by (simp add: next_ok_def)
  show ?thesis
  proof (cases "nextIndex rf ! j \<le> lastSnapshotIndex rf")
    case behind: True
    then show ?thesis using AE_send_behind [OF assms(1) True assms(3) behind] True nx by auto
  next
    case False
    then have "nat (nextIndex rf ! j - lastSnapshotIndex rf) \<le> length (rlog rf)" using nx by (simp add: lastIdx_def)
    then have "nextIndex rf ! j + int (length (rlog rf) - nat (nextIndex rf ! j - lastSnapshotIndex rf)) \<le> lastIdx rf + 1"
      using False by (simp add: lastIdx_def of_nat_diff)
    then show ?thesis using AE_send_leader [OF assms(1) True assms(3) _ nx] False True nx by auto
  qed
next
  case False
  then show ?thesis
    using assms(1,3) by (auto simp: AE_send_def resetAETimer_def go_upd_Inr raft_wf_def)
qed

lemma AE_send_sender:
  assumes "raft_wf rf" and "AE_send rf j = Inr (rf', Some args)" and "next_ok rf" and "j < peers rf"
  shows "arrays_made rf' \<and> awaits_ok rf' j args"
  using AE_send_returns [OF assms(1,3,4)] AE_send_frame [OF assms(2)] assms(1,2)
  by (auto simp: arrays_made_def awaits_ok_def raft_wf_def leader_arrays_def lastIdx_def)

section \<open>Steps of the cluster\<close>

lemma senders_invD:
  assumes "senders_inv n c" and "i < n"
  shows "next_ok (node c i)" and "j \<noteq> i \<Longrightarrow> sender_ok (node c i) j (senders c i j)" and "senders c i i = SIdle"
  using assms by (auto simp: senders_inv_def)

lemma step_send_ae_senders:
  assumes "senders_inv n c" and "election_inv n c" and "i < n" and "step_send_ae i j c = Some c'"
  shows "senders_inv n c'"
proof -
  have ij: "i \<noteq> j" using assms(4) by (auto simp: step_send_ae_def split: if_splits)
  obtain rf sent where sent: "AE_send (node c i) j = Inr (rf, sent)"
    using assms(4) by (auto simp: step_send_ae_def split: if_splits sum.splits)
  have fr: "lead_frame (node c i) rf" by (rule lead_frame_ops(1) [OF sent])
  have wf: "raft_wf (node c i)" by (rule node_wf [OF assms(2,3)])
  show ?thesis
  proof (cases sent)
    case None
    then have "c' = set_node i rf c" using assms(4) sent ij by (auto simp: step_send_ae_def split: if_splits)
    then show ?thesis using senders_inv_frame [OF assms(1,3) fr, of c'] by (simp add: step_defs)
  next
    case (Some args)
    then have c': "c' = send {AEReq i j args} (set_sender i j (SAwaitAE args) (set_node i rf c))"
      using assms(4) sent ij by (auto simp: step_send_ae_def split: if_splits)
    have "j < peers (node c i)"
      using sent wf by (auto simp: AE_send_def resetAETimer_def go_Inr_iffs raft_wf_def)
    then have aw: "sender_ok rf j (SAwaitAE args)"
      using AE_send_sender [OF wf _ senders_invD(1) [OF assms(1,3)]] sent Some by simp
    show ?thesis
      by (rule senders_invI [OF assms(1), of _ i rf])
        (use c' aw ij senders_invD [OF assms(1,3)] fr in
          \<open>auto simp: step_defs intro: lead_frame_next lead_frame_sender\<close>)
  qed
qed

lemma step_recv_ae_senders:
  assumes "senders_inv n c" and "election_inv n c" and "i < n" and "step_recv_ae i src args c = Some c'"
  shows "senders_inv n c'"
proof -
  obtain rf reply where ae: "AppendEntries (node c i) args = Inr (rf, reply)"
    and c': "c' = send {AEResp i src args reply} (set_node i rf c)"
    using assms(4) by (auto simp: step_recv_ae_def split: if_splits sum.splits)
  have wf: "raft_wf (node c i)" by (rule node_wf [OF assms(2,3)])
  have "reply = ae_reply_of (node c i) args" using AppendEntries_reply [OF _ ae] wf by (simp add: raft_wf_def)
  then have "reply_ok args reply" using ae_reply_ok [OF wf] by simp
  then show ?thesis
    using senders_inv_frame [OF assms(1,3) lead_frame_AppendEntries [OF wf ae], of c'] c' by (auto simp: step_defs)
qed

lemma step_ae_replied_senders:
  assumes "senders_inv n c" and "election_inv n c" and "i < n" and "step_ae_replied i j reply c = Some c'"
  shows "senders_inv n c'"
proof -
  obtain args rf nxt where s: "senders c i j = SAwaitAE args" "AEResp j i args reply \<in> net c"
      "AE_reply (node c i) j args reply = Inr (rf, nxt)"
    and c': "c' = set_sender i j (if nxt = AEInstallSnapshot then SWantIS else SIdle) (set_node i rf c)"
    using assms(4) by (auto simp: step_ae_replied_def split: sender.splits if_splits sum.splits)
  note D = senders_invD [OF assms(1,3)]
  have ij: "j \<noteq> i" using D(3) s(1) by auto
  have ok: "arrays_made (node c i)" "awaits_ok (node c i) j args" "reply_ok args reply"
    using D(2) [OF ij] s(1,2) assms(1) by (auto simp: senders_inv_def)
  have R: "next_ok rf" "arrays_made rf" "\<And>k s. k \<noteq> j \<Longrightarrow> sender_ok (node c i) k s \<Longrightarrow> sender_ok rf k s"
    using AE_reply_sender [OF node_wf [OF assms(2,3)] s(3) D(1) ok] by blast+
  show ?thesis
    by (rule senders_invI [OF assms(1), of _ i rf]) (use c' R D ij in \<open>auto simp: step_defs\<close>)
qed

lemma step_is_done_senders:
  assumes "senders_inv n c" and "election_inv n c" and "i < n" and "step_is_done i j r c = Some c'"
  shows "senders_inv n c'"
proof -
  obtain args rf where s: "senders c i j = SAwaitIS args" "InstallSnapshot_reply (node c i) j r = Inr rf"
    and c': "c' = set_sender i j SIdle (set_node i rf c)"
    using assms(4) by (auto simp: step_is_done_def split: sender.splits if_splits sum.splits)
  note D = senders_invD [OF assms(1,3)]
  have ij: "j \<noteq> i" using D(3) s(1) by auto
  have "arrays_made (node c i)" using D(2) [OF ij] s(1) by simp
  then have R: "next_ok rf" "\<And>k s. k \<noteq> j \<Longrightarrow> sender_ok (node c i) k s \<Longrightarrow> sender_ok rf k s"
    using InstallSnapshot_reply_sender [OF node_wf [OF assms(2,3)] s(2) D(1)] by blast+
  show ?thesis
    by (rule senders_invI [OF assms(1), of _ i rf]) (use c' R D ij in \<open>auto simp: step_defs\<close>)
qed

text \<open>A step of one peer that neither moves a goroutine nor answers an AppendEntries message.\<close>

lemma senders_inv_node:
  assumes "senders_inv n c" and "i < n" and "node c' = (node c)(i := rf)" and "senders c' = senders c"
    and "next_ok rf" and "\<And>j s. j \<noteq> i \<Longrightarrow> sender_ok (node c i) j s \<Longrightarrow> sender_ok rf j s"
    and "\<And>a b args reply. AEResp a b args reply \<in> net c' \<Longrightarrow> AEResp a b args reply \<in> net c"
  shows "senders_inv n c'"
  by (rule senders_invI [OF assms(1,3,5)]) (use assms senders_invD [OF assms(1,2)] in auto)

lemma step_election_senders:
  assumes "senders_inv n c" and "election_inv n c" and "i < n"
    and "step_timeout n i c = Some c' \<or> step_election_done i c = Some c' \<or> step_rv_reply i p r c = Some c'"
  shows "senders_inv n c'"
proof -
  note D = senders_invD [OF assms(1,3)] and wf = node_wf [OF assms(2,3)]
  from assms(4) consider "step_timeout n i c = Some c'" | "step_election_done i c = Some c'"
    | "step_rv_reply i p r c = Some c'" by blast
  then show ?thesis
  proof cases
    case 1
    then obtain rf vargs where eb: "Election_begin (node c i) = Inr (rf, vargs)"
      and c': "node c' = (node c)(i := rf)" "senders c' = senders c"
      by (auto simp: step_timeout_def step_defs Let_def split: if_splits sum.splits option.splits)
    have net: "AEResp a b x y \<in> net c' \<Longrightarrow> AEResp a b x y \<in> net c" for a b x y
      using 1 by (auto simp: step_timeout_def step_defs Let_def split: if_splits sum.splits option.splits)
    have "next_ok rf" using Election_begin_sender [OF wf eb D(1), of i SIdle] by simp
    then show ?thesis
      by (rule senders_inv_node [OF assms(1,3) c']) (use Election_begin_sender [OF wf eb D(1)] net in auto)
  next
    case 2
    then obtain el where el: "elects c i = Some el" by (auto simp: step_election_done_def split: option.splits)
    with 2 obtain rf where ee: "Election_end (SendRequest_finish (node c i) (el_another el)) (el_args el) (el_res el) = Inr rf"
      and eq: "c' = set_node i rf (c\<lparr>elects := (elects c)(i := None)\<rparr>)"
      by (auto simp: step_election_done_def split: sum.splits)
    then have c': "node c' = (node c)(i := rf)" "senders c' = senders c" "net c' = net c" by (simp_all add: step_defs)
    note fin = lead_frame_ops(3) [of "node c i" "el_another el"]
    have "raft_wf (SendRequest_finish (node c i) (el_another el))" using SendRequest_finish_wf [OF wf] by blast
    from Election_end_sender [OF this ee lead_frame_next [OF fin D(1)]] show ?thesis
      using lead_frame_sender [OF fin] c'(3) by (intro senders_inv_node [OF assms(1,3) c'(1,2)]) auto
  next
    case 3
    then obtain el where el: "elects c i = Some el" by (auto simp: step_rv_reply_def split: option.splits)
    obtain rf res' another' where
      rep: "SendRequest_reply (el_args el) (node c i, el_res el, el_another el) r = (rf, res', another')"
      using prod_cases3 by blast
    with 3 el have c': "node c' = (node c)(i := rf)" "senders c' = senders c" "net c' = net c"
      by (auto simp: step_rv_reply_def step_defs split: if_splits)
    show ?thesis
      using senders_inv_frame [OF assms(1,3) lead_frame_ops(2) [OF rep] c'(1,2)] c'(3) by simp
  qed
qed

lemma step_handlers_senders:
  assumes "senders_inv n c" and "election_inv n c" and "i < n"
    and "step_recv_rv i src rv c = Some c' \<or> step_recv_is i src ins c = Some c'"
  shows "senders_inv n c'"
proof -
  note wf = node_wf [OF assms(2,3)]
  obtain rf where "lead_frame (node c i) rf"
    and "node c' = (node c)(i := rf)" "senders c' = senders c" "\<And>a b x y. AEResp a b x y \<in> net c' \<Longrightarrow> AEResp a b x y \<in> net c"
    using assms(4) lead_frame_RequestVote [OF wf] lead_frame_InstallSnapshot [OF wf]
    by (fastforce simp: step_recv_rv_def step_recv_is_def step_defs split: if_splits sum.splits)
  then show ?thesis using senders_inv_frame [OF assms(1,3)] by blast
qed

lemma step_send_is_senders:
  assumes "senders_inv n c" and "i < n" and "step_send_is i j c = Some c'"
  shows "senders_inv n c'"
proof -
  note D = senders_invD [OF assms(1,2)]
  have s: "senders c i j = SWantIS"
    and c': "c' = send {ISReq i j (InstallSnapshot_send (node c i))} (set_sender i j (SAwaitIS (InstallSnapshot_send (node c i))) c)"
    using assms(3) by (auto simp: step_send_is_def Let_def split: if_splits)
  have "j \<noteq> i" using D(3) s by auto
  then show ?thesis
    using s D(2) [of j] by (intro senders_invI [OF assms(1), of _ i "node c i"]) (use c' D in \<open>auto simp: step_defs\<close>)
qed

lemma step_ae_lost_senders:
  assumes "senders_inv n c" and "i < n" and "cstep n c (AELost i j) = Some c'"
  shows "senders_inv n c'"
  by (rule senders_invI [OF assms(1), of _ i "node c i"])
    (use assms senders_invD [OF assms(1,2)] in \<open>auto simp: step_defs split: sender.splits\<close>)

lemma step_crash_senders:
  assumes "senders_inv n c" and "i < n" and "step_crash n i c = Some c'"
  shows "senders_inv n c'"
proof -
  obtain rf where mk: "Make n i (persister (node c i)) = Inr rf"
    and c': "node c' = (node c)(i := rf)" "net c' = net c" "senders c' = (senders c)(i := (\<lambda>_. SIdle))"
    using assms(3) by (cases "Make n i (persister (node c i))") (auto simp: step_crash_def step_defs)
  have "rf_state rf = FOLLOWER"
    using mk by (auto simp: Make_def elim!: readPersist.elims)
  then have "next_ok rf" by (simp add: next_ok_def)
  then show ?thesis by (intro senders_invI [OF assms(1) c'(1)]) (use c' in auto)
qed

lemma step_client_senders:
  assumes "senders_inv n c" and "election_inv n c" and "i < n"
    and "e = ClientStart i cmd \<or> e = ApplyCollect i \<or> e = ApplyDeliver i \<or> e = TakeSnapshot i index sn"
    and "cstep n c e = Some c'"
  shows "senders_inv n c'"
proof -
  note D = senders_invD [OF assms(1,3)] and wf = node_wf [OF assms(2,3)]
  have me: "me (node c i) = i" using assms(2,3) by (simp add: election_inv_defs)
  have frame: "senders_inv n c'" if "lead_frame (node c i) rf" "node c' = (node c)(i := rf)" "senders c' = senders c" "net c' = net c" for rf
    using senders_inv_frame [OF assms(1,3) that(1-3)] that(4) by simp
  from assms(4) consider "e = ClientStart i cmd" | "e = ApplyCollect i" | "e = ApplyDeliver i" | "e = TakeSnapshot i index sn"
    by blast
  then show ?thesis
  proof cases
    case 1
    then obtain rf res where st: "Start (node c i) cmd = Inr (rf, res)" and c': "c' = set_node i rf c"
      using assms(5) by (cases "Start (node c i) cmd") auto
    have "next_ok rf" "sender_ok rf j s" if "j \<noteq> i" "sender_ok (node c i) j s" for j s
      using Start_sender [OF wf st D(1) that(2)] that(1) me by auto
    from this(1) [of "Suc i" SIdle] this(2) show ?thesis
      by (intro senders_inv_node [OF assms(1,3), of _ rf]) (auto simp: c' step_defs)
  next
    case 2
    then show ?thesis
      using assms(5) by (intro frame [OF lead_frame_refl]) (cases "Apply_collect (node c i)"; auto split: if_splits)+
  next
    case 3
    then obtain m ms where "c' = set_node i (Apply_deliver (node c i) m) (c\<lparr>applying := (applying c)(i := ms)\<rparr>)"
      using assms(5) by (auto split: list.splits)
    then show ?thesis by (intro frame [OF lead_frame_ops(4)]) (auto simp: step_defs)
  next
    case 4
    then obtain rf where "SaveStateAndSnapshot (node c i) index sn = Inr rf" "c' = set_node i rf c"
      using assms(5) by (cases "SaveStateAndSnapshot (node c i) index sn") auto
    then show ?thesis by (intro frame [OF lead_frame_ops(5) [OF wf]]) (auto simp: step_defs)
  qed
qed

lemma cexec_senders:
  assumes "senders_inv n c" and "election_inv n c" and "cexec n c e = Some c'"
  shows "senders_inv n c'"
proof -
  have "actor e < n" "cstep n c e = Some c'"
    using assms(3) by (auto simp: cexec_def split: if_splits)
  then show ?thesis
    using assms(1,2)
    by (cases e) (auto intro: step_election_senders step_handlers_senders step_send_ae_senders step_recv_ae_senders
        step_ae_replied_senders step_send_is_senders step_is_done_senders step_crash_senders
        simp del: cstep.simps(8,12-15) dest: step_ae_lost_senders [rotated 2] step_client_senders [rotated 4])
qed

lemma senders_inv_init: "c = cluster_init n \<Longrightarrow> senders_inv n c"
  by (simp add: senders_inv_def cluster_init_def next_ok_def Make_def MakePersister_def ReadRaftState_def)

interpretation raft_senders: invariant_system "\<lambda>c. c = cluster_init n" "cexec n"
  "\<lambda>c. election_inv n c \<and> senders_inv n c" for n
  by unfold_locales (auto intro: election_inv_init senders_inv_init cexec_inv cexec_senders)

section \<open>The goroutines of a leader\<close>

text \<open>
  C6. The replicating goroutines never panic. In every reachable state of a cluster, with loss,
  duplication, reordering, crashes and snapshots, \<open>nextIndex\<close> of a leader is at most one past its last
  entry; a goroutine that turns to send finds all indices in range; and one that waits handles every answer
  that can arrive, also a late one and one that finds its peer no longer leader.
\<close>

theorem leader_senders_safe:
  assumes "creach n c" and "i < n" and "j < n" and "i \<noteq> j"
  shows "(rf_state (node c i) = LEADER \<longrightarrow> nextIndex (node c i) ! j \<le> lastIdx (node c i) + 1) \<and>
    (\<exists>rf sent. AE_send (node c i) j = Inr (rf, sent)) \<and>
    (\<forall>args reply. senders c i j = SAwaitAE args \<and> AEResp j i args reply \<in> net c \<longrightarrow>
       (\<exists>rf nxt. AE_reply (node c i) j args reply = Inr (rf, nxt))) \<and>
    (\<forall>args r. senders c i j = SAwaitIS args \<longrightarrow> (\<exists>rf. InstallSnapshot_reply (node c i) j r = Inr rf))"
proof -
  have inv: "election_inv n c" "senders_inv n c" using raft_senders.inv_reachable [OF assms(1)] by blast+
  note D = senders_invD [OF inv(2) assms(2)] and wf = node_wf [OF inv(1) assms(2)]
  have n: "peers (node c i) = n" using inv(1) assms(2) by (simp add: election_inv_defs)
  have "\<exists>rf nxt. AE_reply (node c i) j args reply = Inr (rf, nxt)" if "senders c i j = SAwaitAE args" for args reply
    using D(2) [of j] that assms(3,4) n
    by (auto simp: AE_reply_def arrays_made_def go_idx_Inr go_upd_Inr Let_def)
  moreover have "\<exists>rf. InstallSnapshot_reply (node c i) j r = Inr rf" if "senders c i j = SAwaitIS args" for args r
    using D(2) [of j] that assms(3,4) n
    by (cases r) (auto simp: InstallSnapshot_reply_def arrays_made_def go_upd_Inr Let_def)
  ultimately show ?thesis
    using D(1) AE_send_returns [OF wf D(1), of j] assms(3) n by (auto simp: next_ok_def)
qed

theorem leader_senders_safe_witness:
  "case run_events (cexec 3) (cluster_init 3) elect_0 of
     None \<Rightarrow> False
   | Some c \<Rightarrow> rf_state (node c 0) = LEADER \<and> nextIndex (node c 0) ! 2 \<le> lastIdx (node c 0) + 1 \<and>
       (\<exists>rf sent. AE_send (node c 0) 2 = Inr (rf, sent))"
proof -
  obtain c where run: "run_events (cexec 3) (cluster_init 3) elect_0 = Some c" and lead: "rf_state (node c 0) = LEADER"
    using elect_0_run by (auto split: option.splits)
  have "creach 3 (cluster_init 3)" by (rule reachable_init) simp
  then have "creach 3 c" using run by (rule run_events_reachable)
  from leader_senders_safe [OF this, of 0 2] lead show ?thesis by (simp add: run)
qed

end
