(* ===== verification/Locks.thy ===== *)
theory Locks
  imports Prelude
begin

text \<open>
  The named locks of the servers: \<open>Lock\<close> and \<open>Unlock\<close> of \<open>raft/common.go\<close> and
  \<open>shardmaster/common.go\<close>, which have the same code, and of \<open>shardkv/common.go\<close>. Each wraps a mutex and keeps
  the names of its users in \<open>LockSeq\<close>; the mutex is also locked directly (\<open>Start\<close>,
  \<open>SaveStateAndSnapshot\<close> and others), without a name.

  The mutex is the thread that holds it. \<open>None\<close> as the result of a step: the thread waits. Unlocking a mutex that
  is not locked ends the process.
\<close>

section \<open>Operations\<close>

record named_lock =
  lk_mu :: "nat option"
  LockSeq :: "string list"

definition mu_Lock :: "nat \<Rightarrow> named_lock \<Rightarrow> named_lock option" where
  "mu_Lock t l = (if lk_mu l = None then Some (l\<lparr>lk_mu := Some t\<rparr>) else None)"

definition mu_Unlock :: "named_lock \<Rightarrow> named_lock go" where
  "mu_Unlock l = (if lk_mu l = None then Inl ProcessExit else Inr (l\<lparr>lk_mu := None\<rparr>))"

definition lk_Lock :: "nat \<Rightarrow> string \<Rightarrow> named_lock \<Rightarrow> named_lock option" where
  "lk_Lock t m l = map_option (\<lambda>l. l\<lparr>LockSeq := LockSeq l @ [m]\<rparr>) (mu_Lock t l)"

definition lk_Unlock :: "string \<Rightarrow> named_lock \<Rightarrow> named_lock go" where
  "lk_Unlock m l =
     go_bind (go_idx (LockSeq l) 0) (\<lambda>first.
     go_bind (if m = first
              then if length (LockSeq l) = 1 then Inr (l\<lparr>LockSeq := []\<rparr>)
                   else go_bind (go_from (LockSeq l) 1) (\<lambda>seq. Inr (l\<lparr>LockSeq := seq\<rparr>))
              else Inr l)
       mu_Unlock)"

definition sk_Unlock :: "string \<Rightarrow> named_lock \<Rightarrow> named_lock go" where
  "sk_Unlock m l = go_bind (go_from (LockSeq l) 1) (\<lambda>seq. mu_Unlock (l\<lparr>LockSeq := seq\<rparr>))"

section \<open>Threads that use a lock\<close>

text \<open>
  A thread takes the lock, with a name or without one, and gives it back the way it took it. \<open>lu_use\<close> records how
  each thread holds the lock: not at all, directly, or under a name. \<open>unlock\<close> is one of the two functions above; a step that panics has the result \<open>Some (Inl e)\<close>.
\<close>

datatype lock_use = NotHeld | HeldDirectly | HeldAs string

record lock_users =
  lu_lock :: named_lock
  lu_use :: "nat \<Rightarrow> lock_use"

datatype lock_event = Take nat "string option" | Give nat

fun lock_step ::
  "(string \<Rightarrow> named_lock \<Rightarrow> named_lock go) \<Rightarrow> lock_users \<Rightarrow> lock_event \<Rightarrow> lock_users go option" where
  "lock_step unlock u (Take t nm) =
     (if lu_use u t \<noteq> NotHeld then None
      else case nm of
        None \<Rightarrow> map_option (\<lambda>l. Inr (u\<lparr>lu_lock := l, lu_use := (lu_use u)(t := HeldDirectly)\<rparr>)) (mu_Lock t (lu_lock u))
      | Some m \<Rightarrow> map_option (\<lambda>l. Inr (u\<lparr>lu_lock := l, lu_use := (lu_use u)(t := HeldAs m)\<rparr>)) (lk_Lock t m (lu_lock u)))"
| "lock_step unlock u (Give t) =
     (case lu_use u t of
        NotHeld \<Rightarrow> None
      | HeldDirectly \<Rightarrow> Some (go_bind (mu_Unlock (lu_lock u)) (\<lambda>l. Inr (u\<lparr>lu_lock := l, lu_use := (lu_use u)(t := NotHeld)\<rparr>)))
      | HeldAs m \<Rightarrow> Some (go_bind (unlock m (lu_lock u)) (\<lambda>l. Inr (u\<lparr>lu_lock := l, lu_use := (lu_use u)(t := NotHeld)\<rparr>))))"

definition lock_init :: lock_users where
  "lock_init = \<lparr>lu_lock = \<lparr>lk_mu = None, LockSeq = []\<rparr>, lu_use = (\<lambda>_. NotHeld)\<rparr>"

definition lock_exec ::
  "(string \<Rightarrow> named_lock \<Rightarrow> named_lock go) \<Rightarrow> lock_users \<Rightarrow> lock_event \<Rightarrow> lock_users option" where
  "lock_exec unlock u e = (case lock_step unlock u e of Some (Inr u') \<Rightarrow> Some u' | _ \<Rightarrow> None)"

section \<open>Mutual exclusion\<close>

text \<open>
  What an unlocking function has to do: remove the name of the holder, when it is alone in
  the list, and release the mutex. Both do.
\<close>

locale named_unlock =
  fixes unlock :: "string \<Rightarrow> named_lock \<Rightarrow> named_lock go"
  assumes unlock_only: "lk_mu l = Some t \<Longrightarrow> LockSeq l = [m] \<Longrightarrow> unlock m l = Inr (l\<lparr>lk_mu := None, LockSeq := []\<rparr>)"
begin

definition lock_inv :: "lock_users \<Rightarrow> bool" where
  "lock_inv u \<longleftrightarrow> (case lk_mu (lu_lock u) of
       None \<Rightarrow> LockSeq (lu_lock u) = [] \<and> (\<forall>t. lu_use u t = NotHeld)
     | Some t \<Rightarrow> (\<forall>s. s \<noteq> t \<longrightarrow> lu_use u s = NotHeld) \<and>
         (case lu_use u t of NotHeld \<Rightarrow> False | HeldDirectly \<Rightarrow> LockSeq (lu_lock u) = []
          | HeldAs m \<Rightarrow> LockSeq (lu_lock u) = [m]))"

lemma held_owner: "lock_inv u \<Longrightarrow> lu_use u t \<noteq> NotHeld \<Longrightarrow> lk_mu (lu_lock u) = Some t"
  by (cases "lk_mu (lu_lock u)") (simp_all add: lock_inv_def, metis)

lemma lock_step_ok:
  assumes "lock_inv u" and "lock_step unlock u e = Some r"
  shows "\<exists>u'. r = Inr u' \<and> lock_inv u'"
proof (cases e)
  case (Take t nm)
  then have free: "lk_mu (lu_lock u) = None"
    using assms(2) by (auto simp: lk_Lock_def mu_Lock_def split: if_splits option.splits)
  then have "LockSeq (lu_lock u) = []" "\<forall>t. lu_use u t = NotHeld" using assms(1) by (auto simp: lock_inv_def)
  then show ?thesis
    using assms(2) Take free by (cases nm) (auto simp: lk_Lock_def mu_Lock_def lock_inv_def)
next
  case (Give t)
  then have held: "lu_use u t \<noteq> NotHeld" using assms(2) by auto
  note own = held_owner [OF assms(1) held]
  show ?thesis
  proof (cases "lu_use u t")
    case (HeldAs m)
    then have "LockSeq (lu_lock u) = [m]" using assms(1) own by (simp add: lock_inv_def)
    then show ?thesis
      using assms Give HeldAs own unlock_only [OF own, of m] by (auto simp: lock_inv_def)
  qed (use assms Give own held in \<open>auto simp: lock_inv_def mu_Unlock_def\<close>)
qed

lemma lock_inv_exec: "lock_inv u \<Longrightarrow> lock_exec unlock u e = Some u' \<Longrightarrow> lock_inv u'"
  by (auto simp: lock_exec_def split: option.splits sum.splits dest: lock_step_ok)

lemma lock_inv_init: "lock_inv lock_init"
  by (simp add: lock_inv_def lock_init_def)

lemma lock_inv_names:
  assumes "lock_inv u"
  shows "lu_use u s \<noteq> NotHeld \<Longrightarrow> lu_use u t \<noteq> NotHeld \<Longrightarrow> s = t"
    and "set (LockSeq (lu_lock u)) = {m. \<exists>t. lu_use u t = HeldAs m}" and "length (LockSeq (lu_lock u)) \<le> 1"
proof -
  show "lu_use u s \<noteq> NotHeld \<Longrightarrow> lu_use u t \<noteq> NotHeld \<Longrightarrow> s = t"
    using held_owner [OF assms, of s] held_owner [OF assms, of t] by simp
  show "length (LockSeq (lu_lock u)) \<le> 1"
    using assms by (auto simp: lock_inv_def split: option.splits lock_use.splits)
  show "set (LockSeq (lu_lock u)) = {m. \<exists>t. lu_use u t = HeldAs m}"
  proof (cases "lk_mu (lu_lock u)")
    case (Some t)
    then have "lu_use u s = NotHeld" if "s \<noteq> t" for s using assms that by (simp add: lock_inv_def)
    then have "{m. \<exists>s. lu_use u s = HeldAs m} = {m. lu_use u t = HeldAs m}" by (metis lock_use.distinct(3))
    then show ?thesis using assms Some by (auto simp: lock_inv_def split: lock_use.splits)
  qed (use assms in \<open>auto simp: lock_inv_def\<close>)
qed

end

sublocale named_unlock \<subseteq> runs: invariant_system "\<lambda>u. u = lock_init" "lock_exec unlock" lock_inv
  by unfold_locales (auto intro: lock_inv_init lock_inv_exec)

interpretation raft_lock: named_unlock lk_Unlock
  by unfold_locales (simp add: lk_Unlock_def go_idx_def mu_Unlock_def)

interpretation sk_lock: named_unlock sk_Unlock
  by unfold_locales (simp add: sk_Unlock_def go_from_def mu_Unlock_def)

text \<open>
  The named locks work: at most one thread is inside, whichever way threads take the lock;
  \<open>LockSeq\<close> is the name of the thread inside, or empty; and no \<open>Unlock\<close> panics. This rests on every
  section giving the lock back under the name it took it with, as all sections of the three packages do.
\<close>

theorem named_locks_exclusive:
  assumes "reachable (\<lambda>u. u = lock_init) (lock_exec lk_Unlock) u"
  shows "(lu_use u s \<noteq> NotHeld \<and> lu_use u t \<noteq> NotHeld \<longrightarrow> s = t) \<and>
    set (LockSeq (lu_lock u)) = {m. \<exists>t. lu_use u t = HeldAs m} \<and> length (LockSeq (lu_lock u)) \<le> 1 \<and>
    lock_step lk_Unlock u e \<noteq> Some (Inl p)"
  using raft_lock.lock_inv_names [OF raft_lock.runs.inv_reachable [OF assms]]
    raft_lock.lock_step_ok [OF raft_lock.runs.inv_reachable [OF assms]] by blast

text \<open>The shorter \<open>Unlock\<close> of \<open>shardkv\<close>, which does not look at the name, does the same.\<close>

theorem sk_locks_exclusive:
  assumes "reachable (\<lambda>u. u = lock_init) (lock_exec sk_Unlock) u"
  shows "(lu_use u s \<noteq> NotHeld \<and> lu_use u t \<noteq> NotHeld \<longrightarrow> s = t) \<and>
    set (LockSeq (lu_lock u)) = {m. \<exists>t. lu_use u t = HeldAs m} \<and> length (LockSeq (lu_lock u)) \<le> 1 \<and>
    lock_step sk_Unlock u e \<noteq> Some (Inl p)"
  using sk_lock.lock_inv_names [OF sk_lock.runs.inv_reachable [OF assms]]
    sk_lock.lock_step_ok [OF sk_lock.runs.inv_reachable [OF assms]] by blast

text \<open>
  A section that gave the lock back under another name would leave its own name in the list for ever, and after
  it nobody's name would be removed: the list grows with every later use.
\<close>

lemma wrong_name_stays:
  assumes "LockSeq l = a # seq" and "a \<noteq> m" and "lk_mu l = None"
  shows "\<exists>l'. lk_Lock t m l = Some l' \<and> lk_Unlock m l' = Inr (l\<lparr>LockSeq := a # seq @ [m]\<rparr>)"
  using assms by (simp add: lk_Lock_def mu_Lock_def lk_Unlock_def go_idx_def mu_Unlock_def)

end
