(* ===== verification/Spec2Isabelle.thy ===== *)
theory Spec2Isabelle
  imports Raft_Cluster Raft_Replication Raft_Snapshot Kv_Clerk ShardMaster_Balance ShardMaster_Service
    ShardKV_Clerk MapReduce_Apps Porcupine_Events Kv_Linearizable Raft_Completeness Labrpc
    Raft_Config Porcupine_Visual Labgob Service_Config Shard_Config Raft_Senders Locks
begin

text \<open>
  A verification of the distributed services of this repository (Go, under
  \<open>src/6.824/src\<close>): a MapReduce job scheduler, the Raft consensus protocol, a key/value service
  replicated with Raft, a shard master that assigns shards to replica groups, a sharded
  key/value service, and the linearizability checker the services are tested with.

  How the parts interact. A Raft peer (\<open>raft\<close>) exchanges RequestVote, AppendEntries and
  InstallSnapshot messages with its peers and hands committed commands to its service through
  the apply channel. The three services (\<open>kvraft\<close>, \<open>shardmaster\<close>, \<open>shardkv\<close>) put the request of a
  client into the Raft log, wait until it is applied, answer, and use the same table of client
  ids to skip repeated requests. Clerks retry until a server answers. The servers of
  \<open>shardkv\<close> follow the configurations of the shard master and move shards between groups. The
  MapReduce master hands map and reduce tasks to workers that exchange intermediate files. The tests
  record the calls of clerks and give them to \<open>porcupine\<close> with the model of \<open>models/kv.go\<close>; they run
  the services over the simulated network \<open>labrpc\<close>, which encodes messages with \<open>labgob\<close>, in
  clusters that the harnesses (the files \<open>config.go\<close>) set up, cut and restart.

  Conventions (theory \<open>Prelude\<close>). Go code that can panic, block for ever or exit the process returns
  \<open>go_error + 'a\<close>; slices are lists, indexed with checks; Go maps are partial functions, or
  lists of pairs where the order of iteration matters, in which case the order is an argument;
  \<open>int\<close> of Go is \<open>int\<close>, and hashes and bit sets, where the width matters, are words. A handler that holds the lock is
  one function; a function that releases it is split into its critical sections, which the
  theorems compose in any order. Randomness, time, the answers of the network and the size of
  gob-encoded data are arguments.

  Theories and what they show.

  \<^item> \<open>Raft_State\<close> (\<open>raft.go\<close>, \<open>common.go\<close>, \<open>persister.go\<close>, \<open>state.go\<close>): the state of a peer, its
    persistence, \<open>Make\<close>, \<open>Start\<close>, role changes. The well-formedness \<open>raft_wf\<close>; what is
    persisted is what a restarted peer reads.
  \<^item> \<open>Raft_Election\<close> (\<open>raft.go\<close>): \<open>RequestVote\<close>, \<open>SendRequest\<close> and \<open>Election\<close>; when a vote is
    granted, and that an election is won exactly with a majority.
  \<^item> \<open>Raft_Cluster\<close>: all peers over a network that loses, duplicates and reorders messages, with
    crashes and restarts, as an inductive step relation; a term has at most one leader, every
    peer stays well-formed and no handler panics.
  \<^item> \<open>Raft_Senders\<close>: an invariant of the leaders' \<open>nextIndex\<close> over the same runs; the goroutines that replicate
    the log and send snapshots never index out of it, whatever late or repeated reply they get.
  \<^item> \<open>Locks\<close> (\<open>common.go\<close> of \<open>raft\<close>, \<open>shardmaster\<close> and \<open>shardkv\<close>): the named locks; at most one thread is
    inside, and the list of names is the name of that thread.
  \<^item> \<open>Raft_LogMatching\<close>: log matching in the runs without snapshots, by a history of the leaders' logs. It
    also shows two things the code does that the protocol forbids: a commit of an
    entry of an old term, after which committed logs diverge (\<open>old_term_commit_diverges\<close>), and an installed
    snapshot that keeps a conflicting suffix (\<open>install_snapshot_keeps_conflicting_suffix\<close>).
  \<^item> \<open>Raft_Completeness\<close>: leader completeness in the runs without snapshots: an entry of the leader's own term
    that a majority has acknowledged is in the log of every later leader. The runs leave out one step of the code, a former leader
    that takes a larger term from an old answer: with it a vote is repeated in a new term without comparing logs, and an acknowledged
    entry is lost (\<open>stale_raise_loses_entry\<close>).
  \<^item> \<open>Raft_AppendEntries\<close>, \<open>Raft_Replication\<close> (\<open>append_entries.go\<close>): the handler on every
    branch, the roll back of \<open>nextIndex\<close>, \<open>LeaderCommit\<close>, and that the leader's loop to a reachable
    follower ends with equal logs.
  \<^item> \<open>Raft_Snapshot\<close> (\<open>snapshot.go\<close>, \<open>Apply\<close>): what snapshots discard and keep, \<open>InstallSnapshot\<close>,
    and that every committed entry is delivered once and in order; the apply loop, which can block on
    the channel it reads.
  \<^item> \<open>Dedup\<close>: the locale \<open>dedup_service\<close> of services with a table of client ids, and the proof that
    repeated requests take effect once; interpreted for all three services.
  \<^item> \<open>KvRaft\<close>, \<open>Kv_Clerk\<close> (\<open>kvraft\<close>, \<open>models/kv.go\<close>): handlers, apply loop, snapshots, the clerk; the
    server refines the sequential model, and retried requests are applied once.
  \<^item> \<open>ShardMaster\<close>, \<open>ShardMaster_Balance\<close>, \<open>ShardMaster_Service\<close> (\<open>shardmaster\<close>): configurations,
    rebalancing on Join and Leave, Query, the service and its clerk.
  \<^item> \<open>ShardKV\<close>, \<open>ShardKV_Clerk\<close> (\<open>shardkv\<close>): shards, configuration changes, migration, routing.
  \<^item> \<open>MapReduce_Worker\<close>, \<open>MapReduce_Master\<close> (\<open>mr\<close>, \<open>main/mrsequential.go\<close>, \<open>mrapps\<close>): tasks over a
    store of files, scheduling and its phases; a distributed job outputs the lines of the
    sequential program.
  \<^item> \<open>MapReduce_Apps\<close> (\<open>mr/worker.go\<close>, \<open>mrapps\<close>): worker processes beside the master, the crash test (a job whose
    workers exit at random outputs the lines of the sequential program, as long as the last writer of an output file
    finished) and the count of parallel workers.
  \<^item> \<open>Porcupine_Bitset\<close>, \<open>Porcupine_Checker\<close>, \<open>Porcupine_Links\<close>, \<open>Porcupine_Search\<close>,
    \<open>Porcupine_Check\<close>, \<open>Porcupine_Events\<close> (\<open>porcupine\<close>): the bit set as a finite set, the linked list
    on an explicit heap, and the search. The search always ends and decides linearizability; the
    entry points on operations and events are linearizability by times and by places.
  \<^item> \<open>Porcupine_Visual\<close> (\<open>checker.go\<close>, \<open>visualization.go\<close>, \<open>models/kv.go\<close>): the verbose checks, their partial
    linearizations and the data of the visualization.
  \<^item> \<open>Labrpc\<close> (\<open>labrpc.go\<close>): ends, servers, dispatch and a call with all random choices; a call
    runs its handler at most once, and a success is an answer of the connected server.
  \<^item> \<open>Labgob\<close> (\<open>labgob.go\<close>): the walk over types, which ends also for recursive ones, and the checks of
    \<open>Encode\<close> and \<open>Decode\<close>, with gob itself as a parameter.
  \<^item> \<open>Raft_Config\<close> (\<open>raft/config.go\<close>): the Raft harness; its leader check is right on the states a cluster can
    reach, agreement and restarts. \<open>Service_Config\<close> (\<open>kvraft/config.go\<close>, \<open>shardmaster/config.go\<close>): one
    polymorphic model of two harnesses; set-up, partitions around the leader, restarts from what was persisted.
    \<open>Shard_Config\<close> (\<open>shardkv/config.go\<close>): masters, groups and clerks on one network; the addresses
    a group joins with lead to its servers.
  \<^item> \<open>Kv_Linearizable\<close> and this theory: the runs of a key/value server as sequences of atomic actions;
    every recorded history is accepted by the checker.

  Loops and fuel. Loops that follow pointers or may run for ever are \<open>while_option\<close> (the checker),
  whose termination is proved for well-formed histories. Retry loops of clerks and senders
  run on the list of answers the network gives; a theorem that they end says which answers
  suffice. No definition has a bound that cuts off a behaviour of the code.

  Not modelled, and why. The command line programs and the sockets of MapReduce are argument parsing and
  I/O. \<open>Visualize\<close> writes the data of the visualization as JSON into a constant
  page; the page and printing are output. The bytes of gob are a parameter: the services are modelled with
  the values they decode. The arguments of an AppendEntries message are those at the time it is built;
  that the slice it carries shares its array with the leader's log is a finding. Leader
  completeness and log matching with snapshots, and the agreement of all applied commands, are not stated: the code commits and keeps
  entries that the rules of the protocol forbid, as \<open>Raft_LogMatching\<close> shows.
\<close>

section \<open>The key/value service and its test\<close>

definition example_get :: Op where
  "example_get = \<lparr>Method = ''Get'', Key = ''k'', Value = '''', ClientId = 6, MsgId = 1, RequestId = 10\<rparr>"

definition example_run :: "kv_event list" where
  "example_run =
     [Register (demo_append ''a'' 1 8), Deliver 0 (demo_append ''a'' 1 8), Register example_get,
      Deliver 0 (demo_append ''a'' 1 9), Deliver 0 example_get]"

definition example_outs :: "(int \<times> NotifyMsg) option list" where
  "example_outs =
     [None, Some (8, \<lparr>nm_Err = OK, nm_Value = ''a''\<rparr>), None, None, Some (10, \<lparr>nm_Err = OK, nm_Value = ''a''\<rparr>)]"

definition example_calls :: "kv_call list" where
  "example_calls =
     [(demo_append ''a'' 1 8, \<lparr>op_ClientId = 0, op_Input = Inl (kv_input (demo_append ''a'' 1 8)), op_Call = 1,
        op_Output = Inr '''', op_Return = 35\<rparr>),
      (example_get, \<lparr>op_ClientId = 1, op_Input = Inl (kv_input example_get), op_Call = 15,
        op_Output = Inr ''a'', op_Return = 47\<rparr>)]"



end
